(* ===== verification/Prelude.thy ===== *)
theory Prelude
  imports Main "HOL-Library.Word"
begin

unbundle bit_operations_syntax

text \<open>
  What the components share: the C integer types as words, the two ways an operation of the
  program can end (a value, or one of its \<^verbatim>\<open>exit\<close>/\<^verbatim>\<open>throw\<close>/\<^verbatim>\<open>assert\<close> branches), and the
  generic facts on words, bit fields and lists that the component proofs rest on.
\<close>

section \<open>Machine types\<close>

type_synonym u8 = "8 word"
type_synonym u16 = "16 word"
type_synonym u32 = "32 word"
type_synonym u64 = "64 word"

named_theorems field_simps_rocc \<open>definitions of the bit fields of commands and responses\<close>
named_theorems outcome_simps \<open>rules that run the sequencing of fallible operations\<close>

section \<open>Fallible operations\<close>

text \<open>Sequencing of operations that may end the program: the first failure is the result.\<close>

definition andThen :: "'e + 'a \<Rightarrow> ('a \<Rightarrow> 'e + 'b) \<Rightarrow> 'e + 'b" where
  "andThen m f = (case m of Inl e \<Rightarrow> Inl e | Inr a \<Rightarrow> f a)"

lemma andThen_simps [simp, outcome_simps]:
  "andThen (Inl e) f = Inl e"
  "andThen (Inr a) f = f a"
  by (simp_all add: andThen_def)

lemma andThen_Inr_iff [outcome_simps]:
  "andThen m f = Inr b \<longleftrightarrow> (\<exists>a. m = Inr a \<and> f a = Inr b)"
  by (cases m) simp_all

text \<open>A property of the result, if there is one.\<close>

definition on_Inr :: "('a \<Rightarrow> bool) \<Rightarrow> 'e + 'a \<Rightarrow> bool" where
  "on_Inr P m = (case m of Inl e \<Rightarrow> True | Inr a \<Rightarrow> P a)"

lemma on_Inr_simps [simp, outcome_simps]:
  "on_Inr P (Inl e)"
  "on_Inr P (Inr a) = P a"
  by (simp_all add: on_Inr_def)

lemma on_Inr_True [simp]: "on_Inr (\<lambda>_. True) m"
  by (cases m) simp_all

lemma on_InrD: "on_Inr P m \<Longrightarrow> m = Inr a \<Longrightarrow> P a"
  by simp

lemma on_Inr_mono: "on_Inr P m \<Longrightarrow> (\<And>a. P a \<Longrightarrow> Q a) \<Longrightarrow> on_Inr Q m"
  by (cases m) simp_all

lemma on_Inr_andThen: "on_Inr P m \<Longrightarrow> (\<And>a. P a \<Longrightarrow> on_Inr Q (f a)) \<Longrightarrow> on_Inr Q (andThen m f)"
  by (cases m) simp_all

section \<open>Bit fields\<close>

text \<open>The \<open>w\<close>-bit field of a word that starts at bit \<open>lo\<close>.\<close>

definition field :: "nat \<Rightarrow> nat \<Rightarrow> 'a::len word \<Rightarrow> 'a word" where
  "field lo w x = drop_bit lo x AND mask w"

lemma bit_field [bit_simps]:
  "bit (field lo w x) n \<longleftrightarrow> n < w \<and> bit x (lo + n)" for x :: "'a::len word"
  by (auto simp: field_def bit_simps dest: bit_imp_le_length)

lemma bit_bound: "unat x < 2 ^ k \<Longrightarrow> bit x n \<Longrightarrow> n < k" for x :: "'a::len word"
  by (metis bit_take_bit_iff take_bit_nat_eq_self unsigned_take_bit_eq word_unat_eq_iff)

lemma field_full:
  fixes x :: "'a::len word"
  assumes "unat x < 2 ^ w" and "\<And>n. n < w \<Longrightarrow> bit y (lo + n) = bit x n" and "w \<le> 32"
  shows "field lo w y = (ucast x :: u32)"
  using assms bit_bound [OF assms(1)] by (intro bit_word_eqI) (auto simp: bit_simps)

lemma ucast_u32_inj:
  "(ucast x :: u32) = ucast y \<longleftrightarrow> x = y" if "LENGTH('a) \<le> 32" for x y :: "'a::len word"
  using that by (auto simp: bit_eq_iff bit_simps dest: bit_imp_le_length)

lemma bit_ucast_u32: "bit (ucast x :: u32) n \<longleftrightarrow> n < 32 \<and> bit x n" for x :: "'a::len word"
  by (auto simp: bit_simps)

lemma split_join_u64:
  "push_bit 32 (ucast (ucast (drop_bit 32 x) :: u32)) OR ucast (ucast (x AND 0xFFFFFFFF) :: u32) = x"
  for x :: u64
proof -
  have "(0xFFFFFFFF::u64) = mask 32" by (simp add: mask_eq_exp_minus_1)
  then have "x AND 0xFFFFFFFF = x AND mask 32" by simp
  then show ?thesis
    by (intro bit_word_eqI) (auto simp only: bit_or_iff bit_push_bit_iff bit_simps; simp)
qed

lemma push_bit_masked_iff:
  "bit (push_bit k (x AND mask w)) n \<longleftrightarrow> k \<le> n \<and> n < k + w \<and> n < 32 \<and> bit x (n - k)" for x :: u32
  by (auto simp: bit_simps)

section \<open>Sequences of operations\<close>

text \<open>
  Running a list of operations that may fail, the condition that each is permitted where it
  stands, and the interface between a component and its specification: when every permitted
  operation of the program does on the implementation of a specification state what the
  specification does, so does every permitted sequence.
\<close>

fun run_all :: "('op \<Rightarrow> 'c \<Rightarrow> 'e + 'c) \<Rightarrow> 'op list \<Rightarrow> 'c \<Rightarrow> 'e + 'c" where
  "run_all step [] s = Inr s"
| "run_all step (x # xs) s = andThen (step x s) (run_all step xs)"

fun permitted :: "('op \<Rightarrow> 'a \<Rightarrow> bool) \<Rightarrow> ('op \<Rightarrow> 'a \<Rightarrow> 'a) \<Rightarrow> 'op list \<Rightarrow> 'a \<Rightarrow> bool" where
  "permitted may step [] a = True"
| "permitted may step (x # xs) a = (may x a \<and> permitted may step xs (step x a))"

locale implements =
  fixes may :: "'op \<Rightarrow> 'a \<Rightarrow> bool" and spec :: "'op \<Rightarrow> 'a \<Rightarrow> 'a" and ok :: "'a \<Rightarrow> bool"
    and step :: "'op \<Rightarrow> 'c \<Rightarrow> 'e + 'c" and impl :: "'a \<Rightarrow> 'c"
  assumes ok_step: "ok a \<Longrightarrow> may x a \<Longrightarrow> ok (spec x a)"
    and impl_step: "ok a \<Longrightarrow> may x a \<Longrightarrow> step x (impl a) = Inr (impl (spec x a))"
begin

lemma run:
  "ok a \<Longrightarrow> permitted may spec xs a \<Longrightarrow>
     ok (fold spec xs a) \<and> run_all step xs (impl a) = Inr (impl (fold spec xs a))"
  by (induction xs arbitrary: a) (simp_all add: ok_step impl_step)

end

end
