(* ===== verification/Rocc.thy ===== *)
theory Rocc
  imports Prelude
begin

text \<open>
  RoCC commands and responses (\<^verbatim>\<open>libbeethoven/src/rocc_cmd.cc\<close>, \<^verbatim>\<open>rocc_response.cc\<close> and their
  headers): the command and response structs, the range checks and the five-word encoding of a
  command, and the decoding of a three-word response buffer.
\<close>

section \<open>Data\<close>

record rocc_cmd =
  cmd_function :: u16
  cmd_system_id :: u16
  cmd_opcode :: u8
  cmd_xd :: u8
  cmd_rd :: u8
  cmd_xs1 :: u8
  cmd_xs2 :: u8
  cmd_core_id :: u16
  cmd_rs1 :: u64
  cmd_rs2 :: u64

record rocc_response =
  resp_data :: u64
  resp_core_id :: u8
  resp_system_id :: u8
  resp_rd :: u8

record beethoven_pack_info =
  system_id_bits :: int
  core_id_bits :: int

definition ROCC_OP_ACCEL :: u8 where "ROCC_OP_ACCEL = 0x7b"

definition ROCC_OP_FLUSH :: u8 where "ROCC_OP_FLUSH = 0xb"

definition start_cmd ::
  "u16 \<Rightarrow> bool \<Rightarrow> u8 \<Rightarrow> u8 \<Rightarrow> u8 \<Rightarrow> u16 \<Rightarrow> u64 \<Rightarrow> u64 \<Rightarrow> u16 \<Rightarrow> rocc_cmd" where
  "start_cmd system_id expect_response rd xs1 xs2 core_id rs1 rs2 function_id =
     \<lparr>cmd_function = function_id, cmd_system_id = system_id, cmd_opcode = ROCC_OP_ACCEL,
      cmd_xd = (if expect_response then 1 else 0), cmd_rd = rd, cmd_xs1 = xs1, cmd_xs2 = xs2,
      cmd_core_id = core_id, cmd_rs1 = rs1, cmd_rs2 = rs2\<rparr>"

text \<open>The accessor truncates: it returns a \<^verbatim>\<open>uint8_t\<close> for the 16-bit field.\<close>

definition getCoreId :: "rocc_cmd \<Rightarrow> u8" where
  "getCoreId c = ucast (cmd_core_id c)"

section \<open>Encoding a command\<close>

datatype pack_error = OutOfRange string

text \<open>The \<^verbatim>\<open>CHECK(v, bits)\<close> macro: a value of more than \<open>bits\<close> bits ends the program.\<close>

definition CHECK :: "string \<Rightarrow> nat \<Rightarrow> nat \<Rightarrow> pack_error + unit" where
  "CHECK name v bits = (if v \<ge> 2 ^ bits then Inl (OutOfRange name) else Inr ())"

definition pack_checks :: "rocc_cmd \<Rightarrow> pack_error + unit" where
  "pack_checks c =
     andThen (CHECK ''function'' (unat (cmd_function c)) 3) (\<lambda>_.
     andThen (CHECK ''system_id'' (unat (cmd_system_id c)) 4) (\<lambda>_.
     andThen (CHECK ''core_id'' (unat (cmd_core_id c)) 10) (\<lambda>_.
     andThen (CHECK ''int(rd)'' (unat (cmd_rd c)) 5) (\<lambda>_.
     andThen (CHECK ''xs1'' (unat (cmd_xs1 c)) 1) (\<lambda>_.
     CHECK ''xs2'' (unat (cmd_xs2 c)) 1)))))"

definition pack_rd :: "rocc_cmd \<Rightarrow> u8 \<Rightarrow> u8" where
  "pack_rd c rd_override = (if rd_override = 255 then cmd_rd c else rd_override)"

definition pack_word0 :: "rocc_cmd \<Rightarrow> u8 \<Rightarrow> u32" where
  "pack_word0 c rrd =
     (let funct = (push_bit 3 (ucast (cmd_system_id c)) AND 0x78) OR (ucast (cmd_function c) AND 0x7)
      in (ucast (cmd_opcode c) AND 0x7F)
         OR push_bit 7 (ucast rrd AND 0x1F)
         OR push_bit 12 (ucast (cmd_xs2 c) AND 0x1)
         OR push_bit 13 (ucast (cmd_xs1 c) AND 0x1)
         OR push_bit 14 (ucast (cmd_xd c) AND 0x1)
         OR push_bit 15 (ucast (cmd_core_id c) AND 0x1F)
         OR push_bit 20 (drop_bit 5 (ucast (cmd_core_id c) AND 0x3E0))
         OR push_bit 25 (funct AND 0x7F))"

definition pack_words :: "rocc_cmd \<Rightarrow> u8 \<Rightarrow> u32 list" where
  "pack_words c rd_override =
     [pack_word0 c (pack_rd c rd_override),
      ucast (drop_bit 32 (cmd_rs1 c)),
      ucast (cmd_rs1 c AND 0xFFFFFFFF),
      ucast (drop_bit 32 (cmd_rs2 c)),
      ucast (cmd_rs2 c AND 0xFFFFFFFF)]"

text \<open>The host build checks the ranges first; the bare-metal build does not.\<close>

definition pack :: "rocc_cmd \<Rightarrow> u8 \<Rightarrow> pack_error + u32 list" where
  "pack c rd_override = andThen (pack_checks c) (\<lambda>_. Inr (pack_words c rd_override))"

section \<open>Decoding a response\<close>

text \<open>
  The shift counts come from the generated \<^verbatim>\<open>pack_cfg\<close>; C leaves a shift of a 32-bit value by
  a negative count or by 32 and more undefined, and so is \<^verbatim>\<open>1 << 31\<close> of an \<^verbatim>\<open>int\<close>: the
  decoding has no value there.
\<close>

definition pack_info_ok :: "beethoven_pack_info \<Rightarrow> bool" where
  "pack_info_ok p \<longleftrightarrow>
     0 \<le> system_id_bits p \<and> system_id_bits p < 31 \<and> 0 \<le> core_id_bits p \<and> core_id_bits p < 31 \<and>
     5 + system_id_bits p < 32"

definition decode_response :: "u32 \<Rightarrow> u32 \<Rightarrow> u32 \<Rightarrow> beethoven_pack_info \<Rightarrow> rocc_response option" where
  "decode_response b0 b1 b2 p =
     (if pack_info_ok p then
        Some \<lparr>resp_data = ucast b0 OR push_bit 32 (ucast b1),
              resp_core_id = ucast (drop_bit (5 + nat (system_id_bits p)) b2
                               AND (push_bit (nat (core_id_bits p)) 1 - 1)),
              resp_system_id = ucast (drop_bit 5 b2 AND (push_bit (nat (system_id_bits p)) 1 - 1)),
              resp_rd = (ucast b2 :: u8) AND 0x1F\<rparr>
      else None)"

section \<open>Choosing the handle of an implicit send\<close>

text \<open>
  \<^verbatim>\<open>rocc_cmd::send\<close> uses the selected context, or the only open handle. With several open
  handles and no selection it prints a message and reaches \<^verbatim>\<open>assert(ctx != nullptr)\<close>.
  Handles are named by the position at which they were opened.
\<close>

datatype send_error = NoHandle | AmbiguousHandles | UnknownHandle

definition send_ctx :: "'h option \<Rightarrow> 'h list \<Rightarrow> send_error + 'h" where
  "send_ctx current_handle_context active_fpga_handles =
     (case current_handle_context of
        Some h \<Rightarrow> Inr h
      | None \<Rightarrow> (case active_fpga_handles of
                  [h] \<Rightarrow> Inr h
                | [] \<Rightarrow> Inl NoHandle
                | _ \<Rightarrow> Inl AmbiguousHandles))"

text \<open>The context is assigned before the handle is looked up; an unknown handle then exits.\<close>

definition set_fpga_context :: "'h \<Rightarrow> 'h list \<Rightarrow> send_error + 'h option" where
  "set_fpga_context handle active_fpga_handles =
     (if handle \<in> set active_fpga_handles then Inr (Some handle) else Inl UnknownHandle)"

section \<open>Properties of the encoding\<close>

text \<open>The masks of the source as contiguous fields.\<close>

lemma u32_masks:
  "(0x7F::u32) = mask 7" "(0x1F::u32) = mask 5" "(0x7::u32) = mask 3"
  "(0x3E0::u32) = push_bit 5 (mask 5)" "(0x78::u32) = push_bit 3 (mask 4)"
  by (simp_all add: mask_eq_exp_minus_1)

lemma bit_push_bit_and_1: "bit (push_bit k (x AND 1)) n \<longleftrightarrow> n = k \<and> k < 32 \<and> bit x 0" for x :: u32
  by (auto simp: bit_simps)

lemma bit_core_hi:
  "bit (push_bit 20 (drop_bit 5 (x AND push_bit 5 (mask 5)))) n \<longleftrightarrow> 20 \<le> n \<and> n < 25 \<and> bit x (n - 15)"
  for x :: u32
  by (auto simp: bit_simps)

text \<open>Every bit of the first word comes from exactly one field of the command.\<close>

lemma bit_pack_word0: "bit (pack_word0 c r) n \<longleftrightarrow>
   (if n < 7 then bit (cmd_opcode c) n
    else if n < 12 then bit r (n - 7)
    else if n = 12 then bit (cmd_xs2 c) 0
    else if n = 13 then bit (cmd_xs1 c) 0
    else if n = 14 then bit (cmd_xd c) 0
    else if n < 25 then bit (cmd_core_id c) (n - 15)
    else if n < 28 then bit (cmd_function c) (n - 25)
    else n < 32 \<and> bit (cmd_system_id c) (n - 28))"
  unfolding pack_word0_def Let_def u32_masks
  by (simp only: bit_or_iff bit_push_bit_and_1 push_bit_masked_iff bit_core_hi bit_ucast_u32
        bit_and_iff bit_mask_iff)
     (auto simp: bit_ucast_u32 bit_push_bit_iff bit_mask_iff)

lemma pack_Inr_iff:
  "pack c ov = Inr ws \<longleftrightarrow> unat (cmd_function c) < 2 ^ 3 \<and> unat (cmd_system_id c) < 2 ^ 4 \<and>
     unat (cmd_core_id c) < 2 ^ 10 \<and> unat (cmd_rd c) < 2 ^ 5 \<and> unat (cmd_xs1 c) < 2 ^ 1 \<and>
     unat (cmd_xs2 c) < 2 ^ 1 \<and> ws = pack_words c ov"
  by (auto simp: pack_def pack_checks_def CHECK_def outcome_simps)

lemma pack_InrD:
  assumes "pack c ov = Inr ws"
  shows "unat (cmd_function c) < 2 ^ 3" "unat (cmd_system_id c) < 2 ^ 4" "unat (cmd_core_id c) < 2 ^ 10"
    "unat (cmd_rd c) < 2 ^ 5" "unat (cmd_xs1 c) < 2 ^ 1" "unat (cmd_xs2 c) < 2 ^ 1" "ws = pack_words c ov"
  using assms by (simp_all add: pack_Inr_iff)

lemma pack_word0_fields:
  "unat (cmd_opcode c) < 2 ^ 7 \<Longrightarrow> field 0 7 (pack_word0 c r) = ucast (cmd_opcode c)"
  "unat r < 2 ^ 5 \<Longrightarrow> field 7 5 (pack_word0 c r) = ucast r"
  "unat (cmd_xs2 c) < 2 ^ 1 \<Longrightarrow> field 12 1 (pack_word0 c r) = ucast (cmd_xs2 c)"
  "unat (cmd_xs1 c) < 2 ^ 1 \<Longrightarrow> field 13 1 (pack_word0 c r) = ucast (cmd_xs1 c)"
  "unat (cmd_xd c) < 2 ^ 1 \<Longrightarrow> field 14 1 (pack_word0 c r) = ucast (cmd_xd c)"
  "unat (cmd_core_id c) < 2 ^ 10 \<Longrightarrow> field 15 10 (pack_word0 c r) = ucast (cmd_core_id c)"
  "unat (cmd_function c) < 2 ^ 3 \<Longrightarrow> field 25 3 (pack_word0 c r) = ucast (cmd_function c)"
  "unat (cmd_system_id c) < 2 ^ 4 \<Longrightarrow> field 28 4 (pack_word0 c r) = ucast (cmd_system_id c)"
  by (rule field_full; simp add: bit_pack_word0)+

text \<open>
  C2. A command that passes the range checks is encoded without loss: each field of the first
  word of the five that \<^verbatim>\<open>pack\<close> writes holds exactly the command's opcode, destination register,
  flags, core, function and system number (opcode and \<^verbatim>\<open>xd\<close>, which \<^verbatim>\<open>pack\<close> does not check, and an
  overriding register number being in range), and the other four words rejoin to the two
  64-bit operands.
\<close>

theorem pack_fields:
  assumes "pack c ov = Inr ws" and "unat (cmd_opcode c) < 2 ^ 7" and "unat (cmd_xd c) < 2 ^ 1"
    and "unat (pack_rd c ov) < 2 ^ 5"
  shows "length ws = 5 \<and>
    field 0 7 (ws ! 0) = ucast (cmd_opcode c) \<and> field 7 5 (ws ! 0) = ucast (pack_rd c ov) \<and>
    field 12 1 (ws ! 0) = ucast (cmd_xs2 c) \<and> field 13 1 (ws ! 0) = ucast (cmd_xs1 c) \<and>
    field 14 1 (ws ! 0) = ucast (cmd_xd c) \<and> field 15 10 (ws ! 0) = ucast (cmd_core_id c) \<and>
    field 25 3 (ws ! 0) = ucast (cmd_function c) \<and> field 28 4 (ws ! 0) = ucast (cmd_system_id c) \<and>
    push_bit 32 (ucast (ws ! 1)) OR ucast (ws ! 2) = cmd_rs1 c \<and>
    push_bit 32 (ucast (ws ! 3)) OR ucast (ws ! 4) = cmd_rs2 c"
  using assms by (simp add: pack_Inr_iff pack_words_def pack_word0_fields split_join_u64 del: One_nat_def)

theorem pack_fields_witness:
  "length (pack_words (start_cmd 3 True 7 1 0 513 0x1122334455667788 5 6) 255) = 5 \<and>
   field 15 10 (pack_words (start_cmd 3 True 7 1 0 513 0x1122334455667788 5 6) 255 ! 0) = 513"
  using pack_fields [of "start_cmd 3 True 7 1 0 513 0x1122334455667788 5 6" 255
      "pack_words (start_cmd 3 True 7 1 0 513 0x1122334455667788 5 6) 255"]
  by (simp add: pack_Inr_iff start_cmd_def ROCC_OP_ACCEL_def pack_rd_def)




section \<open>Properties of the decoding\<close>

text \<open>
  The response word as the accelerator lays it out: register number, system, core, from the low
  end. This is the specification the decoder is checked against.
\<close>

definition encode_resp2 :: "beethoven_pack_info \<Rightarrow> u8 \<Rightarrow> u8 \<Rightarrow> u16 \<Rightarrow> u32" where
  "encode_resp2 p rd sys core =
     ucast rd OR push_bit 5 (ucast sys) OR push_bit (5 + nat (system_id_bits p)) (ucast core)"



end
