(* ===== verification/RemotePtr.thy ===== *)
theory RemotePtr
  imports Prelude
begin

text \<open>
  The reference-counted pointers to device memory that the client library hands out
  (\<^verbatim>\<open>libbeethoven/src/allocator/alloc.cc\<close> and \<^verbatim>\<open>alloc.h\<close>). All copies of a pointer share a heap
  cell with a 16-bit counter and a mutex; the last one to go away unmaps the host segment. The
  heap is an explicit store, so that sharing, dangling cells and repeated locking are visible.
  Cell addresses are not reused after \<^verbatim>\<open>delete\<close>: any use of a deleted cell is the error
  \<open>Dangling\<close>. The answer of \<^verbatim>\<open>munmap\<close> is the argument \<open>os\<close> (true when the call fails).
  The second half states what the class promises, ownership of regions, and proves that
  programs over these pointers implement it.
\<close>

section \<open>Pointers and their heap\<close>

record remote_ptr =
  rp_fpga_addr :: u64
  rp_host_addr :: u64
  rp_len :: u64
  rp_offset :: u64
  rp_mutex :: "nat option"
  rp_count :: "nat option"

text \<open>The heap cells, and the successful calls of \<^verbatim>\<open>munmap\<close>, oldest first.\<close>

record ptr_heap =
  next_cell :: nat
  mutexes :: "nat \<Rightarrow> bool option"
  counts :: "nat \<Rightarrow> u16 option"
  unmapped :: "(u64 \<times> u64) list"

datatype ptr_error = Dangling | Relock | MunmapFailed

definition mutex_lock :: "nat \<Rightarrow> ptr_heap \<Rightarrow> ptr_error + ptr_heap" where
  "mutex_lock m h = (case mutexes h m of
      None \<Rightarrow> Inl Dangling
    | Some True \<Rightarrow> Inl Relock
    | Some False \<Rightarrow> Inr (h\<lparr>mutexes := (mutexes h)(m \<mapsto> True)\<rparr>))"

definition mutex_unlock :: "nat \<Rightarrow> ptr_heap \<Rightarrow> ptr_error + ptr_heap" where
  "mutex_unlock m h = (case mutexes h m of
      None \<Rightarrow> Inl Dangling
    | Some _ \<Rightarrow> Inr (h\<lparr>mutexes := (mutexes h)(m \<mapsto> False)\<rparr>))"

text \<open>\<^verbatim>\<open>*count\<close> read or changed through the pointer; a null pointer or a deleted cell is an error.\<close>

definition count_add :: "u16 \<Rightarrow> nat option \<Rightarrow> ptr_heap \<Rightarrow> ptr_error + (u16 \<times> ptr_heap)" where
  "count_add d c h = (case c of
      None \<Rightarrow> Inl Dangling
    | Some k \<Rightarrow> (case counts h k of
          None \<Rightarrow> Inl Dangling
        | Some n \<Rightarrow> Inr (n + d, h\<lparr>counts := (counts h)(k \<mapsto> n + d)\<rparr>)))"

definition munmap :: "(u64 \<Rightarrow> u64 \<Rightarrow> bool) \<Rightarrow> u64 \<Rightarrow> u64 \<Rightarrow> ptr_heap \<Rightarrow> ptr_error + ptr_heap" where
  "munmap os a n h = (if os a n then Inl MunmapFailed else Inr (h\<lparr>unmapped := unmapped h @ [(a, n)]\<rparr>))"

text \<open>The block \<^verbatim>\<open>if (mutex) { lock_guard; (*count)++; }\<close> of the constructors and assignments.\<close>

definition acquire :: "remote_ptr \<Rightarrow> ptr_heap \<Rightarrow> ptr_error + ptr_heap" where
  "acquire p h = (case rp_mutex p of
      None \<Rightarrow> Inr h
    | Some m \<Rightarrow>
        andThen (mutex_lock m h) (\<lambda>h1.
        andThen (count_add 1 (rp_count p) h1) (\<lambda>(_, h2).
        mutex_unlock m h2)))"

text \<open>\<^verbatim>\<open>delete count; delete mutex;\<close>\<close>

definition delete_cells :: "remote_ptr \<Rightarrow> ptr_heap \<Rightarrow> ptr_heap" where
  "delete_cells p h = h\<lparr>
      counts := (case rp_count p of None \<Rightarrow> counts h | Some c \<Rightarrow> (counts h)(c := None)),
      mutexes := (case rp_mutex p of None \<Rightarrow> mutexes h | Some m \<Rightarrow> (mutexes h)(m := None))\<rparr>"

text \<open>
  Giving up one reference. The assignment operator unmaps only when the host address is not
  null (\<open>guarded\<close>), the destructor always.
\<close>

definition release :: "bool \<Rightarrow> (u64 \<Rightarrow> u64 \<Rightarrow> bool) \<Rightarrow> remote_ptr \<Rightarrow> ptr_heap \<Rightarrow> ptr_error + ptr_heap" where
  "release guarded os p h = (case rp_mutex p of
      None \<Rightarrow> Inr h
    | Some m \<Rightarrow>
        andThen (mutex_lock m h) (\<lambda>h1.
        andThen (count_add (- 1) (rp_count p) h1) (\<lambda>(n, h2).
        if n = 0 then
          let h3 = delete_cells p h2 in
          if guarded \<and> rp_host_addr p = 0 then Inr h3
          else munmap os (rp_host_addr p - rp_offset p) (rp_len p + rp_offset p) h3
        else mutex_unlock m h2)))"

section \<open>The operations of the class\<close>

definition ptr_null :: remote_ptr where
  "ptr_null = \<lparr>rp_fpga_addr = 0, rp_host_addr = 0, rp_len = 0, rp_offset = 0, rp_mutex = None, rp_count = None\<rparr>"

definition ptr_of_addr :: "u64 \<Rightarrow> remote_ptr" where
  "ptr_of_addr a = \<lparr>rp_fpga_addr = a, rp_host_addr = 0, rp_len = 0, rp_offset = 0, rp_mutex = None, rp_count = None\<rparr>"

definition ptr_raw :: "u64 \<Rightarrow> u64 \<Rightarrow> u64 \<Rightarrow> u64 \<Rightarrow> remote_ptr" where
  "ptr_raw f ha l off = \<lparr>rp_fpga_addr = f, rp_host_addr = ha, rp_len = l, rp_offset = off, rp_mutex = None, rp_count = None\<rparr>"

definition ptr_new :: "u64 \<Rightarrow> u64 \<Rightarrow> u64 \<Rightarrow> ptr_heap \<Rightarrow> remote_ptr \<times> ptr_heap" where
  "ptr_new f ha l h = (let k = next_cell h in
      (\<lparr>rp_fpga_addr = f, rp_host_addr = ha, rp_len = l, rp_offset = 0, rp_mutex = Some k, rp_count = Some k\<rparr>,
       h\<lparr>next_cell := k + 1, mutexes := (mutexes h)(k \<mapsto> False), counts := (counts h)(k \<mapsto> 1)\<rparr>))"

definition ptr_shared ::
    "u64 \<Rightarrow> u64 \<Rightarrow> u64 \<Rightarrow> nat option \<Rightarrow> nat option \<Rightarrow> u64 \<Rightarrow> ptr_heap \<Rightarrow> ptr_error + (remote_ptr \<times> ptr_heap)" where
  "ptr_shared f ha l c m off h =
     (let p = \<lparr>rp_fpga_addr = f, rp_host_addr = ha, rp_len = l, rp_offset = off, rp_mutex = m, rp_count = c\<rparr>
      in andThen (acquire p h) (\<lambda>h1. Inr (p, h1)))"

definition ptr_copy :: "remote_ptr \<Rightarrow> ptr_heap \<Rightarrow> ptr_error + (remote_ptr \<times> ptr_heap)" where
  "ptr_copy other h =
     (let p = \<lparr>rp_fpga_addr = rp_fpga_addr other, rp_host_addr = rp_host_addr other, rp_len = rp_len other,
               rp_offset = rp_offset other, rp_mutex = rp_mutex other, rp_count = rp_count other\<rparr>
      in andThen (acquire p h) (\<lambda>h1. Inr (p, h1)))"

text \<open>The move constructor: the new pointer, and what is left in the source.\<close>

definition ptr_move :: "remote_ptr \<Rightarrow> remote_ptr \<times> remote_ptr" where
  "ptr_move other =
     (\<lparr>rp_fpga_addr = rp_fpga_addr other, rp_host_addr = rp_host_addr other, rp_len = rp_len other,
       rp_offset = rp_offset other, rp_mutex = rp_mutex other, rp_count = rp_count other\<rparr>,
      other\<lparr>rp_mutex := None, rp_count := None, rp_host_addr := 0, rp_fpga_addr := 0, rp_len := 0, rp_offset := 0\<rparr>)"

text \<open>Copy assignment; \<open>self\<close> says that both sides are the same object.\<close>

definition ptr_assign ::
    "(u64 \<Rightarrow> u64 \<Rightarrow> bool) \<Rightarrow> bool \<Rightarrow> remote_ptr \<Rightarrow> remote_ptr \<Rightarrow> ptr_heap \<Rightarrow> ptr_error + (remote_ptr \<times> ptr_heap)" where
  "ptr_assign os self this other h =
     (if rp_mutex this = None \<and> \<not> self then
        let p = this\<lparr>rp_fpga_addr := rp_fpga_addr other, rp_host_addr := rp_host_addr other, rp_len := rp_len other,
                     rp_count := rp_count other, rp_mutex := rp_mutex other, rp_offset := rp_offset other\<rparr>
        in andThen (acquire p h) (\<lambda>h1. Inr (p, h1))
      else if \<not> self then
        andThen (release True os this h) (\<lambda>h1.
        let p = this\<lparr>rp_fpga_addr := rp_fpga_addr other, rp_host_addr := rp_host_addr other, rp_len := rp_len other,
                     rp_count := rp_count other, rp_mutex := rp_mutex other, rp_offset := rp_offset other\<rparr>
        in andThen (acquire p h1) (\<lambda>h2. Inr (p, h2)))
      else Inr (this, h))"

text \<open>
  Move assignment: the new values of the target and of the source. There is no test for
  self-assignment and nothing is released; when both sides are the same object the last writes,
  which clear the source, are the ones that stay.
\<close>

definition ptr_move_assign :: "remote_ptr \<Rightarrow> remote_ptr \<Rightarrow> remote_ptr \<times> remote_ptr" where
  "ptr_move_assign this other =
     (this\<lparr>rp_mutex := rp_mutex other, rp_count := rp_count other, rp_host_addr := rp_host_addr other,
           rp_fpga_addr := rp_fpga_addr other, rp_len := rp_len other, rp_offset := rp_offset other\<rparr>,
      other\<lparr>rp_mutex := None, rp_count := None\<rparr>)"

text \<open>Displacement by a C \<^verbatim>\<open>int\<close>, sign-extended to 64 bits.\<close>

definition ptr_plus :: "remote_ptr \<Rightarrow> 32 word \<Rightarrow> ptr_heap \<Rightarrow> ptr_error + (remote_ptr \<times> ptr_heap)" where
  "ptr_plus p q h = ptr_shared (rp_fpga_addr p + scast q) (rp_host_addr p + scast q) (rp_len p - scast q)
                      (rp_count p) (rp_mutex p) (rp_offset p + scast q) h"

definition ptr_minus :: "remote_ptr \<Rightarrow> 32 word \<Rightarrow> ptr_heap \<Rightarrow> ptr_error + (remote_ptr \<times> ptr_heap)" where
  "ptr_minus p q h = ptr_shared (rp_fpga_addr p - scast q) (rp_host_addr p - scast q) (rp_len p + scast q)
                      (rp_count p) (rp_mutex p) (rp_offset p - scast q) h"

definition ptr_destroy :: "(u64 \<Rightarrow> u64 \<Rightarrow> bool) \<Rightarrow> remote_ptr \<Rightarrow> ptr_heap \<Rightarrow> ptr_error + ptr_heap" where
  "ptr_destroy os p h = release False os p h"

definition ptr_eq :: "remote_ptr \<Rightarrow> remote_ptr \<Rightarrow> bool" where
  "ptr_eq p q = (rp_fpga_addr p = rp_fpga_addr q)"

section \<open>Programs over pointers\<close>

text \<open>
  A client program is a sequence of operations on named pointer objects: the constructors, the
  two assignments, the two displacements (each initialises a new object) and the end of an
  object's life.
\<close>

datatype ptr_op =
    OpNew nat u64 u64 u64
  | OpNull nat
  | OpAddr nat u64
  | OpRaw nat u64 u64 u64 u64
  | OpCopy nat nat
  | OpMove nat nat
  | OpAssign nat nat
  | OpMoveAssign nat nat
  | OpPlus nat nat "32 word"
  | OpMinus nat nat "32 word"
  | OpDestroy nat

record ptr_state =
  objects :: "nat \<Rightarrow> remote_ptr option"
  ptr_store :: ptr_heap

definition put_new :: "nat \<Rightarrow> ptr_state \<Rightarrow> ptr_error + (remote_ptr \<times> ptr_heap) \<Rightarrow> ptr_error + ptr_state" where
  "put_new v s r = andThen r (\<lambda>(p, h). Inr \<lparr>objects = (objects s)(v \<mapsto> p), ptr_store = h\<rparr>)"

definition obj :: "ptr_state \<Rightarrow> nat \<Rightarrow> remote_ptr" where
  "obj s v = (case objects s v of Some p \<Rightarrow> p | None \<Rightarrow> ptr_null)"

fun ptr_step :: "(u64 \<Rightarrow> u64 \<Rightarrow> bool) \<Rightarrow> ptr_op \<Rightarrow> ptr_state \<Rightarrow> ptr_error + ptr_state" where
  "ptr_step os (OpNew v f ha l) s = put_new v s (Inr (ptr_new f ha l (ptr_store s)))"
| "ptr_step os (OpNull v) s = put_new v s (Inr (ptr_null, ptr_store s))"
| "ptr_step os (OpAddr v a) s = put_new v s (Inr (ptr_of_addr a, ptr_store s))"
| "ptr_step os (OpRaw v f ha l off) s = put_new v s (Inr (ptr_raw f ha l off, ptr_store s))"
| "ptr_step os (OpCopy v w) s = put_new v s (ptr_copy (obj s w) (ptr_store s))"
| "ptr_step os (OpMove v w) s = (let (p, q) = ptr_move (obj s w)
      in Inr (s\<lparr>objects := (objects s)(w \<mapsto> q, v \<mapsto> p)\<rparr>))"
| "ptr_step os (OpAssign v w) s = put_new v s (ptr_assign os (v = w) (obj s v) (obj s w) (ptr_store s))"
| "ptr_step os (OpMoveAssign v w) s = (let (p, q) = ptr_move_assign (obj s v) (obj s w)
      in Inr (s\<lparr>objects := (objects s)(v \<mapsto> p, w \<mapsto> q)\<rparr>))"
| "ptr_step os (OpPlus v w q) s = put_new v s (ptr_plus (obj s w) q (ptr_store s))"
| "ptr_step os (OpMinus v w q) s = put_new v s (ptr_minus (obj s w) q (ptr_store s))"
| "ptr_step os (OpDestroy v) s = andThen (ptr_destroy os (obj s v) (ptr_store s)) (\<lambda>h.
      Inr \<lparr>objects = (objects s)(v := None), ptr_store = h\<rparr>)"

definition ptr_start :: ptr_state where
  "ptr_start = \<lparr>objects = (\<lambda>_. None),
     ptr_store = \<lparr>next_cell = 0, mutexes = (\<lambda>_. None), counts = (\<lambda>_. None), unmapped = []\<rparr>\<rparr>"

section \<open>What the class promises\<close>

text \<open>
  Seen from outside, an object is a displacement into a region it co-owns, or a bare record of
  addresses. A region is given back when its last owner lets go of it. This specification has no
  counters and no cells.
\<close>

datatype holding = Own nat u64 | Bare u64 u64 u64 u64

type_synonym region = "u64 \<times> u64 \<times> u64"

record ownership =
  held :: "(nat \<times> holding) list"
  made :: "region list"
  gone :: "nat list"

fun region_range :: "region \<Rightarrow> u64 \<times> u64" where
  "region_range (f, ha, l) = (ha, l)"

fun owns :: "nat \<Rightarrow> holding \<Rightarrow> bool" where
  "owns r (Own r' off) = (r' = r)"
| "owns r (Bare f ha l off) = False"

definition owned :: "nat \<Rightarrow> ownership \<Rightarrow> nat" where
  "owned r a = length (filter (\<lambda>(v, x). owns r x) (held a))"

definition drop_obj :: "nat \<Rightarrow> ownership \<Rightarrow> ownership" where
  "drop_obj v a = a\<lparr>held := filter (\<lambda>(w, x). w \<noteq> v) (held a)\<rparr>"

definition holds :: "nat \<Rightarrow> holding \<Rightarrow> ownership \<Rightarrow> ownership" where
  "holds v x a = (drop_obj v a)\<lparr>held := (v, x) # held (drop_obj v a)\<rparr>"

text \<open>The object \<open>v\<close> lets go of what it holds; a region that loses its last owner is gone.\<close>

definition let_go :: "nat \<Rightarrow> ownership \<Rightarrow> ownership" where
  "let_go v a = (let a' = drop_obj v a in case map_of (held a) v of
      Some (Own r off) \<Rightarrow> (if owned r a' = 0 then a'\<lparr>gone := gone a' @ [r]\<rparr> else a')
    | _ \<Rightarrow> a')"

definition shift :: "u64 \<Rightarrow> holding \<Rightarrow> holding" where
  "shift q x = (case x of Own r off \<Rightarrow> Own r (off + q) | Bare f ha l off \<Rightarrow> Bare (f + q) (ha + q) (l - q) (off + q))"

text \<open>The pointer record that stands for a holding.\<close>

definition view :: "region list \<Rightarrow> holding \<Rightarrow> remote_ptr" where
  "view rs x = (case x of
      Own r off \<Rightarrow> (case rs ! r of (f, ha, l) \<Rightarrow>
        \<lparr>rp_fpga_addr = f + off, rp_host_addr = ha + off, rp_len = l - off, rp_offset = off,
         rp_mutex = Some r, rp_count = Some r\<rparr>)
    | Bare f ha l off \<Rightarrow>
        \<lparr>rp_fpga_addr = f, rp_host_addr = ha, rp_len = l, rp_offset = off, rp_mutex = None, rp_count = None\<rparr>)"

definition strip :: "remote_ptr \<Rightarrow> holding" where
  "strip p = Bare (rp_fpga_addr p) (rp_host_addr p) (rp_len p) (rp_offset p)"

definition holding_of :: "ownership \<Rightarrow> nat \<Rightarrow> holding" where
  "holding_of a v = (case map_of (held a) v of Some x \<Rightarrow> x | None \<Rightarrow> Bare 0 0 0 0)"

fun own_step :: "ptr_op \<Rightarrow> ownership \<Rightarrow> ownership" where
  "own_step (OpNew v f ha l) a = holds v (Own (length (made a)) 0) (a\<lparr>made := made a @ [(f, ha, l)]\<rparr>)"
| "own_step (OpNull v) a = holds v (Bare 0 0 0 0) a"
| "own_step (OpAddr v x) a = holds v (Bare x 0 0 0) a"
| "own_step (OpRaw v f ha l off) a = holds v (Bare f ha l off) a"
| "own_step (OpCopy v w) a = holds v (holding_of a w) a"
| "own_step (OpMove v w) a = holds v (holding_of a w) (holds w (Bare 0 0 0 0) a)"
| "own_step (OpAssign v w) a = (if v = w then a else holds v (holding_of a w) (let_go v a))"
| "own_step (OpMoveAssign v w) a =
     holds v (holding_of a w) (holds w (strip (view (made a) (holding_of a w))) (let_go v a))"
| "own_step (OpPlus v w q) a = holds v (shift (scast q) (holding_of a w)) a"
| "own_step (OpMinus v w q) a = holds v (shift (- scast q) (holding_of a w)) a"
| "own_step (OpDestroy v) a = let_go v a"

definition own_start :: ownership where
  "own_start = \<lparr>held = [], made = [], gone = []\<rparr>"

text \<open>
  What a correct client respects: objects are initialised once and used in their life time, at
  most 65535 of them at a time (the counters have 16 bits), the target of a copy assignment that
  owns a region has a host address, and move assignment is used on targets that own nothing
  (it forgets what they own). \<open>os\<close> does not refuse to unmap a region that was mapped.
\<close>

definition in_scope :: "ownership \<Rightarrow> nat \<Rightarrow> bool" where
  "in_scope a v = (map_of (held a) v \<noteq> None)"

definition may_create :: "ownership \<Rightarrow> nat \<Rightarrow> bool" where
  "may_create a v = (\<not> in_scope a v \<and> length (held a) < 65535)"

fun legal :: "(u64 \<Rightarrow> u64 \<Rightarrow> bool) \<Rightarrow> ptr_op \<Rightarrow> ownership \<Rightarrow> bool" where
  "legal os (OpNew v f ha l) a = (may_create a v \<and> \<not> os ha l)"
| "legal os (OpNull v) a = may_create a v"
| "legal os (OpAddr v x) a = may_create a v"
| "legal os (OpRaw v f ha l off) a = may_create a v"
| "legal os (OpCopy v w) a = (may_create a v \<and> in_scope a w)"
| "legal os (OpMove v w) a = (may_create a v \<and> in_scope a w)"
| "legal os (OpAssign v w) a = (in_scope a v \<and> in_scope a w \<and>
     (case holding_of a v of Own r off \<Rightarrow> rp_host_addr (view (made a) (holding_of a v)) \<noteq> 0 | _ \<Rightarrow> True))"
| "legal os (OpMoveAssign v w) a = (in_scope a v \<and> in_scope a w \<and> v \<noteq> w \<and>
     (case holding_of a v of Own r off \<Rightarrow> False | _ \<Rightarrow> True))"
| "legal os (OpPlus v w q) a = (may_create a v \<and> in_scope a w)"
| "legal os (OpMinus v w q) a = (may_create a v \<and> in_scope a w)"
| "legal os (OpDestroy v) a = in_scope a v"

text \<open>The invariant of the specification, and the program state that implements one of its states.\<close>

definition own_ok :: "(u64 \<Rightarrow> u64 \<Rightarrow> bool) \<Rightarrow> ownership \<Rightarrow> bool" where
  "own_ok os a = (distinct (map fst (held a)) \<and> length (held a) \<le> 65535 \<and>
     (\<forall>e \<in> set (held a). \<forall>r off. snd e = Own r off \<longrightarrow> r < length (made a)) \<and>
     distinct (gone a) \<and> (\<forall>r. r \<in> set (gone a) \<longleftrightarrow> r < length (made a) \<and> owned r a = 0) \<and>
     (\<forall>(f, ha, l) \<in> set (made a). \<not> os ha l))"

definition implement :: "ownership \<Rightarrow> ptr_state" where
  "implement a = \<lparr>objects = (\<lambda>v. map_option (view (made a)) (map_of (held a) v)),
     ptr_store = \<lparr>next_cell = length (made a),
       mutexes = (\<lambda>r. if owned r a = 0 then None else Some False),
       counts = (\<lambda>r. if owned r a = 0 then None else Some (of_nat (owned r a))),
       unmapped = map (\<lambda>r. region_range (made a ! r)) (gone a)\<rparr>\<rparr>"

section \<open>Programs implement the specification\<close>

named_theorems own_simps \<open>how the specification's bookkeeping changes\<close>

lemma map_of_without: "map_of (filter (\<lambda>(w, x). w \<noteq> v) xs) = (map_of xs)(v := None)"
  by (induction xs) (auto simp: fun_eq_iff)

lemma held_drop [own_simps]: "map_of (held (drop_obj v a)) = (map_of (held a))(v := None)"
  by (simp add: drop_obj_def map_of_without)

lemma held_holds [own_simps]: "map_of (held (holds v x a)) = (map_of (held a))(v \<mapsto> x)"
  by (simp add: holds_def held_drop)

lemma held_let_go [own_simps]: "map_of (held (let_go v a)) = (map_of (held a))(v := None)"
  by (simp add: let_go_def Let_def held_drop split: option.split holding.split)

lemma made_simps [own_simps]:
  "made (drop_obj v a) = made a" "made (holds v x a) = made a" "made (let_go v a) = made a"
  by (simp_all add: drop_obj_def holds_def let_go_def Let_def split: option.split holding.split)

lemma gone_simps [own_simps]:
  "gone (drop_obj v a) = gone a" "gone (holds v x a) = gone a"
  by (simp_all add: drop_obj_def holds_def)

lemma owned_cong: "held a = held b \<Longrightarrow> owned r a = owned r b"
  by (simp add: owned_def)

lemma owned_split_list:
  "distinct (map fst xs) \<Longrightarrow> length (filter (\<lambda>(v, x). owns r x) xs) =
     length (filter (\<lambda>(v, x). owns r x) (filter (\<lambda>(w, x). w \<noteq> v) xs)) +
     (case map_of xs v of Some x \<Rightarrow> (if owns r x then 1 else 0) | None \<Rightarrow> 0)"
proof (induction xs)
  case (Cons e xs)
  then show ?case
  proof (cases "fst e = v")
    case True
    with Cons.prems have "filter (\<lambda>(w, x). w \<noteq> v) xs = xs"
      by (intro filter_True) (auto simp: image_iff)
    with True show ?thesis by (cases e) simp
  qed (cases e, auto)
qed simp

lemma owned_split:
  "distinct (map fst (held a)) \<Longrightarrow> owned r a = owned r (drop_obj v a) +
     (case map_of (held a) v of Some x \<Rightarrow> (if owns r x then 1 else 0) | None \<Rightarrow> 0)"
  by (simp add: owned_def drop_obj_def owned_split_list [of _ r v])

lemma owned_holds [own_simps]:
  "owned r (holds v x a) = owned r (drop_obj v a) + (if owns r x then 1 else 0)"
  by (simp add: holds_def owned_def)

lemma owned_let_go [own_simps]: "owned r (let_go v a) = owned r (drop_obj v a)"
  by (simp add: let_go_def Let_def owned_def split: option.split holding.split)

lemma drop_fresh: "map_of (held a) v = None \<Longrightarrow> drop_obj v a = a"
  by (simp add: drop_obj_def map_of_eq_None_iff) (subst filter_True, force+)

lemma owned_le: "owned r a \<le> length (held a)"
  by (simp add: owned_def)

lemma owned_pos: "map_of (held a) v = Some (Own r off) \<Longrightarrow> 0 < owned r a"
  by (auto simp: owned_def filter_empty_conv dest!: map_of_SomeD intro!: bexI [where x = "(v, Own r off)"])

lemma distinct_drop: "distinct (map fst (held a)) \<Longrightarrow> distinct (map fst (held (drop_obj v a)))"
  by (simp add: drop_obj_def distinct_map_filter)

lemma owned_bare [simp]: "\<not> owns r (Bare f h l off)"
  by simp

subsection \<open>The specification keeps its invariant\<close>

lemma own_okD:
  assumes "own_ok os a"
  shows "distinct (map fst (held a))" "length (held a) \<le> 65535"
    "(v, Own r off) \<in> set (held a) \<Longrightarrow> r < length (made a)"
    "distinct (gone a)" "r \<in> set (gone a) \<longleftrightarrow> r < length (made a) \<and> owned r a = 0"
    "(f, ha, l) \<in> set (made a) \<Longrightarrow> \<not> os ha l"
  using assms by (auto simp: own_ok_def)

lemma own_ok_region: "own_ok os a \<Longrightarrow> map_of (held a) v = Some (Own r off) \<Longrightarrow> r < length (made a)"
  by (meson map_of_SomeD own_okD(3))

lemma ok_holds:
  assumes ok: "own_ok os a" and new: "map_of (held a) v = None" "length (held a) < 65535"
    and x: "\<And>r off. x = Own r off \<Longrightarrow> 0 < owned r a \<and> r < length (made a)"
  shows "own_ok os (holds v x a)"
proof -
  have held: "held (holds v x a) = (v, x) # held a"
    using drop_fresh [OF new(1)] by (simp add: holds_def)
  have owned: "owned r (holds v x a) = 0 \<longleftrightarrow> owned r a = 0" for r
    using x drop_fresh [OF new(1)] by (cases x) (auto simp: owned_holds)
  show ?thesis
    using ok new x unfolding own_ok_def owned
    by (simp add: held made_simps gone_simps map_of_eq_None_iff) blast
qed

lemma ok_let_go:
  assumes ok: "own_ok os a"
  shows "own_ok os (let_go v a)"
proof -
  note split = owned_split [OF own_okD(1) [OF ok], of _ v]
  have sub: "set (held (let_go v a)) \<subseteq> set (held a)" "distinct (map fst (held (let_go v a)))"
      "length (held (let_go v a)) \<le> length (held a)"
    using distinct_drop [OF own_okD(1) [OF ok], of v]
    by (auto simp: let_go_def Let_def drop_obj_def split: option.split holding.split)
  have gone: "distinct (gone (let_go v a)) \<and>
      (\<forall>r. r \<in> set (gone (let_go v a)) \<longleftrightarrow> r < length (made a) \<and> owned r (let_go v a) = 0)"
  proof (cases "map_of (held a) v")
    case None
    then show ?thesis using ok drop_fresh [OF None] by (simp add: let_go_def own_ok_def)
  next
    case (Some x)
    show ?thesis
    proof (cases x)
      case (Own r off)
      have "owned r a \<noteq> 0" "r < length (made a)"
        using Some Own owned_pos own_ok_region [OF ok] by auto
      then have "r \<notin> set (gone a)" using own_okD(5) [OF ok] by auto
      moreover have "owned r' a = owned r' (drop_obj v a) + (if r' = r then 1 else 0)" for r'
        using split [of r'] Some Own by simp
      ultimately show ?thesis
        using Some Own own_okD(4,5) [OF ok] \<open>r < length (made a)\<close>
        by (auto simp: let_go_def Let_def owned_def drop_obj_def)
    next
      case (Bare f h l off)
      then show ?thesis using ok Some split by (simp add: let_go_def own_ok_def gone_simps)
    qed
  qed
  show ?thesis
    using ok sub gone unfolding own_ok_def made_simps by (meson order_trans subsetD)
qed

subsection \<open>Counters and cells\<close>

lemma acquire_bare [simp]: "rp_mutex p = None \<Longrightarrow> acquire p h = Inr h"
  by (simp add: acquire_def)

lemma release_bare [simp]: "rp_mutex p = None \<Longrightarrow> release g os p h = Inr h"
  by (simp add: release_def)

lemma acquire_own:
  assumes "rp_mutex p = Some r" "rp_count p = Some r" "mutexes h r = Some False" "counts h r = Some n"
  shows "acquire p h = Inr (h\<lparr>counts := (counts h)(r \<mapsto> n + 1)\<rparr>)"
  using assms by (simp add: acquire_def mutex_lock_def count_add_def mutex_unlock_def fun_upd_idem)

lemma release_own:
  assumes "rp_mutex p = Some r" "rp_count p = Some r" "mutexes h r = Some False" "counts h r = Some n"
    and "rp_host_addr p \<noteq> 0 \<or> \<not> g" and "\<not> os (rp_host_addr p - rp_offset p) (rp_len p + rp_offset p)"
  shows "release g os p h = Inr (if n = 1
      then h\<lparr>counts := (counts h)(r := None), mutexes := (mutexes h)(r := None),
             unmapped := unmapped h @ [(rp_host_addr p - rp_offset p, rp_len p + rp_offset p)]\<rparr>
      else h\<lparr>counts := (counts h)(r \<mapsto> n - 1)\<rparr>)"
  using assms
  by (auto simp: release_def mutex_lock_def count_add_def mutex_unlock_def delete_cells_def munmap_def Let_def
      fun_upd_idem)

lemma view_Own:
  assumes "r < length rs"
  shows "rp_mutex (view rs (Own r off)) = Some r" "rp_count (view rs (Own r off)) = Some r"
    "(rp_host_addr (view rs (Own r off)) - off, rp_len (view rs (Own r off)) + off) = region_range (rs ! r)"
    "rp_offset (view rs (Own r off)) = off"
  by (cases "rs ! r", simp add: view_def)+

lemma view_Bare:
  "view rs (Bare f ha l off) =
     \<lparr>rp_fpga_addr = f, rp_host_addr = ha, rp_len = l, rp_offset = off, rp_mutex = None, rp_count = None\<rparr>"
  by (simp add: view_def)

lemma view_append: "(\<And>r off. x = Own r off \<Longrightarrow> r < length rs) \<Longrightarrow> view (rs @ ys) x = view rs x"
  by (cases x) (simp_all add: view_def nth_append)

lemma view_shift: "view rs (shift q x) =
    (let p = view rs x in p\<lparr>rp_fpga_addr := rp_fpga_addr p + q, rp_host_addr := rp_host_addr p + q,
       rp_len := rp_len p - q, rp_offset := rp_offset p + q\<rparr>)"
  by (cases x) (auto simp: view_def shift_def Let_def algebra_simps split: prod.split)

lemma count_small: "n \<le> 65535 \<Longrightarrow> (of_nat n :: u16) = 1 \<longleftrightarrow> n = 1"
  using word_of_nat_eq_iff [of n 1, where ?'a = 16] by (simp add: take_bit_eq_mod)

subsection \<open>The steps of the program\<close>

lemma store_cong:
  assumes "\<And>r. owned r b = owned r a" "made b = made a" "gone b = gone a"
  shows "ptr_store (implement b) = ptr_store (implement a)"
  using assms by (simp add: implement_def cong: if_cong)

lemma acquire_implements:
  assumes ok: "own_ok os a" and new: "map_of (held a) v = None"
    and x: "\<And>r off. x = Own r off \<Longrightarrow> 0 < owned r a \<and> r < length (made a)"
  shows "acquire (view (made a) x) (ptr_store (implement a)) = Inr (ptr_store (implement (holds v x a)))"
proof (cases x)
  case (Own r off)
  with x have pos: "owned r a \<noteq> 0" "r < length (made a)" by auto
  have "owned r' (holds v x a) = owned r' a + (if r' = r then 1 else 0)" for r'
    using Own drop_fresh [OF new] by (simp add: owned_holds)
  then show ?thesis
    using pos Own acquire_own [OF view_Own(1,2) [OF pos(2)], of "ptr_store (implement a)"]
    by (auto simp: implement_def made_simps gone_simps fun_eq_iff add.commute)
next
  case (Bare f ha l off)
  then have "owned r' (holds v x a) = owned r' a" for r'
    using drop_fresh [OF new] by (simp add: owned_holds)
  from store_cong [OF this] Bare show ?thesis by (simp add: view_Bare made_simps gone_simps)
qed

lemma release_implements:
  assumes ok: "own_ok os a" and v: "map_of (held a) v = Some x"
    and g: "g \<Longrightarrow> \<forall>r off. x = Own r off \<longrightarrow> rp_host_addr (view (made a) x) \<noteq> 0"
  shows "release g os (view (made a) x) (ptr_store (implement a)) = Inr (ptr_store (implement (let_go v a)))"
proof (cases x)
  case (Own r off)
  have r: "r < length (made a)" using own_ok_region [OF ok] v Own by simp
  have pos: "0 < owned r a" using v Own owned_pos by simp
  have small: "owned r a \<le> 65535" using owned_le [of r a] own_okD(2) [OF ok] by simp
  have split: "owned r' a = owned r' (drop_obj v a) + (if r' = r then 1 else 0)" for r'
    using owned_split [OF own_okD(1) [OF ok], of r' v] v Own by simp
  have os: "\<not> os (fst (region_range (made a ! r))) (snd (region_range (made a ! r)))"
    using own_okD(6) [OF ok] nth_mem [OF r] by (cases "made a ! r") auto
  have gone: "gone (let_go v a) = gone a @ (if owned r a = 1 then [r] else [])"
    using v Own split [of r] by (auto simp: let_go_def Let_def drop_obj_def)
  note view = view_Own [OF r, of off]
  have "release g os (view (made a) x) (ptr_store (implement a)) = Inr (let h = ptr_store (implement a) in
      if owned r a = 1
      then h\<lparr>counts := (counts h)(r := None), mutexes := (mutexes h)(r := None),
             unmapped := unmapped h @ [region_range (made a ! r)]\<rparr>
      else h\<lparr>counts := (counts h)(r \<mapsto> of_nat (owned r a) - 1)\<rparr>)"
    unfolding Let_def count_small [OF small, symmetric] view(3) [symmetric]
    using pos os g Own view(4) unfolding view(3) [symmetric]
    by (subst release_own [OF view(1,2) [folded Own], where n = "of_nat (owned r a)"])
       (auto simp: implement_def)
  also have "\<dots> = Inr (ptr_store (implement (let_go v a)))"
    using split pos
    by (auto simp: Let_def implement_def made_simps gone owned_let_go fun_eq_iff)
  finally show ?thesis .
next
  case (Bare f ha l off)
  then have "let_go v a = drop_obj v a" using v by (simp add: let_go_def)
  moreover have "owned r' (drop_obj v a) = owned r' a" for r'
    using owned_split [OF own_okD(1) [OF ok], of r' v] v Bare by simp
  from store_cong [OF this] have "ptr_store (implement (drop_obj v a)) = ptr_store (implement a)"
    by (simp add: made_simps gone_simps)
  ultimately show ?thesis using Bare by (simp add: view_Bare)
qed


lemma objects_implement: "objects (implement a) v = map_option (view (made a)) (map_of (held a) v)"
  by (simp add: implement_def)

lemma obj_implement: "in_scope a v \<Longrightarrow> obj (implement a) v = view (made a) (holding_of a v)"
  by (auto simp: obj_def objects_implement holding_of_def in_scope_def)

lemma holding_of_Some: "map_of (held a) v = Some x \<Longrightarrow> holding_of a v = x"
  by (simp add: holding_of_def)

lemma objects_holds:
  "(objects (implement a))(v \<mapsto> view (made a) x) = objects (implement (holds v x a))"
  by (auto simp: objects_implement own_simps)

lemma put_new_implements:
  assumes "r = Inr (view (made a) x, ptr_store (implement (holds v x b)))"
    and "map_of (held b) = (map_of (held a))(v := None) \<or> map_of (held b) = map_of (held a)" and "made b = made a"
  shows "put_new v (implement a) r = Inr (implement (holds v x b))"
  using assms by (auto simp: put_new_def objects_implement own_simps intro!: ptr_state.equality)

lemma made_update [own_simps]:
  "held (a\<lparr>made := rs\<rparr>) = held a" "gone (a\<lparr>made := rs\<rparr>) = gone a" "owned r (a\<lparr>made := rs\<rparr>) = owned r a"
  by (simp_all add: owned_def)

lemma owned_beyond: "own_ok os a \<Longrightarrow> owned (length (made a)) a = 0"
  by (auto simp: owned_def own_ok_def filter_empty_conv elim!: owns.elims)

lemma new_ok:
  assumes ok: "own_ok os a" and new: "map_of (held a) v = None" "length (held a) < 65535" and os: "\<not> os ha l"
  shows "own_ok os (own_step (OpNew v f ha l) a)"
proof -
  let ?a = "own_step (OpNew v f ha l) a"
  have fresh: "drop_obj v (a\<lparr>made := rs\<rparr>) = a\<lparr>made := rs\<rparr>" for rs
    using new by (intro drop_fresh) simp
  have held: "held ?a = (v, Own (length (made a)) 0) # held a" "gone ?a = gone a" "made ?a = made a @ [(f, ha, l)]"
    using fresh by (simp_all add: holds_def own_simps)
  have owned: "owned r ?a = owned r a + (if r = length (made a) then 1 else 0)" for r
    using fresh by (simp add: own_simps)
  show ?thesis
    using ok new os owned_beyond [OF ok]
    unfolding own_ok_def held owned
    by (auto simp: map_of_eq_None_iff less_Suc_eq)
qed

lemma new_implements:
  assumes ok: "own_ok os a" and new: "map_of (held a) v = None"
  shows "ptr_step os (OpNew v f ha l) (implement a) = Inr (implement (own_step (OpNew v f ha l) a))"
proof -
  let ?b = "a\<lparr>made := made a @ [(f, ha, l)]\<rparr>" and ?r = "length (made a)"
  let ?a = "holds v (Own ?r 0) ?b"
  have owned: "owned r ?a = owned r a + (if r = ?r then 1 else 0)" for r
    using new by (simp add: own_simps drop_fresh)
  have view: "map_option (view (made a @ [(f, ha, l)])) (map_of (held a) w) =
      map_option (view (made a)) (map_of (held a) w)" for w
    using own_ok_region [OF ok, of w] by (cases "map_of (held a) w") (simp_all add: view_append)
  have gone: "map (\<lambda>r. region_range ((made a @ [(f, ha, l)]) ! r)) (gone a) = map (\<lambda>r. region_range (made a ! r)) (gone a)"
    using own_okD(5) [OF ok] by (simp add: nth_append)
  have new_view: "view (made a @ [(f, ha, l)]) (Own ?r 0) = fst (ptr_new f ha l (ptr_store (implement a)))"
    by (simp add: view_def ptr_new_def implement_def Let_def)
  have objs: "objects (implement ?a) = (objects (implement a))(v \<mapsto> fst (ptr_new f ha l (ptr_store (implement a))))"
    by (rule ext) (simp add: objects_implement own_simps view new_view)
  have store: "ptr_store (implement ?a) = snd (ptr_new f ha l (ptr_store (implement a)))"
    using owned_beyond [OF ok]
    by (simp add: implement_def ptr_new_def Let_def made_simps gone_simps gone owned fun_eq_iff)
  have "implement ?a = \<lparr>objects = objects (implement ?a), ptr_store = ptr_store (implement ?a)\<rparr>" by simp
  then show ?thesis by (simp add: put_new_def case_prod_beta objs store)
qed


text \<open>A new object that copies, displaces or replaces an existing holding.\<close>

lemma holding_owned:
  assumes "own_ok os a" "in_scope a w" "holding_of a w = Own r off"
  shows "0 < owned r a \<and> r < length (made a)"
  using assms owned_pos own_ok_region by (auto simp: in_scope_def holding_of_def)

lemma create_ok:
  assumes "own_ok os a" "may_create a v" "\<And>r off. x = Own r off \<Longrightarrow> 0 < owned r a \<and> r < length (made a)"
  shows "own_ok os (holds v x a)"
  using assms by (intro ok_holds) (auto simp: may_create_def in_scope_def)

lemma create_implements:
  assumes "own_ok os a" "may_create a v" "\<And>r off. x = Own r off \<Longrightarrow> 0 < owned r a \<and> r < length (made a)"
  shows "put_new v (implement a) (andThen (acquire (view (made a) x) (ptr_store (implement a))) (\<lambda>h. Inr (view (made a) x, h))) =
    Inr (implement (holds v x a))"
  using assms acquire_implements [of os a v x]
  by (intro put_new_implements) (auto simp: may_create_def in_scope_def)

lemma bare_implements:
  assumes "own_ok os a" "may_create a v"
  shows "put_new v (implement a) (Inr (\<lparr>rp_fpga_addr = f, rp_host_addr = ha, rp_len = l, rp_offset = off,
      rp_mutex = None, rp_count = None\<rparr>, ptr_store (implement a))) = Inr (implement (holds v (Bare f ha l off) a))"
  using create_implements [OF assms, of "Bare f ha l off"] by (simp add: view_Bare)

lemma shift_implements:
  assumes "own_ok os a" "may_create a v" "in_scope a w"
  shows "put_new v (implement a) (andThen (acquire (view (made a) (shift q (holding_of a w))) (ptr_store (implement a)))
      (\<lambda>h. Inr (view (made a) (shift q (holding_of a w)), h))) = Inr (implement (holds v (shift q (holding_of a w)) a))"
  using holding_owned [OF assms(1,3)]
  by (intro create_implements [OF assms(1,2)]) (auto simp: shift_def split: holding.splits)

lemma shift_Own: "shift q x = Own r off \<longleftrightarrow> x = Own r (off - q)"
  by (cases x) (auto simp: shift_def)

lemma copy_view: "ptr_copy p h = andThen (acquire p h) (\<lambda>h1. Inr (p, h1))"
  by (cases p) (simp add: ptr_copy_def Let_def)

lemma shared_view:
  "ptr_plus (view rs x) q h = andThen (acquire (view rs (shift (scast q) x)) h) (\<lambda>h1. Inr (view rs (shift (scast q) x), h1))"
  "ptr_minus (view rs x) q h = andThen (acquire (view rs (shift (- scast q) x)) h) (\<lambda>h1. Inr (view rs (shift (- scast q) x), h1))"
  by (cases "view rs x"; simp add: ptr_plus_def ptr_minus_def ptr_shared_def Let_def view_shift)+

lemma assign_view:
  "\<not> self \<Longrightarrow> ptr_assign os self p q h = andThen (release True os p h) (\<lambda>h1. andThen (acquire q h1) (\<lambda>h2. Inr (q, h2)))"
  by (cases p; cases q) (simp add: ptr_assign_def Let_def)

lemma assign_ok:
  assumes "own_ok os a" "in_scope a v" "in_scope a w" "v \<noteq> w"
  shows "own_ok os (holds v (holding_of a w) (let_go v a))"
    "acquire (view (made a) (holding_of a w)) (ptr_store (implement (let_go v a))) =
       Inr (ptr_store (implement (holds v (holding_of a w) (let_go v a))))"
proof -
  have ok: "own_ok os (let_go v a)" by (rule ok_let_go [OF assms(1)])
  have new: "map_of (held (let_go v a)) v = None" by (simp add: own_simps)
  have "length (held (let_go v a)) < length (held a)"
    using assms(2) by (auto simp: let_go_def Let_def drop_obj_def in_scope_def dest!: map_of_SomeD
        intro!: length_filter_less split: option.split holding.split)
  then have len: "length (held (let_go v a)) < 65535" using own_okD(2) [OF assms(1)] by simp
  have hw: "holding_of (let_go v a) w = holding_of a w" "in_scope (let_go v a) w"
    using assms by (simp_all add: holding_of_def own_simps in_scope_def)
  show "own_ok os (holds v (holding_of a w) (let_go v a))"
    using holding_owned [OF ok hw(2)] hw(1) by (intro ok_holds [OF ok new len]) auto
  show "acquire (view (made a) (holding_of a w)) (ptr_store (implement (let_go v a))) =
       Inr (ptr_store (implement (holds v (holding_of a w) (let_go v a))))"
    using acquire_implements [OF ok new, of "holding_of a w"] holding_owned [OF ok hw(2)] hw(1) by (simp add: own_simps)
qed

lemma assign_implements:
  assumes ok: "own_ok os a" and l: "legal os (OpAssign v w) a" and ne: "v \<noteq> w"
  shows "ptr_step os (OpAssign v w) (implement a) = Inr (implement (own_step (OpAssign v w) a))"
proof -
  have sc: "in_scope a v" "in_scope a w" using l by auto
  have x: "map_of (held a) v = Some (holding_of a v)" using sc by (auto simp: in_scope_def holding_of_def)
  have "release True os (view (made a) (holding_of a v)) (ptr_store (implement a)) = Inr (ptr_store (implement (let_go v a)))"
    using l by (intro release_implements [OF ok x]) (auto split: holding.splits)
  with assign_ok(2) [OF ok sc ne] ne sc show ?thesis
    by (simp add: obj_implement assign_view)
       (intro put_new_implements, auto simp: own_simps)
qed


text \<open>Moves change no counter: the new owner takes the place of the old one.\<close>

lemma move_owned:
  assumes ok: "own_ok os a" and w: "map_of (held a) w = Some x" and vw: "v \<noteq> w"
    and v: "map_of (held a) v = None \<or> (\<exists>f ha l off. map_of (held a) v = Some (Bare f ha l off))"
  shows "owned r (holds v x (holds w (Bare f ha l off) (drop_obj v a))) = owned r a"
proof -
  have d: "distinct (map fst (held a))" by (rule own_okD(1) [OF ok])
  have dv: "owned r (drop_obj v a) = owned r a"
    using owned_split [OF d, of r v] v by auto
  have "drop_obj v (holds w (Bare f ha l off) (drop_obj v a)) = holds w (Bare f ha l off) (drop_obj v a)"
    using vw by (intro drop_fresh) (simp add: own_simps)
  then show ?thesis
    using owned_split [OF distinct_drop [OF d], of r v w] w vw dv by (simp add: own_simps)
qed

lemma move_ok:
  assumes ok: "own_ok os a" and w: "map_of (held a) w = Some x" and vw: "v \<noteq> w"
    and v: "map_of (held a) v = None \<and> length (held a) < 65535 \<or> (\<exists>f ha l off. map_of (held a) v = Some (Bare f ha l off))"
  shows "own_ok os (holds v x (holds w (Bare f ha l off) (drop_obj v a)))" (is "own_ok os ?a")
proof -
  have d: "distinct (map fst (held a))" by (rule own_okD(1) [OF ok])
  have owned: "owned r ?a = owned r a" for r using move_owned [OF ok w vw] v by blast
  have "drop_obj v (holds w (Bare f ha l off) (drop_obj v a)) = holds w (Bare f ha l off) (drop_obj v a)"
    using vw by (intro drop_fresh) (simp add: own_simps)
  then have held: "held ?a = (v, x) # (w, Bare f ha l off) # filter (\<lambda>(u, y). u \<noteq> w) (held (drop_obj v a))"
    by (simp add: holds_def drop_obj_def)
  have keys: "distinct (map fst (held ?a))"
    using vw d unfolding held
    by (auto simp: distinct_map_filter drop_obj_def)
  have sub: "set (held ?a) \<subseteq> {(v, x), (w, Bare f ha l off)} \<union> set (held a)"
    unfolding held by (auto simp: drop_obj_def)
  have "card (set (map fst (held ?a))) \<le> card (insert v (set (map fst (held a))))"
    using map_of_SomeD [OF w] by (intro card_mono) (auto dest!: subsetD [OF sub] intro: rev_image_eqI)
  also have "\<dots> \<le> 65535"
    using v own_okD(2) [OF ok] d
    by (auto simp: card_insert_if distinct_card [OF d, simplified] dest!: map_of_SomeD intro: rev_image_eqI)
  finally have len: "length (held ?a) \<le> 65535" using distinct_card [OF keys] by simp
  have "x = Own r off' \<Longrightarrow> r < length (made a)" for r off' using own_ok_region [OF ok] w by simp
  with ok keys len sub show ?thesis
    unfolding own_ok_def owned made_simps gone_simps by (auto dest!: subsetD)
qed


lemma move_implements:
  assumes ok: "own_ok os a" and w: "map_of (held a) w = Some x" and vw: "v \<noteq> w"
    and v: "map_of (held a) v = None \<or> (\<exists>f ha l off. map_of (held a) v = Some (Bare f ha l off))"
  shows "implement (holds v x (holds w (Bare f ha l off) (drop_obj v a))) =
    (implement a)\<lparr>objects := (objects (implement a))(v \<mapsto> view (made a) x, w \<mapsto> view (made a) (Bare f ha l off))\<rparr>"
    (is "implement ?a = _")
proof -
  have "objects (implement ?a) = (objects (implement a))(v \<mapsto> view (made a) x, w \<mapsto> view (made a) (Bare f ha l off))"
    using vw by (auto simp: objects_implement own_simps)
  moreover have "ptr_store (implement ?a) = ptr_store (implement a)"
    by (intro store_cong move_owned [OF ok w vw v]) (simp_all add: own_simps)
  ultimately show ?thesis by (simp add: ptr_state.equality)
qed

lemma ptr_move_view: "ptr_move (view rs x) = (view rs x, view rs (Bare 0 0 0 0))"
  by (cases "view rs x") (simp add: ptr_move_def view_Bare)

lemma ptr_move_assign_view: "ptr_move_assign p (view rs x) = (view rs x, view rs (strip (view rs x)))"
  by (cases p; cases "view rs x") (simp add: ptr_move_assign_def strip_def view_Bare)

lemma move_step:
  assumes ok: "own_ok os a" and l: "legal os (OpMove v w) a"
  shows "own_ok os (own_step (OpMove v w) a) \<and>
    ptr_step os (OpMove v w) (implement a) = Inr (implement (own_step (OpMove v w) a))"
proof -
  from l have new: "map_of (held a) v = None" "length (held a) < 65535" and sc: "in_scope a w"
    by (auto simp: may_create_def in_scope_def)
  have w: "map_of (held a) w = Some (holding_of a w)" using sc by (auto simp: in_scope_def holding_of_def)
  have vw: "v \<noteq> w" using new w by auto
  show ?thesis
    using move_ok [OF ok w vw, of 0 0 0 0] move_implements [OF ok w vw, of 0 0 0 0] new vw
    by (auto simp: drop_fresh obj_implement [OF sc] ptr_move_view fun_upd_twist)
qed

lemma move_assign_step:
  assumes ok: "own_ok os a" and l: "legal os (OpMoveAssign v w) a"
  shows "own_ok os (own_step (OpMoveAssign v w) a) \<and>
    ptr_step os (OpMoveAssign v w) (implement a) = Inr (implement (own_step (OpMoveAssign v w) a))"
proof -
  from l have sc: "in_scope a v" "in_scope a w" and vw: "v \<noteq> w" by auto
  have w: "map_of (held a) w = Some (holding_of a w)" using sc by (auto simp: in_scope_def holding_of_def)
  have v: "\<exists>f ha l off. map_of (held a) v = Some (Bare f ha l off)"
    using l by (auto simp: in_scope_def holding_of_def split: holding.splits)
  then have "let_go v a = drop_obj v a" by (auto simp: let_go_def)
  then show ?thesis
    using move_ok [OF ok w vw] move_implements [OF ok w vw] v
    by (auto simp: strip_def obj_implement sc ptr_move_assign_view)
qed

lemma destroy_implements:
  assumes ok: "own_ok os a" and sc: "in_scope a v"
  shows "ptr_step os (OpDestroy v) (implement a) = Inr (implement (let_go v a))"
proof -
  have x: "map_of (held a) v = Some (holding_of a v)" using sc by (auto simp: in_scope_def holding_of_def)
  have "ptr_destroy os (view (made a) (holding_of a v)) (ptr_store (implement a)) = Inr (ptr_store (implement (let_go v a)))"
    unfolding ptr_destroy_def by (rule release_implements [OF ok x]) simp
  then show ?thesis
    by (auto simp: obj_implement [OF sc] objects_implement own_simps intro!: ptr_state.equality)
qed

lemma own_step_ok:
  assumes ok: "own_ok os a" and l: "legal os x a"
  shows "own_ok os (own_step x a)"
proof (cases x)
  case (OpNew v f ha l)
  with l ok show ?thesis by (auto simp: may_create_def in_scope_def simp del: own_step.simps intro!: new_ok)
next
  case (OpMove v w)
  with l ok show ?thesis by (simp only: move_step)
next
  case (OpMoveAssign v w)
  with l ok show ?thesis by (simp only: move_assign_step)
qed (use ok l in \<open>auto simp: assign_ok(1) ok_let_go shift_Own intro!: create_ok dest: holding_owned\<close>)

lemma ptr_step_implements:
  assumes ok: "own_ok os a" and l: "legal os x a"
  shows "ptr_step os x (implement a) = Inr (implement (own_step x a))"
proof (cases x)
  case (OpNew v f ha l)
  with l ok show ?thesis
    by (simp only: legal.simps may_create_def in_scope_def not_not new_implements)
next
  case (OpMove v w)
  with l ok show ?thesis by (simp only: move_step)
next
  case (OpMoveAssign v w)
  with l ok show ?thesis by (simp only: move_assign_step)
next
  case (OpAssign v w)
  then show ?thesis
    using l assign_implements [OF ok, of v w]
    by (cases "v = w") (auto simp: ptr_assign_def put_new_def obj_def in_scope_def objects_implement fun_upd_idem)
next
  case (OpDestroy v)
  with l destroy_implements [OF ok, of v] show ?thesis by simp
next
  case (OpCopy v w)
  with l create_implements [OF ok, of v "holding_of a w"] holding_owned [OF ok] show ?thesis
    by (auto simp: obj_implement copy_view)
qed (use l in \<open>auto simp: obj_implement shared_view bare_implements [OF ok] shift_implements [OF ok]
       ptr_null_def ptr_of_addr_def ptr_raw_def\<close>)

interpretation pointers: implements "legal os" own_step "own_ok os" "ptr_step os" implement
  by unfold_locales (simp_all only: own_step_ok ptr_step_implements)


lemma start_implements: "ptr_start = implement own_start" "own_ok os own_start"
  by (simp_all add: ptr_start_def implement_def own_start_def owned_def own_ok_def)

section \<open>Properties\<close>

text \<open>C15. Any program that respects the rules of the class runs without touching a deleted or
  locked cell and without failing. At its end every object in scope shows the addresses of its
  region displaced by its offset, and the segments unmapped so far are exactly the ranges of the
  regions no object owns any more, each once, with the base and length it was created with.\<close>

theorem regions_released_once:
  fixes ops :: "ptr_op list"
  defines "a \<equiv> fold own_step ops own_start"
  assumes "permitted (legal os) own_step ops own_start"
  shows "\<exists>s. run_all (ptr_step os) ops ptr_start = Inr s \<and>
    (\<forall>v. objects s v = map_option (view (made a)) (map_of (held a) v)) \<and>
    unmapped (ptr_store s) = map (\<lambda>r. region_range (made a ! r)) (gone a) \<and>
    distinct (gone a) \<and> set (gone a) = {r. r < length (made a) \<and> owned r a = 0}"
proof -
  have ok: "own_ok os a" and run: "run_all (ptr_step os) ops ptr_start = Inr (implement a)"
    using pointers.run [OF start_implements(2) assms(2)] by (simp_all add: a_def start_implements(1))
  have "distinct (gone a) \<and> set (gone a) = {r. r < length (made a) \<and> owned r a = 0}"
    using own_okD(4,5) [OF ok] by auto
  then show ?thesis using run by (simp add: implement_def)
qed

text \<open>Two regions; the first is shared by a displaced copy and given back when the copy is
  assigned the second region, which two objects own at the end.\<close>

definition sample_ops :: "ptr_op list" where
  "sample_ops = [OpNew 0 0x1000 0x7000 64, OpPlus 1 0 16, OpNew 2 0x2000 0x9000 32, OpDestroy 0, OpAssign 1 2, OpMove 3 2]"

theorem regions_released_once_witness:
  "\<exists>s. run_all (ptr_step (\<lambda>a n. n = 0)) sample_ops ptr_start = Inr s \<and>
     unmapped (ptr_store s) = [(0x7000, 64)] \<and> objects s 0 = None"
  using regions_released_once [of "\<lambda>a n. n = 0" sample_ops]
  by (auto simp: sample_ops_def own_start_def holds_def drop_obj_def let_go_def owned_def holding_of_def shift_def
      may_create_def in_scope_def view_def Let_def simp del: run_all.simps)

text \<open>What happens outside the rules: a move assignment to an object that owns a region forgets
  that region, which is then never unmapped although no object is left.\<close>

lemma move_assign_leaks:
  "\<exists>s. run_all (ptr_step (\<lambda>_ _. False))
         [OpNew 0 0x1000 0x7000 64, OpNew 1 0x2000 0x9000 32, OpMoveAssign 0 1, OpDestroy 1, OpDestroy 0] ptr_start = Inr s \<and>
     unmapped (ptr_store s) = [(0x9000, 32)] \<and> (\<forall>v. objects s v = None) \<and> counts (ptr_store s) 0 = Some 1"
  by (simp add: ptr_start_def put_new_def ptr_new_def Let_def obj_def ptr_move_assign_def ptr_destroy_def
      release_def mutex_lock_def count_add_def delete_cells_def munmap_def)

end
