(* ===== verification/DeviceAllocator.thy ===== *)
theory DeviceAllocator
  imports Prelude
begin

text \<open>
  The device memory allocator (\<^verbatim>\<open>libbeethoven/include/beethoven/allocator/device_allocator.h\<close>).
  Device memory is divided into superblocks of 2 MiB; a request of up to 1 MiB gets a
  power-of-two block inside a superblock, a larger one a run of whole superblocks. The only
  caller is the single data-server thread, so the operations are modelled sequentially and the
  mutexes, which are released on every path, leave no trace. Sizes, ids and addresses are
  natural numbers; the places where the code's integer widths matter (the 16-bit block ids, the
  32-bit product of a large allocation's address, the shifts of an \<^verbatim>\<open>int\<close>) are written out.
\<close>

section \<open>Data\<close>

definition superblock_size :: nat where "superblock_size = 2 ^ 21"

definition min_block_size :: nat where "min_block_size = 2 ^ 12"

function log2up_loop :: "nat \<Rightarrow> nat \<Rightarrow> nat \<Rightarrow> nat" where
  "log2up_loop val i acc =
     (if i < 64 then (if val \<le> acc then i else log2up_loop val (Suc i) ((acc * 2) mod 2 ^ 64)) else 64)"
  by pat_completeness auto
termination
  by (relation "measure (\<lambda>(val, i, acc). 64 - i)") auto

declare log2up_loop.simps [simp del]

definition log2up :: "nat \<Rightarrow> nat" where
  "log2up val = log2up_loop val 0 1"

record superblock =
  log_block_size :: nat
  flags :: u8
  free_blocks :: "nat list"

definition new_superblock :: superblock where
  "new_superblock = \<lparr>log_block_size = 0, flags = 0, free_blocks = []\<rparr>"

text \<open>The object. A \<^verbatim>\<open>std::set\<close> of superblock ids is its sorted list of elements.\<close>

record device_allocator =
  superblock_free_idx :: nat
  free_list :: "nat list"
  superblocks :: "superblock list"
  superblock_head_list :: "nat list list"

text \<open>The class constants. \<open>allocator_bytes\<close> is the template argument.\<close>

definition addr_bits :: "nat \<Rightarrow> nat" where "addr_bits allocator_bytes = log2up allocator_bytes"

definition log_min_block :: nat where "log_min_block = log2up min_block_size"

definition log_superblock_size :: nat where "log_superblock_size = log2up superblock_size"

definition num_lists :: nat where "num_lists = log_superblock_size - log_min_block"

definition log_num_superblocks :: "nat \<Rightarrow> nat" where
  "log_num_superblocks allocator_bytes = addr_bits allocator_bytes - log_superblock_size"

definition num_superblocks :: "nat \<Rightarrow> nat" where
  "num_superblocks allocator_bytes = 2 ^ log_num_superblocks allocator_bytes"

definition BLOCK_ALLOC :: u8 where "BLOCK_ALLOC = 1"

definition BASE_ALLOCATION :: u8 where "BASE_ALLOCATION = 2"

definition device_allocator_init :: "nat \<Rightarrow> device_allocator" where
  "device_allocator_init allocator_bytes =
     \<lparr>superblock_free_idx = 0, free_list = [],
      superblocks = replicate (num_superblocks allocator_bytes) new_superblock,
      superblock_head_list = replicate num_lists []\<rparr>"

text \<open>
  How an operation can end other than by returning: one of the numbered \<^verbatim>\<open>exit\<close> calls, an access
  outside the superblock array or to an element of an empty container, a shift of an \<^verbatim>\<open>int\<close>
  by its width or more, or a search of a list that does not satisfy \<^verbatim>\<open>std::upper_bound\<close>'s
  precondition. The last three are undefined in C++.
\<close>

datatype alloc_error = Exit nat | OutOfBounds | EmptyContainer | BadShift | UnsortedSearch

section \<open>Helpers\<close>

fun mask_loop :: "nat \<Rightarrow> nat \<Rightarrow> nat" where
  "mask_loop 0 m = m"
| "mask_loop (Suc n) m = mask_loop n (push_bit 1 m OR 1)"

definition superblock_id_mask :: "nat \<Rightarrow> nat" where
  "superblock_id_mask allocator_bytes = mask_loop (log_num_superblocks allocator_bytes) 1"

definition block_id_mask :: "nat \<Rightarrow> nat" where
  "block_id_mask log_bs = mask_loop log_bs 1"

definition set_emplace :: "nat \<Rightarrow> nat list \<Rightarrow> nat list" where
  "set_emplace x xs = (if x \<in> set xs then xs else insort x xs)"

text \<open>\<^verbatim>\<open>free_list.insert(std::upper_bound(...), x)\<close>: after the elements that are at most \<open>x\<close>.\<close>

definition upper_bound_insert :: "nat \<Rightarrow> nat list \<Rightarrow> alloc_error + nat list" where
  "upper_bound_insert x xs =
     (if list_all (\<lambda>y. x < y) (dropWhile (\<lambda>y. y \<le> x) xs)
      then Inr (takeWhile (\<lambda>y. y \<le> x) xs @ x # dropWhile (\<lambda>y. y \<le> x) xs)
      else Inl UnsortedSearch)"

function unpack_free_list_THREAD_UNSAFE :: "device_allocator \<Rightarrow> device_allocator" where
  "unpack_free_list_THREAD_UNSAFE s =
     (if free_list s \<noteq> [] \<and> last (free_list s) + 1 = superblock_free_idx s
      then unpack_free_list_THREAD_UNSAFE
             (s\<lparr>superblock_free_idx := superblock_free_idx s - 1, free_list := butlast (free_list s)\<rparr>)
      else s)"
  by pat_completeness auto
termination
  by (relation "measure (\<lambda>s. length (free_list s))") auto

declare unpack_free_list_THREAD_UNSAFE.simps [simp del]

definition get_block_info :: "nat \<Rightarrow> device_allocator \<Rightarrow> nat \<Rightarrow> alloc_error + (nat \<times> nat)" where
  "get_block_info allocator_bytes s fpga_addr =
     (let superblock_id = drop_bit log_superblock_size fpga_addr AND superblock_id_mask allocator_bytes
      in if superblock_id \<ge> length (superblocks s) then Inl OutOfBounds
         else let sb = superblocks s ! superblock_id
              in if flags sb AND BLOCK_ALLOC \<noteq> 0
                 then Inr (superblock_id,
                           drop_bit (log_block_size sb) fpga_addr AND block_id_mask log_superblock_size)
                 else Inr (superblock_id, 0))"

section \<open>malloc\<close>

text \<open>Turning a superblock into \<open>2 ^ (21 - log_bs)\<close> free blocks and taking the last of them.\<close>

definition init_block_superblock :: "nat \<Rightarrow> superblock \<Rightarrow> superblock" where
  "init_block_superblock log_bs sb =
     sb\<lparr>log_block_size := log_bs, flags := BLOCK_ALLOC,
        free_blocks := [0 ..< 2 ^ (log_superblock_size - log_bs)]\<rparr>"

definition malloc_block :: "device_allocator \<Rightarrow> nat \<Rightarrow> nat \<Rightarrow> alloc_error + (device_allocator \<times> nat)" where
  "malloc_block s log_bs idx =
     (let sblist = superblock_head_list s ! idx
      in if sblist = [] then
           (let (superblock_id, s1) =
                  (if free_list s \<noteq> [] then (hd (free_list s), s\<lparr>free_list := tl (free_list s)\<rparr>)
                   else (superblock_free_idx s, s\<lparr>superblock_free_idx := superblock_free_idx s + 1\<rparr>))
            in if superblock_id \<ge> length (superblocks s1) then Inl OutOfBounds
               else if 2 ^ (log_superblock_size - log_bs) \<ge> (0x10000 :: nat) then Inl (Exit 2)
               else let sb = init_block_superblock log_bs (superblocks s1 ! superblock_id);
                        block_id = last (free_blocks sb)
                    in Inr (s1\<lparr>superblocks := (superblocks s1)[superblock_id :=
                                  sb\<lparr>free_blocks := butlast (free_blocks sb)\<rparr>],
                               superblock_head_list := (superblock_head_list s1)[idx :=
                                  set_emplace superblock_id sblist]\<rparr>,
                            superblock_id * superblock_size + block_id * 2 ^ log_bs))
         else
           (let superblock_id = hd sblist
            in if superblock_id \<ge> length (superblocks s) then Inl OutOfBounds
               else let sb = superblocks s ! superblock_id
                    in if free_blocks sb = [] then Inl EmptyContainer
                       else let block_id = last (free_blocks sb);
                                rest = butlast (free_blocks sb)
                            in Inr (s\<lparr>superblocks := (superblocks s)[superblock_id := sb\<lparr>free_blocks := rest\<rparr>],
                                      superblock_head_list := (superblock_head_list s)[idx :=
                                        (if rest = [] then tl sblist else sblist)]\<rparr>,
                                    superblock_id * superblock_size + block_id * 2 ^ log_bs)))"

text \<open>
  The scan of the free list into maximal runs of consecutive superblocks. \<open>seg_begin\<close> starts at
  0 and not at the first element, as in the source.
\<close>

fun segments_loop :: "nat list \<Rightarrow> nat \<Rightarrow> nat \<Rightarrow> (nat \<times> nat) list \<Rightarrow> (nat \<times> nat) list" where
  "segments_loop [] cur_len seg_begin segs = segs"
| "segments_loop [x] cur_len seg_begin segs = segs @ [(seg_begin, cur_len + 1)]"
| "segments_loop (x # y # xs) cur_len seg_begin segs =
     (if y \<noteq> x + 1 then segments_loop (y # xs) 0 y (segs @ [(seg_begin, cur_len + 1)])
      else segments_loop (y # xs) (cur_len + 1) seg_begin segs)"

text \<open>
  The best-fit search over the segments. The loop inspects the last segment and never removes it,
  so it does not end unless there are no segments. \<open>alloc_start\<close> is not initialised in the
  source, hence \<^term>\<open>None\<close> before the first success.
\<close>

partial_function (option) best_fit_loop ::
  "(nat \<times> nat) list \<Rightarrow> nat \<Rightarrow> nat \<Rightarrow> nat option \<Rightarrow> nat option option" where
  "best_fit_loop segs needed best_size alloc_start =
     (if segs = [] then Some alloc_start
      else let (segment_start, segment_size) = last segs
           in if segment_size \<ge> needed \<and>
                 (segment_size < best_size \<or>
                  segment_size = best_size \<and> (case alloc_start of None \<Rightarrow> False | Some a \<Rightarrow> segment_start < a))
              then best_fit_loop segs needed segment_size (Some segment_start)
              else best_fit_loop segs needed best_size alloc_start)"

declare best_fit_loop.simps [code]

definition mark_huge :: "nat \<Rightarrow> nat \<Rightarrow> superblock list \<Rightarrow> superblock list" where
  "mark_huge start n sbs =
     map (\<lambda>(i, sb). if i = start then sb\<lparr>flags := BASE_ALLOCATION, free_blocks := [n]\<rparr>
                    else if start < i \<and> i < start + n then sb\<lparr>flags := 0\<rparr> else sb) (enumerate 0 sbs)"

text \<open>
  A run of whole superblocks. The address is the product of two 32-bit values.
  \<^term>\<open>None\<close>: the call does not return.
\<close>

definition malloc_huge ::
  "nat \<Rightarrow> device_allocator \<Rightarrow> nat \<Rightarrow> (alloc_error + (device_allocator \<times> nat)) option" where
  "malloc_huge allocator_bytes s log_bs =
     (let needed = 2 ^ (log_bs - log_superblock_size)
      in if needed AND 0xFFFF0000 \<noteq> (0 :: nat) then Some (Inl (Exit 1))
         else Option.bind
           (best_fit_loop (segments_loop (free_list s) 0 0 []) needed
              (2 ^ log_num_superblocks allocator_bytes) None)
           (\<lambda>found. let finish = (\<lambda>s1 start.
                 if start + needed > length (superblocks s1) then Inl OutOfBounds
                 else Inr (s1\<lparr>superblocks := mark_huge start needed (superblocks s1)\<rparr>,
                           (start * superblock_size) mod 2 ^ 32))
              in Some (case found of
                   Some start \<Rightarrow>
                     finish (s\<lparr>free_list := takeWhile (\<lambda>x. x \<noteq> start) (free_list s)
                                @ drop needed (dropWhile (\<lambda>x. x \<noteq> start) (free_list s))\<rparr>) start
                 | None \<Rightarrow>
                     if superblock_free_idx s + needed > num_superblocks allocator_bytes
                     then Inl (Exit 3)
                     else finish (s\<lparr>superblock_free_idx := superblock_free_idx s + needed\<rparr>)
                            (superblock_free_idx s))))"

definition malloc ::
  "nat \<Rightarrow> device_allocator \<Rightarrow> nat \<Rightarrow> (alloc_error + (device_allocator \<times> nat)) option" where
  "malloc allocator_bytes s len =
     (let log_bs = max (log2up len) log_min_block
      in if log_bs \<ge> 32 then Some (Inl BadShift)
         else let idx = (if log_bs < log_min_block then 0 else log_bs - log_min_block)
              in if idx < num_lists then Some (malloc_block s log_bs idx)
                 else malloc_huge allocator_bytes s log_bs)"

section \<open>free\<close>

definition free_block :: "device_allocator \<Rightarrow> nat \<Rightarrow> nat \<Rightarrow> alloc_error + device_allocator" where
  "free_block s superblock_id block_id =
     (let sb0 = superblocks s ! superblock_id;
          sb = sb0\<lparr>free_blocks := free_blocks sb0 @ [block_id mod 2 ^ 16]\<rparr>;
          s1 = s\<lparr>superblocks := (superblocks s)[superblock_id := sb]\<rparr>;
          lbs = log_block_size sb
      in if lbs > log_superblock_size then Inl BadShift
         else let max_occ = 2 ^ (log_superblock_size - lbs)
              in if length (free_blocks sb) = max_occ \<or> length (free_blocks sb) = 1 then
                   (let head_idx = (lbs + 2 ^ 8 - log_min_block) mod 2 ^ 8
                    in if head_idx \<ge> num_lists then Inl (Exit 6)
                       else if length (free_blocks sb) = max_occ then
                         (let pq = superblock_head_list s1 ! head_idx
                          in if pq = [] then Inl EmptyContainer
                             else let s2 = s1\<lparr>superblock_head_list := (superblock_head_list s1)[head_idx := tl pq]\<rparr>
                                  in if superblock_id + 1 = superblock_free_idx s2
                                     then Inr (unpack_free_list_THREAD_UNSAFE
                                            (s2\<lparr>superblock_free_idx := superblock_free_idx s2 - 1\<rparr>))
                                     else andThen (upper_bound_insert superblock_id (free_list s2))
                                            (\<lambda>fl. Inr (s2\<lparr>free_list := fl\<rparr>)))
                       else Inr (s1\<lparr>superblock_head_list := (superblock_head_list s1)[head_idx :=
                                   set_emplace superblock_id (superblock_head_list s1 ! head_idx)]\<rparr>))
                 else Inr s1)"

text \<open>The walk down to the superblock that heads a large allocation.\<close>

fun find_base :: "superblock list \<Rightarrow> nat \<Rightarrow> nat option" where
  "find_base sbs 0 = (if flags (sbs ! 0) AND BASE_ALLOCATION \<noteq> 0 then Some 0 else None)"
| "find_base sbs (Suc i) =
     (if flags (sbs ! Suc i) AND BASE_ALLOCATION \<noteq> 0 then Some (Suc i) else find_base sbs i)"

definition free_huge :: "device_allocator \<Rightarrow> nat \<Rightarrow> alloc_error + device_allocator" where
  "free_huge s superblock_id =
     (case find_base (superblocks s) superblock_id of
        None \<Rightarrow> Inl (Exit 7)
      | Some i \<Rightarrow>
          (case free_blocks (superblocks s ! i) of
             [] \<Rightarrow> Inl EmptyContainer
           | n_superblocks # _ \<Rightarrow>
               let s1 = s\<lparr>superblocks := (superblocks s)[i := (superblocks s ! i)\<lparr>free_blocks := []\<rparr>]\<rparr>
               in if i + n_superblocks + 1 = superblock_free_idx s1
                  then Inr (unpack_free_list_THREAD_UNSAFE (s1\<lparr>superblock_free_idx := i\<rparr>))
                  else Inr (s1\<lparr>free_list := free_list s1 @ [i ..< i + n_superblocks]\<rparr>)))"

definition free :: "nat \<Rightarrow> device_allocator \<Rightarrow> nat \<Rightarrow> alloc_error + device_allocator" where
  "free allocator_bytes s fpga_addr =
     andThen (get_block_info allocator_bytes s fpga_addr) (\<lambda>(superblock_id, block_id).
       let fl = flags (superblocks s ! superblock_id)
       in if fl AND BLOCK_ALLOC \<noteq> 0 \<and> fl AND BASE_ALLOCATION \<noteq> 0 then Inl (Exit 4)
          else if fl AND BLOCK_ALLOC \<noteq> 0 then free_block s superblock_id block_id
          else free_huge s superblock_id)"

section \<open>Rounding up and masks\<close>

lemma log2up_loop_spec:
  "i \<le> 64 \<Longrightarrow> (\<And>k. k < i \<Longrightarrow> 2 ^ k < val) \<Longrightarrow> log2up_loop val i (if i < 64 then 2 ^ i else 0) = r \<Longrightarrow>
     (r \<le> 64 \<and> (r < 64 \<longrightarrow> val \<le> 2 ^ r) \<and> (\<forall>k < r. 2 ^ k < val))"
proof (induction "64 - i" arbitrary: i)
  case 0
  then show ?case by (auto simp: log2up_loop.simps)
next
  case (Suc d)
  then have i: "i < 64" by simp
  show ?case
  proof (cases "val \<le> 2 ^ i")
    case True
    with Suc.prems i show ?thesis by (auto simp: log2up_loop.simps)
  next
    case False
    have "(2 ^ i * 2) mod 2 ^ 64 = (if Suc i < 64 then 2 ^ Suc i else (0::nat))"
    proof (cases "Suc i < 64")
      case True
      then have "(2::nat) ^ Suc i < 2 ^ 64" by (intro power_strict_increasing) auto
      then show ?thesis using True by (simp add: mult.commute)
    next
      case False
      then have "i = 63" using i by simp
      then show ?thesis by simp
    qed
    then have r: "log2up_loop val (Suc i) (if Suc i < 64 then 2 ^ Suc i else 0) = r"
      using Suc.prems(3) i False by (subst (asm) log2up_loop.simps) simp
    have "2 ^ k < val" if "k < Suc i" for k
      using that Suc.prems(2) False by (cases "k = i") auto
    then show ?thesis using Suc.hyps(1) [of "Suc i", OF _ _ _ r] Suc.hyps(2) i by simp
  qed
qed

lemma log2up_spec:
  "log2up val \<le> 64" "log2up val < 64 \<Longrightarrow> val \<le> 2 ^ log2up val" "k < log2up val \<Longrightarrow> 2 ^ k < val"
  using log2up_loop_spec [of 0 val, OF _ _ refl] by (simp_all add: log2up_def)

lemma log2up_eq: "val \<le> 2 ^ k \<Longrightarrow> (k = 0 \<or> 2 ^ (k - 1) < val) \<Longrightarrow> k < 64 \<Longrightarrow> log2up val = k"
proof -
  assume a: "val \<le> 2 ^ k" "k = 0 \<or> 2 ^ (k - 1) < val" "k < 64"
  have "\<not> k < log2up val" using a(1) log2up_spec(3) [of k val] by auto
  moreover have "\<not> log2up val < k"
  proof
    assume l: "log2up val < k"
    then have "val \<le> 2 ^ log2up val" using a(3) log2up_spec(2) by simp
    also have "\<dots> \<le> 2 ^ (k - 1)" using l by (intro power_increasing) auto
    finally show False using a(2) l by auto
  qed
  ultimately show ?thesis by simp
qed

lemma allocator_constants [simp]:
  "log_min_block = 12" "log_superblock_size = 21" "num_lists = 9"
proof -
  show 1: "log_min_block = 12" by (simp add: log_min_block_def min_block_size_def log2up_eq)
  show 2: "log_superblock_size = 21" by (simp add: log_superblock_size_def superblock_size_def log2up_eq)
  show "num_lists = 9" by (simp add: num_lists_def 1 2)
qed

lemma mask_loop_eq: "mask_loop n (mask k) = mask (n + k)"
proof (induction n arbitrary: k)
  case (Suc n)
  have "push_bit 1 (mask k) OR 1 = (mask (Suc k) :: nat)"
    by (simp add: mask_Suc_double or.commute mult.commute)
  then show ?case using Suc by simp
qed simp

lemma block_id_mask_eq: "block_id_mask n = mask (Suc n)"
  and superblock_id_mask_eq: "superblock_id_mask bytes = mask (Suc (log_num_superblocks bytes))"
  using mask_loop_eq [of _ 1] by (simp_all add: block_id_mask_def superblock_id_mask_def)

lemma best_fit_loop_eq: "best_fit_loop segs n b a = (if segs = [] then Some a else None)"
proof (cases "segs = []")
  case True
  then show ?thesis by (simp add: best_fit_loop.simps)
next
  case False
  have "segs = []" if ret: "best_fit_loop segs n b a = Some r" for r
    by (rule best_fit_loop.raw_induct [where P = "\<lambda>segs n b a r. segs = []", OF _ ret])
       (auto split: if_splits prod.splits)
  with False show ?thesis by (cases "best_fit_loop segs n b a") auto
qed

lemma segments_loop_nonempty: "segs \<noteq> [] \<or> xs \<noteq> [] \<Longrightarrow> segments_loop xs c b segs \<noteq> []"
  by (induction xs c b segs rule: segments_loop.induct) auto

lemma mark_huge_nth:
  "i < length sbs \<Longrightarrow> mark_huge start n sbs ! i =
     (if i = start then (sbs ! i)\<lparr>flags := BASE_ALLOCATION, free_blocks := [n]\<rparr>
      else if start < i \<and> i < start + n then (sbs ! i)\<lparr>flags := 0\<rparr> else sbs ! i)"
  by (simp add: mark_huge_def nth_enumerate_eq)

lemma length_mark_huge [simp]: "length (mark_huge start n sbs) = length sbs"
  by (simp add: mark_huge_def)

section \<open>Live pieces of device memory\<close>

text \<open>
  The abstract view of the heap: a piece is a block \<open>b\<close> of size \<open>2 ^ l\<close> in superblock \<open>x\<close>, or a run
  of \<open>n\<close> whole superblocks. \<open>alloc_inv\<close> relates a concrete state to the set of live pieces.
\<close>

datatype piece = Block nat nat nat | Run nat nat

fun piece_addr :: "piece \<Rightarrow> nat" where
  "piece_addr (Block x l b) = x * superblock_size + b * 2 ^ l"
| "piece_addr (Run x n) = x * superblock_size"

fun piece_size :: "piece \<Rightarrow> nat" where
  "piece_size (Block x l b) = 2 ^ l"
| "piece_size (Run x n) = n * superblock_size"

definition disjoint_regions :: "piece \<Rightarrow> piece \<Rightarrow> bool" where
  "disjoint_regions p q \<longleftrightarrow>
     piece_addr p + piece_size p \<le> piece_addr q \<or> piece_addr q + piece_size q \<le> piece_addr p"

definition is_block :: "superblock \<Rightarrow> bool" where
  "is_block sb \<longleftrightarrow> flags sb AND BLOCK_ALLOC \<noteq> 0"

definition used :: "device_allocator \<Rightarrow> nat \<Rightarrow> bool" where
  "used s x \<longleftrightarrow> x < superblock_free_idx s \<and> x \<notin> set (free_list s)"

definition sb_ok :: "superblock \<Rightarrow> bool" where
  "sb_ok sb \<longleftrightarrow> (is_block sb \<longrightarrow> 12 \<le> log_block_size sb \<and> log_block_size sb \<le> 20 \<and> flags sb = BLOCK_ALLOC \<and>
     distinct (free_blocks sb) \<and> set (free_blocks sb) \<subseteq> {..< 2 ^ (21 - log_block_size sb)})"

definition in_head :: "device_allocator \<Rightarrow> nat \<Rightarrow> nat \<Rightarrow> bool" where
  "in_head s i x \<longleftrightarrow> used s x \<and> is_block (superblocks s ! x) \<and>
     log_block_size (superblocks s ! x) = i + 12 \<and> free_blocks (superblocks s ! x) \<noteq> []"

definition heads_ok :: "device_allocator \<Rightarrow> bool" where
  "heads_ok s \<longleftrightarrow> length (superblock_head_list s) = 9 \<and>
     (\<forall>i < 9. sorted (superblock_head_list s ! i) \<and> distinct (superblock_head_list s ! i) \<and>
        (\<forall>x. x \<in> set (superblock_head_list s ! i) \<longleftrightarrow> in_head s i x))"

fun piece_ok :: "device_allocator \<Rightarrow> piece \<Rightarrow> bool" where
  "piece_ok s (Block x l b) \<longleftrightarrow> used s x \<and> is_block (superblocks s ! x) \<and>
     log_block_size (superblocks s ! x) = l \<and> b < 2 ^ (21 - l) \<and> b \<notin> set (free_blocks (superblocks s ! x))"
| "piece_ok s (Run x n) \<longleftrightarrow> 0 < n \<and> (\<forall>i \<in> {x ..< x + n}. used s i \<and> \<not> is_block (superblocks s ! i))"

definition runs_apart :: "piece set \<Rightarrow> bool" where
  "runs_apart L \<longleftrightarrow> (\<forall>x n y m. Run x n \<in> L \<longrightarrow> Run y m \<in> L \<longrightarrow> (x = y \<and> n = m) \<or> x + n \<le> y \<or> y + m \<le> x)"

definition alloc_inv :: "nat \<Rightarrow> device_allocator \<Rightarrow> piece set \<Rightarrow> bool" where
  "alloc_inv bytes s L \<longleftrightarrow>
     length (superblocks s) = num_superblocks bytes \<and> superblock_free_idx s \<le> num_superblocks bytes \<and>
     distinct (free_list s) \<and> set (free_list s) \<subseteq> {..< superblock_free_idx s} \<and>
     (\<forall>x. used s x \<longrightarrow> sb_ok (superblocks s ! x)) \<and> heads_ok s \<and> (\<forall>p \<in> L. piece_ok s p) \<and> runs_apart L"

text \<open>Blocks of one superblock, and pieces in different superblocks, do not overlap.\<close>

lemma block_inside: "b < 2 ^ (21 - l) \<Longrightarrow> l \<le> 21 \<Longrightarrow> b * 2 ^ l + 2 ^ l \<le> superblock_size"
proof -
  assume "b < 2 ^ (21 - l)" "l \<le> 21"
  then have "(b + 1) * 2 ^ l \<le> 2 ^ (21 - l) * 2 ^ l" by (intro mult_right_mono) auto
  also have "\<dots> = superblock_size" using \<open>l \<le> 21\<close> by (simp add: superblock_size_def flip: power_add)
  finally show ?thesis by (simp add: algebra_simps)
qed

lemma superblock_apart: "x < y \<Longrightarrow> c \<le> superblock_size \<Longrightarrow> x * superblock_size + c \<le> y * superblock_size"
proof -
  assume "x < y" "c \<le> superblock_size"
  then have "x * superblock_size + c \<le> (x + 1) * superblock_size" by simp
  also have "\<dots> \<le> y * superblock_size" using \<open>x < y\<close> by (intro mult_right_mono) auto
  finally show ?thesis .
qed

lemma pow_apart: "b < c \<Longrightarrow> b * 2 ^ l + 2 ^ l \<le> c * (2::nat) ^ l"
proof -
  assume "b < c"
  then have "(b + 1) * 2 ^ l \<le> c * (2::nat) ^ l" by (intro mult_right_mono) auto
  then show ?thesis by (simp add: algebra_simps)
qed

lemma disjoint_regions_sym: "disjoint_regions p q \<Longrightarrow> disjoint_regions q p"
  by (auto simp: disjoint_regions_def)

lemma block_vs_block:
  assumes "b < 2 ^ (21 - l)" "l \<le> 21" "c < 2 ^ (21 - k)" "k \<le> 21" "x \<noteq> y \<or> l = k \<and> b \<noteq> c"
  shows "disjoint_regions (Block x l b) (Block y k c)"
proof (cases "x = y")
  case True
  with assms(5) have "l = k" "b < c \<or> c < b" by auto
  then show ?thesis using pow_apart [of b c l] pow_apart [of c b l] True by (auto simp: disjoint_regions_def)
next
  case False
  then consider "x < y" | "y < x" by linarith
  then show ?thesis
  proof cases
    case 1
    have "x * superblock_size + (b * 2 ^ l + 2 ^ l) \<le> y * superblock_size"
      by (rule superblock_apart [OF 1 block_inside [OF assms(1,2)]])
    then show ?thesis by (simp add: disjoint_regions_def)
  next
    case 2
    have "y * superblock_size + (c * 2 ^ k + 2 ^ k) \<le> x * superblock_size"
      by (rule superblock_apart [OF 2 block_inside [OF assms(3,4)]])
    then show ?thesis by (simp add: disjoint_regions_def)
  qed
qed

lemma block_vs_run:
  assumes "b < 2 ^ (21 - l)" "l \<le> 21" "x \<notin> {y ..< y + n}" "0 < n"
  shows "disjoint_regions (Block x l b) (Run y n)"
proof -
  consider "x < y" | "y + n \<le> x" using assms(3) by fastforce
  then show ?thesis
  proof cases
    case 1
    have "x * superblock_size + (b * 2 ^ l + 2 ^ l) \<le> y * superblock_size"
      by (rule superblock_apart [OF 1 block_inside [OF assms(1,2)]])
    then show ?thesis by (simp add: disjoint_regions_def)
  next
    case 2
    then have "(y + n) * superblock_size \<le> x * superblock_size" by (intro mult_right_mono) auto
    then show ?thesis by (simp add: disjoint_regions_def algebra_simps)
  qed
qed

lemma run_vs_run: "x + n \<le> y \<or> y + m \<le> x \<Longrightarrow> disjoint_regions (Run x n) (Run y m)"
proof -
  assume "x + n \<le> y \<or> y + m \<le> x"
  then have "(x + n) * superblock_size \<le> y * superblock_size \<or> (y + m) * superblock_size \<le> x * superblock_size"
    by (auto intro: mult_right_mono)
  then show ?thesis by (simp add: disjoint_regions_def algebra_simps)
qed

lemma alloc_inv_disjoint:
  assumes inv: "alloc_inv bytes s L" and "p \<in> L" "q \<in> L" "p \<noteq> q"
  shows "disjoint_regions p q"
proof -
  have ok: "piece_ok s p" "piece_ok s q" using assms by (auto simp: alloc_inv_def)
  have lbs: "log_block_size (superblocks s ! x) \<le> 21" if "used s x" "is_block (superblocks s ! x)" for x
    using inv that by (fastforce simp: alloc_inv_def sb_ok_def)
  show ?thesis
  proof (cases p; cases q)
    fix x l b y k c assume pq: "p = Block x l b" "q = Block y k c"
    then show ?thesis using ok lbs \<open>p \<noteq> q\<close> by (auto intro!: block_vs_block)
  next
    fix x l b y n assume "p = Block x l b" "q = Run y n"
    then show ?thesis using ok lbs by (auto intro!: block_vs_run)
  next
    fix x l b y n assume "p = Run y n" "q = Block x l b"
    then show ?thesis using ok lbs by (auto intro!: disjoint_regions_sym [OF block_vs_run])
  next
    fix x n y m assume "p = Run x n" "q = Run y m"
    moreover have "runs_apart L" using inv by (simp add: alloc_inv_def)
    ultimately have "x + n \<le> y \<or> y + m \<le> x" using assms(2,3,4) unfolding runs_apart_def by metis
    with \<open>p = Run x n\<close> \<open>q = Run y m\<close> show ?thesis by (simp add: run_vs_run)
  qed
qed

lemma alloc_inv_bounds:
  assumes inv: "alloc_inv bytes s L" and p: "p \<in> L"
  shows "piece_addr p + piece_size p \<le> num_superblocks bytes * superblock_size"
proof -
  have ok: "piece_ok s p" and N: "superblock_free_idx s \<le> num_superblocks bytes"
    using assms by (auto simp: alloc_inv_def)
  show ?thesis
  proof (cases p)
    case (Block x l b)
    then have "x < num_superblocks bytes" "l \<le> 21" "b < 2 ^ (21 - l)"
      using ok N inv by (fastforce simp: used_def alloc_inv_def sb_ok_def)+
    then show ?thesis using superblock_apart [OF _ block_inside, of x "num_superblocks bytes" b l] Block
      by (simp add: add.assoc)
  next
    case (Run x n)
    then have "used s (x + n - 1)" using ok by auto
    then have "x + n \<le> num_superblocks bytes" using N by (auto simp: used_def)
    then have "(x + n) * superblock_size \<le> num_superblocks bytes * superblock_size"
      by (intro mult_right_mono) auto
    then show ?thesis using Run by (simp add: algebra_simps)
  qed
qed

section \<open>The invariant is kept by malloc\<close>

lemma block_consts [simp]:
  "is_block (sb\<lparr>flags := BASE_ALLOCATION\<rparr>) = False"
  "is_block (sb\<lparr>flags := 0\<rparr>) = False"
  "is_block (sb\<lparr>free_blocks := xs\<rparr>) = is_block sb"
  "is_block (init_block_superblock l sb)"
  by (simp_all add: is_block_def BASE_ALLOCATION_def BLOCK_ALLOC_def init_block_superblock_def)

lemma alloc_invD:
  assumes "alloc_inv bytes s L"
  shows "length (superblocks s) = num_superblocks bytes" "superblock_free_idx s \<le> num_superblocks bytes"
    "distinct (free_list s)" "set (free_list s) \<subseteq> {..< superblock_free_idx s}"
    "used s x \<Longrightarrow> sb_ok (superblocks s ! x)" "heads_ok s" "p \<in> L \<Longrightarrow> piece_ok s p" "runs_apart L"
  using assms by (auto simp: alloc_inv_def)

lemma in_headD:
  "heads_ok s \<Longrightarrow> i < 9 \<Longrightarrow> x \<in> set (superblock_head_list s ! i) \<longleftrightarrow> in_head s i x"
  by (simp add: heads_ok_def)

lemma head_sorted:
  "heads_ok s \<Longrightarrow> i < 9 \<Longrightarrow> sorted (superblock_head_list s ! i) \<and> distinct (superblock_head_list s ! i)"
  by (simp add: heads_ok_def)

text \<open>
  Every small operation changes one superblock \<open>x\<close> and the head list of one size class. This
  lemma says what has to be shown about \<open>x\<close> and that list for the invariant to hold again.
\<close>

fun touches :: "piece \<Rightarrow> nat \<Rightarrow> bool" where
  "touches (Block y l b) x \<longleftrightarrow> y = x"
| "touches (Run y n) x \<longleftrightarrow> y \<le> x \<and> x < y + n"

lemma heads_ok_update:
  assumes h: "heads_ok s" and i: "i < 9"
    and heads: "superblock_head_list s' = (superblock_head_list s)[i := hs]"
    and hs: "sorted hs" "distinct hs"
    and same: "\<And>j y. y \<noteq> x \<Longrightarrow> in_head s' j y = in_head s j y"
    and others: "\<And>j. j < 9 \<Longrightarrow> j \<noteq> i \<Longrightarrow> in_head s' j x = in_head s j x"
    and set_hs: "set hs - {x} = set (superblock_head_list s ! i) - {x}"
    and x: "x \<in> set hs \<longleftrightarrow> in_head s' i x"
  shows "heads_ok s'"
proof -
  have "y \<in> set ((superblock_head_list s)[i := hs] ! j) \<longleftrightarrow> in_head s' j y" if j: "j < 9" for j y
  proof (cases "j = i")
    case True
    then show ?thesis
    proof (cases "y = x")
      case False
      then have "y \<in> set hs \<longleftrightarrow> y \<in> set (superblock_head_list s ! i)" using set_hs by blast
      then show ?thesis using True False h i same by (simp add: heads_ok_def)
    qed (use True x h i in \<open>simp add: heads_ok_def\<close>)
  next
    case False
    then show ?thesis using h i j same others by (cases "y = x") (auto simp: heads_ok_def)
  qed
  then show ?thesis using h i hs unfolding heads_ok_def heads
    by (auto simp: nth_list_update)
qed

lemma alloc_inv_change:
  assumes inv: "alloc_inv bytes s L"
    and x: "x < length (superblocks s)" and sbs: "superblocks s' = (superblocks s)[x := sb]"
    and idx: "superblock_free_idx s' \<le> num_superblocks bytes" "distinct (free_list s')"
      "set (free_list s') \<subseteq> {..< superblock_free_idx s'}"
    and used': "\<And>y. y \<noteq> x \<Longrightarrow> used s' y = used s y" and sbok: "used s' x \<Longrightarrow> sb_ok sb"
    and heads: "superblock_head_list s' = (superblock_head_list s)[i := hs]" "i < 9" "sorted hs" "distinct hs"
      "set hs - {x} = set (superblock_head_list s ! i) - {x}" "x \<in> set hs \<longleftrightarrow> in_head s' i x"
    and others: "\<And>j. j < 9 \<Longrightarrow> j \<noteq> i \<Longrightarrow> in_head s' j x = in_head s j x"
    and pieces: "\<And>p. p \<in> L' \<Longrightarrow> p \<in> L \<and> \<not> touches p x \<or> piece_ok s' p" and runs: "runs_apart L'"
  shows "alloc_inv bytes s' L'"
proof -
  note D = alloc_invD [OF inv]
  have nth': "superblocks s' ! y = (if y = x then sb else superblocks s ! y)" for y
    using x by (simp add: sbs nth_list_update)
  have "heads_ok s'"
    by (rule heads_ok_update [OF D(6) heads(2,1,3,4) _ others heads(5,6)])
       (auto simp: in_head_def used' nth')
  moreover have "piece_ok s' p" if "p \<in> L'" for p
  proof (cases "p \<in> L \<and> \<not> touches p x")
    case True
    then have "piece_ok s p" using D(7) by blast
    then show ?thesis using True by (cases p) (auto simp: used' nth')
  qed (use pieces that in blast)
  moreover have "sb_ok (superblocks s' ! y)" if "used s' y" for y
    using that D(5) sbok used' by (cases "y = x") (auto simp: nth')
  ultimately show ?thesis using idx D(1) runs by (auto simp: alloc_inv_def sbs)
qed

lemma runs_apart_block: "runs_apart L \<Longrightarrow> runs_apart (insert (Block x l b) L)"
  by (auto simp: runs_apart_def)

lemma runs_apart_subset: "runs_apart L \<Longrightarrow> L' \<subseteq> L \<Longrightarrow> runs_apart L'"
  unfolding runs_apart_def by blast

text \<open>A request that opens a new superblock, from the free list or from untouched memory.\<close>

lemma malloc_block_fresh:
  assumes inv: "alloc_inv bytes s L" and l: "12 \<le> l" "l \<le> 20"
    and none: "superblock_head_list s ! (l - 12) = []"
    and ret: "malloc_block s l (l - 12) = Inr (s', a)"
  shows "\<exists>x b. a = piece_addr (Block x l b) \<and> Block x l b \<notin> L \<and> alloc_inv bytes s' (insert (Block x l b) L)"
proof -
  define x where "x = (if free_list s \<noteq> [] then hd (free_list s) else superblock_free_idx s)"
  define s1 where "s1 = (if free_list s \<noteq> [] then s\<lparr>free_list := tl (free_list s)\<rparr>
                         else s\<lparr>superblock_free_idx := superblock_free_idx s + 1\<rparr>)"
  define m where "m = (2::nat) ^ (21 - l)"
  define sb where "sb = (init_block_superblock l (superblocks s ! x))\<lparr>free_blocks := [0 ..< m - 1]\<rparr>"
  have m: "2 \<le> m" using l by (simp add: m_def self_le_power)
  have upt: "[0 ..< m] = [0 ..< m - 1] @ [m - 1]"
    using m upt_Suc_append [of 0 "m - 1"] by simp
  have fold_m: "2 ^ (log_superblock_size - l) = m" by (simp add: m_def)
  have x: "x < length (superblocks s)" and a: "a = x * superblock_size + (m - 1) * 2 ^ l"
    and s': "s' = s1\<lparr>superblocks := (superblocks s)[x := sb],
                superblock_head_list := (superblock_head_list s)[l - 12 := [x]]\<rparr>"
    using ret none unfolding malloc_block_def Let_def init_block_superblock_def fold_m
    by (auto simp: x_def s1_def sb_def upt init_block_superblock_def set_emplace_def split: if_splits)
  note D = alloc_invD [OF inv]
  have sbf: "is_block sb" "log_block_size sb = l" "free_blocks sb = [0 ..< m - 1]" "flags sb = BLOCK_ALLOC"
    by (simp_all add: sb_def init_block_superblock_def is_block_def BLOCK_ALLOC_def)
  have notused: "\<not> used s x" using D(4) by (auto simp: used_def x_def)
  have used': "used s' y \<longleftrightarrow> y = x \<or> used s y" for y
    using D(3,4) by (cases "free_list s") (auto simp: used_def s' s1_def x_def)
  have sel: "superblocks s' = (superblocks s)[x := sb]"
    "superblock_head_list s' = (superblock_head_list s)[l - 12 := [x]]" by (simp_all add: s' s1_def)
  then have nthx: "superblocks s' ! x = sb" using x by simp
  have "Block x l (m - 1) \<notin> L" using D(7) [of "Block x l (m - 1)"] notused by auto
  moreover have "alloc_inv bytes s' (insert (Block x l (m - 1)) L)"
  proof (rule alloc_inv_change [OF inv x, where i = "l - 12" and hs = "[x]" and sb = sb])
    show "superblock_free_idx s' \<le> num_superblocks bytes" "distinct (free_list s')"
      "set (free_list s') \<subseteq> {..<superblock_free_idx s'}"
      using D(1-4) x by (cases "free_list s"; auto simp: s' s1_def x_def)+
    show "p \<in> L \<and> \<not> touches p x \<or> piece_ok s' p" if "p \<in> insert (Block x l (m - 1)) L" for p
      using that
    proof
      assume "p \<in> L"
      then show ?thesis using D(7) [of p] notused by (cases p) auto
    qed (use m sbf in \<open>simp add: used' nthx m_def\<close>)
  qed (use D(8) l m sbf none notused x in
      \<open>auto simp: sel sb_ok_def m_def in_head_def used' nthx runs_apart_block\<close>)
  ultimately show ?thesis using a by auto
qed

text \<open>A request served from the superblock at the head of its size class.\<close>

lemma malloc_block_reuse:
  assumes inv: "alloc_inv bytes s L" and l: "12 \<le> l" "l \<le> 20"
    and hl: "superblock_head_list s ! (l - 12) = x # hs"
    and ret: "malloc_block s l (l - 12) = Inr (s', a)"
  shows "\<exists>b. a = piece_addr (Block x l b) \<and> Block x l b \<notin> L \<and> alloc_inv bytes s' (insert (Block x l b) L)"
proof -
  note D = alloc_invD [OF inv]
  have H: "sorted (x # hs)" "distinct (x # hs)" "in_head s (l - 12) x"
    using head_sorted [OF D(6), of "l - 12"] in_headD [OF D(6), of "l - 12" x] hl l by auto
  define b where "b = last (free_blocks (superblocks s ! x))"
  define rest where "rest = butlast (free_blocks (superblocks s ! x))"
  define sb where "sb = (superblocks s ! x)\<lparr>free_blocks := rest\<rparr>"
  have fb: "free_blocks (superblocks s ! x) = rest @ [b]" and blk: "is_block (superblocks s ! x)" "used s x"
    and lbs: "log_block_size (superblocks s ! x) = l"
    using H(3) l by (auto simp: in_head_def b_def rest_def)
  have x: "x < length (superblocks s)" using blk(2) D(1,2) by (auto simp: used_def)
  have s': "s' = s\<lparr>superblocks := (superblocks s)[x := sb],
                   superblock_head_list := (superblock_head_list s)[l - 12 := if rest = [] then hs else x # hs]\<rparr>"
    and a: "a = x * superblock_size + b * 2 ^ l"
    using ret x by (auto simp: malloc_block_def Let_def hl fb sb_def split: if_splits)
  have used': "used s' y \<longleftrightarrow> used s y" for y by (simp add: used_def s')
  have sel: "superblocks s' = (superblocks s)[x := sb]" "superblock_free_idx s' = superblock_free_idx s"
    "superblock_head_list s' = (superblock_head_list s)[l - 12 := if rest = [] then hs else x # hs]"
    "free_list s' = free_list s" by (simp_all add: s')
  then have nthx: "superblocks s' ! x = sb" using x by simp
  have sbf: "is_block sb" "log_block_size sb = l" "free_blocks sb = rest" "flags sb = flags (superblocks s ! x)"
    using blk lbs by (simp_all add: sb_def)
  have okx: "sb_ok (superblocks s ! x)" using D(5) blk by blast
  then have b: "b < 2 ^ (21 - l)" "b \<notin> set rest" using fb lbs blk by (auto simp: sb_ok_def)
  have "Block x l b \<notin> L" using D(7) [of "Block x l b"] fb by auto
  moreover have "alloc_inv bytes s' (insert (Block x l b) L)"
  proof (rule alloc_inv_change [OF inv x, where i = "l - 12" and hs = "if rest = [] then hs else x # hs" and sb = sb])
    show "p \<in> L \<and> \<not> touches p x \<or> piece_ok s' p" if "p \<in> insert (Block x l b) L" for p
      using that
    proof
      assume "p \<in> L"
      then have "piece_ok s p" using D(7) by blast
      then show ?thesis using \<open>p \<in> L\<close> blk lbs fb by (cases p) (auto simp: used' nthx sbf)
    qed (use b blk sbf in \<open>simp add: used' nthx\<close>)
    show "sb_ok sb" using okx fb blk lbs by (auto simp: sb_ok_def sbf)
  qed (use D l H hl lbs x in \<open>auto simp: sel in_head_def used' nthx sbf runs_apart_block\<close>)
  ultimately show ?thesis using a by auto
qed

lemma malloc_block_inv:
  assumes "alloc_inv bytes s L" "12 \<le> l" "l \<le> 20" "malloc_block s l (l - 12) = Inr (s', a)"
  shows "\<exists>x b. a = piece_addr (Block x l b) \<and> Block x l b \<notin> L \<and> alloc_inv bytes s' (insert (Block x l b) L)"
  using malloc_block_fresh [OF assms(1-3) _ assms(4)] malloc_block_reuse [OF assms(1-3) _ assms(4)]
  by (cases "superblock_head_list s ! (l - 12)") auto

lemma malloc_huge_eq:
  "malloc_huge bytes s l =
     (let needed = 2 ^ (l - 21)
      in if needed AND 0xFFFF0000 \<noteq> (0::nat) then Some (Inl (Exit 1))
         else if free_list s \<noteq> [] then None
         else Some (if superblock_free_idx s + needed > num_superblocks bytes then Inl (Exit 3)
              else if superblock_free_idx s + needed > length (superblocks s) then Inl OutOfBounds
              else Inr (s\<lparr>superblock_free_idx := superblock_free_idx s + needed,
                          superblocks := mark_huge (superblock_free_idx s) needed (superblocks s)\<rparr>,
                        (superblock_free_idx s * superblock_size) mod 2 ^ 32)))"
  using segments_loop_nonempty [of "[]" "free_list s" 0 0]
  by (simp add: malloc_huge_def Let_def best_fit_loop_eq)

lemma malloc_huge_inv:
  assumes inv: "alloc_inv bytes s L" and ret: "malloc_huge bytes s l = Some (Inr (s', a))"
    and small: "superblock_free_idx s < 2048"
  shows "let p = Run (superblock_free_idx s) (2 ^ (l - 21))
         in a = piece_addr p \<and> p \<notin> L \<and> alloc_inv bytes s' (insert p L)"
proof -
  define x where "x = superblock_free_idx s"
  define n where "n = (2::nat) ^ (l - 21)"
  note D = alloc_invD [OF inv]
  have fl: "free_list s = []" and le: "x + n \<le> num_superblocks bytes"
    and s': "s' = s\<lparr>superblock_free_idx := x + n, superblocks := mark_huge x n (superblocks s)\<rparr>"
    and a: "a = (x * superblock_size) mod 2 ^ 32"
    using ret by (auto simp: malloc_huge_eq Let_def x_def n_def split: if_splits)
  have n: "0 < n" by (simp add: n_def)
  have "x * superblock_size < 2048 * superblock_size" using small by (simp add: x_def superblock_size_def)
  then have a': "a = x * superblock_size" by (simp add: a superblock_size_def)
  have used': "used s' y \<longleftrightarrow> y < x + n" and used: "used s y \<longleftrightarrow> y < x" for y
    by (simp_all add: used_def s' fl x_def)
  have old: "superblocks s' ! y = superblocks s ! y" if "y < x" for y
    using that le D(1) by (simp add: s' mark_huge_nth)
  have new: "\<not> is_block (superblocks s' ! y)" if "x \<le> y" "y < x + n" for y
    using that le D(1) by (auto simp: s' mark_huge_nth)
  have "in_head s' i y = in_head s i y" for i y
    using new [of y] old [of y] by (cases "y < x") (auto simp: in_head_def used used')
  then have "heads_ok s'" using D(6) by (simp add: heads_ok_def s')
  moreover have "piece_ok s' p" if "p \<in> L" for p
    using D(7) [OF that] old by (cases p) (auto simp: used used')
  moreover have "piece_ok s' (Run x n)" using new n by (auto simp: used')
  moreover have "sb_ok (superblocks s' ! y)" if "used s' y" for y
    using that D(5) [of y] new [of y] old [of y] by (cases "y < x") (auto simp: used used' sb_ok_def)
  moreover have above: "y + m \<le> x" if "Run y m \<in> L" for y m
  proof -
    have "piece_ok s (Run y m)" using D(7) that by blast
    then have "0 < m" "used s (y + m - 1)" by auto
    then show ?thesis by (simp add: used)
  qed
  moreover have "runs_apart (insert (Run x n) L)"
    using D(8) above unfolding runs_apart_def by (auto simp del: less_eq_nat.simps)
  moreover have "Run x n \<notin> L" using above [of x n] n by auto
  ultimately show ?thesis
    using a' le fl D(1) by (auto simp: Let_def x_def [symmetric] n_def [symmetric] alloc_inv_def s')
qed

lemma malloc_cases:
  assumes "malloc bytes s len = Some (Inr (s', a))"
  obtains (block) l where "l = max (log2up len) 12" "l \<le> 20" "malloc_block s l (l - 12) = Inr (s', a)"
  | (huge) l where "l = log2up len" "21 \<le> l" "l < 32" "malloc_huge bytes s l = Some (Inr (s', a))"
  using assms by (auto simp: malloc_def Let_def max_def split: if_splits)

lemma malloc_inv:
  assumes inv: "alloc_inv bytes s L" and ret: "malloc bytes s len = Some (Inr (s', a))"
    and small: "len \<le> 2 ^ 20 \<or> superblock_free_idx s < 2048"
  shows "\<exists>p. alloc_inv bytes s' (insert p L) \<and> p \<notin> L \<and> piece_addr p = a \<and> len \<le> piece_size p"
  using ret
proof (cases rule: malloc_cases)
  case (block l)
  then have "len \<le> 2 ^ log2up len" using log2up_spec(2) [of len] by simp
  also have "\<dots> \<le> 2 ^ l" using block by (intro power_increasing) auto
  finally have len: "len \<le> 2 ^ l" .
  from malloc_block_inv [OF inv _ _ block(3)] block(1,2)
  obtain x b where "a = piece_addr (Block x l b)" "Block x l b \<notin> L" "alloc_inv bytes s' (insert (Block x l b) L)"
    by auto
  then show ?thesis using len by (intro exI [of _ "Block x l b"]) auto
next
  case (huge l)
  have "\<not> len \<le> 2 ^ 20" using huge log2up_spec(3) [of 20 len] by auto
  then have small': "superblock_free_idx s < 2048" using small by simp
  have "len \<le> 2 ^ l" using huge log2up_spec(2) [of len] by simp
  also have "\<dots> = 2 ^ (l - 21) * superblock_size"
    using huge(2) unfolding superblock_size_def by (metis le_add_diff_inverse2 power_add)
  finally have "len \<le> 2 ^ (l - 21) * superblock_size" .
  then show ?thesis using malloc_huge_inv [OF inv huge(4) small']
    by (intro exI [of _ "Run (superblock_free_idx s) (2 ^ (l - 21))"]) (simp add: Let_def)
qed

section \<open>The invariant is kept by free\<close>

lemma get_block_info_block0:
  assumes "b < 2 ^ (21 - l)" "l \<le> 20" "12 \<le> l" "0 < length (superblocks s)" "is_block (superblocks s ! 0)"
    "log_block_size (superblocks s ! 0) = l"
  shows "get_block_info bytes s (b * 2 ^ l) = Inr (0, b)"
proof -
  have "b * 2 ^ l + 2 ^ l \<le> superblock_size" using assms by (intro block_inside) auto
  moreover have "0 < (2::nat) ^ l" by simp
  ultimately have "b * 2 ^ l < 2 ^ 21" unfolding superblock_size_def by linarith
  then have "drop_bit 21 (b * 2 ^ l) = 0" by (simp add: drop_bit_eq_div)
  moreover have "b < 2 ^ 22" using assms(1) power_increasing [of "21 - l" 22 "2::nat"] by linarith
  moreover have "drop_bit l (b * 2 ^ l) = b" by (simp add: drop_bit_eq_div)
  ultimately show ?thesis using assms
    by (simp add: get_block_info_def Let_def block_id_mask_eq is_block_def take_bit_eq_mod flip: take_bit_eq_mask)
qed

lemma unpack_empty [simp]: "free_list s = [] \<Longrightarrow> unpack_free_list_THREAD_UNSAFE s = s"
  by (simp add: unpack_free_list_THREAD_UNSAFE.simps)

lemma full_free_blocks:
  assumes "distinct fb" "set fb \<subseteq> {..< m}" "length fb = m"
  shows "set fb = {..< m}"
  using assms by (intro card_subset_eq) (auto simp: distinct_card)

lemma live_block0:
  assumes inv: "alloc_inv bytes s L" and mem: "Block 0 l b \<in> L"
  shows "used s 0" "is_block (superblocks s ! 0)" "12 \<le> l" "l \<le> 20" "0 < length (superblocks s)"
    "log_block_size (superblocks s ! 0) = l" "b < 2 ^ (21 - l)" "b \<notin> set (free_blocks (superblocks s ! 0))"
    "b mod 65536 = b" "flags (superblocks s ! 0) = BLOCK_ALLOC" "distinct (free_blocks (superblocks s ! 0))"
    "set (free_blocks (superblocks s ! 0)) \<subseteq> {..< 2 ^ (21 - l)}"
proof -
  note D = alloc_invD [OF inv]
  show ok: "used s 0" "is_block (superblocks s ! 0)" "log_block_size (superblocks s ! 0) = l"
    "b < 2 ^ (21 - l)" "b \<notin> set (free_blocks (superblocks s ! 0))"
    using D(7) [OF mem] by auto
  then show l: "12 \<le> l" "l \<le> 20" "flags (superblocks s ! 0) = BLOCK_ALLOC"
    "distinct (free_blocks (superblocks s ! 0))" "set (free_blocks (superblocks s ! 0)) \<subseteq> {..< 2 ^ (21 - l)}"
    using D(5) [of 0] by (auto simp: sb_ok_def)
  show "0 < length (superblocks s)" using ok(1) D(1,2) by (auto simp: used_def)
  have "b < 2 ^ 9" using ok(4) power_increasing [of "21 - l" 9 "2::nat"] l by linarith
  then show "b mod 65536 = b" by simp
qed

lemma free_block_eq:
  assumes "log_block_size (superblocks s ! x) = l" "12 \<le> l" "l \<le> 20"
  shows "free_block s x b =
    (let fb = free_blocks (superblocks s ! x) @ [b mod 2 ^ 16];
         hl = superblock_head_list s ! (l - 12);
         s1 = s\<lparr>superblocks := (superblocks s)[x := (superblocks s ! x)\<lparr>free_blocks := fb\<rparr>]\<rparr>;
         s2 = s1\<lparr>superblock_head_list := (superblock_head_list s)[l - 12 := tl hl]\<rparr>
     in if length fb = 2 ^ (21 - l) then
          if hl = [] then Inl EmptyContainer
          else if x + 1 = superblock_free_idx s
          then Inr (unpack_free_list_THREAD_UNSAFE (s2\<lparr>superblock_free_idx := superblock_free_idx s - 1\<rparr>))
          else andThen (upper_bound_insert x (free_list s)) (\<lambda>fl. Inr (s2\<lparr>free_list := fl\<rparr>))
        else if length fb = 1
        then Inr (s1\<lparr>superblock_head_list := (superblock_head_list s)[l - 12 := set_emplace x hl]\<rparr>)
        else Inr s1)"
proof -
  have head: "(244 + l) mod 256 = l - 12" using assms by (simp add: mod_if)
  have "\<not> 9 \<le> l - 12" using assms by simp
  then show ?thesis using assms by (simp add: free_block_def Let_def head)
qed

text \<open>
  The two ways a block of superblock 0 comes back: the superblock becomes entirely free and is
  given up, or it stays open for its size class.
\<close>

lemma free_block_full:
  assumes inv: "alloc_inv bytes s L" and mem: "Block 0 l b \<in> L"
    and full: "length (free_blocks (superblocks s ! 0) @ [b]) = 2 ^ (21 - l)"
  shows "\<exists>s'. free_block s 0 b = Inr s' \<and> alloc_inv bytes s' (L - {Block 0 l b})"
proof -
  note D = alloc_invD [OF inv]
  define fb where "fb = free_blocks (superblocks s ! 0)"
  define sb where "sb = (superblocks s ! 0)\<lparr>free_blocks := fb @ [b]\<rparr>"
  define hl where "hl = superblock_head_list s ! (l - 12)"
  note B = live_block0 [OF inv mem, folded fb_def]
  have "(2::nat) ^ 1 \<le> 2 ^ (21 - l)" using B(4) by (intro power_increasing) auto
  then have "fb \<noteq> []" using full by (auto simp: fb_def)
  then have "0 \<in> set hl" "sorted hl" "distinct hl"
    using in_headD [OF D(6), of "l - 12" 0] head_sorted [OF D(6), of "l - 12"] B
    by (auto simp: hl_def in_head_def fb_def)
  then obtain t where t: "hl = 0 # t" "sorted t" "distinct t" "0 \<notin> set t" by (cases hl) auto
  have all: "set (fb @ [b]) = {..< 2 ^ (21 - l)}"
    using full B by (intro full_free_blocks) (auto simp: fb_def)
  have no0: "0 \<notin> set (free_list s)" using B(1) by (simp add: used_def)
  then have one: "superblock_free_idx s = 1 \<Longrightarrow> free_list s = []" using D(4) by (cases "free_list s") auto
  have ub: "upper_bound_insert 0 (free_list s) = Inr (0 # free_list s)"
    using no0 by (cases "free_list s") (auto simp: upper_bound_insert_def list_all_iff)
  define s2 where "s2 = (let s1 = s\<lparr>superblocks := (superblocks s)[0 := sb],
                             superblock_head_list := (superblock_head_list s)[l - 12 := t]\<rparr>
     in if superblock_free_idx s = 1 then s1\<lparr>superblock_free_idx := 0\<rparr> else s1\<lparr>free_list := 0 # free_list s\<rparr>)"
  have "free_block s 0 b = Inr s2"
    using full t one B(9) by (simp add: free_block_eq [OF B(6,3,4)] Let_def ub s2_def sb_def fb_def hl_def)
  moreover have sel: "superblocks s2 = (superblocks s)[0 := sb]"
      "superblock_head_list s2 = (superblock_head_list s)[l - 12 := t]" by (simp_all add: s2_def Let_def)
  moreover have used2: "used s2 y \<longleftrightarrow> y \<noteq> 0 \<and> used s y" for y
    using one by (auto simp: used_def s2_def Let_def)
  moreover have "alloc_inv bytes s2 (L - {Block 0 l b})"
  proof (rule alloc_inv_change [OF inv B(5), where i = "l - 12" and hs = t and sb = sb])
    show "superblock_free_idx s2 \<le> num_superblocks bytes" "distinct (free_list s2)"
      "set (free_list s2) \<subseteq> {..<superblock_free_idx s2}"
      using D(1-4) no0 one B(1) by (auto simp: s2_def Let_def used_def)
    show "p \<in> L \<and> \<not> touches p 0 \<or> piece_ok s2 p" if "p \<in> L - {Block 0 l b}" for p
    proof -
      have "\<not> touches p 0"
      proof (cases p)
        case (Block x k c)
        show ?thesis
        proof
          assume "touches p 0"
          moreover have "piece_ok s (Block x k c)" using D(7) that Block by blast
          ultimately have xk: "x = 0" "k = l" "c < 2 ^ (21 - l)" "c \<notin> set fb"
            using Block B(6) by (auto simp: fb_def)
          then have "c \<in> set (fb @ [b])" using all by blast
          then show False using that Block xk by auto
        qed
      qed (use D(7) [of p] that B in auto)
      then show ?thesis using that by simp
    qed
    show "in_head s2 j 0 = in_head s j 0" if "j \<noteq> l - 12" for j
      using that B(6) by (auto simp: in_head_def used2)
    show "set t - {0} = set (superblock_head_list s ! (l - 12)) - {0}" using t by (auto simp: hl_def)
    show "0 \<in> set t \<longleftrightarrow> in_head s2 (l - 12) 0" using t by (simp add: in_head_def used2)
  qed (use t B D(8) in \<open>auto simp: sel used2 elim: runs_apart_subset\<close>)
  ultimately show ?thesis by blast
qed

lemma free_block_partial:
  assumes inv: "alloc_inv bytes s L" and mem: "Block 0 l b \<in> L"
    and part: "length (free_blocks (superblocks s ! 0) @ [b]) \<noteq> 2 ^ (21 - l)"
  shows "\<exists>s'. free_block s 0 b = Inr s' \<and> alloc_inv bytes s' (L - {Block 0 l b})"
proof -
  note D = alloc_invD [OF inv]
  define fb where "fb = free_blocks (superblocks s ! 0)"
  define sb where "sb = (superblocks s ! 0)\<lparr>free_blocks := fb @ [b]\<rparr>"
  define hl where "hl = superblock_head_list s ! (l - 12)"
  define hs where "hs = (if fb = [] then set_emplace 0 hl else hl)"
  note B = live_block0 [OF inv mem, folded fb_def]
  define s2 where "s2 = s\<lparr>superblocks := (superblocks s)[0 := sb],
                          superblock_head_list := (superblock_head_list s)[l - 12 := hs]\<rparr>"
  have H: "sorted hl" "distinct hl" "0 \<in> set hl \<longleftrightarrow> fb \<noteq> []"
    using head_sorted [OF D(6), of "l - 12"] in_headD [OF D(6), of "l - 12" 0] B
    by (auto simp: hl_def in_head_def fb_def)
  have hs: "sorted hs" "distinct hs" "set hs = insert 0 (set hl)"
    using H by (auto simp: hs_def set_emplace_def sorted_insort distinct_insort set_insort_key insert_absorb)
  have "length (superblock_head_list s) = 9" using D(6) by (simp add: heads_ok_def)
  then have "free_block s 0 b = Inr s2"
    using part B(9) by (auto simp: free_block_eq [OF B(6,3,4)] Let_def s2_def sb_def fb_def hl_def hs_def)
  moreover have used2: "used s2 y \<longleftrightarrow> used s y" for y by (simp add: used_def s2_def)
  moreover have sel: "superblocks s2 = (superblocks s)[0 := sb]" "superblock_free_idx s2 = superblock_free_idx s"
      "superblock_head_list s2 = (superblock_head_list s)[l - 12 := hs]" "free_list s2 = free_list s"
    by (simp_all add: s2_def)
  moreover have sbf: "is_block sb" "log_block_size sb = l" "free_blocks sb = fb @ [b]" "flags sb = BLOCK_ALLOC"
    using B by (simp_all add: sb_def)
  moreover have "alloc_inv bytes s2 (L - {Block 0 l b})"
  proof (rule alloc_inv_change [OF inv B(5), where i = "l - 12" and hs = hs and sb = sb])
    show "sb_ok sb" using B by (auto simp: sb_ok_def sbf)
    show "p \<in> L \<and> \<not> touches p 0 \<or> piece_ok s2 p" if "p \<in> L - {Block 0 l b}" for p
    proof (cases p)
      case (Block x k c)
      then show ?thesis using D(7) [of p] that B(5,6) by (cases "x = 0") (auto simp: sel used2 sbf fb_def)
    qed (use D(7) [of p] that B in auto)
  qed (use hs B D(1-4) D(8) in \<open>auto simp: sel used2 in_head_def sbf hl_def elim: runs_apart_subset\<close>)
  ultimately show ?thesis by blast
qed

lemma free_inv:
  assumes inv: "alloc_inv bytes s L" and mem: "Block 0 l b \<in> L"
  shows "\<exists>s'. free bytes s (piece_addr (Block 0 l b)) = Inr s' \<and> alloc_inv bytes s' (L - {Block 0 l b})"
proof -
  note B = live_block0 [OF inv mem]
  have "free bytes s (piece_addr (Block 0 l b)) = free_block s 0 b"
    using B by (simp add: free_def get_block_info_block0 [OF B(7) B(4,3,5,2,6)] BLOCK_ALLOC_def BASE_ALLOCATION_def)
  then show ?thesis using free_block_full [OF inv mem] free_block_partial [OF inv mem] by metis
qed

section \<open>Sequences of operations\<close>

datatype alloc_op = Malloc nat | Free nat

text \<open>Runs a list of requests; the result lists the addresses that the \<open>Malloc\<close>s returned.\<close>

fun run_ops :: "nat \<Rightarrow> device_allocator \<Rightarrow> alloc_op list \<Rightarrow> (device_allocator \<times> nat list) option" where
  "run_ops bytes s [] = Some (s, [])"
| "run_ops bytes s (Malloc len # ops) =
     (case malloc bytes s len of
        Some (Inr (s', a)) \<Rightarrow> map_option (\<lambda>(t, as). (t, a # as)) (run_ops bytes s' ops)
      | _ \<Rightarrow> None)"
| "run_ops bytes s (Free a # ops) =
     (case free bytes s a of Inr s' \<Rightarrow> run_ops bytes s' ops | Inl e \<Rightarrow> None)"

lemma alloc_inv_init: "alloc_inv bytes (device_allocator_init bytes) {}"
  by (simp add: alloc_inv_def device_allocator_init_def used_def heads_ok_def in_head_def runs_apart_def)

lemma malloc_fits:
  assumes "alloc_inv bytes s L" "bytes \<le> 2 ^ 32" "malloc bytes s len = Some (Inr (s', a))"
  shows "len \<le> 2 ^ 20 \<or> superblock_free_idx s < 2048"
  using assms(3)
proof (cases rule: malloc_cases)
  case (block l)
  then have "len \<le> 2 ^ log2up len" using log2up_spec(2) [of len] by simp
  also have "\<dots> \<le> 2 ^ 20" using block by (intro power_increasing) auto
  finally show ?thesis by simp
next
  case (huge l)
  have "log2up bytes \<le> 32" using assms(2) log2up_spec(3) [of 32 bytes] by (metis leD linorder_le_less_linear)
  then have "log_num_superblocks bytes \<le> 11" by (simp add: log_num_superblocks_def addr_bits_def)
  then have "num_superblocks bytes \<le> 2 ^ 11" unfolding num_superblocks_def by (intro power_increasing) auto
  then have "num_superblocks bytes \<le> 2048" by simp
  moreover have "superblock_free_idx s + 2 ^ (l - 21) \<le> num_superblocks bytes"
    using huge by (auto simp: malloc_huge_eq Let_def split: if_splits)
  moreover have "0 < (2::nat) ^ (l - 21)" by simp
  ultimately have "superblock_free_idx s < 2048" by linarith
  then show ?thesis ..
qed

lemma malloc_sound:
  assumes "alloc_inv bytes s L" "bytes \<le> 2 ^ 32" "malloc bytes s len = Some (Inr (s', a))"
  shows "\<exists>p. alloc_inv bytes s' (insert p L) \<and> p \<notin> L \<and> piece_addr p = a \<and> len \<le> piece_size p"
  by (rule malloc_inv [OF assms(1,3) malloc_fits [OF assms]])

section \<open>The contract of an allocator of device memory\<close>

text \<open>
  What a client relies on, whatever the allocator: a successful request adds one live region of at
  least the requested length, and live regions never overlap or leave the device.
\<close>

fun alloc_all :: "('s \<Rightarrow> nat \<Rightarrow> ('s \<times> nat) option) \<Rightarrow> 's \<Rightarrow> nat list \<Rightarrow> ('s \<times> nat list) option" where
  "alloc_all alloc s [] = Some (s, [])"
| "alloc_all alloc s (len # lens) =
     (case alloc s len of None \<Rightarrow> None
      | Some (s1, a) \<Rightarrow> map_option (\<lambda>(t, as). (t, a # as)) (alloc_all alloc s1 lens))"

locale region_allocator =
  fixes inv :: "'s \<Rightarrow> 'p set \<Rightarrow> bool"
    and alloc :: "'s \<Rightarrow> nat \<Rightarrow> ('s \<times> nat) option"
    and addr :: "'p \<Rightarrow> nat" and extent :: "'p \<Rightarrow> nat" and limit :: nat
  assumes alloc_sound: "inv s L \<Longrightarrow> alloc s len = Some (s', a) \<Longrightarrow>
      \<exists>p. inv s' (insert p L) \<and> p \<notin> L \<and> addr p = a \<and> len \<le> extent p"
    and apart: "inv s L \<Longrightarrow> p \<in> L \<Longrightarrow> q \<in> L \<Longrightarrow> p \<noteq> q \<Longrightarrow>
      addr p + extent p \<le> addr q \<or> addr q + extent q \<le> addr p"
    and bounded: "inv s L \<Longrightarrow> p \<in> L \<Longrightarrow> addr p + extent p \<le> limit"
begin

lemma alloc_fresh:
  assumes "inv s L" "alloc s len = Some (s', a)"
  shows "\<exists>p. inv s' (insert p L) \<and> p \<notin> L \<and> addr p = a \<and> len \<le> extent p \<and> a + len \<le> limit \<and>
           (\<forall>q \<in> L. a + len \<le> addr q \<or> addr q + extent q \<le> a)"
proof -
  obtain p where p: "inv s' (insert p L)" "p \<notin> L" "addr p = a" "len \<le> extent p"
    using alloc_sound [OF assms] by blast
  have "a + len \<le> addr q \<or> addr q + extent q \<le> a" if "q \<in> L" for q
    using apart [OF p(1), of p q] that p by (metis add_le_cancel_left insertCI order_trans)
  moreover have "a + len \<le> limit" using bounded [OF p(1), of p] p by simp
  ultimately show ?thesis using p by blast
qed

lemma run_apart:
  assumes "inv s L" and "alloc_all alloc s lens = Some (s', as)"
  shows "\<exists>ps. inv s' (L \<union> set ps) \<and> distinct ps \<and> set ps \<inter> L = {} \<and> map addr ps = as \<and>
           list_all2 (\<lambda>len p. len \<le> extent p) lens ps"
  using assms
proof (induction lens arbitrary: s L as)
  case Nil
  then show ?case by (intro exI [of _ "[]"]) simp
next
  case (Cons len lens)
  then obtain t a bs where t: "alloc s len = Some (t, a)" "alloc_all alloc t lens = Some (s', bs)" "as = a # bs"
    by (auto split: option.splits prod.splits)
  obtain p where p: "inv t (insert p L)" "p \<notin> L" "addr p = a" "len \<le> extent p"
    using alloc_sound [OF Cons.prems(1) t(1)] by blast
  obtain ps where ps: "inv s' (insert p L \<union> set ps)" "distinct ps" "set ps \<inter> insert p L = {}"
    "map addr ps = bs" "list_all2 (\<lambda>len p. len \<le> extent p) lens ps"
    using Cons.IH [OF p(1) t(2)] by blast
  then show ?case using p t by (intro exI [of _ "p # ps"]) auto
qed

lemma run_disjoint:
  assumes "inv s {}" and "alloc_all alloc s lens = Some (s', as)"
  shows "length as = length lens \<and>
    (\<forall>i < length as. as ! i + lens ! i \<le> limit) \<and>
    (\<forall>i < length as. \<forall>j < length as. i \<noteq> j \<longrightarrow> as ! i + lens ! i \<le> as ! j \<or> as ! j + lens ! j \<le> as ! i)"
proof -
  obtain ps where ps: "inv s' (set ps)" "distinct ps" "map addr ps = as"
    "list_all2 (\<lambda>len p. len \<le> extent p) lens ps"
    using run_apart [OF assms] by auto
  have len: "length ps = length lens" "length as = length lens"
    using ps(3,4) by (auto dest: list_all2_lengthD)
  have elem: "as ! i = addr (ps ! i) \<and> lens ! i \<le> extent (ps ! i) \<and> ps ! i \<in> set ps" if "i < length as" for i
    using that ps(3,4) len by (auto simp: list_all2_conv_all_nth)
  have "as ! i + lens ! i \<le> limit" if "i < length as" for i
    using elem [OF that] bounded [OF ps(1), of "ps ! i"] by linarith
  moreover have "as ! i + lens ! i \<le> as ! j \<or> as ! j + lens ! j \<le> as ! i"
    if "i < length as" "j < length as" "i \<noteq> j" for i j
  proof -
    have "ps ! i \<noteq> ps ! j" using that ps(2) len by (simp add: nth_eq_iff_index_eq)
    then show ?thesis using elem [OF that(1)] elem [OF that(2)] apart [OF ps(1), of "ps ! i" "ps ! j"] by linarith
  qed
  ultimately show ?thesis using len by blast
qed

end

definition malloc_opt :: "nat \<Rightarrow> device_allocator \<Rightarrow> nat \<Rightarrow> (device_allocator \<times> nat) option" where
  "malloc_opt bytes s len = (case malloc bytes s len of Some (Inr r) \<Rightarrow> Some r | _ \<Rightarrow> None)"

lemma malloc_opt_Some: "malloc_opt bytes s len = Some r \<longleftrightarrow> malloc bytes s len = Some (Inr r)"
  by (auto simp: malloc_opt_def split: option.splits sum.splits)

definition small_device_inv :: "nat \<Rightarrow> device_allocator \<Rightarrow> piece set \<Rightarrow> bool" where
  "small_device_inv bytes s L \<longleftrightarrow> alloc_inv bytes s L \<and> bytes \<le> 2 ^ 32"

interpretation device: region_allocator "small_device_inv bytes" "malloc_opt bytes" piece_addr piece_size
  "num_superblocks bytes * superblock_size" for bytes
proof (unfold_locales, goal_cases)
  case 1
  then show ?case using malloc_sound by (auto simp: small_device_inv_def malloc_opt_Some)
next
  case (2 s L p q)
  then show ?case using alloc_inv_disjoint [of bytes s L p q]
    unfolding small_device_inv_def disjoint_regions_def by blast
next
  case 3
  then show ?case using alloc_inv_bounds by (auto simp: small_device_inv_def)
qed

section \<open>Properties\<close>

text \<open>
  C1. Any sequence of requests, small and large, that a freshly constructed allocator for at most
  4 GiB of device memory serves without a free in between returns regions that lie inside the
  device, have at least the requested length and are pairwise disjoint.
\<close>

theorem malloc_sequence_disjoint:
  assumes "bytes \<le> 2 ^ 32" and "alloc_all (malloc_opt bytes) (device_allocator_init bytes) lens = Some (s', as)"
  shows "length as = length lens \<and>
    (\<forall>i < length as. as ! i + lens ! i \<le> num_superblocks bytes * superblock_size) \<and>
    (\<forall>i < length as. \<forall>j < length as. i \<noteq> j \<longrightarrow> as ! i + lens ! i \<le> as ! j \<or> as ! j + lens ! j \<le> as ! i)"
  using assms alloc_inv_init by (intro device.run_disjoint) (auto simp: small_device_inv_def)

lemma log2up_pow2s:
  "log2up 1048576 = 20" "log2up 524288 = 19" "log2up 262144 = 18" "log2up 2097152 = 21" "log2up 8388608 = 23"
  by (simp_all add: log2up_eq)

lemma device_8MiB: "log_num_superblocks 8388608 = 2" "num_superblocks 8388608 = 4"
  by (simp_all add: log_num_superblocks_def addr_bits_def num_superblocks_def log2up_pow2s)

lemma replicate_4: "replicate 4 x = [x, x, x, x]"
  and replicate_9: "replicate 9 x = [x, x, x, x, x, x, x, x, x]"
  by (simp_all add: numeral_eq_Suc)

lemmas alloc_eval = malloc_opt_def malloc_def malloc_block_def Let_def log2up_pow2s device_8MiB
  device_allocator_init_def init_block_superblock_def new_superblock_def set_emplace_def superblock_size_def
  upt_rec BLOCK_ALLOC_def BASE_ALLOCATION_def replicate_4 replicate_9 free_def get_block_info_def
  superblock_id_mask_eq block_id_mask_eq free_block_def drop_bit_eq_div malloc_huge_eq mark_huge_def free_huge_def

theorem malloc_sequence_disjoint_witness:
  "\<exists>s'. alloc_all (malloc_opt 8388608) (device_allocator_init 8388608) [1048576, 524288] =
          Some (s', [1048576, 3670016]) \<and>
        [1048576, 3670016] ! 0 + [1048576, 524288] ! 0 \<le> (8388608 :: nat)"
proof -
  obtain s' where s': "alloc_all (malloc_opt 8388608) (device_allocator_init 8388608) [1048576, 524288] =
      Some (s', [1048576, 3670016])"
    by (simp add: alloc_eval)
  have "[1048576, 3670016] ! 0 + [1048576, 524288] ! 0 \<le> (8388608 :: nat)"
    using malloc_sequence_disjoint [OF _ s'] by (simp add: device_8MiB superblock_size_def)
  with s' show ?thesis by blast
qed

text \<open>
  C19. A request made in any state that satisfies the invariant, frees included, and answered with
  address \<open>a\<close> gets a region of its own: there is a new live piece at \<open>a\<close> of at least the requested
  length, the region stays inside the device, it is disjoint from every live piece, and the
  invariant holds again.
\<close>

theorem malloc_fresh_region:
  assumes "alloc_inv bytes s L" and "bytes \<le> 2 ^ 32" and "malloc bytes s len = Some (Inr (s', a))"
  shows "\<exists>p. alloc_inv bytes s' (insert p L) \<and> p \<notin> L \<and> piece_addr p = a \<and> len \<le> piece_size p \<and>
           a + len \<le> num_superblocks bytes * superblock_size \<and>
           (\<forall>q \<in> L. a + len \<le> piece_addr q \<or> piece_addr q + piece_size q \<le> a)"
  using device.alloc_fresh [of bytes s L len s' a] assms by (auto simp: small_device_inv_def malloc_opt_Some)

theorem malloc_fresh_region_witness:
  "\<exists>s' p. malloc 8388608 (device_allocator_init 8388608) 1048576 = Some (Inr (s', 1048576)) \<and>
          alloc_inv 8388608 s' {p} \<and> piece_addr p = 1048576 \<and> 1048576 \<le> piece_size p"
proof -
  obtain s' where s': "malloc 8388608 (device_allocator_init 8388608) 1048576 = Some (Inr (s', 1048576))"
    by (simp add: alloc_eval)
  then show ?thesis using malloc_fresh_region [OF alloc_inv_init _ s'] by auto
qed

lemma log2up_small: "len \<le> 2 ^ 20 \<Longrightarrow> log2up len \<le> 20"
  using log2up_spec(3) [of 20 len] by (metis leD linorder_le_less_linear)

lemma log2up_lower: "2 ^ k < len \<Longrightarrow> k < 63 \<Longrightarrow> k < log2up len"
proof (rule ccontr)
  assume a: "2 ^ k < len" "k < 63" "\<not> k < log2up len"
  then have "len \<le> 2 ^ log2up len" by (intro log2up_spec(2)) simp
  also have "\<dots> \<le> 2 ^ k" using a(3) by (intro power_increasing) auto
  finally show False using a(1) by simp
qed

text \<open>
  A request of at most 1 MiB is always served while a superblock is available: if its size
  class has an open superblock, or the free list is not empty, or untouched superblocks remain,
  \<^verbatim>\<open>malloc\<close> returns an address and takes none of its exits.
\<close>

theorem malloc_small_returns:
  assumes inv: "alloc_inv bytes s L" and len: "len \<le> 2 ^ 20"
    and space: "superblock_head_list s ! (max (log2up len) 12 - 12) \<noteq> [] \<or> free_list s \<noteq> [] \<or>
                superblock_free_idx s < num_superblocks bytes"
  shows "\<exists>s' a. malloc bytes s len = Some (Inr (s', a))"
proof -
  note D = alloc_invD [OF inv]
  define l where "l = max (log2up len) 12"
  have l: "12 \<le> l" "l \<le> 20" using log2up_small [OF len] by (auto simp: l_def)
  have m: "(2::nat) ^ (21 - l) < 65536"
  proof -
    have "(2::nat) ^ (21 - l) \<le> 2 ^ 9" using l by (intro power_increasing) auto
    then show ?thesis by simp
  qed
  have "\<exists>s' a. malloc_block s l (l - 12) = Inr (s', a)"
  proof (cases "superblock_head_list s ! (l - 12)")
    case Nil
    have "hd (free_list s) < superblock_free_idx s" if "free_list s \<noteq> []"
      using D(4) hd_in_set [OF that] by auto
    then show ?thesis using Nil space D(1,2) m
      by (fastforce simp: malloc_block_def Let_def l_def [symmetric])
  next
    case (Cons x xs)
    then have "in_head s (l - 12) x" using in_headD [OF D(6), of "l - 12" x] l by simp
    then have "x < length (superblocks s)" "free_blocks (superblocks s ! x) \<noteq> []"
      using D(1,2) by (auto simp: in_head_def used_def)
    then show ?thesis using Cons by (auto simp: malloc_block_def Let_def)
  qed
  then show ?thesis using l by (auto simp: malloc_def Let_def l_def [symmetric])
qed

theorem malloc_small_returns_witness:
  "\<exists>s' a. malloc 8388608 (device_allocator_init 8388608) 524288 = Some (Inr (s', a))"
  using malloc_small_returns [OF alloc_inv_init, of 524288 8388608]
  by (simp add: device_8MiB device_allocator_init_def)

text \<open>
  C20. When \<^verbatim>\<open>malloc\<close> does not return: the request needs whole superblocks (more than 1 MiB, at
  most 2 GiB) and the free list is not empty. The best-fit search then keeps looking at the last
  segment of the free list without removing it. Every other call ends.
\<close>

theorem malloc_diverges_iff:
  "malloc bytes s len = None \<longleftrightarrow> 2 ^ 20 < len \<and> len \<le> 2 ^ 31 \<and> free_list s \<noteq> []"
proof -
  have lo: "21 \<le> log2up len \<longleftrightarrow> 2 ^ 20 < len"
  proof
    assume "21 \<le> log2up len"
    then show "2 ^ 20 < len" by (intro log2up_spec(3)) simp
  next
    assume "2 ^ 20 < len"
    then show "21 \<le> log2up len" using log2up_lower [of 20 len] by simp
  qed
  have hi: "log2up len < 32 \<longleftrightarrow> len \<le> 2 ^ 31"
  proof
    assume l: "log2up len < 32"
    then have "len \<le> 2 ^ log2up len" by (intro log2up_spec(2)) simp
    also have "\<dots> \<le> 2 ^ 31" using l by (intro power_increasing) auto
    finally show "len \<le> 2 ^ 31" .
  next
    assume "len \<le> 2 ^ 31"
    then have "\<not> 31 < log2up len" using log2up_spec(3) [of 31 len] by auto
    then show "log2up len < 32" by simp
  qed
  have small: "(2::nat) ^ (l - 21) AND 0xFFFF0000 = 0" if "l < 32" for l
  proof -
    have "(2::nat) ^ (l - 21) AND push_bit 16 (mask 16) = 0"
      using that by (intro bit_eqI) (auto simp: bit_simps)
    then show ?thesis by (simp add: mask_eq_exp_minus_1 push_bit_eq_mult)
  qed
  have "malloc bytes s len = None \<longleftrightarrow> 21 \<le> log2up len \<and> log2up len < 32 \<and> free_list s \<noteq> []"
    using small [of "log2up len"] by (auto simp: malloc_def Let_def malloc_huge_eq max_def split: if_splits)
  then show ?thesis using lo hi by blast
qed

lemma malloc_8MiB_first:
  assumes s: "malloc 8388608 (device_allocator_init 8388608) 1048576 = Some (Inr (s, 1048576))"
  shows "alloc_inv 8388608 s {Block 0 20 1}"
proof -
  from s have "malloc_block (device_allocator_init 8388608) 20 (20 - 12) = Inr (s, 1048576)"
    by (simp add: malloc_def Let_def log2up_pow2s)
  then obtain x b where "1048576 = piece_addr (Block x 20 b)" "alloc_inv 8388608 s {Block x 20 b}"
    using malloc_block_inv [OF alloc_inv_init, of 20 8388608] by auto
  moreover from this have "x = 0 \<and> b = 1"
    using superblock_size_def by (cases x) auto
  ultimately show ?thesis by simp
qed

text \<open>
  Returning a block of superblock 0 works: \<^verbatim>\<open>free\<close> of the address of a live block in
  superblock 0 ends normally, whether the superblock becomes empty, newly available or neither,
  and the invariant holds for the remaining live pieces, so the statements about fresh regions apply to the requests that follow.
\<close>

theorem free_superblock0:
  assumes "alloc_inv bytes s L" and "Block 0 l b \<in> L"
  shows "\<exists>s'. free bytes s (b * 2 ^ l) = Inr s' \<and> alloc_inv bytes s' (L - {Block 0 l b})"
  using free_inv [OF assms] by simp

theorem free_superblock0_witness:
  "\<exists>s s'. malloc 8388608 (device_allocator_init 8388608) 1048576 = Some (Inr (s, 1048576)) \<and>
          free 8388608 s (1 * 2 ^ 20) = Inr s' \<and> alloc_inv 8388608 s' {}"
proof -
  obtain s where s: "malloc 8388608 (device_allocator_init 8388608) 1048576 = Some (Inr (s, 1048576))"
    by (simp add: alloc_eval)
  have inv: "alloc_inv 8388608 s {Block 0 20 1}" by (rule malloc_8MiB_first [OF s])
  show ?thesis using s free_superblock0 [OF inv, of 20 1] by auto
qed

text \<open>
  What \<^verbatim>\<open>get_block_info\<close> recovers from the address of block \<open>b\<close> of superblock \<open>x\<close>: the mask on
  the block id is not reduced to the block's superblock, so the id still carries the superblock
  number. It is the block's own number for superblock 0 only.
\<close>

theorem get_block_info_block:
  assumes "x < length (superblocks s)" and "length (superblocks s) = num_superblocks bytes"
    and "is_block (superblocks s ! x)" and "log_block_size (superblocks s ! x) = l"
    and "12 \<le> l" and "l \<le> 20" and "b < 2 ^ (21 - l)"
  shows "get_block_info bytes s (x * superblock_size + b * 2 ^ l) =
           Inr (x, (x * 2 ^ (21 - l) + b) mod 2 ^ 22)"
proof -
  have S: "superblock_size = 2 ^ (21 - l) * 2 ^ l"
    using assms(6) by (simp add: superblock_size_def flip: power_add)
  have "b * 2 ^ l < superblock_size" using assms(7) by (simp add: S)
  then have hi: "drop_bit 21 (x * superblock_size + b * 2 ^ l) = x"
    by (simp add: drop_bit_eq_div superblock_size_def)
  have lo: "drop_bit l (x * superblock_size + b * 2 ^ l) = x * 2 ^ (21 - l) + b"
    by (simp add: drop_bit_eq_div S flip: distrib_right mult.assoc)
  have "x < 2 ^ Suc (log_num_superblocks bytes)" using assms(1,2) by (simp add: num_superblocks_def)
  then show ?thesis using assms
    by (simp add: get_block_info_def Let_def hi lo superblock_id_mask_eq block_id_mask_eq is_block_def
        take_bit_eq_mod flip: take_bit_eq_mask)
qed

theorem get_block_info_block_witness:
  "let s = device_allocator_init 8388608;
       t = s\<lparr>superblocks := (superblocks s)[1 := init_block_superblock 19 new_superblock]\<rparr>
   in get_block_info 8388608 t (1 * superblock_size + 2 * 2 ^ 19) = Inr (1, 6)"
  using get_block_info_block [of 1 "device_allocator_init 8388608\<lparr>superblocks :=
      (superblocks (device_allocator_init 8388608))[1 := init_block_superblock 19 new_superblock]\<rparr>" 8388608 19 2]
  by (simp add: Let_def device_allocator_init_def device_8MiB is_block_def init_block_superblock_def
      BLOCK_ALLOC_def)

text \<open>
  In superblock 1, a block that is freed and requested again comes back
  as an address outside the superblock. After the four requests of the example the fourth
  block, \<open>[3 MiB, 3.5 MiB)\<close>, is freed; the next request of the same size is answered with 5 MiB.
\<close>

theorem free_then_malloc_moves:
  "map_option snd (run_ops 8388608 (device_allocator_init 8388608)
     [Malloc 1048576, Malloc 1048576, Malloc 524288, Malloc 524288, Free 3145728, Malloc 524288]) =
   Some [1048576, 0, 3670016, 3145728, 5242880]"
  by (simp add: alloc_eval flip: take_bit_eq_mask)

text \<open>
  A large allocation that lies one superblock below the barrier is taken for one that touches
  it when it is freed: the superblock above it, still in use, returns to the untouched area. In
  the example the second address, a live block of 1 MiB at 3 MiB, and the last one, 256 KiB at
  3.75 MiB, overlap.
\<close>

theorem free_huge_overlap:
  "map_option snd (run_ops 8388608 (device_allocator_init 8388608)
     [Malloc 2097152, Malloc 1048576, Free 0, Malloc 524288, Malloc 262144]) =
   Some [0, 3145728, 1572864, 3932160]"
  by (simp add: alloc_eval flip: take_bit_eq_mask)

end
