(* ===== verification/AddressTranslator.thy ===== *)
theory AddressTranslator
  imports Prelude
begin

text \<open>
  The runtime's address translator (\<^verbatim>\<open>runtime/include/core/data_server.h\<close>,
  \<^verbatim>\<open>runtime/src/core/data_server.cc\<close>): the table that sends an address of the device to the
  host memory that backs it. Addresses and lengths are 64-bit words and their sums wrap.
\<close>

section \<open>Data and operations\<close>

record addr_pair =
  fpga_addr :: u64
  mapping_length :: u64
  cpu_addr :: u64

text \<open>
  A \<^verbatim>\<open>std::set<addr_pair>\<close> is ordered by \<^verbatim>\<open>fpga_addr\<close> alone, so two pairs with the same device
  address are the same element. It is the list of its elements in iteration order.
\<close>

type_synonym address_translator = "addr_pair list"

datatype translate_error = BadAddress | OutOfMapping | MappingNotFound

definition contains_addr :: "addr_pair \<Rightarrow> u64 \<Rightarrow> bool" where
  "contains_addr p a \<longleftrightarrow> fpga_addr p \<le> a \<and> fpga_addr p + mapping_length p > a"

text \<open>
  The scan from the first element, the exception when no element contains the address, and the
  second bounds check. (The VPI build of the simulator returns a null pointer instead of throwing.)
\<close>

definition translate :: "address_translator \<Rightarrow> u64 \<Rightarrow> translate_error + u64" where
  "translate mappings fp_addr =
     (case find (\<lambda>p. contains_addr p fp_addr) mappings of
        None \<Rightarrow> Inl BadAddress
      | Some it \<Rightarrow>
          if fpga_addr it + mapping_length it \<le> fp_addr then Inl OutOfMapping
          else Inr (cpu_addr it + (fp_addr - fpga_addr it)))"

fun emplace :: "addr_pair \<Rightarrow> address_translator \<Rightarrow> address_translator" where
  "emplace p [] = [p]"
| "emplace p (q # qs) =
     (if fpga_addr p < fpga_addr q then p # q # qs
      else if fpga_addr q < fpga_addr p then q # emplace p qs
      else q # qs)"

definition add_mapping :: "u64 \<Rightarrow> u64 \<Rightarrow> u64 \<Rightarrow> address_translator \<Rightarrow> address_translator" where
  "add_mapping fpga len cpu mappings =
     emplace \<lparr>fpga_addr = fpga, mapping_length = len, cpu_addr = cpu\<rparr> mappings"

definition remove_mapping :: "u64 \<Rightarrow> address_translator \<Rightarrow> translate_error + address_translator" where
  "remove_mapping fpga mappings =
     (if \<exists>p \<in> set mappings. fpga_addr p = fpga
      then Inr (remove1 (hd (filter (\<lambda>p. fpga_addr p = fpga) mappings)) mappings)
      else Inl MappingNotFound)"

definition get_mapping :: "address_translator \<Rightarrow> u64 \<Rightarrow> translate_error + (u64 \<times> u64)" where
  "get_mapping mappings fpga =
     (case find (\<lambda>p. fpga_addr p = fpga) mappings of
        None \<Rightarrow> Inl MappingNotFound
      | Some it \<Rightarrow> Inr (cpu_addr it, mapping_length it))"

section \<open>The invariant\<close>

text \<open>
  Elements in strictly increasing order of device address, none of them empty or wrapping around
  the address space, no two of them overlapping.
\<close>

definition valid_pair :: "addr_pair \<Rightarrow> bool" where
  "valid_pair p \<longleftrightarrow> 0 < mapping_length p \<and> unat (fpga_addr p) + unat (mapping_length p) < 2 ^ 64"

definition apart_pairs :: "addr_pair \<Rightarrow> addr_pair \<Rightarrow> bool" where
  "apart_pairs p q \<longleftrightarrow>
     unat (fpga_addr p) + unat (mapping_length p) \<le> unat (fpga_addr q) \<or>
     unat (fpga_addr q) + unat (mapping_length q) \<le> unat (fpga_addr p)"

definition at_ordered :: "address_translator \<Rightarrow> bool" where
  "at_ordered ms \<longleftrightarrow> sorted_wrt (\<lambda>p q. fpga_addr p < fpga_addr q) ms"

definition at_ok :: "address_translator \<Rightarrow> bool" where
  "at_ok ms \<longleftrightarrow> at_ordered ms \<and> (\<forall>p \<in> set ms. valid_pair p) \<and>
     (\<forall>p \<in> set ms. \<forall>q \<in> set ms. p \<noteq> q \<longrightarrow> apart_pairs p q)"

lemma contains_addr_nat:
  "valid_pair p \<Longrightarrow> contains_addr p a \<longleftrightarrow>
     unat (fpga_addr p) \<le> unat a \<and> unat a < unat (fpga_addr p) + unat (mapping_length p)"
proof -
  assume "valid_pair p"
  then have "unat (fpga_addr p + mapping_length p) = unat (fpga_addr p) + unat (mapping_length p)"
    by (intro unat_add_lem [THEN iffD1]) (simp add: valid_pair_def)
  then show ?thesis by (simp add: contains_addr_def word_le_nat_alt word_less_nat_alt)
qed

lemma contains_addr_unique:
  "at_ok ms \<Longrightarrow> p \<in> set ms \<Longrightarrow> q \<in> set ms \<Longrightarrow> contains_addr p a \<Longrightarrow> contains_addr q a \<Longrightarrow> p = q"
proof (rule ccontr)
  assume ok: "at_ok ms" "p \<in> set ms" "q \<in> set ms" and c: "contains_addr p a" "contains_addr q a" and "p \<noteq> q"
  then have "apart_pairs p q" "valid_pair p" "valid_pair q" by (auto simp: at_ok_def)
  with c show False by (auto simp: contains_addr_nat apart_pairs_def)
qed

lemma find_unique:
  assumes "x \<in> set xs" "P x" "\<And>y. y \<in> set xs \<Longrightarrow> P y \<Longrightarrow> y = x"
  shows "find P xs = Some x"
proof -
  obtain y where "find P xs = Some y" using assms(1,2) by (cases "find P xs") (auto simp: find_None_iff)
  moreover from this have "y \<in> set xs" "P y" by (auto simp: find_Some_iff)
  ultimately show ?thesis using assms(3) by blast
qed

lemma translate_in:
  assumes "at_ok ms" "p \<in> set ms" "contains_addr p a"
  shows "translate ms a = Inr (cpu_addr p + (a - fpga_addr p))"
proof -
  have "find (\<lambda>p. contains_addr p a) ms = Some p"
    using assms contains_addr_unique by (intro find_unique) blast+
  then show ?thesis using assms(3) by (auto simp: translate_def contains_addr_def)
qed

lemma translate_out: "(\<And>p. p \<in> set ms \<Longrightarrow> \<not> contains_addr p a) \<Longrightarrow> translate ms a = Inl BadAddress"
  by (auto simp: translate_def find_None_iff split: option.splits)

lemma set_emplace_fresh:
  "(\<And>q. q \<in> set ms \<Longrightarrow> fpga_addr q \<noteq> fpga_addr p) \<Longrightarrow> set (emplace p ms) = insert p (set ms)"
proof (induction ms)
  case (Cons q ms)
  have "fpga_addr q \<noteq> fpga_addr p" using Cons.prems by auto
  moreover have "set (emplace p ms) = insert p (set ms)"
    by (rule Cons.IH) (use Cons.prems in auto)
  ultimately show ?case by (auto simp: not_less_iff_gr_or_eq)
qed simp

lemma set_emplace_subset: "set (emplace p ms) \<subseteq> insert p (set ms)"
  by (induction ms) auto

lemma emplace_present: "at_ordered ms \<Longrightarrow> q \<in> set ms \<Longrightarrow> fpga_addr q = fpga_addr p \<Longrightarrow> emplace p ms = ms"
  by (induction ms) (auto simp: at_ordered_def dest: less_asym)

lemma emplace_ordered: "at_ordered ms \<Longrightarrow> at_ordered (emplace p ms)"
  unfolding at_ordered_def
  by (induction ms) (use set_emplace_subset in \<open>fastforce simp: not_less_iff_gr_or_eq\<close>)+

lemma emplace_ok:
  assumes "at_ok ms" "valid_pair p" "\<And>q. q \<in> set ms \<Longrightarrow> apart_pairs p q"
  shows "at_ok (emplace p ms)"
  using assms emplace_ordered [of ms p] set_emplace_subset [of p ms]
  unfolding at_ok_def by (auto simp: apart_pairs_def subset_iff) blast+

lemma at_ordered_inj: "at_ordered ms \<Longrightarrow> p \<in> set ms \<Longrightarrow> q \<in> set ms \<Longrightarrow> fpga_addr p = fpga_addr q \<Longrightarrow> p = q"
  unfolding at_ordered_def by (induction ms) auto

lemma at_ordered_distinct: "at_ordered ms \<Longrightarrow> distinct ms"
  unfolding at_ordered_def by (induction ms) auto

lemma remove_mapping_Inr:
  assumes "at_ordered ms" "p \<in> set ms"
  shows "remove_mapping (fpga_addr p) ms = Inr (remove1 p ms)"
proof -
  let ?f = "filter (\<lambda>q. fpga_addr q = fpga_addr p) ms"
  have "hd ?f \<in> set ?f" using assms(2) by (intro hd_in_set) (auto simp: filter_empty_conv)
  then have "hd ?f = p" using at_ordered_inj [OF assms(1)] assms(2) by auto
  then show ?thesis using assms(2) by (auto simp: remove_mapping_def)
qed

lemma remove1_ok: "at_ok ms \<Longrightarrow> at_ok (remove1 p ms)"
proof -
  assume ok: "at_ok ms"
  then have "at_ordered (remove1 p ms)"
    unfolding at_ok_def at_ordered_def by (induction ms) (auto dest: notin_set_remove1)
  then show ?thesis using ok set_remove1_subset [of p ms] unfolding at_ok_def by blast
qed

lemma apart_keys: "valid_pair p \<Longrightarrow> valid_pair q \<Longrightarrow> apart_pairs p q \<Longrightarrow> fpga_addr q \<noteq> fpga_addr p"
  by (auto simp: valid_pair_def apart_pairs_def word_less_nat_alt)

section \<open>The contract of a table of mappings\<close>

text \<open>
  What the data server and the memory model rely on: a lookup inside a registered region gives the
  host address at the same offset, a lookup outside all regions fails, adding a region that is
  apart from the others adds exactly it, and removing one removes exactly it.
\<close>

locale region_table =
  fixes ok :: "'t \<Rightarrow> bool"
    and regions :: "'t \<Rightarrow> addr_pair set"
    and look :: "'t \<Rightarrow> u64 \<Rightarrow> 'e + u64"
    and add :: "addr_pair \<Rightarrow> 't \<Rightarrow> 't"
    and del :: "u64 \<Rightarrow> 't \<Rightarrow> 'e + 't"
  assumes look_in: "ok t \<Longrightarrow> p \<in> regions t \<Longrightarrow> contains_addr p a \<Longrightarrow> look t a = Inr (cpu_addr p + (a - fpga_addr p))"
    and look_out: "ok t \<Longrightarrow> (\<And>p. p \<in> regions t \<Longrightarrow> \<not> contains_addr p a) \<Longrightarrow> \<exists>e. look t a = Inl e"
    and add_ok: "ok t \<Longrightarrow> valid_pair p \<Longrightarrow> (\<And>q. q \<in> regions t \<Longrightarrow> apart_pairs p q) \<Longrightarrow>
      ok (add p t) \<and> regions (add p t) = insert p (regions t)"
    and del_ok: "ok t \<Longrightarrow> p \<in> regions t \<Longrightarrow> \<exists>t'. del (fpga_addr p) t = Inr t' \<and> ok t' \<and> regions t' = regions t - {p}"
    and valid: "ok t \<Longrightarrow> p \<in> regions t \<Longrightarrow> valid_pair p"
    and separate: "ok t \<Longrightarrow> p \<in> regions t \<Longrightarrow> q \<in> regions t \<Longrightarrow> p \<noteq> q \<Longrightarrow> apart_pairs p q"
begin

lemma look_Inr_iff:
  assumes "ok t"
  shows "look t a = Inr c \<longleftrightarrow> (\<exists>p \<in> regions t. contains_addr p a \<and> c = cpu_addr p + (a - fpga_addr p))"
proof (cases "\<exists>p \<in> regions t. contains_addr p a")
  case True
  then obtain p where p: "p \<in> regions t" "contains_addr p a" by blast
  have "q = p" if "q \<in> regions t" "contains_addr q a" for q
  proof (rule ccontr)
    assume "q \<noteq> p"
    then have "apart_pairs q p" using separate assms p that by blast
    then show False using that p valid [OF assms] by (auto simp: contains_addr_nat apart_pairs_def)
  qed
  then have "(\<exists>q \<in> regions t. contains_addr q a \<and> c = cpu_addr q + (a - fpga_addr q)) \<longleftrightarrow>
      c = cpu_addr p + (a - fpga_addr p)" using p by blast
  then show ?thesis using look_in [OF assms p] by auto
next
  case False
  then show ?thesis using look_out [OF assms, of a] by auto
qed

lemma add_look:
  assumes "ok t" "valid_pair p" "\<And>q. q \<in> regions t \<Longrightarrow> apart_pairs p q"
  shows "look (add p t) a = Inr c \<longleftrightarrow>
    (if contains_addr p a then c = cpu_addr p + (a - fpga_addr p) else look t a = Inr c)"
proof -
  have t': "ok (add p t)" "regions (add p t) = insert p (regions t)" using add_ok [OF assms] by auto
  have "\<not> contains_addr q a" if "contains_addr p a" "q \<in> regions t" for q
    using assms(3) [OF that(2)] that assms(2) valid [OF assms(1) that(2)]
    by (auto simp: contains_addr_nat apart_pairs_def)
  then show ?thesis using t' by (auto simp: look_Inr_iff assms(1))
qed

lemma del_look:
  assumes "ok t" "p \<in> regions t" "del (fpga_addr p) t = Inr t'"
  shows "look t' a = Inr c \<longleftrightarrow> \<not> contains_addr p a \<and> look t a = Inr c"
proof -
  have t': "ok t'" "regions t' = regions t - {p}" using del_ok [OF assms(1,2)] assms(3) by auto
  have "q = p" if "q \<in> regions t" "contains_addr q a" "contains_addr p a" for q
    using separate [OF assms(1) that(1) assms(2)] that valid [OF assms(1)] assms(2)
    by (auto simp: contains_addr_nat apart_pairs_def)
  then show ?thesis using t' by (auto simp: look_Inr_iff assms(1))
qed

end

definition add_pair :: "addr_pair \<Rightarrow> address_translator \<Rightarrow> address_translator" where
  "add_pair p = add_mapping (fpga_addr p) (mapping_length p) (cpu_addr p)"

lemma add_pair_emplace: "add_pair p ms = emplace p ms"
  by (cases p) (simp add: add_pair_def add_mapping_def)

interpretation at: region_table at_ok set translate add_pair remove_mapping
proof (unfold_locales, goal_cases)
  case (1 t p a)
  then show ?case by (rule translate_in)
next
  case (2 t a)
  then show ?case by (metis translate_out)
next
  case (3 t p)
  then have "fpga_addr q \<noteq> fpga_addr p" if "q \<in> set t" for q
    using apart_keys [of p q] that by (auto simp: at_ok_def)
  then show ?case using 3 emplace_ok [of t p] set_emplace_fresh [of t p] by (simp add: add_pair_emplace)
next
  case (4 t p)
  then have "at_ordered t" by (simp add: at_ok_def)
  then show ?case using 4 remove_mapping_Inr [of t p] remove1_ok [of t p] at_ordered_distinct [of t] by simp
next
  case (5 t p)
  then show ?case by (simp add: at_ok_def)
next
  case (6 t p q)
  then show ?case by (simp add: at_ok_def)
qed

section \<open>Properties\<close>

text \<open>
  C21. Registering a mapping that is apart from the others makes exactly its addresses
  translatable, each to the host address at the same offset, and leaves the translation of every
  other address as it was; the table's invariant is kept.
\<close>

theorem add_mapping_translate:
  assumes "at_ok ms" and "valid_pair p" and "\<forall>q \<in> set ms. apart_pairs p q"
  shows "at_ok (add_mapping (fpga_addr p) (mapping_length p) (cpu_addr p) ms) \<and>
    (translate (add_mapping (fpga_addr p) (mapping_length p) (cpu_addr p) ms) a = Inr c \<longleftrightarrow>
       (if contains_addr p a then c = cpu_addr p + (a - fpga_addr p) else translate ms a = Inr c))"
  using at.add_ok [of ms p] at.add_look [of ms p a c] assms by (simp add: add_pair_def)

theorem add_mapping_translate_witness:
  "translate (add_mapping 0x1000 0x100 0x7000 (add_mapping 0x2000 0x100 0x9000 [])) 0x10ff = Inr 0x70ff"
proof -
  let ?q = "\<lparr>fpga_addr = 0x2000, mapping_length = 0x100, cpu_addr = 0x9000\<rparr>"
  let ?p = "\<lparr>fpga_addr = 0x1000, mapping_length = 0x100, cpu_addr = 0x7000\<rparr>"
  have "at_ok [?q]" by (simp add: at_ok_def at_ordered_def valid_pair_def)
  then show ?thesis using add_mapping_translate [of "[?q]" ?p "0x10ff" "0x70ff"]
    by (simp add: valid_pair_def apart_pairs_def contains_addr_def add_mapping_def)
qed

text \<open>
  Removing a registered mapping succeeds, keeps the invariant, makes its addresses
  untranslatable and touches no other address; removing it once more is reported as an error.
\<close>

theorem remove_mapping_translate:
  assumes "at_ok ms" and "p \<in> set ms"
  shows "\<exists>ms'. remove_mapping (fpga_addr p) ms = Inr ms' \<and> at_ok ms' \<and> set ms' = set ms - {p} \<and>
    (\<forall>a c. translate ms' a = Inr c \<longleftrightarrow> \<not> contains_addr p a \<and> translate ms a = Inr c) \<and>
    remove_mapping (fpga_addr p) ms' = Inl MappingNotFound"
proof -
  obtain ms' where ms': "remove_mapping (fpga_addr p) ms = Inr ms'" "at_ok ms'" "set ms' = set ms - {p}"
    using at.del_ok [OF assms] by blast
  have "remove_mapping (fpga_addr p) ms' = Inl MappingNotFound"
    using at_ordered_inj [of ms _ p] assms ms'(3) by (auto simp: remove_mapping_def at_ok_def)
  then show ?thesis using ms' at.del_look [OF assms ms'(1)] by blast
qed

theorem remove_mapping_translate_witness:
  "\<exists>ms'. remove_mapping 0x1000 [\<lparr>fpga_addr = 0x1000, mapping_length = 0x100, cpu_addr = 0x7000\<rparr>] = Inr ms' \<and>
         at_ok ms'"
  using remove_mapping_translate [of "[\<lparr>fpga_addr = 0x1000, mapping_length = 0x100, cpu_addr = 0x7000\<rparr>]"
      "\<lparr>fpga_addr = 0x1000, mapping_length = 0x100, cpu_addr = 0x7000\<rparr>"]
  by (auto simp: at_ok_def at_ordered_def valid_pair_def)

end
