(* ===== verification/DataServer.thy ===== *)
theory DataServer
  imports DeviceAllocator AddressTranslator
begin

text \<open>
  The data server (\<^verbatim>\<open>runtime/src/core/data_server.cc\<close>): the loop body that serves the allocation,
  release and copy requests clients leave in the shared \<^verbatim>\<open>data_server_file\<close>, on top of the device
  allocator and the address translator, and the client calls of
  \<^verbatim>\<open>libbeethoven/src/fpga_handle_impl/fpga_handle_discrete.cc\<close> that make those requests. What the
  operating system answers (\<^verbatim>\<open>shm_open\<close>, \<^verbatim>\<open>ftruncate\<close>, \<^verbatim>\<open>mmap\<close>, \<^verbatim>\<open>rand\<close>) is an argument.
\<close>

section \<open>Data\<close>

datatype data_server_op = ALLOC | FREE | MOVE_FROM_FPGA | MOVE_TO_FPGA

record data_server_file =
  fname :: string
  resp_id :: u16
  operation :: data_server_op
  op_argument :: u64
  op2_argument :: u64
  op3_argument :: u64
  is_simulation :: bool

definition data_server_file_init :: "data_server_file \<Rightarrow> data_server_file" where
  "data_server_file_init f = f\<lparr>fname := [], op_argument := 0\<rparr>"

text \<open>The preprocessor symbols that select the code of an operation.\<close>

record build_flags =
  def_SIM :: bool
  def_FPGA :: bool
  def_AWS :: bool
  def_ZYNQ :: bool
  def_HAS_DMA :: bool
  def_CUSTOM_ALLOC :: bool

text \<open>A transfer handed to the simulated DMA engine.\<close>

record dma_request =
  dma_ptr :: u64
  dma_fpga_addr :: u64
  dma_len :: u64
  dma_write :: bool

text \<open>
  The server's state: the shared file, the allocator, the translator, the host memory (the shared
  segments) and, for the boards, the device memory seen through \<^verbatim>\<open>devmem_aws_dram\<close>; the host
  segments that are mapped in; the DMA transfers issued so far.
\<close>

record data_server_state =
  dsf :: data_server_file
  allocator :: device_allocator
  mappings :: address_translator
  host_mem :: "u64 \<Rightarrow> u8"
  dev_mem :: "u64 \<Rightarrow> u8"
  segments :: "(u64 \<times> u64) list"
  dma_log :: "dma_request list"

text \<open>What the operating system answers to one allocation.\<close>

record os_alloc =
  rand_name :: string
  shm_fd :: int
  truncate_rc :: int
  mmap_addr :: u64

datatype ds_error =
    ShmOpenFailed | TruncateFailed | MmapNull | MapFailedFault
  | AllocFailed alloc_error | TranslateFailed translate_error | DivByZero

definition MAP_FAILED :: u64 where "MAP_FAILED = - 1"

section \<open>Memory\<close>

text \<open>\<^verbatim>\<open>memset\<close> and \<^verbatim>\<open>memcpy\<close>, one byte at a time from the first.\<close>

fun memset :: "(u64 \<Rightarrow> u8) \<Rightarrow> u64 \<Rightarrow> u8 \<Rightarrow> nat \<Rightarrow> u64 \<Rightarrow> u8" where
  "memset m a v 0 = m"
| "memset m a v (Suc n) = memset (m(a := v)) (a + 1) v n"

fun memcpy :: "(u64 \<Rightarrow> u8) \<Rightarrow> u64 \<Rightarrow> (u64 \<Rightarrow> u8) \<Rightarrow> u64 \<Rightarrow> nat \<Rightarrow> u64 \<Rightarrow> u8" where
  "memcpy d a s b 0 = d"
| "memcpy d a s b (Suc n) = memcpy (d(a := s b)) (a + 1) s (b + 1) n"

section \<open>The operations of the server\<close>

text \<open>
  The loop that cuts a copy into transfers of random length. \<open>rnd i\<close> is the value of the \<open>i\<close>th call
  of \<^verbatim>\<open>rand\<close>. With less than 64 bytes left the divisor of \<^verbatim>\<open>%\<close> is 0 and the process dies, after
  the transfers already issued.
\<close>

function dma_loop ::
  "(nat \<Rightarrow> nat) \<Rightarrow> nat \<Rightarrow> bool \<Rightarrow> nat \<Rightarrow> u64 \<Rightarrow> u64 \<Rightarrow> dma_request list \<times> ds_error option" where
  "dma_loop rnd i wr amt_left ptr1 ptr2 =
     (if amt_left = 0 then ([], None)
      else let m = min 64 (drop_bit 6 amt_left)
           in if m = 0 then ([], Some DivByZero)
              else let n_beats_here = max 1 (rnd i mod m);
                       (rs, e) = dma_loop rnd (Suc i) wr (amt_left - n_beats_here * 64)
                                   (ptr1 + of_nat (64 * n_beats_here)) (ptr2 + of_nat (64 * n_beats_here))
                   in (\<lparr>dma_ptr = ptr1, dma_fpga_addr = ptr2, dma_len = of_nat (64 * n_beats_here),
                        dma_write = wr\<rparr> # rs, e))"
  by pat_completeness auto
termination
  by (relation "measure (\<lambda>(rnd, i, wr, amt, p, q). amt)") auto

declare dma_loop.simps [simp del]

definition run_dma ::
  "(nat \<Rightarrow> nat) \<Rightarrow> bool \<Rightarrow> u64 \<Rightarrow> u64 \<Rightarrow> data_server_state \<Rightarrow> ds_error + data_server_state" where
  "run_dma rnd wr faddr len s =
     (case translate (mappings s) faddr of
        Inl e \<Rightarrow> Inl (TranslateFailed e)
      | Inr ptr1 \<Rightarrow>
          (case dma_loop rnd 0 wr (unat len) ptr1 faddr of
             (rs, None) \<Rightarrow> Inr (s\<lparr>dma_log := dma_log s @ rs\<rparr>)
           | (rs, Some e) \<Rightarrow> Inl e))"

text \<open>
  \<^verbatim>\<open>ALLOC\<close>: create and map a zeroed shared segment, take device memory, register the mapping and
  answer with the segment's name and the device address. The test of the result of \<^verbatim>\<open>mmap\<close> is
  against the null pointer; \<^verbatim>\<open>MAP_FAILED\<close> passes it and the \<^verbatim>\<open>memset\<close> that follows faults.
  \<^term>\<open>None\<close>: the allocator does not return.
\<close>

definition serve_alloc ::
  "build_flags \<Rightarrow> nat \<Rightarrow> os_alloc \<Rightarrow> data_server_state \<Rightarrow> (ds_error + data_server_state) option" where
  "serve_alloc fl bytes os s =
     (if def_FPGA fl \<and> def_ZYNQ fl \<and> \<not> def_SIM fl then Some (Inr s)
      else if shm_fd os < 0 then Some (Inl ShmOpenFailed)
      else if truncate_rc os \<noteq> 0 then Some (Inl TruncateFailed)
      else if mmap_addr os = 0 then Some (Inl MmapNull)
      else if mmap_addr os = MAP_FAILED then Some (Inl MapFailedFault)
      else let len = op_argument (dsf s);
               naddr = mmap_addr os;
               s1 = s\<lparr>host_mem := memset (host_mem s) naddr 0 (unat len),
                      segments := (naddr, len) # segments s,
                      dsf := (dsf s)\<lparr>fname := ''/beethoven_file_'' @ rand_name os\<rparr>\<rparr>
           in if def_CUSTOM_ALLOC fl
              then (case malloc bytes (allocator s1) (unat len) of
                      None \<Rightarrow> None
                    | Some (Inl e) \<Rightarrow> Some (Inl (AllocFailed e))
                    | Some (Inr (al, a)) \<Rightarrow>
                        Some (Inr (s1\<lparr>allocator := al, mappings := add_mapping (of_nat a) len naddr (mappings s1),
                                      dsf := (dsf s1)\<lparr>op_argument := of_nat a\<rparr>\<rparr>)))
              else Some (Inr (s1\<lparr>mappings := add_mapping naddr len naddr (mappings s1),
                                 dsf := (dsf s1)\<lparr>op_argument := naddr\<rparr>\<rparr>)))"

definition serve_free ::
  "build_flags \<Rightarrow> nat \<Rightarrow> data_server_state \<Rightarrow> ds_error + data_server_state" where
  "serve_free fl bytes s =
     (let a = op_argument (dsf s);
          r = (if def_CUSTOM_ALLOC fl then free bytes (allocator s) (unat a) else Inr (allocator s))
      in case r of
           Inl e \<Rightarrow> Inl (AllocFailed e)
         | Inr al \<Rightarrow>
             (case get_mapping (mappings s) a of
                Inl e \<Rightarrow> Inl (TranslateFailed e)
              | Inr seg \<Rightarrow>
                  (case remove_mapping a (mappings s) of
                     Inl e \<Rightarrow> Inl (TranslateFailed e)
                   | Inr ms \<Rightarrow> Inr (s\<lparr>allocator := al, segments := remove1 seg (segments s), mappings := ms\<rparr>))))"

definition serve_move_from ::
  "build_flags \<Rightarrow> (nat \<Rightarrow> nat) \<Rightarrow> data_server_state \<Rightarrow> ds_error + data_server_state" where
  "serve_move_from fl rnd s =
     (let fpga = op2_argument (dsf s); len = op3_argument (dsf s)
      in if def_SIM fl \<and> def_HAS_DMA fl then run_dma rnd False fpga len s
         else if def_SIM fl then Inr s
         else if def_FPGA fl \<and> def_AWS fl then
           (case translate (mappings s) fpga of
              Inl e \<Rightarrow> Inl (TranslateFailed e)
            | Inr shaddr \<Rightarrow> Inr (s\<lparr>host_mem := memcpy (host_mem s) shaddr (dev_mem s) fpga (unat len)\<rparr>))
         else Inr s)"

definition serve_move_to ::
  "build_flags \<Rightarrow> (nat \<Rightarrow> nat) \<Rightarrow> data_server_state \<Rightarrow> ds_error + data_server_state" where
  "serve_move_to fl rnd s =
     (let fpga = op_argument (dsf s); len = op3_argument (dsf s)
      in if def_FPGA fl \<and> def_AWS fl then
           (case translate (mappings s) fpga of
              Inl e \<Rightarrow> Inl (TranslateFailed e)
            | Inr shaddr \<Rightarrow> Inr (s\<lparr>dev_mem := memcpy (dev_mem s) fpga (host_mem s) shaddr (unat len)\<rparr>))
         else if def_ZYNQ fl then Inr s
         else if def_SIM fl \<and> def_HAS_DMA fl then run_dma rnd True fpga len s
         else Inr s)"

definition serve ::
  "build_flags \<Rightarrow> nat \<Rightarrow> os_alloc \<Rightarrow> (nat \<Rightarrow> nat) \<Rightarrow> data_server_state \<Rightarrow> (ds_error + data_server_state) option" where
  "serve fl bytes os rnd s =
     (case operation (dsf s) of
        ALLOC \<Rightarrow> serve_alloc fl bytes os s
      | FREE \<Rightarrow> Some (serve_free fl bytes s)
      | MOVE_FROM_FPGA \<Rightarrow> Some (serve_move_from fl rnd s)
      | MOVE_TO_FPGA \<Rightarrow> Some (serve_move_to fl rnd s))"

text \<open>The server before its first request: everything empty, the simulation flag published.\<close>

definition data_server_start :: "build_flags \<Rightarrow> nat \<Rightarrow> data_server_file \<Rightarrow> (u64 \<Rightarrow> u8) \<Rightarrow> (u64 \<Rightarrow> u8) \<Rightarrow> data_server_state" where
  "data_server_start fl bytes f hm dm =
     \<lparr>dsf = (data_server_file_init f)\<lparr>is_simulation := def_SIM fl\<rparr>, allocator = device_allocator_init bytes,
      mappings = [], host_mem = hm, dev_mem = dm, segments = [], dma_log = []\<rparr>"

section \<open>The client calls\<close>

record remote_region =
  rr_fpga_addr :: u64
  rr_host_addr :: u64
  rr_len :: u64

text \<open>
  The handle's private table \<^verbatim>\<open>device2virtual\<close>, whose tuples hold the length as an \<^verbatim>\<open>int\<close> (the
  lower 32 bits), and the answers of the operating system to the
  client's own \<^verbatim>\<open>shm_open\<close> and \<^verbatim>\<open>mmap\<close> of the segment.
\<close>

type_synonym device2virtual = "u64 \<rightharpoonup> int \<times> u64 \<times> u32 \<times> string"

datatype client_error = ServerError ds_error | ClientOpenFailed | ClientMapFailed

definition client_malloc ::
  "build_flags \<Rightarrow> nat \<Rightarrow> os_alloc \<Rightarrow> (nat \<Rightarrow> nat) \<Rightarrow> int \<Rightarrow> u64 \<Rightarrow> u64 \<Rightarrow> device2virtual \<Rightarrow> data_server_state \<Rightarrow>
   (client_error + remote_region \<times> device2virtual \<times> data_server_state) option" where
  "client_malloc fl bytes os rnd fd ptr len d2v s =
     (case serve fl bytes os rnd (s\<lparr>dsf := (dsf s)\<lparr>op_argument := len, operation := ALLOC\<rparr>\<rparr>) of
        None \<Rightarrow> None
      | Some (Inl e) \<Rightarrow> Some (Inl (ServerError e))
      | Some (Inr s1) \<Rightarrow>
          if fd < 0 then Some (Inl ClientOpenFailed)
          else if ptr = MAP_FAILED then Some (Inl ClientMapFailed)
          else let addr = op_argument (dsf s1)
               in Some (Inr (\<lparr>rr_fpga_addr = addr, rr_host_addr = ptr, rr_len = len\<rparr>,
                             d2v(addr \<mapsto> (fd, ptr, ucast len, fname (dsf s1))), s1)))"

definition client_copy_to_fpga ::
  "build_flags \<Rightarrow> nat \<Rightarrow> os_alloc \<Rightarrow> (nat \<Rightarrow> nat) \<Rightarrow> remote_region \<Rightarrow> data_server_state \<Rightarrow>
   (ds_error + data_server_state) option" where
  "client_copy_to_fpga fl bytes os rnd dst s =
     serve fl bytes os rnd (s\<lparr>dsf := (dsf s)\<lparr>operation := MOVE_TO_FPGA, op_argument := rr_fpga_addr dst,
       op3_argument := rr_len dst\<rparr>\<rparr>)"

definition client_copy_from_fpga ::
  "build_flags \<Rightarrow> nat \<Rightarrow> os_alloc \<Rightarrow> (nat \<Rightarrow> nat) \<Rightarrow> remote_region \<Rightarrow> data_server_state \<Rightarrow>
   (ds_error + data_server_state) option" where
  "client_copy_from_fpga fl bytes os rnd src s =
     serve fl bytes os rnd (s\<lparr>dsf := (dsf s)\<lparr>operation := MOVE_FROM_FPGA, op2_argument := rr_fpga_addr src,
       op3_argument := rr_len src\<rparr>\<rparr>)"

definition client_free ::
  "build_flags \<Rightarrow> nat \<Rightarrow> os_alloc \<Rightarrow> (nat \<Rightarrow> nat) \<Rightarrow> remote_region \<Rightarrow> data_server_state \<Rightarrow>
   (ds_error + data_server_state) option" where
  "client_free fl bytes os rnd p s =
     serve fl bytes os rnd (s\<lparr>dsf := (dsf s)\<lparr>op_argument := rr_fpga_addr p, operation := FREE\<rparr>\<rparr>)"

section \<open>Memory and transfers\<close>

lemma memcpy_apply:
  "n \<le> 2 ^ 64 \<Longrightarrow> memcpy d a s b n x = (if unat (x - a) < n then s (b + (x - a)) else d x)"
proof (induction n arbitrary: d a b)
  case (Suc n)
  have IH: "memcpy d a s b (Suc n) x =
      (if unat (x - (a + 1)) < n then s (b + 1 + (x - (a + 1))) else (d(a := s b)) x)"
    using Suc.prems by (simp add: Suc.IH del: fun_upd_apply)
  show ?case
  proof (cases "x = a")
    case True
    have "unat (- 1 :: u64) = 2 ^ 64 - 1" by (simp add: unsigned_minus_1_eq_mask mask_eq_exp_minus_1)
    then have "\<not> unat (x - (a + 1)) < n" using Suc.prems True by simp
    then show ?thesis unfolding IH using True by simp
  next
    case False
    then have "unat (x - (a + 1)) = unat (x - a) - 1" "unat (x - a) \<noteq> 0"
      using unat_minus_one [of "x - a"] by (simp_all add: algebra_simps unat_eq_zero)
    then show ?thesis unfolding IH using False by (auto simp: algebra_simps)
  qed
qed simp

text \<open>A list of transfers that walks through \<open>n\<close> bytes from \<open>p\<close> and \<open>q\<close> on, without gap or overlap.\<close>

fun transfers :: "bool \<Rightarrow> u64 \<Rightarrow> u64 \<Rightarrow> nat \<Rightarrow> dma_request list \<Rightarrow> bool" where
  "transfers wr p q n [] \<longleftrightarrow> n = 0"
| "transfers wr p q n (r # rs) \<longleftrightarrow>
     dma_ptr r = p \<and> dma_fpga_addr r = q \<and> dma_write r = wr \<and>
     64 \<le> unat (dma_len r) \<and> unat (dma_len r) \<le> 64 * 63 \<and> unat (dma_len r) mod 64 = 0 \<and>
     unat (dma_len r) \<le> n \<and> transfers wr (p + dma_len r) (q + dma_len r) (n - unat (dma_len r)) rs"

lemma dma_beats:
  fixes amt :: nat
  assumes "m = min 64 (drop_bit 6 amt)" "m \<noteq> 0" "n = max 1 (r mod m)"
  shows "1 \<le> n" "n \<le> 63" "n * 64 \<le> amt" "unat (of_nat (64 * n) :: u64) = 64 * n"
proof -
  have m: "1 \<le> m" "m \<le> 64" "m \<le> amt div 64" using assms(1,2) by (auto simp: drop_bit_eq_div)
  then have "r mod m \<le> m - 1" by (metis Suc_pred' less_Suc_eq_le less_le_trans mod_less_divisor zero_less_one)
  then show n: "1 \<le> n" "n \<le> 63" using m assms(3) by auto
  have "n \<le> m" using \<open>r mod m \<le> m - 1\<close> m assms(3) by auto
  then show "n * 64 \<le> amt" using m by linarith
  show "unat (of_nat (64 * n) :: u64) = 64 * n"
    using n by (simp add: unat_of_nat take_bit_eq_mod del: of_nat_mult)
qed

lemma dma_loop_step:
  assumes "amt \<noteq> 0" "m = min 64 (drop_bit 6 amt)" "m \<noteq> 0" "n = max 1 (rnd i mod m)"
    "dma_loop rnd (Suc i) wr (amt - n * 64) (p + of_nat (64 * n)) (q + of_nat (64 * n)) = (rs, e)"
  shows "dma_loop rnd i wr amt p q =
    (\<lparr>dma_ptr = p, dma_fpga_addr = q, dma_len = of_nat (64 * n), dma_write = wr\<rparr> # rs, e)"
  using assms(1,3,5) by (subst dma_loop.simps) (simp only: Let_def flip: assms(2,4); simp del: of_nat_mult)

lemma dma_loop_transfers:
  "amt mod 64 = 0 \<Longrightarrow> \<exists>rs. dma_loop rnd i wr amt p q = (rs, None) \<and> transfers wr p q amt rs"
proof (induction amt arbitrary: i p q rule: less_induct)
  case (less amt)
  show ?case
  proof (cases "amt = 0")
    case False
    define m where "m = min 64 (drop_bit 6 amt)"
    define n where "n = max 1 (rnd i mod m)"
    have "m \<noteq> 0" using less.prems False by (auto simp: m_def drop_bit_eq_div)
    note b = dma_beats [OF m_def this n_def]
    have "(amt - n * 64) mod 64 = 0" using less.prems b(3) by presburger
    moreover have "amt - n * 64 < amt" using b False by simp
    ultimately obtain rs where rs: "dma_loop rnd (Suc i) wr (amt - n * 64) (p + of_nat (64 * n)) (q + of_nat (64 * n)) = (rs, None)"
      "transfers wr (p + of_nat (64 * n)) (q + of_nat (64 * n)) (amt - n * 64) rs" by (metis less.IH)
    note dma_loop_step [OF False m_def \<open>m \<noteq> 0\<close> n_def rs(1)]
    moreover have "transfers wr p q amt (\<lparr>dma_ptr = p, dma_fpga_addr = q, dma_len = of_nat (64 * n), dma_write = wr\<rparr> # rs)"
      using b rs(2) by (simp del: of_nat_mult add: mult.commute)
    ultimately show ?thesis by blast
  qed (simp add: dma_loop.simps)
qed

lemma dma_loop_div:
  "amt mod 64 \<noteq> 0 \<Longrightarrow> snd (dma_loop rnd i wr amt p q) = Some DivByZero"
proof (induction amt arbitrary: i p q rule: less_induct)
  case (less amt)
  define m where "m = min 64 (drop_bit 6 amt)"
  define n where "n = max 1 (rnd i mod m)"
  have nz: "amt \<noteq> 0" using less.prems by auto
  show ?case
  proof (cases "m = 0")
    case False
    note b = dma_beats [OF m_def False n_def]
    have "(amt - n * 64) mod 64 \<noteq> 0" using less.prems b(3) by presburger
    moreover have "amt - n * 64 < amt" using b nz by simp
    ultimately have "snd (dma_loop rnd (Suc i) wr (amt - n * 64) (p + of_nat (64 * n)) (q + of_nat (64 * n))) = Some DivByZero"
      by (metis less.IH)
    then show ?thesis 
      by (cases "dma_loop rnd (Suc i) wr (amt - n * 64) (p + of_nat (64 * n)) (q + of_nat (64 * n))")
        (simp add: dma_loop_step [where rnd = rnd and i = i and m = m and n = n, OF nz m_def False n_def])
  qed (use nz in \<open>simp add: dma_loop.simps Let_def flip: m_def\<close>)
qed

section \<open>The server's invariant\<close>

text \<open>
  Every mapping of the translator lies in one live piece of the allocator and starts where the
  piece starts.
\<close>

definition server_inv :: "nat \<Rightarrow> data_server_state \<Rightarrow> piece set \<Rightarrow> bool" where
  "server_inv bytes s L \<longleftrightarrow> small_device_inv bytes (allocator s) L \<and> at_ok (mappings s) \<and>
     (\<forall>p \<in> set (mappings s). \<exists>q \<in> L. piece_addr q = unat (fpga_addr p) \<and> unat (mapping_length p) \<le> piece_size q)"

lemma server_inv_piece:
  assumes "server_inv bytes s L" "p \<in> set (mappings s)"
  obtains q where "q \<in> L" "piece_addr q = unat (fpga_addr p)" "unat (mapping_length p) \<le> piece_size q"
proof -
  have "\<forall>p \<in> set (mappings s). \<exists>q \<in> L. piece_addr q = unat (fpga_addr p) \<and> unat (mapping_length p) \<le> piece_size q"
    using assms(1) by (simp add: server_inv_def)
  from bspec [OF this assms(2)] show ?thesis using that by blast
qed

lemma server_inv_start: "bytes \<le> 2 ^ 32 \<Longrightarrow> server_inv bytes (data_server_start fl bytes f hm dm) {}"
  by (simp add: server_inv_def data_server_start_def small_device_inv_def alloc_inv_init at_ok_def at_ordered_def)

lemma device_limit: "bytes \<le> 2 ^ 32 \<Longrightarrow> num_superblocks bytes * superblock_size \<le> 2 ^ 32"
proof -
  assume b: "bytes \<le> 2 ^ 32"
  then have "\<not> 32 < log2up bytes" using log2up_spec(3) [of 32 bytes] by auto
  then have "num_superblocks bytes \<le> 2 ^ 11"
    unfolding num_superblocks_def log_num_superblocks_def addr_bits_def by (intro power_increasing) auto
  then have "num_superblocks bytes * superblock_size \<le> 2 ^ 11 * 2 ^ 21"
    unfolding superblock_size_def by (intro mult_right_mono) auto
  then show ?thesis by simp
qed

lemma at_ok_Nil [simp]: "at_ok []"
  by (simp add: at_ok_def at_ordered_def)

lemma piece_addr_inj:
  assumes "alloc_inv bytes s L" "p \<in> L" "q \<in> L" "piece_addr p = piece_addr q"
  shows "p = q"
proof (rule ccontr)
  assume "p \<noteq> q"
  then have "disjoint_regions p q" using alloc_inv_disjoint assms by blast
  moreover have pos: "0 < piece_size r" if "r \<in> L" for r
    using assms(1) that by (cases r) (auto simp: alloc_inv_def superblock_size_def)
  ultimately show False using assms(4) pos [OF assms(2)] pos [OF assms(3)] by (simp add: disjoint_regions_def)
qed

lemma serve_alloc_mapping:
  assumes inv: "server_inv bytes s L" and al: "malloc bytes (allocator s) (unat len) = Some (Inr (al, a))"
    and pos: "0 < len" and p_def: "p = \<lparr>fpga_addr = of_nat a, mapping_length = len, cpu_addr = c\<rparr>"
  shows "\<exists>q. alloc_inv bytes al (insert q L) \<and> q \<notin> L \<and> piece_addr q = unat (fpga_addr p) \<and> unat len \<le> piece_size q \<and>
    valid_pair p \<and> (\<forall>r \<in> set (mappings s). apart_pairs p r)"
proof -
  have dev: "alloc_inv bytes (allocator s) L" "bytes \<le> 2 ^ 32" using inv by (auto simp: server_inv_def small_device_inv_def)
  obtain q where q: "alloc_inv bytes al (insert q L)" "q \<notin> L" "piece_addr q = a" "unat len \<le> piece_size q"
    "a + unat len \<le> num_superblocks bytes * superblock_size"
    "\<forall>r \<in> L. a + unat len \<le> piece_addr r \<or> piece_addr r + piece_size r \<le> a"
    using device.alloc_fresh [of bytes "allocator s" L "unat len" al a] dev al
    by (auto simp: small_device_inv_def malloc_opt_Some)
  have le: "a + unat len \<le> 2 ^ 32" using q(5) device_limit [OF dev(2)] by linarith
  then have ua: "unat (of_nat a :: u64) = a" by (simp add: unat_of_nat take_bit_eq_mod)
  have "valid_pair p" using le pos by (simp add: valid_pair_def p_def ua)
  moreover have "apart_pairs p r" if r: "r \<in> set (mappings s)" for r
  proof -
    obtain u where u: "u \<in> L" "piece_addr u = unat (fpga_addr r)" "unat (mapping_length r) \<le> piece_size u"
      using server_inv_piece [OF inv r] by blast
    then have "a + unat len \<le> unat (fpga_addr r) \<or> unat (fpga_addr r) + unat (mapping_length r) \<le> a"
      using bspec [OF q(6) u(1)] by linarith
    then show ?thesis by (simp add: apart_pairs_def p_def ua)
  qed
  ultimately show ?thesis using q(1-4) by (intro exI [of _ q]) (simp add: p_def ua)
qed

lemma serve_alloc_ok:
  assumes inv: "server_inv bytes s L" and run: "serve_alloc fl bytes os s = Some (Inr s')"
    and fl: "def_CUSTOM_ALLOC fl" "\<not> (def_FPGA fl \<and> def_ZYNQ fl \<and> \<not> def_SIM fl)" and pos: "0 < op_argument (dsf s)"
  defines "p \<equiv> \<lparr>fpga_addr = op_argument (dsf s'), mapping_length = op_argument (dsf s), cpu_addr = mmap_addr os\<rparr>"
  shows "\<exists>q. server_inv bytes s' (insert q L) \<and> q \<notin> L \<and> piece_addr q = unat (fpga_addr p) \<and>
     unat (op_argument (dsf s)) \<le> piece_size q \<and> valid_pair p \<and> mappings s' = add_pair p (mappings s) \<and>
     (\<forall>r \<in> set (mappings s). apart_pairs p r)"
proof -
  obtain al a where al: "malloc bytes (allocator s) (unat (op_argument (dsf s))) = Some (Inr (al, a))"
    and s': "allocator s' = al" "op_argument (dsf s') = of_nat a"
      "mappings s' = add_mapping (of_nat a) (op_argument (dsf s)) (mmap_addr os) (mappings s)"
    using run fl by (auto simp: serve_alloc_def Let_def split: if_splits option.splits sum.splits prod.splits)
  have p: "p = \<lparr>fpga_addr = of_nat a, mapping_length = op_argument (dsf s), cpu_addr = mmap_addr os\<rparr>"
    by (simp add: p_def s')
  obtain q where q: "alloc_inv bytes al (insert q L)" "q \<notin> L" "piece_addr q = unat (fpga_addr p)"
    "unat (op_argument (dsf s)) \<le> piece_size q" "valid_pair p" "\<forall>r \<in> set (mappings s). apart_pairs p r"
    using serve_alloc_mapping [OF inv al pos p] by blast
  have m: "mappings s' = add_pair p (mappings s)" by (simp add: s' p add_pair_def)
  have "at_ok (mappings s') \<and> set (mappings s') = insert p (set (mappings s))"
    unfolding m using q inv by (intro at.add_ok) (auto simp: server_inv_def)
  then have "server_inv bytes s' (insert q L)"
    using inv q by (auto simp: server_inv_def small_device_inv_def s' p)
  then show ?thesis using q m by blast
qed

section \<open>Properties\<close>

text \<open>
  C6. Serving an allocation: when the server answers, the client owns a fresh piece of device
  memory of at least the requested length at the returned address, every byte of it translates to
  the byte at the same offset of the new host segment, and every address that translated before
  still translates to the same place.
\<close>

theorem serve_alloc_translates:
  assumes "server_inv bytes s L" and "operation (dsf s) = ALLOC" and "serve fl bytes os rnd s = Some (Inr s')"
    and "def_CUSTOM_ALLOC fl" and "\<not> (def_FPGA fl \<and> def_ZYNQ fl \<and> \<not> def_SIM fl)" and "0 < op_argument (dsf s)"
  shows "\<exists>q. server_inv bytes s' (insert q L) \<and> q \<notin> L \<and> piece_addr q = unat (op_argument (dsf s')) \<and>
     unat (op_argument (dsf s)) \<le> piece_size q \<and>
     (\<forall>off < op_argument (dsf s). translate (mappings s') (op_argument (dsf s') + off) = Inr (mmap_addr os + off)) \<and>
     (\<forall>a c. translate (mappings s) a = Inr c \<longrightarrow> translate (mappings s') a = Inr c)"
proof -
  let ?p = "\<lparr>fpga_addr = op_argument (dsf s'), mapping_length = op_argument (dsf s), cpu_addr = mmap_addr os\<rparr>"
  obtain q where q: "server_inv bytes s' (insert q L)" "q \<notin> L" "piece_addr q = unat (fpga_addr ?p)"
    "unat (op_argument (dsf s)) \<le> piece_size q" "valid_pair ?p" "mappings s' = add_pair ?p (mappings s)"
    "\<forall>r \<in> set (mappings s). apart_pairs ?p r"
    using serve_alloc_ok [of bytes s L fl os s'] assms by (auto simp: serve_def)
  have ok: "at_ok (mappings s)" using assms(1) by (simp add: server_inv_def)
  note look = at.add_look [OF ok q(5), folded q(6)]
  have "translate (mappings s') (op_argument (dsf s') + off) = Inr (mmap_addr os + off)"
    if "off < op_argument (dsf s)" for off
  proof -
    have "unat (op_argument (dsf s') + off) = unat (op_argument (dsf s')) + unat off"
      using q(5) that by (intro unat_add_lem [THEN iffD1]) (simp add: valid_pair_def word_less_nat_alt)
    then have "contains_addr ?p (op_argument (dsf s') + off)"
      using that by (simp add: contains_addr_nat [OF q(5)] word_less_nat_alt)
    then show ?thesis using look q(7) by simp
  qed
  moreover have "translate (mappings s') a = Inr c" if old: "translate (mappings s) a = Inr c" for a c
  proof -
    have "\<not> contains_addr ?p a"
    proof
      assume c: "contains_addr ?p a"
      obtain r where r: "r \<in> set (mappings s)" "contains_addr r a" using old at.look_Inr_iff [OF ok] by blast
      then show False using c q(5,7) at.valid [OF ok r(1)] by (auto simp: contains_addr_nat apart_pairs_def)
    qed
    then show ?thesis using look q(7) old by auto
  qed
  ultimately show ?thesis using q by auto
qed

definition sim_dma :: build_flags where
  "sim_dma = \<lparr>def_SIM = True, def_FPGA = False, def_AWS = False, def_ZYNQ = False, def_HAS_DMA = True,
     def_CUSTOM_ALLOC = True\<rparr>"

definition aws_f2 :: build_flags where
  "aws_f2 = \<lparr>def_SIM = False, def_FPGA = True, def_AWS = True, def_ZYNQ = False, def_HAS_DMA = True,
     def_CUSTOM_ALLOC = True\<rparr>"

definition empty_file :: data_server_file where
  "empty_file = \<lparr>fname = [], resp_id = 0, operation = ALLOC, op_argument = 0, op2_argument = 0, op3_argument = 0,
     is_simulation = False\<rparr>"

definition os_fine :: "u64 \<Rightarrow> os_alloc" where
  "os_fine a = \<lparr>rand_name = ''1'', shm_fd = 3, truncate_rc = 0, mmap_addr = a\<rparr>"

theorem serve_alloc_translates_witness:
  "let s = data_server_start sim_dma 8388608 empty_file (\<lambda>_. 0) (\<lambda>_. 0);
       t = s\<lparr>dsf := (dsf s)\<lparr>op_argument := 0x80000\<rparr>\<rparr>
   in \<exists>s'. serve sim_dma 8388608 (os_fine 0x7000) (\<lambda>_. 0) t = Some (Inr s') \<and>
        translate (mappings s') (op_argument (dsf s') + 5) = Inr (0x7000 + 5)"
proof -
  let ?s = "data_server_start sim_dma 8388608 empty_file (\<lambda>_. 0) (\<lambda>_. 0)"
  let ?t = "?s\<lparr>dsf := (dsf ?s)\<lparr>op_argument := 0x80000\<rparr>\<rparr>"
  have "server_inv 8388608 ?s {}" by (rule server_inv_start) simp
  then have inv: "server_inv 8388608 ?t {}" unfolding server_inv_def by simp
  have op: "operation (dsf ?t) = ALLOC" by (simp add: data_server_start_def data_server_file_init_def empty_file_def)
  have "\<exists>s'. serve sim_dma 8388608 (os_fine 0x7000) (\<lambda>_. 0) ?t = Some (Inr s')"
    unfolding serve_def op by (simp add: serve_alloc_def os_fine_def sim_dma_def MAP_FAILED_def data_server_start_def alloc_eval)
  then obtain s' where s': "serve sim_dma 8388608 (os_fine 0x7000) (\<lambda>_. 0) ?t = Some (Inr s')" by blast
  have "\<forall>off < (0x80000 :: u64). translate (mappings s') (op_argument (dsf s') + off) = Inr (0x7000 + off)"
    using serve_alloc_translates [OF inv op s'] by (auto simp: sim_dma_def os_fine_def)
  then have "translate (mappings s') (op_argument (dsf s') + 5) = Inr (0x7000 + 5)"
    by (rule allE [of _ 5]) simp
  then show ?thesis using s' unfolding Let_def by blast
qed

text \<open>
  C24. Serving a release of a block of superblock 0: the server answers, the block is no longer
  live, its addresses no longer translate, every other translation is unchanged and the server's
  invariant holds for the remaining pieces.
\<close>

theorem serve_free_releases:
  assumes "server_inv bytes s L" and "operation (dsf s) = FREE" and "def_CUSTOM_ALLOC fl"
    and "Block 0 l b \<in> L" and "p \<in> set (mappings s)" and "unat (fpga_addr p) = b * 2 ^ l"
    and "op_argument (dsf s) = fpga_addr p"
  shows "\<exists>s'. serve fl bytes os rnd s = Some (Inr s') \<and> server_inv bytes s' (L - {Block 0 l b}) \<and>
     (\<forall>a c. translate (mappings s') a = Inr c \<longleftrightarrow> \<not> contains_addr p a \<and> translate (mappings s) a = Inr c)"
proof -
  have dev: "alloc_inv bytes (allocator s) L" "bytes \<le> 2 ^ 32" and ok: "at_ok (mappings s)"
    using assms(1) by (auto simp: server_inv_def small_device_inv_def)
  obtain al where al: "free bytes (allocator s) (unat (fpga_addr p)) = Inr al" "alloc_inv bytes al (L - {Block 0 l b})"
    using free_inv [OF dev(1) assms(4)] assms(6) by auto
  obtain ms where ms: "remove_mapping (fpga_addr p) (mappings s) = Inr ms" "at_ok ms" "set ms = set (mappings s) - {p}"
    using at.del_ok [OF ok assms(5)] by blast
  have "get_mapping (mappings s) (fpga_addr p) = Inr (cpu_addr p, mapping_length p)"
    using find_unique [OF assms(5), of "\<lambda>q. fpga_addr q = fpga_addr p"] at_ordered_inj ok assms(5)
    by (auto simp: get_mapping_def at_ok_def)
  then obtain s' where s': "serve fl bytes os rnd s = Some (Inr s')" "allocator s' = al" "mappings s' = ms"
    using assms(2,3,7) al(1) ms(1) by (simp add: serve_def serve_free_def Let_def)
  have "\<exists>q \<in> L - {Block 0 l b}. piece_addr q = unat (fpga_addr r) \<and> unat (mapping_length r) \<le> piece_size q"
    if "r \<in> set ms" for r
  proof -
    have "r \<in> set (mappings s)" "r \<noteq> p" using that ms(3) by auto
    then obtain q where q: "q \<in> L" "piece_addr q = unat (fpga_addr r)" "unat (mapping_length r) \<le> piece_size q"
      using server_inv_piece [OF assms(1)] by blast
    have "fpga_addr r \<noteq> fpga_addr p"
      using at_ordered_inj ok \<open>r \<in> set (mappings s)\<close> \<open>r \<noteq> p\<close> assms(5) by (auto simp: at_ok_def)
    then have "q \<noteq> Block 0 l b" using q(2) assms(6) by (auto simp flip: word_unat_eq_iff)
    then show ?thesis using q by blast
  qed
  then have "server_inv bytes s' (L - {Block 0 l b})"
    using al(2) dev(2) ms(2) s' by (simp add: server_inv_def small_device_inv_def)
  then show ?thesis using s' at.del_look [OF ok assms(5) ms(1)] by auto
qed

theorem serve_free_releases_witness:
  "\<exists>s s'. serve sim_dma 8388608 (os_fine 0x7000) (\<lambda>_. 0) s = Some (Inr s') \<and> server_inv 8388608 s' {} \<and>
     translate (mappings s) 0x100005 = Inr 0x7005 \<and> mappings s' = []"
proof -
  let ?p = "\<lparr>fpga_addr = 0x100000, mapping_length = 0x1000, cpu_addr = 0x7000\<rparr>"
  let ?s = "\<lambda>al. \<lparr>dsf = empty_file\<lparr>operation := FREE, op_argument := 0x100000\<rparr>, allocator = al,
    mappings = [?p], host_mem = (\<lambda>_. 0), dev_mem = (\<lambda>_. 0), segments = [], dma_log = []\<rparr>"
  obtain al where al: "malloc 8388608 (device_allocator_init 8388608) 1048576 = Some (Inr (al, 1048576))"
    by (simp add: alloc_eval)
  have "alloc_inv 8388608 al {Block 0 20 1}" by (rule malloc_8MiB_first [OF al])
  then have inv: "server_inv 8388608 (?s al) {Block 0 20 1}"
    by (simp add: server_inv_def small_device_inv_def at_ok_def at_ordered_def valid_pair_def)
  obtain s' where s': "serve sim_dma 8388608 (os_fine 0x7000) (\<lambda>_. 0) (?s al) = Some (Inr s')"
    "server_inv 8388608 s' ({Block 0 20 1} - {Block 0 20 1})"
    using serve_free_releases [OF inv, of sim_dma 20 1 ?p "os_fine 0x7000" "\<lambda>_. 0"] by (auto simp: sim_dma_def)
  then have "mappings s' = []" by (simp add: server_inv_def)
  moreover have "translate (mappings (?s al)) 0x100005 = Inr 0x7005" by (simp add: translate_def contains_addr_def)
  ultimately show ?thesis using s' by (metis Diff_cancel)
qed

text \<open>
  A copy through the simulated DMA engine: when the address translates, the transfers issued
  walk through the whole length in order, without gap or overlap, in pieces of 1 to 63 beats of
  64 bytes, provided the length is a multiple of 64; for any other length the server dies of a
  division by zero.
\<close>

theorem run_dma_transfers:
  assumes "translate (mappings s) faddr = Inr p"
  shows "(unat len mod 64 = 0 \<longrightarrow>
            (\<exists>rs. run_dma rnd wr faddr len s = Inr (s\<lparr>dma_log := dma_log s @ rs\<rparr>) \<and> transfers wr p faddr (unat len) rs)) \<and>
         (unat len mod 64 \<noteq> 0 \<longrightarrow> run_dma rnd wr faddr len s = Inl DivByZero)"
proof -
  have "\<exists>rs. run_dma rnd wr faddr len s = Inr (s\<lparr>dma_log := dma_log s @ rs\<rparr>) \<and> transfers wr p faddr (unat len) rs"
    if "unat len mod 64 = 0" using dma_loop_transfers [OF that, of rnd 0 wr p faddr] assms by (auto simp: run_dma_def)
  moreover have "run_dma rnd wr faddr len s = Inl DivByZero" if "unat len mod 64 \<noteq> 0"
    using dma_loop_div [OF that, of rnd 0 wr p faddr] assms by (auto simp: run_dma_def split: prod.splits)
  ultimately show ?thesis by blast
qed

theorem run_dma_transfers_witness:
  "let s = (data_server_start sim_dma 8388608 empty_file (\<lambda>_. 0) (\<lambda>_. 0))
             \<lparr>mappings := [\<lparr>fpga_addr = 0x1000, mapping_length = 0x1000, cpu_addr = 0x7000\<rparr>]\<rparr>
   in (\<exists>rs. run_dma (\<lambda>i. 3) True 0x1040 640 s = Inr (s\<lparr>dma_log := dma_log s @ rs\<rparr>) \<and> transfers True 0x7040 0x1040 640 rs) \<and>
      run_dma (\<lambda>i. 3) True 0x1040 100 s = Inl DivByZero"
proof -
  let ?s = "(data_server_start sim_dma 8388608 empty_file (\<lambda>_. 0) (\<lambda>_. 0))
             \<lparr>mappings := [\<lparr>fpga_addr = 0x1000, mapping_length = 0x1000, cpu_addr = 0x7000\<rparr>]\<rparr>"
  have "translate (mappings ?s) 0x1040 = Inr 0x7040" by (simp add: translate_def contains_addr_def)
  note dma = run_dma_transfers [OF this, of _ "\<lambda>i. 3" True]
  show ?thesis unfolding Let_def
    using dma [of 640] dma [of 100] by simp
qed



end
