(* ===== verification/ZynqHandle.thy ===== *)
theory ZynqHandle
  imports DataServer RemotePtr
begin

text \<open>
  The client library on Zynq boards (\<^verbatim>\<open>libbeethoven/src/fpga_handle_impl/fpga_handle_zynq.cc\<close> with
  \<^verbatim>\<open>include/beethoven/arm_cache.h\<close>). Processor and fabric share the memory: an allocation is a host
  mapping whose physical address is given to the fabric, and copies are cache maintenance. When the
  daemon announces a simulation the calls are those of the discrete board. The page table is an
  argument (what \<^verbatim>\<open>/proc/self/pagemap\<close> answers), as are the answers of the system calls; the caches are a
  small model of a write-back cache that may fill and evict lines at any time.
\<close>

section \<open>Physical addresses\<close>

text \<open>\<open>pm\<close>: the entry of a virtual page, \<^term>\<open>None\<close> when the file cannot be opened or read there.
  \<open>page\<close> is \<^verbatim>\<open>sysconf(_SC_PAGESIZE)\<close>.\<close>

type_synonym pagemap = "u64 \<Rightarrow> u64 option"

definition vtop :: "u64 \<Rightarrow> pagemap \<Rightarrow> u64 \<Rightarrow> u64" where
  "vtop page pm va = (case pm (va div page) of
      None \<Rightarrow> 0
    | Some e \<Rightarrow> if bit e 63 then ((e AND mask 54) * page) OR (va AND (page - 1)) else 0)"

definition page_align :: "u64 \<Rightarrow> u64 \<Rightarrow> u64" where
  "page_align page len = (len + page - 1) AND NOT (page - 1)"

function contiguous_from :: "u64 \<Rightarrow> pagemap \<Rightarrow> u64 \<Rightarrow> u64 \<Rightarrow> nat \<Rightarrow> nat \<Rightarrow> bool" where
  "contiguous_from page pm addr first len off =
     (if off < len \<and> page \<noteq> 0
      then vtop page pm (addr + of_nat off) = first + of_nat off \<and> contiguous_from page pm addr first len (off + unat page)
      else True)"
  by pat_completeness auto
termination
  by (relation "measure (\<lambda>(page, pm, addr, first, len, off). len - off)") (auto simp flip: unat_gt_0)

declare contiguous_from.simps [simp del]

definition verify_contiguous_mapping :: "u64 \<Rightarrow> pagemap \<Rightarrow> u64 \<Rightarrow> u64 \<Rightarrow> bool" where
  "verify_contiguous_mapping page pm addr len =
     (let first = vtop page pm addr
      in if first = 0 then False else contiguous_from page pm addr first (unat len) (unat page))"

section \<open>Allocation on the board\<close>

text \<open>What the kernel answers to the calls of one allocation.\<close>

record zynq_answers =
  heap_open :: int
  heap_ioctl :: int
  heap_buf_fd :: int
  heap_mmap :: u64
  fallback_mmap :: u64
  fallback_mlock :: int

text \<open>The process's open descriptors and mappings, which the paths of the code must keep in order.\<close>

record process_res =
  open_fds :: "int list"
  mapped :: "(u64 \<times> u64) list"

datatype zynq_error =
    HeapUnavailable
  | HeapAllocFailed
  | HeapMmapFailed
  | NonContiguous
  | NoHugePage
  | MapFailed
  | MlockFailed
  | SimClient client_error

definition close_fd :: "int \<Rightarrow> process_res \<Rightarrow> process_res" where
  "close_fd fd r = r\<lparr>open_fds := remove1 fd (open_fds r)\<rparr>"

definition opened_fd :: "int \<Rightarrow> process_res \<Rightarrow> process_res" where
  "opened_fd fd r = r\<lparr>open_fds := fd # open_fds r\<rparr>"

definition add_map :: "u64 \<Rightarrow> u64 \<Rightarrow> process_res \<Rightarrow> process_res" where
  "add_map a n r = r\<lparr>mapped := (a, n) # mapped r\<rparr>"

definition drop_map :: "u64 \<Rightarrow> u64 \<Rightarrow> process_res \<Rightarrow> process_res" where
  "drop_map a n r = r\<lparr>mapped := remove1 (a, n) (mapped r)\<rparr>"

definition try_dma_heap_malloc ::
  "u64 \<Rightarrow> pagemap \<Rightarrow> zynq_answers \<Rightarrow> u64 \<Rightarrow> process_res \<Rightarrow> (zynq_error + remote_region) \<times> process_res" where
  "try_dma_heap_malloc page pm k len r =
     (let sz = page_align page len in
      if heap_open k < 0 then (Inl HeapUnavailable, r)
      else let r1 = opened_fd (heap_open k) r in
      if heap_ioctl k < 0 then (Inl HeapAllocFailed, close_fd (heap_open k) r1)
      else let r2 = close_fd (heap_open k) (opened_fd (heap_buf_fd k) r1); addr = heap_mmap k in
      if addr = MAP_FAILED then (Inl HeapMmapFailed, close_fd (heap_buf_fd k) r2)
      else let r3 = add_map addr sz r2 in
      if \<not> verify_contiguous_mapping page pm addr sz
      then (Inl NonContiguous, close_fd (heap_buf_fd k) (drop_map addr sz r3))
      else (Inr \<lparr>rr_fpga_addr = vtop page pm addr, rr_host_addr = addr, rr_len = sz\<rparr>, close_fd (heap_buf_fd k) r3))"

definition zynq_huge_page_sizes :: "u64 list" where
  "zynq_huge_page_sizes = [0x200000, 0x2000000, 0x40000000]"

text \<open>The size class of the fallback: one page, or the smallest huge page that fits.\<close>

definition fallback_size :: "u64 \<Rightarrow> u64 option" where
  "fallback_size len = (if len \<le> 0x1000 then Some 0x1000 else find (\<lambda>s. len \<le> s) zynq_huge_page_sizes)"

definition fallback_malloc ::
  "u64 \<Rightarrow> pagemap \<Rightarrow> zynq_answers \<Rightarrow> u64 \<Rightarrow> process_res \<Rightarrow> (zynq_error + remote_region) \<times> process_res" where
  "fallback_malloc page pm k len r =
     (case fallback_size len of
        None \<Rightarrow> (Inl NoHugePage, r)
      | Some sz \<Rightarrow>
          let addr = fallback_mmap k in
          if addr = MAP_FAILED then (Inl MapFailed, r)
          else let r1 = add_map addr sz r in
          if fallback_mlock k \<noteq> 0 then (Inl MlockFailed, r1)
          else (Inr \<lparr>rr_fpga_addr = vtop page pm addr, rr_host_addr = addr, rr_len = sz\<rparr>, r1))"

definition board_malloc ::
  "u64 \<Rightarrow> pagemap \<Rightarrow> zynq_answers \<Rightarrow> u64 \<Rightarrow> process_res \<Rightarrow> (zynq_error + remote_region) \<times> process_res" where
  "board_malloc page pm k len r =
     (case try_dma_heap_malloc page pm k len r of
        (Inr p, r1) \<Rightarrow> (Inr p, r1)
      | (Inl _, r1) \<Rightarrow> fallback_malloc page pm k len r1)"

section \<open>Caches\<close>

text \<open>
  Memory as the fabric sees it, and the lines the processor holds. A line has 64 bytes; its number
  is the address divided by 64. The processor reads and writes through the cache, the fabric
  accesses the memory.
\<close>

record cached_mem =
  ddr :: "u64 \<Rightarrow> u8"
  line_data :: "u64 \<Rightarrow> (u64 \<Rightarrow> u8) option"
  line_dirty :: "u64 \<Rightarrow> bool"

definition ARM_CACHE_LINE_SIZE :: u64 where "ARM_CACHE_LINE_SIZE = 64"

definition line_of :: "u64 \<Rightarrow> u64" where "line_of a = a div ARM_CACHE_LINE_SIZE"

definition cpu_read :: "cached_mem \<Rightarrow> u64 \<Rightarrow> u8" where
  "cpu_read c a = (case line_data c (line_of a) of None \<Rightarrow> ddr c a | Some f \<Rightarrow> f a)"

definition cpu_write :: "u64 \<Rightarrow> u8 \<Rightarrow> cached_mem \<Rightarrow> cached_mem" where
  "cpu_write a b c = (let f = (case line_data c (line_of a) of None \<Rightarrow> ddr c | Some f \<Rightarrow> f) in
     c\<lparr>line_data := (line_data c)(line_of a \<mapsto> f(a := b)), line_dirty := (line_dirty c)(line_of a := True)\<rparr>)"

definition fabric_write :: "u64 \<Rightarrow> u8 \<Rightarrow> cached_mem \<Rightarrow> cached_mem" where
  "fabric_write a b c = c\<lparr>ddr := (ddr c)(a := b)\<rparr>"

definition fill_line :: "u64 \<Rightarrow> cached_mem \<Rightarrow> cached_mem" where
  "fill_line l c = (case line_data c l of
      None \<Rightarrow> c\<lparr>line_data := (line_data c)(l \<mapsto> ddr c), line_dirty := (line_dirty c)(l := False)\<rparr>
    | Some _ \<Rightarrow> c)"

text \<open>\<^verbatim>\<open>dc civac\<close>: a dirty line is written back, and the line is dropped. Eviction has the same effect.\<close>

definition dc_civac :: "u64 \<Rightarrow> cached_mem \<Rightarrow> cached_mem" where
  "dc_civac a c = (case line_data c (line_of a) of
      None \<Rightarrow> c
    | Some f \<Rightarrow> c\<lparr>ddr := (if line_dirty c (line_of a) then (\<lambda>x. if line_of x = line_of a then f x else ddr c x) else ddr c),
        line_data := (line_data c)(line_of a := None), line_dirty := (line_dirty c)(line_of a := False)\<rparr>)"

text \<open>
  The loop over a region, in steps of a line from its first byte. With \<open>enabled\<close> false
  (\<^verbatim>\<open>ENABLE_CACHE_FLUSH\<close> not defined, or another processor) both calls do nothing.
\<close>

definition civac_region :: "u64 \<Rightarrow> u64 \<Rightarrow> cached_mem \<Rightarrow> cached_mem" where
  "civac_region addr n c =
     fold (\<lambda>i. dc_civac (addr + of_nat (64 * i))) [0..<(unat n + 63) div 64] c"

definition arm_dcache_flush :: "bool \<Rightarrow> u64 \<Rightarrow> u64 \<Rightarrow> cached_mem \<Rightarrow> cached_mem" where
  "arm_dcache_flush enabled addr n c = (if enabled then civac_region addr n c else c)"

definition arm_dcache_invalidate :: "bool \<Rightarrow> u64 \<Rightarrow> u64 \<Rightarrow> cached_mem \<Rightarrow> cached_mem" where
  "arm_dcache_invalidate enabled addr n c = (if enabled then civac_region addr n c else c)"

section \<open>The calls of the handle\<close>

definition zynq_malloc ::
  "build_flags \<Rightarrow> nat \<Rightarrow> os_alloc \<Rightarrow> (nat \<Rightarrow> nat) \<Rightarrow> int \<Rightarrow> u64 \<Rightarrow> u64 \<Rightarrow> pagemap \<Rightarrow> zynq_answers \<Rightarrow> u64 \<Rightarrow>
   device2virtual \<Rightarrow> data_server_state \<Rightarrow> process_res \<Rightarrow>
   ((zynq_error + remote_region \<times> device2virtual \<times> data_server_state) \<times> process_res) option" where
  "zynq_malloc fl bytes os rnd fd ptr page pm k len d2v s r =
     (if is_simulation (dsf s) then
        (case client_malloc fl bytes os rnd fd ptr len d2v s of
           None \<Rightarrow> None
         | Some (Inl e) \<Rightarrow> Some (Inl (SimClient e), r)
         | Some (Inr x) \<Rightarrow> Some (Inr x, r))
      else
        (case board_malloc page pm k len r of
           (Inl e, r1) \<Rightarrow> Some (Inl e, r1)
         | (Inr p, r1) \<Rightarrow> Some (Inr (p, d2v, s), r1)))"

definition zynq_copy_to_fpga ::
  "bool \<Rightarrow> build_flags \<Rightarrow> nat \<Rightarrow> os_alloc \<Rightarrow> (nat \<Rightarrow> nat) \<Rightarrow> remote_region \<Rightarrow> data_server_state \<times> cached_mem \<Rightarrow>
   (ds_error + data_server_state \<times> cached_mem) option" where
  "zynq_copy_to_fpga enabled fl bytes os rnd dst = (\<lambda>(s, c).
     if is_simulation (dsf s) then
       (case client_copy_to_fpga fl bytes os rnd dst s of
          None \<Rightarrow> None | Some (Inl e) \<Rightarrow> Some (Inl e) | Some (Inr s1) \<Rightarrow> Some (Inr (s1, c)))
     else Some (Inr (s, arm_dcache_flush enabled (rr_host_addr dst) (rr_len dst) c)))"

definition zynq_copy_from_fpga ::
  "bool \<Rightarrow> build_flags \<Rightarrow> nat \<Rightarrow> os_alloc \<Rightarrow> (nat \<Rightarrow> nat) \<Rightarrow> remote_region \<Rightarrow> data_server_state \<times> cached_mem \<Rightarrow>
   (ds_error + data_server_state \<times> cached_mem) option" where
  "zynq_copy_from_fpga enabled fl bytes os rnd src = (\<lambda>(s, c).
     if is_simulation (dsf s) then
       (case client_copy_from_fpga fl bytes os rnd src s of
          None \<Rightarrow> None | Some (Inl e) \<Rightarrow> Some (Inl e) | Some (Inr s1) \<Rightarrow> Some (Inr (s1, c)))
     else Some (Inr (s, arm_dcache_invalidate enabled (rr_host_addr src) (rr_len src) c)))"

definition zynq_free ::
  "build_flags \<Rightarrow> nat \<Rightarrow> os_alloc \<Rightarrow> (nat \<Rightarrow> nat) \<Rightarrow> remote_region \<Rightarrow> data_server_state \<times> process_res \<Rightarrow>
   (ds_error + data_server_state \<times> process_res) option" where
  "zynq_free fl bytes os rnd p = (\<lambda>(s, r).
     if is_simulation (dsf s) then
       (case client_free fl bytes os rnd p s of
          None \<Rightarrow> None | Some (Inl e) \<Rightarrow> Some (Inl e) | Some (Inr s1) \<Rightarrow> Some (Inr (s1, r)))
     else Some (Inr (s, drop_map (rr_host_addr p) (rr_len p) r)))"

section \<open>Contiguous physical memory\<close>

lemma page_mask: "(2 ^ k :: u64) - 1 = mask k"
  by (simp add: mask_eq_exp_minus_1)

lemma div_page: "k < 64 \<Longrightarrow> va div 2 ^ k = drop_bit k va" for va :: u64
  by (simp add: drop_bit_eq_div)

lemma unat_pow: "k < 64 \<Longrightarrow> unat (2 ^ k :: u64) = 2 ^ k"
  using unsigned_of_nat [of "2 ^ k", where ?'b = 64 and ?'a = nat] by (simp add: take_bit_nat_eq_self)

lemma vtop_pow:
  assumes "k < 64"
  shows "vtop (2 ^ k) pm va = (case pm (drop_bit k va) of
      None \<Rightarrow> 0 | Some e \<Rightarrow> if bit e 63 then push_bit k (e AND mask 54) OR take_bit k va else 0)"
  using assms by (simp add: vtop_def div_page page_mask push_bit_eq_mult take_bit_eq_mask split: option.split)

lemma or_is_add: "take_bit k a = 0 \<Longrightarrow> a OR take_bit k b = a + take_bit k b" for a b :: u64
proof (rule disjunctive_add [symmetric])
  fix n assume "take_bit k a = 0"
  then show "\<not> bit a n \<or> \<not> bit (take_bit k b) n"
    by (metis bit_0_eq bit_take_bit_iff bot_apply bot_bool_def)
qed

lemma take_bit_sum_0: "take_bit k a = 0 \<Longrightarrow> take_bit k b = 0 \<Longrightarrow> take_bit k (a + b) = 0" for a b :: u64
proof -
  assume "take_bit k a = 0" "take_bit k b = 0"
  then have "a = push_bit k (drop_bit k a)" "b = push_bit k (drop_bit k b)"
    using bits_ident [of k a] bits_ident [of k b] by simp_all
  then have "a + b = push_bit k (drop_bit k a + drop_bit k b)" by (metis push_bit_add)
  then show ?thesis by (simp add: take_bit_push_bit)
qed

lemma vtop_in_page:
  assumes k: "k < 64" and al: "take_bit k va = 0" and d: "d < 2 ^ k" and nz: "vtop (2 ^ k) pm va \<noteq> 0"
  shows "vtop (2 ^ k) pm (va + of_nat d) = vtop (2 ^ k) pm va + of_nat d"
proof -
  have d': "(of_nat d :: u64) = take_bit k (of_nat d)"
    using d by (simp add: take_bit_of_nat take_bit_nat_eq_self)
  then have sum: "va + of_nat d = va OR take_bit k (of_nat d)" using or_is_add [OF al, of "of_nat d"] by metis
  have dr: "drop_bit k (va + of_nat d) = drop_bit k va"
    unfolding sum by (intro bit_word_eqI) (auto simp: bit_simps)
  have t: "take_bit k (va + of_nat d) = take_bit k (of_nat d)"
    unfolding sum using al by simp
  from nz obtain e where e: "pm (drop_bit k va) = Some e" "bit e 63"
    by (auto simp: vtop_pow [OF k] split: option.splits if_splits)
  have "take_bit k (push_bit k (e AND mask 54)) = 0" by (simp add: take_bit_push_bit)
  from or_is_add [OF this, of "of_nat d"]
  have "push_bit k (e AND mask 54) OR of_nat d = push_bit k (e AND mask 54) + of_nat d" unfolding d' [symmetric] .
  with e dr t al d' show ?thesis
    by (simp only: vtop_pow [OF k] option.case if_True) simp
qed

lemma contiguous_from_pages:
  assumes "contiguous_from page pm addr first len off" "page \<noteq> 0" "off + j * unat page < len"
  shows "vtop page pm (addr + of_nat (off + j * unat page)) = first + of_nat (off + j * unat page)"
  using assms
proof (induction page pm addr first len off arbitrary: j rule: contiguous_from.induct)
  case (1 page pm addr first len off)
  have c: "vtop page pm (addr + of_nat off) = first + of_nat off"
      "contiguous_from page pm addr first len (off + unat page)"
    using "1.prems" by (auto simp: contiguous_from.simps [of page pm addr first len off])
  show ?case
  proof (cases j)
    case 0
    then show ?thesis using c(1) by simp
  next
    case (Suc j')
    then show ?thesis using "1.IH" [of j'] c(2) "1.prems" by (simp add: algebra_simps)
  qed
qed

lemma verified_contiguous:
  assumes ver: "verify_contiguous_mapping (2 ^ k) pm addr len" and k: "k < 64" and al: "take_bit k addr = 0"
    and nowrap: "unat (vtop (2 ^ k) pm addr) + unat len \<le> 2 ^ 64" and off: "off < unat len"
  shows "vtop (2 ^ k) pm (addr + of_nat off) = vtop (2 ^ k) pm addr + of_nat off"
proof -
  let ?first = "vtop (2 ^ k) pm addr"
  have p: "unat (2 ^ k :: u64) = 2 ^ k" by (rule unat_pow [OF k])
  have nz: "?first \<noteq> 0" and c: "contiguous_from (2 ^ k) pm addr ?first (unat len) (2 ^ k)"
    using ver p by (auto simp: verify_contiguous_mapping_def Let_def split: if_splits)
  define j where "j = off div 2 ^ k"
  define o' where "o' = off mod 2 ^ k"
  have off_eq: "off = j * 2 ^ k + o'" unfolding j_def o'_def by (rule div_mod_decomp)
  have o': "o' < 2 ^ k" by (simp add: o'_def)
  have page: "vtop (2 ^ k) pm (addr + of_nat (j * 2 ^ k)) = ?first + of_nat (j * 2 ^ k)"
  proof (cases j)
    case (Suc i)
    then show ?thesis
      using contiguous_from_pages [OF c, of i] off off_eq p k by (simp add: algebra_simps)
  qed simp
  have "unat (?first + of_nat (j * 2 ^ k)) = unat ?first + j * 2 ^ k"
  proof -
    have small: "unat ?first + j * 2 ^ k < 2 ^ 64" using nowrap off off_eq by simp
    then have "unat (of_nat (j * 2 ^ k) :: u64) = j * 2 ^ k" by (simp add: unsigned_of_nat take_bit_nat_eq_self del: of_nat_mult)
    then show ?thesis using small by (simp add: unat_word_ariths del: of_nat_mult)
  qed
  then have nz': "vtop (2 ^ k) pm (addr + of_nat (j * 2 ^ k)) \<noteq> 0" using page nz by (metis add_is_0 unat_eq_zero)
  have "take_bit k (j * 2 ^ k) = 0" by (simp add: take_bit_eq_mod)
  then have "take_bit k (of_nat (j * 2 ^ k) :: u64) = 0" using take_bit_of_nat [of k "j * 2 ^ k", where ?'a = u64] by simp
  then have al': "take_bit k (addr + of_nat (j * 2 ^ k)) = 0"
    by (rule take_bit_sum_0 [OF al])
  show ?thesis
    using vtop_in_page [OF k al' o' nz'] page off_eq by (simp add: add.assoc)
qed

lemma clear_low: "x AND NOT (mask k) = push_bit k (drop_bit k x)" for x :: u64
  by (intro bit_word_eqI) (auto simp: bit_simps)

lemma page_align_nat:
  assumes k: "k < 64" and fits: "unat len + 2 ^ k \<le> 2 ^ 64"
  shows "unat (page_align (2 ^ k) len) = (unat len + 2 ^ k - 1) div 2 ^ k * 2 ^ k"
proof -
  have pos: "0 < (2 ^ k :: nat)" by simp
  have "len + 2 ^ k - 1 = of_nat (unat len + 2 ^ k - 1)" using pos by (simp add: of_nat_diff Suc_le_eq)
  then have sum: "unat (len + 2 ^ k - 1) = unat len + 2 ^ k - 1"
    using fits pos by (simp only: unsigned_of_nat) (simp add: take_bit_nat_eq_self)
  have "page_align (2 ^ k) len = push_bit k (drop_bit k (len + 2 ^ k - 1))"
    by (simp add: page_align_def page_mask clear_low)
  also have "unat \<dots> = (unat len + 2 ^ k - 1) div 2 ^ k * 2 ^ k"
  proof -
    have q: "unat (drop_bit k (len + 2 ^ k - 1)) = (unat len + 2 ^ k - 1) div 2 ^ k"
      using sum unat_pow [OF k] by (simp add: drop_bit_eq_div unat_div)
    have "(unat len + 2 ^ k - 1) div 2 ^ k * 2 ^ k \<le> unat len + 2 ^ k - 1" by simp
    then have "(unat len + 2 ^ k - 1) div 2 ^ k * 2 ^ k < 2 ^ 64" using fits pos by linarith
    then show ?thesis
      using q unat_pow [OF k] by (simp add: push_bit_eq_mult unat_word_ariths del: mult_div_mod_eq)
  qed
  finally show ?thesis .
qed

lemma page_align_ge:
  assumes "k < 64" "unat len + 2 ^ k \<le> 2 ^ 64"
  shows "unat len \<le> unat (page_align (2 ^ k) len)" "unat (page_align (2 ^ k) len) < unat len + 2 ^ k"
proof -
  let ?x = "unat len + 2 ^ k - 1"
  have pos: "0 < (2 ^ k :: nat)" by simp
  have "?x div 2 ^ k * 2 ^ k \<le> ?x" "?x < ?x div 2 ^ k * 2 ^ k + 2 ^ k"
    using pos by (simp, metis div_mod_decomp add_less_cancel_left mod_less_divisor)
  then show "unat len \<le> unat (page_align (2 ^ k) len)" "unat (page_align (2 ^ k) len) < unat len + 2 ^ k"
    unfolding page_align_nat [OF assms] using pos by linarith+
qed


section \<open>What an allocation leaves behind\<close>

lemmas res_defs = close_fd_def opened_fd_def add_map_def drop_map_def

lemma heap_malloc_cases:
  assumes "try_dma_heap_malloc page pm k len r = (res, r')"
  shows "open_fds r' = open_fds r \<and>
    (case res of Inl e \<Rightarrow> mapped r' = mapped r
     | Inr p \<Rightarrow> mapped r' = (rr_host_addr p, rr_len p) # mapped r \<and> rr_len p = page_align page len \<and>
         rr_host_addr p = heap_mmap k \<and> rr_fpga_addr p = vtop page pm (heap_mmap k) \<and>
         verify_contiguous_mapping page pm (heap_mmap k) (rr_len p))"
  using assms by (auto simp: try_dma_heap_malloc_def Let_def res_defs split: if_splits)

lemma fallback_size_fits: "fallback_size len = Some sz \<Longrightarrow> len \<le> sz \<and> sz \<in> set (0x1000 # zynq_huge_page_sizes)"
  by (auto simp: fallback_size_def zynq_huge_page_sizes_def split: if_splits)

lemma fallback_size_None: "fallback_size len = None \<longleftrightarrow> 0x40000000 < len"
  by (auto simp: fallback_size_def zynq_huge_page_sizes_def not_le word_less_nat_alt word_le_nat_alt)

lemma fallback_cases:
  assumes "fallback_malloc page pm k len r = (res, r')"
  shows "open_fds r' = open_fds r \<and>
    (case res of Inl e \<Rightarrow> e \<noteq> MlockFailed \<longrightarrow> mapped r' = mapped r
     | Inr p \<Rightarrow> mapped r' = (rr_host_addr p, rr_len p) # mapped r \<and> len \<le> rr_len p \<and>
         rr_fpga_addr p = vtop page pm (rr_host_addr p))"
  using assms fallback_size_fits [of len]
  by (auto simp: fallback_malloc_def Let_def res_defs split: option.splits if_splits)

section \<open>Coherence\<close>

definition dirty :: "cached_mem \<Rightarrow> u64 \<Rightarrow> bool" where
  "dirty c l = (line_data c l \<noteq> None \<and> line_dirty c l)"

lemma civac_one:
  "line_data (dc_civac a c) l = (if l = line_of a then None else line_data c l)"
  "ddr (dc_civac a c) x = (if line_of x = line_of a \<and> dirty c (line_of x) then cpu_read c x else ddr c x)"
  "l \<noteq> line_of a \<Longrightarrow> line_dirty (dc_civac a c) l = line_dirty c l"
  by (auto simp: dc_civac_def dirty_def cpu_read_def split: option.split)

lemma civac_data: "line_data (fold dc_civac as c) l = (if l \<in> line_of ` set as then None else line_data c l)"
  by (induction as arbitrary: c) (simp_all add: civac_one)

lemma civac_dirty: "l \<notin> line_of ` set as \<Longrightarrow> line_dirty (fold dc_civac as c) l = line_dirty c l"
  by (induction as arbitrary: c) (simp_all add: civac_one)

lemma civac_ddr:
  "ddr (fold dc_civac as c) x = (if line_of x \<in> line_of ` set as \<and> dirty c (line_of x) then cpu_read c x else ddr c x)"
proof (induction as arbitrary: c)
  case (Cons a as)
  have "dirty (dc_civac a c) (line_of x) = (dirty c (line_of x) \<and> line_of x \<noteq> line_of a)"
    by (cases "line_of x = line_of a") (simp_all add: dirty_def civac_one)
  moreover have "line_of x \<noteq> line_of a \<Longrightarrow> cpu_read (dc_civac a c) x = cpu_read c x"
    by (simp add: cpu_read_def civac_one split: option.split)
  ultimately show ?case by (auto simp: Cons.IH civac_one)
qed simp

lemma civac_region_list: "civac_region a n c = fold dc_civac (map (\<lambda>i. a + of_nat (64 * i)) [0..<(unat n + 63) div 64]) c"
  by (simp add: civac_region_def fold_map comp_def)

text \<open>The lines a region touches, and those the loop names, when its first byte starts a line.\<close>

definition region :: "u64 \<Rightarrow> u64 \<Rightarrow> u64 set" where
  "region a n = {x. unat (x - a) < unat n}"

lemma region_bounds:
  assumes "x \<in> region a n" "unat a + unat n \<le> 2 ^ 64"
  shows "unat a \<le> unat x \<and> unat x < unat a + unat n"
proof -
  have "unat (a + (x - a)) = (unat a + unat (x - a)) mod 2 ^ 64" by (simp only: unat_word_ariths) simp
  then show ?thesis using assms by (simp add: region_def)
qed

definition region_lines :: "u64 \<Rightarrow> u64 \<Rightarrow> u64 set" where
  "region_lines a n = line_of ` region a n"

lemma swept_lines:
  assumes al: "a mod 64 = 0"
  shows "line_of ` set (map (\<lambda>i. a + of_nat (64 * i)) [0..<(unat n + 63) div 64]) \<supseteq> region_lines a n"
proof
  fix l assume "l \<in> region_lines a n"
  then obtain x where x: "unat (x - a) < unat n" and l: "l = line_of x" by (auto simp: region_lines_def region_def)
  define j where "j = unat (x - a)"
  define i where "i = j div 64"
  have xa: "x = a + of_nat j" by (simp add: j_def)
  have "i < (unat n + 63) div 64" using x by (simp add: i_def j_def)
  moreover have "line_of (a + of_nat (64 * i)) = line_of x"
  proof -
    have low: "take_bit 6 a = 0" using al by (simp add: take_bit_eq_mod)
    have eq: "(of_nat j :: u64) = of_nat (64 * i) + take_bit 6 (of_nat j)"
    proof -
      have "(of_nat j :: u64) = of_nat (64 * i + j mod 64)" by (simp add: i_def flip: of_nat_add of_nat_mult)
      moreover have "take_bit 6 j = j mod 64" by (simp add: take_bit_eq_mod)
      then have "take_bit 6 (of_nat j :: u64) = of_nat (j mod 64)" using take_bit_of_nat [of 6 j, where ?'a = u64] by simp
      ultimately show ?thesis by simp
    qed
    have "take_bit 6 (of_nat (64 * i) :: u64) = 0"
      using take_bit_of_nat [of 6 "64 * i", where ?'a = u64] by (simp add: take_bit_eq_mod)
    then have base: "take_bit 6 (a + of_nat (64 * i)) = 0" 
      by (rule take_bit_sum_0 [OF low])
    have "x = (a + of_nat (64 * i)) OR take_bit 6 (of_nat j)"
      using or_is_add [OF base, of "of_nat j"] xa eq by (simp add: add.assoc)
    then have "drop_bit 6 x = drop_bit 6 (a + of_nat (64 * i))"
      by (intro bit_word_eqI) (auto simp: bit_simps)
    then show ?thesis by (simp add: line_of_def ARM_CACHE_LINE_SIZE_def drop_bit_eq_div)
  qed
  ultimately show "l \<in> line_of ` set (map (\<lambda>i. a + of_nat (64 * i)) [0..<(unat n + 63) div 64])"
    using l by (auto intro!: rev_image_eqI)
qed


section \<open>Copies\<close>

text \<open>
  What may happen between the two copies: the cache fills and evicts lines as it likes, the fabric
  writes anywhere, the processor writes outside the lines of the region.
\<close>

datatype mem_event = Fill u64 | Evict u64 | FabricWrite u64 u8 | CpuWrite u64 u8

fun mem_event_step :: "mem_event \<Rightarrow> cached_mem \<Rightarrow> cached_mem" where
  "mem_event_step (Fill l) = fill_line l"
| "mem_event_step (Evict a) = dc_civac a"
| "mem_event_step (FabricWrite a b) = fabric_write a b"
| "mem_event_step (CpuWrite a b) = cpu_write a b"

fun outside :: "u64 set \<Rightarrow> mem_event \<Rightarrow> bool" where
  "outside L (CpuWrite a b) = (line_of a \<notin> L)"
| "outside L _ = True"

text \<open>Memory as it would be without any cache, under the writes of the fabric alone.\<close>

fun fabric_event :: "mem_event \<Rightarrow> (u64 \<Rightarrow> u8) \<Rightarrow> u64 \<Rightarrow> u8" where
  "fabric_event (FabricWrite a b) m = m(a := b)"
| "fabric_event _ m = m"

definition clean_lines :: "u64 set \<Rightarrow> cached_mem \<Rightarrow> bool" where
  "clean_lines L c = (\<forall>l \<in> L. \<not> dirty c l)"

lemma event_clean:
  assumes "clean_lines L c" "outside L ev"
  shows "clean_lines L (mem_event_step ev c)"
    "line_of x \<in> L \<Longrightarrow> ddr (mem_event_step ev c) x = fabric_event ev (ddr c) x"
  using assms
  by (cases ev; auto simp: clean_lines_def dirty_def fill_line_def fabric_write_def cpu_write_def dc_civac_def Let_def
      split: option.splits)+

lemma events_clean:
  assumes "clean_lines L c" "list_all (outside L) evs" "\<And>x. x \<in> R \<Longrightarrow> line_of x \<in> L \<and> ddr c x = m x"
  shows "clean_lines L (fold mem_event_step evs c) \<and>
    (\<forall>x \<in> R. ddr (fold mem_event_step evs c) x = fold fabric_event evs m x)"
  using assms
proof (induction evs arbitrary: c m)
  case (Cons ev evs)
  have ok: "clean_lines L c" "outside L ev" "list_all (outside L) evs" using Cons.prems by auto
  have m: "line_of x \<in> L \<and> ddr (mem_event_step ev c) x = fabric_event ev m x" if "x \<in> R" for x
    using event_clean(2) [OF ok(1,2), of x] Cons.prems(3) [OF that] by (cases ev) auto
  show ?case using Cons.IH [OF event_clean(1) [OF ok(1,2)] ok(3) m] by simp
qed simp

lemma flushed:
  assumes al: "a mod 64 = 0" and fresh: "\<And>x. x \<in> region a n \<Longrightarrow> \<not> dirty c (line_of x) \<Longrightarrow> cpu_read c x = ddr c x"
  shows "l \<in> region_lines a n \<Longrightarrow> line_data (civac_region a n c) l = None"
    "x \<in> region a n \<Longrightarrow> ddr (civac_region a n c) x = cpu_read c x"
proof -
  note sw = swept_lines [OF al, of n]
  show "l \<in> region_lines a n \<Longrightarrow> line_data (civac_region a n c) l = None"
    using sw by (auto simp: civac_region_list civac_data)
  show "x \<in> region a n \<Longrightarrow> ddr (civac_region a n c) x = cpu_read c x"
    using sw fresh [of x] by (auto simp: civac_region_list civac_ddr region_lines_def)
qed


section \<open>Properties\<close>

text \<open>C22. Allocation on the board. Whatever the kernel answers, no descriptor is left open, and an
  error leaves no mapping behind unless locking the pages failed. A success has mapped exactly the
  region it returns, at least as long as requested; when it came from the DMA heap, every byte of
  the region lies at its offset from the physical address handed to the fabric.\<close>

theorem board_malloc_region:
  assumes page: "page = 2 ^ k" "k < 64" "take_bit k (heap_mmap ans) = 0"
    and fits: "unat len + 2 ^ k \<le> 2 ^ 64" "unat (vtop page pm (heap_mmap ans)) + unat (page_align page len) \<le> 2 ^ 64"
    and run: "board_malloc page pm ans len r = (res, r')"
  shows "open_fds r' = open_fds r \<and>
    (case res of
       Inl e \<Rightarrow> e = MlockFailed \<or> mapped r' = mapped r
     | Inr p \<Rightarrow> mapped r' = (rr_host_addr p, rr_len p) # mapped r \<and> len \<le> rr_len p \<and>
         rr_fpga_addr p = vtop page pm (rr_host_addr p) \<and>
         (fst (try_dma_heap_malloc page pm ans len r) = Inr p \<longrightarrow>
            (\<forall>off < unat (rr_len p). vtop page pm (rr_host_addr p + of_nat off) = rr_fpga_addr p + of_nat off)))"
proof -
  obtain h r1 where h: "try_dma_heap_malloc page pm ans len r = (h, r1)" by fastforce
  note heap = heap_malloc_cases [OF h]
  show ?thesis
  proof (cases h)
    case (Inl e)
    then have fb: "fallback_malloc page pm ans len r1 = (res, r')" using run h by (simp add: board_malloc_def)
    from heap Inl have "open_fds r1 = open_fds r" "mapped r1 = mapped r" by auto
    with fallback_cases [OF fb] Inl h show ?thesis by (auto split: sum.splits)
  next
    case (Inr p)
    then have res: "res = Inr p" "r' = r1" using run h by (simp_all add: board_malloc_def)
    have "len \<le> rr_len p" using heap Inr page_align_ge(1) [OF page(2) fits(1)] page(1) by (simp add: word_le_nat_alt)
    moreover have "vtop page pm (rr_host_addr p + of_nat off) = rr_fpga_addr p + of_nat off" if "off < unat (rr_len p)" for off
      using heap Inr verified_contiguous [of k pm "heap_mmap ans" "rr_len p" off] page fits that by auto
    ultimately show ?thesis using heap Inr res h by simp
  qed
qed

definition linear_pages :: pagemap where
  "linear_pages v = Some (0x8000000000000000 OR v)"

definition heap_answers :: zynq_answers where
  "heap_answers = \<lparr>heap_open = 3, heap_ioctl = 0, heap_buf_fd = 4, heap_mmap = 0x10000, fallback_mmap = 0x20000, fallback_mlock = 0\<rparr>"

theorem board_malloc_region_witness:
  "\<exists>r'. board_malloc 0x1000 linear_pages heap_answers 5000 \<lparr>open_fds = [1], mapped = []\<rparr> =
      (Inr \<lparr>rr_fpga_addr = 0x10000, rr_host_addr = 0x10000, rr_len = 0x2000\<rparr>, r') \<and> open_fds r' = [1] \<and>
    (\<forall>off < 0x2000. vtop 0x1000 linear_pages (0x10000 + of_nat off) = 0x10000 + of_nat off)"
proof -
  let ?p = "\<lparr>rr_fpga_addr = 0x10000, rr_host_addr = 0x10000, rr_len = 0x2000\<rparr> :: remote_region"
  have v: "vtop 0x1000 linear_pages 0x10000 = 0x10000" "vtop 0x1000 linear_pages 0x11000 = 0x11000"
    by (simp_all add: vtop_def linear_pages_def mask_numeral)
  have al: "page_align 0x1000 5000 = 0x2000" by (simp add: page_align_def)
  have ver: "verify_contiguous_mapping 0x1000 linear_pages 0x10000 0x2000"
    by (simp add: verify_contiguous_mapping_def v contiguous_from.simps)
  have heap: "fst (try_dma_heap_malloc 0x1000 linear_pages heap_answers 5000 \<lparr>open_fds = [1], mapped = []\<rparr>) = Inr ?p"
    using ver v by (simp add: try_dma_heap_malloc_def heap_answers_def al MAP_FAILED_def Let_def)
  then obtain r' where run: "board_malloc 0x1000 linear_pages heap_answers 5000 \<lparr>open_fds = [1], mapped = []\<rparr> = (Inr ?p, r')"
    by (cases "try_dma_heap_malloc 0x1000 linear_pages heap_answers 5000 \<lparr>open_fds = [1], mapped = []\<rparr>") (simp add: board_malloc_def)
  have "(0x1000 :: u64) = 2 ^ 12" by simp
  from board_malloc_region [OF this _ _ _ _ run] heap v al
  show ?thesis using run by (simp add: heap_answers_def take_bit_eq_mod)
qed

text \<open>C23. Copies on the board are coherent when the region starts on a cache line and the
  maintenance is compiled in. After the copy to the fabric, and through any filling and evicting of
  lines, writes of the fabric and writes of the processor to other lines, the memory of the region is
  what the processor had stored, overwritten by what the fabric wrote; and after the copy back the
  processor reads exactly that.\<close>

theorem board_copies_coherent:
  assumes board: "\<not> is_simulation (dsf s)" and al: "rr_host_addr p mod 64 = 0"
    and fresh: "\<And>x. x \<in> region (rr_host_addr p) (rr_len p) \<Longrightarrow> \<not> dirty c (line_of x) \<Longrightarrow> cpu_read c x = ddr c x"
    and evs: "list_all (outside (region_lines (rr_host_addr p) (rr_len p))) evs"
  shows "\<exists>c1 c3. zynq_copy_to_fpga True fl bytes os rnd p (s, c) = Some (Inr (s, c1)) \<and>
    zynq_copy_from_fpga True fl bytes os rnd p (s, fold mem_event_step evs c1) = Some (Inr (s, c3)) \<and>
    (\<forall>x \<in> region (rr_host_addr p) (rr_len p).
       ddr (fold mem_event_step evs c1) x = fold fabric_event evs (cpu_read c) x \<and>
       cpu_read c3 x = fold fabric_event evs (cpu_read c) x)"
proof -
  let ?a = "rr_host_addr p" and ?n = "rr_len p"
  define c1 where "c1 = civac_region ?a ?n c"
  define c2 where "c2 = fold mem_event_step evs c1"
  define c3 where "c3 = civac_region ?a ?n c2"
  have "clean_lines (region_lines ?a ?n) c1"
    using flushed(1) [OF al fresh] by (simp add: clean_lines_def dirty_def c1_def)
  from events_clean [OF this evs, of "region ?a ?n" "cpu_read c"] flushed(2) [OF al fresh]
  have clean: "clean_lines (region_lines ?a ?n) c2"
    and ddr: "\<And>x. x \<in> region ?a ?n \<Longrightarrow> ddr c2 x = fold fabric_event evs (cpu_read c) x"
    by (auto simp: c1_def c2_def region_lines_def)
  have "cpu_read c3 x = ddr c2 x" if "x \<in> region ?a ?n" for x
  proof -
    have l: "line_of x \<in> region_lines ?a ?n" using that by (simp add: region_lines_def)
    then have "\<not> dirty c2 (line_of x)" using clean by (simp add: clean_lines_def)
    moreover have "line_data c3 (line_of x) = None"
      using swept_lines [OF al, of ?n] l by (auto simp: c3_def civac_region_list civac_data)
    ultimately show ?thesis by (simp add: cpu_read_def c3_def civac_region_list civac_ddr)
  qed
  then show ?thesis
    using board ddr
    by (simp add: zynq_copy_to_fpga_def zynq_copy_from_fpga_def arm_dcache_flush_def arm_dcache_invalidate_def
        c1_def c2_def c3_def)
qed


definition empty_cache :: cached_mem where
  "empty_cache = \<lparr>ddr = (\<lambda>_. 0), line_data = (\<lambda>_. None), line_dirty = (\<lambda>_. False)\<rparr>"

definition ok_os :: os_alloc where
  "ok_os = \<lparr>rand_name = ''1'', shm_fd = 3, truncate_rc = 0, mmap_addr = 0x7000\<rparr>"

definition board_flags :: build_flags where
  "board_flags = \<lparr>def_SIM = False, def_FPGA = True, def_AWS = False, def_ZYNQ = True, def_HAS_DMA = False, def_CUSTOM_ALLOC = False\<rparr>"

theorem board_copies_coherent_witness:
  "\<exists>c1 c3. let s = data_server_start board_flags 8388608 empty_file (\<lambda>_. 0) (\<lambda>_. 0);
       p = \<lparr>rr_fpga_addr = 0x80000, rr_host_addr = 0x1000, rr_len = 100\<rparr>;
       evs = [Fill 0x40, FabricWrite 0x1001 9, Evict 0x1000, CpuWrite 0x2000 5]
     in zynq_copy_to_fpga True board_flags 8388608 ok_os (\<lambda>_. 0) p (s, cpu_write 0x1000 7 empty_cache) = Some (Inr (s, c1)) \<and>
        zynq_copy_from_fpga True board_flags 8388608 ok_os (\<lambda>_. 0) p (s, fold mem_event_step evs c1) = Some (Inr (s, c3)) \<and>
        cpu_read c3 0x1000 = 7 \<and> cpu_read c3 0x1001 = 9"
proof -
  let ?s = "data_server_start board_flags 8388608 empty_file (\<lambda>_. 0) (\<lambda>_. 0)"
  let ?p = "\<lparr>rr_fpga_addr = 0x80000, rr_host_addr = 0x1000, rr_len = 100\<rparr> :: remote_region"
  let ?c = "cpu_write 0x1000 7 empty_cache"
  have board: "\<not> is_simulation (dsf ?s)" by (simp add: data_server_start_def board_flags_def)
  have fresh: "cpu_read ?c x = ddr ?c x" if "\<not> dirty ?c (line_of x)" for x
    using that by (auto simp: cpu_read_def cpu_write_def dirty_def empty_cache_def Let_def split: if_splits)
  have "line_of 0x2000 \<notin> region_lines 0x1000 100"
  proof
    assume "line_of 0x2000 \<in> region_lines 0x1000 100"
    then obtain x where x: "x \<in> region 0x1000 100" "line_of x = 0x80"
      by (auto simp: region_lines_def line_of_def ARM_CACHE_LINE_SIZE_def)
    have "unat x div 64 = 0x80" using arg_cong [OF x(2), of unat] by (simp add: line_of_def ARM_CACHE_LINE_SIZE_def unat_div)
    with region_bounds [OF x(1)] show False by auto
  qed
  then have evs: "list_all (outside (region_lines (rr_host_addr ?p) (rr_len ?p)))
      [Fill 0x40, FabricWrite 0x1001 9, Evict 0x1000, CpuWrite 0x2000 5]" by simp
  have mem: "0x1000 \<in> region 0x1000 100" "0x1001 \<in> region 0x1000 100" by (simp_all add: region_def)
  from board_copies_coherent [OF board _ fresh evs, of board_flags 8388608 ok_os "\<lambda>_. 0"] mem
  show ?thesis unfolding Let_def
    by (fastforce simp: cpu_read_def cpu_write_def empty_cache_def)
qed

text \<open>Off a line boundary the loop misses the last line: the fabric reads stale memory.\<close>

lemma unaligned_flush_misses:
  "let c = cpu_write 64 7 empty_cache in
     64 \<in> region 32 64 \<and> cpu_read c 64 = 7 \<and> ddr (arm_dcache_flush True 32 64 c) 64 = 0"
  by (simp add: region_def arm_dcache_flush_def civac_region_list civac_ddr Let_def cpu_read_def cpu_write_def
      empty_cache_def line_of_def ARM_CACHE_LINE_SIZE_def dirty_def civac_one)

text \<open>On the board, \<^verbatim>\<open>free\<close> unmaps the region at once; the last pointer to it unmaps it a second time.\<close>

lemma freed_region_unmapped_again:
  assumes "\<not> is_simulation (dsf s)"
  shows "zynq_free fl bytes os rnd p (s, r) = Some (Inr (s, drop_map (rr_host_addr p) (rr_len p) r)) \<and>
    (\<exists>t. run_all (ptr_step (\<lambda>_ _. False))
       [OpNew 0 (rr_fpga_addr p) (rr_host_addr p) (rr_len p), OpCopy 1 0, OpDestroy 1, OpDestroy 0] ptr_start = Inr t \<and>
       unmapped (ptr_store t) = [(rr_host_addr p, rr_len p)])"
  using assms
  by (simp add: zynq_free_def ptr_start_def put_new_def ptr_new_def Let_def obj_def ptr_copy_def ptr_destroy_def acquire_def
      release_def mutex_lock_def mutex_unlock_def count_add_def delete_cells_def munmap_def)

end
