(* ===== verification/CStrings.thy ===== *)
theory CStrings
  imports Prelude
begin

text \<open>
  The conversions of the C library between numbers and text that the runtime uses: decimal and
  zero-padded hexadecimal printing (\<^verbatim>\<open>std::to_string\<close>, \<^verbatim>\<open>%ld\<close>, \<^verbatim>\<open>%016lx\<close>), \<^verbatim>\<open>isspace\<close> and
  \<^verbatim>\<open>strtol\<close> for the bases 10 and 16 on a 64-bit \<^verbatim>\<open>long\<close>, with the facts that reading undoes printing.
\<close>

section \<open>Printing\<close>

definition digit_char :: "nat \<Rightarrow> char" where
  "digit_char d = (if d < 10 then char_of (48 + d) else char_of (87 + d))"

fun to_digits :: "nat \<Rightarrow> nat \<Rightarrow> nat list" where
  "to_digits b n = (if b < 2 \<or> n < b then [n] else to_digits b (n div b) @ [n mod b])"

declare to_digits.simps [simp del]

definition to_string :: "nat \<Rightarrow> string" where
  "to_string n = map digit_char (to_digits 10 n)"

text \<open>\<^verbatim>\<open>%ld\<close> of a process number, which is not negative.\<close>

definition hex16 :: "u64 \<Rightarrow> string" where
  "hex16 w = map (\<lambda>i. digit_char (unat (take_bit 4 (drop_bit (4 * (15 - i)) w)))) [0..<16]"

section \<open>Reading\<close>

definition isspace :: "char \<Rightarrow> bool" where
  "isspace c = (c = CHR '' '' \<or> (9 \<le> (of_char c :: nat) \<and> (of_char c :: nat) \<le> 13))"

definition digit_val :: "char \<Rightarrow> nat option" where
  "digit_val c = (let n = (of_char c :: nat) in
     if 48 \<le> n \<and> n \<le> 57 then Some (n - 48)
     else if 97 \<le> n \<and> n \<le> 122 then Some (n - 87)
     else if 65 \<le> n \<and> n \<le> 90 then Some (n - 55)
     else None)"

definition is_digit :: "nat \<Rightarrow> char \<Rightarrow> bool" where
  "is_digit b c = (case digit_val c of Some d \<Rightarrow> d < b | None \<Rightarrow> False)"

fun digit_run :: "nat \<Rightarrow> string \<Rightarrow> nat list" where
  "digit_run b [] = []"
| "digit_run b (c # cs) = (if is_digit b c then the (digit_val c) # digit_run b cs else [])"

definition of_digits :: "nat \<Rightarrow> nat list \<Rightarrow> nat" where
  "of_digits b ds = foldl (\<lambda>a d. a * b + d) 0 ds"

fun split_sign :: "string \<Rightarrow> bool \<times> string" where
  "split_sign [] = (False, [])"
| "split_sign (c # cs) = (if c = CHR ''-'' then (True, cs) else if c = CHR ''+'' then (False, cs) else (False, c # cs))"

fun skip_0x :: "nat \<Rightarrow> string \<Rightarrow> string" where
  "skip_0x b (z # x # c # cs) = (if b = 16 \<and> z = CHR ''0'' \<and> (x = CHR ''x'' \<or> x = CHR ''X'') \<and> is_digit b c
     then c # cs else z # x # c # cs)"
| "skip_0x b s = s"

definition strtol :: "nat \<Rightarrow> string \<Rightarrow> int" where
  "strtol b s = (let (neg, t) = split_sign (dropWhile isspace s);
                     n = int (of_digits b (digit_run b (skip_0x b t)))
                 in if neg then max (- (2 ^ 63)) (- n) else min (2 ^ 63 - 1) n)"

section \<open>Reading undoes printing\<close>

lemma of_char_digit: "d < 16 \<Longrightarrow> (of_char (digit_char d) :: nat) = (if d < 10 then 48 + d else 87 + d)"
  by (simp add: digit_char_def)

lemma digit_val_char [simp]: "d < 16 \<Longrightarrow> digit_val (digit_char d) = Some d"
  by (auto simp: digit_val_def of_char_digit Let_def)

lemma is_digit_char [simp]: "d < 16 \<Longrightarrow> is_digit b (digit_char d) \<longleftrightarrow> d < b"
  by (simp add: is_digit_def)

lemma digit_char_inj: "d < 16 \<Longrightarrow> e < 16 \<Longrightarrow> digit_char d = digit_char e \<longleftrightarrow> d = e"
  by (metis digit_val_char option.inject)

lemma digit_char_not:
  assumes "d < 16"
  shows "\<not> isspace (digit_char d)" "digit_char d \<noteq> CHR ''-''" "digit_char d \<noteq> CHR ''+''"
    "digit_char d \<noteq> CHR ''x''" "digit_char d \<noteq> CHR ''X''"
proof -
  have "(of_char (digit_char d) :: nat) \<notin> {9..13} \<union> {32, 43, 45, 88, 120}"
    using assms by (auto simp: of_char_digit)
  then show "\<not> isspace (digit_char d)" "digit_char d \<noteq> CHR ''-''" "digit_char d \<noteq> CHR ''+''"
    "digit_char d \<noteq> CHR ''x''" "digit_char d \<noteq> CHR ''X''"
    by (auto simp: isspace_def)
qed

lemma to_digits_less: "2 \<le> b \<Longrightarrow> \<forall>d \<in> set (to_digits b n). d < b"
  by (induction b n rule: to_digits.induct) (subst to_digits.simps, auto)

lemma to_digits_nonempty [simp]: "to_digits b n \<noteq> []"
  by (subst to_digits.simps) simp

lemma length_to_digits: "2 \<le> b \<Longrightarrow> n < b ^ Suc k \<Longrightarrow> length (to_digits b n) \<le> Suc k"
proof (induction k arbitrary: n)
  case 0
  then show ?case by (subst to_digits.simps) simp
next
  case (Suc k)
  then have "n div b < b ^ Suc k" by (simp add: less_mult_imp_div_less mult.commute)
  with Suc show ?case by (subst to_digits.simps) auto
qed

lemma of_to_digits: "2 \<le> b \<Longrightarrow> of_digits b (to_digits b n) = n"
proof (induction b n rule: to_digits.induct)
  case (1 b n)
  then show ?case by (subst to_digits.simps) (auto simp: of_digits_def)
qed

lemma digit_run_map:
  "\<forall>d \<in> set ds. d < b \<Longrightarrow> b \<le> 16 \<Longrightarrow> rest = [] \<or> \<not> is_digit b (hd rest) \<Longrightarrow>
   digit_run b (map digit_char ds @ rest) = ds"
  by (induction ds) (cases rest; auto)+

lemma skip_0x_digits:
  assumes "\<forall>d \<in> set ds. d < 16" "ds \<noteq> []" "rest = [] \<or> hd rest \<notin> {CHR ''x'', CHR ''X''}"
  shows "skip_0x b (map digit_char ds @ rest) = map digit_char ds @ rest"
proof (cases ds)
  case (Cons d ds')
  then show ?thesis
    using assms digit_char_not(4,5)
    by (cases ds'; cases rest; cases "tl rest"; cases "tl ds'"; auto)
qed (use assms in simp)

lemma strtol_digits:
  assumes "\<forall>d \<in> set ds. d < b" "b \<le> 16" "ds \<noteq> []" "of_digits b ds < 2 ^ 63"
    and "rest = [] \<or> hd rest \<notin> {CHR ''x'', CHR ''X''} \<and> \<not> is_digit b (hd rest)"
  shows "strtol b (map digit_char ds @ rest) = int (of_digits b ds)"
proof -
  obtain d ds' where ds: "ds = d # ds'" using assms(3) by (cases ds) auto
  have d: "d < 16" using assms(1,2) ds by auto
  have "dropWhile isspace (map digit_char ds @ rest) = map digit_char ds @ rest"
    using digit_char_not(1) [OF d] by (simp add: ds)
  moreover have "split_sign (map digit_char ds @ rest) = (False, map digit_char ds @ rest)"
    using digit_char_not(2,3) [OF d] by (simp add: ds)
  moreover have "skip_0x b (map digit_char ds @ rest) = map digit_char ds @ rest"
    using assms by (intro skip_0x_digits) auto
  moreover have "digit_run b (map digit_char ds @ rest) = ds"
    using assms by (intro digit_run_map) auto
  ultimately show ?thesis using assms(4) by (simp add: strtol_def)
qed

lemma strtol_to_string:
  assumes "n < 2 ^ 63" "rest = [] \<or> hd rest \<notin> {CHR ''x'', CHR ''X''} \<and> \<not> is_digit 10 (hd rest)"
  shows "strtol 10 (to_string n @ rest) = int n"
  using strtol_digits [of "to_digits 10 n" 10 rest] assms to_digits_less [of 10 n] by (simp add: to_string_def of_to_digits)

lemma to_string_inj: "to_string m = to_string n \<longleftrightarrow> m = n"
proof
  assume eq: "to_string m = to_string n"
  have run: "digit_run 10 (to_string k) = to_digits 10 k" for k
    using digit_run_map [of "to_digits 10 k" 10 "[]"] to_digits_less [of 10 k] by (simp add: to_string_def)
  have "to_digits 10 m = to_digits 10 n" using run [of m] run [of n] eq by simp
  then have "of_digits 10 (to_digits 10 m) = of_digits 10 (to_digits 10 n)" by (rule arg_cong)
  then show "m = n" by (simp add: of_to_digits)
qed simp

lemma to_string_chars: "c \<in> set (to_string n) \<Longrightarrow> is_digit 10 c"
  using to_digits_less [of 10 n] by (auto simp: to_string_def)

lemma length_hex16 [simp]: "length (hex16 w) = 16"
  by (simp add: hex16_def)

lemma nibble_less: "unat (take_bit 4 w) < 16" for w :: u64
  using take_bit_nat_less_exp [of 4 "unat w"] by (simp add: unsigned_take_bit_eq)

lemma hex16_inj: "hex16 v = hex16 w \<longleftrightarrow> v = w"
proof
  assume "hex16 v = hex16 w"
  then have pos: "take_bit 4 (drop_bit (4 * (15 - i)) v) = take_bit 4 (drop_bit (4 * (15 - i)) w)" if "i < 16" for i
    using that nibble_less by (force simp: hex16_def digit_char_inj word_unat_eq_iff)
  have nib: "take_bit 4 (drop_bit (4 * j) v) = take_bit 4 (drop_bit (4 * j) w)" if "j < 16" for j
    using that pos [of "15 - j"] by simp
  show "v = w"
  proof (rule bit_word_eqI)
    fix n assume "n < LENGTH(64)"
    then have j: "n div 4 < 16" by simp
    have "bit v n \<longleftrightarrow> bit (take_bit 4 (drop_bit (4 * (n div 4)) v)) (n mod 4)" by (simp add: bit_simps)
    also have "\<dots> \<longleftrightarrow> bit w n" unfolding nib [OF j] by (simp add: bit_simps)
    finally show "bit v n \<longleftrightarrow> bit w n" .
  qed
qed simp

end
