(* ===== verification/SingletonLock.thy ===== *)
theory SingletonLock
  imports CStrings
begin

text \<open>
  The lock that keeps a second runtime daemon of a project from starting
  (\<^verbatim>\<open>runtime/src/core/singleton_lock.cc\<close>). The key of a project and the path of its lock file are
  functions of the process environment; taking the lock is a program that other daemons may
  interleave with, so it is modelled call by call, over the part of the kernel it uses: lock files
  with their contents and the owner of the exclusive \<^verbatim>\<open>flock\<close>, and the names of shared memory
  segments. What the kernel may answer freely (failing calls, short writes) is part of the event.
  A process opens the lock file at most once, so the owner of a lock is the process number.
\<close>

section \<open>Key and path\<close>

text \<open>FNV-1a over the bytes of a C string, up to its terminating zero.\<close>

fun fnv1a64_from :: "u64 \<Rightarrow> string \<Rightarrow> u64" where
  "fnv1a64_from h [] = h"
| "fnv1a64_from h (c # cs) = (if c = CHR 0x00 then h
     else fnv1a64_from ((h XOR of_char c) * 1099511628211) cs)"

definition fnv1a64 :: "string \<Rightarrow> u64" where
  "fnv1a64 s = fnv1a64_from 14695981039346656037 s"

text \<open>The environment of a process, its effective user, and what \<^verbatim>\<open>realpath\<close> answers it.\<close>

record daemon_env =
  getenv :: "string \<Rightarrow> string option"
  geteuid :: nat
  realpath :: "string \<Rightarrow> string option"

datatype lock_error =
    RootNotSet
  | CannotCanonicalize string
  | CannotOpen string
  | AlreadyRunning "int option" string
  | FlockFailed string

definition project_key :: "daemon_env \<Rightarrow> lock_error + string" where
  "project_key e = (case getenv e ''BEETHOVEN_PROJECT_ROOT'' of
      None \<Rightarrow> Inl RootNotSet
    | Some root \<Rightarrow>
        if root = [] then Inl RootNotSet
        else (case realpath e root of
            None \<Rightarrow> Inl (CannotCanonicalize root)
          | Some buf \<Rightarrow> Inr (hex16 (fnv1a64 buf))))"

fun first_set :: "daemon_env \<Rightarrow> string list \<Rightarrow> string" where
  "first_set e [] = ''/tmp''"
| "first_set e (var # vars) = (case getenv e var of
      Some v \<Rightarrow> if v \<noteq> [] then v else first_set e vars
    | None \<Rightarrow> first_set e vars)"

definition runtime_dir :: "daemon_env \<Rightarrow> string" where
  "runtime_dir e = first_set e [''XDG_RUNTIME_DIR'', ''TMPDIR'']"

definition lockfile_path :: "daemon_env \<Rightarrow> lock_error + string" where
  "lockfile_path e = andThen (project_key e) (\<lambda>key.
     Inr (runtime_dir e @ ''/beethoven-'' @ to_string (geteuid e) @ ''-'' @ key @ ''.lock''))"

definition cmd_server_file_name :: "daemon_env \<Rightarrow> string" where
  "cmd_server_file_name e = ''/compo_c_'' @ to_string (geteuid e)"

definition data_server_file_name :: "daemon_env \<Rightarrow> string" where
  "data_server_file_name e = ''/compo_d_'' @ to_string (geteuid e)"

section \<open>The lock file\<close>

text \<open>\<^verbatim>\<open>pread\<close> of at most 31 bytes into a zeroed buffer of 32, then \<^verbatim>\<open>strtol\<close>.\<close>

definition read_holding_pid :: "string \<Rightarrow> int" where
  "read_holding_pid content = (let buf = take 31 content in if buf = [] then - 1 else strtol 10 buf)"

text \<open>\<^verbatim>\<open>pwrite\<close> of some bytes at offset 0: they replace the beginning of the file.\<close>

definition pwrite0 :: "string \<Rightarrow> string \<Rightarrow> string" where
  "pwrite0 bytes content = bytes @ drop (length bytes) content"

definition pid_line :: "nat \<Rightarrow> string" where
  "pid_line pid = to_string pid @ [CHR 0x0A]"

section \<open>Taking the lock\<close>

text \<open>
  Where a process stands in \<^verbatim>\<open>runtime_acquire_singleton_lock\<close>: between two of its system calls,
  after it (\<open>Running\<close>, \<^verbatim>\<open>g_lock_fd\<close> is set), or ended by \<^verbatim>\<open>exit(1)\<close> with its diagnostic. \<open>Ended\<close> is a
  process the kernel has torn down.
\<close>

datatype lock_pc =
    Fresh
  | Opened string
  | Locked string
  | Truncated string
  | Written string
  | Stored string
  | CmdUnlinked string
  | Running string
  | Exited lock_error
  | Ended

record lock_sys =
  pc :: "nat \<Rightarrow> lock_pc"
  contents :: "string \<Rightarrow> string option"
  flock_owner :: "string \<Rightarrow> nat option"
  shm_names :: "string set"
  truncate_warnings :: "(nat \<times> string) list"

definition set_pc :: "nat \<Rightarrow> lock_pc \<Rightarrow> lock_sys \<Rightarrow> lock_sys" where
  "set_pc p c s = s\<lparr>pc := (pc s)(p := c)\<rparr>"

definition leave :: "nat \<Rightarrow> lock_pc \<Rightarrow> lock_sys \<Rightarrow> lock_sys" where
  "leave p c s = set_pc p c (s\<lparr>flock_owner := (\<lambda>f. if flock_owner s f = Some p then None else flock_owner s f)\<rparr>)"

text \<open>\<^verbatim>\<open>open(path, O_RDWR | O_CREAT)\<close>; the file is created empty.\<close>

definition do_open :: "(nat \<Rightarrow> daemon_env) \<Rightarrow> bool \<Rightarrow> nat \<Rightarrow> lock_sys \<Rightarrow> lock_sys" where
  "do_open env ok p s = (case lockfile_path (env p) of
      Inl e \<Rightarrow> leave p (Exited e) s
    | Inr path \<Rightarrow>
        if \<not> ok then leave p (Exited (CannotOpen path)) s
        else set_pc p (Opened path) (s\<lparr>contents := (contents s)(path \<mapsto>
               (case contents s path of None \<Rightarrow> [] | Some c \<Rightarrow> c))\<rparr>))"

definition holding_pid :: "string \<Rightarrow> lock_sys \<Rightarrow> int option" where
  "holding_pid path s = (let pid = read_holding_pid (the (contents s path)) in if 0 < pid then Some pid else None)"

text \<open>\<^verbatim>\<open>flock(fd, LOCK_EX | LOCK_NB)\<close>: refused when another open file holds the lock.\<close>

definition do_flock :: "bool \<Rightarrow> nat \<Rightarrow> string \<Rightarrow> lock_sys \<Rightarrow> lock_sys" where
  "do_flock ok p path s =
     (if \<not> ok then leave p (Exited (FlockFailed path)) s
      else (case flock_owner s path of
          Some q \<Rightarrow> if q = p then set_pc p (Locked path) s
                    else leave p (Exited (AlreadyRunning (holding_pid path s) path)) s
        | None \<Rightarrow> set_pc p (Locked path) (s\<lparr>flock_owner := (flock_owner s)(path \<mapsto> p)\<rparr>)))"

definition do_truncate :: "bool \<Rightarrow> nat \<Rightarrow> string \<Rightarrow> lock_sys \<Rightarrow> lock_sys" where
  "do_truncate ok p path s = set_pc p (Truncated path)
     (if ok then s\<lparr>contents := (contents s)(path \<mapsto> [])\<rparr>
      else s\<lparr>truncate_warnings := truncate_warnings s @ [(p, path)]\<rparr>)"

text \<open>\<open>n\<close> bytes of the line reach the file; a failing \<^verbatim>\<open>pwrite\<close> is \<open>n = 0\<close>.\<close>

definition do_write :: "nat \<Rightarrow> nat \<Rightarrow> string \<Rightarrow> lock_sys \<Rightarrow> lock_sys" where
  "do_write n p path s = set_pc p (Written path)
     (s\<lparr>contents := (contents s)(path \<mapsto> pwrite0 (take n (pid_line p)) (the (contents s path)))\<rparr>)"

definition shm_unlink :: "string \<Rightarrow> lock_sys \<Rightarrow> lock_sys" where
  "shm_unlink name s = s\<lparr>shm_names := shm_names s - {name}\<rparr>"

text \<open>
  The next system call of process \<open>p\<close>. The flag and the number are the kernel's answer where it
  has a choice. Calling the function again after it has succeeded changes nothing.
\<close>

definition lock_step :: "(nat \<Rightarrow> daemon_env) \<Rightarrow> bool \<Rightarrow> nat \<Rightarrow> nat \<Rightarrow> lock_sys \<Rightarrow> lock_sys" where
  "lock_step env ok n p s = (case pc s p of
      Fresh \<Rightarrow> do_open env ok p s
    | Opened path \<Rightarrow> do_flock ok p path s
    | Locked path \<Rightarrow> do_truncate ok p path s
    | Truncated path \<Rightarrow> do_write n p path s
    | Written path \<Rightarrow> set_pc p (Stored path) s
    | Stored path \<Rightarrow> set_pc p (CmdUnlinked path) (shm_unlink (cmd_server_file_name (env p)) s)
    | CmdUnlinked path \<Rightarrow> set_pc p (Running path) (shm_unlink (data_server_file_name (env p)) s)
    | Running path \<Rightarrow> s
    | Exited e \<Rightarrow> s
    | Ended \<Rightarrow> s)"

text \<open>
  What can happen in the system: a process makes its next call, a process is torn down (normal
  exit, signal, crash: the kernel drops its locks), or a running daemon creates its segments.
\<close>

datatype lock_event =
    Call nat bool nat
  | Die nat
  | CreateSegments nat

fun lock_event_step :: "(nat \<Rightarrow> daemon_env) \<Rightarrow> lock_event \<Rightarrow> lock_sys \<Rightarrow> lock_sys" where
  "lock_event_step env (Call p ok n) s = lock_step env ok n p s"
| "lock_event_step env (Die p) s = leave p Ended s"
| "lock_event_step env (CreateSegments p) s = (case pc s p of
      Running path \<Rightarrow> s\<lparr>shm_names := shm_names s \<union> {cmd_server_file_name (env p), data_server_file_name (env p)}\<rparr>
    | _ \<Rightarrow> s)"

definition lock_run :: "(nat \<Rightarrow> daemon_env) \<Rightarrow> lock_event list \<Rightarrow> lock_sys \<Rightarrow> lock_sys" where
  "lock_run env evs s = fold (lock_event_step env) evs s"

text \<open>Any files may be left over from earlier daemons, but no locks: they do not outlive a process.\<close>

definition boot :: "(string \<Rightarrow> string option) \<Rightarrow> string set \<Rightarrow> lock_sys" where
  "boot files names = \<lparr>pc = (\<lambda>_. Fresh), contents = files, flock_owner = (\<lambda>_. None), shm_names = names,
     truncate_warnings = []\<rparr>"

section \<open>The path tells user, directory and project apart\<close>

lemma hex16_no_dash: "CHR ''-'' \<notin> set (hex16 w)"
  using digit_char_not(2) nibble_less by (auto simp: hex16_def) metis

lemma to_string_no_dash: "CHR ''-'' \<notin> set (to_string n)"
  by (auto dest!: to_string_chars simp: is_digit_def digit_val_def)

lemma last_separator:
  assumes "xs @ [c] @ ys = xs' @ [c] @ ys'" "c \<notin> set ys" "c \<notin> set ys'"
  shows "xs = xs' \<and> ys = ys'"
proof -
  have "length ys = length ys'"
  proof (rule ccontr)
    assume ne: "length ys \<noteq> length ys'"
    have rev: "rev ys @ [c] @ rev xs = rev ys' @ [c] @ rev xs'"
      using arg_cong [OF assms(1), of rev] by simp
    have "takeWhile (\<lambda>d. d \<noteq> c) (rev zs @ [c] @ rev ws) = rev zs" if "c \<notin> set zs" for zs ws
      using that by (subst takeWhile_append2) auto
    then show False using ne rev assms(2,3) by (metis length_rev)
  qed
  then show ?thesis using assms(1) by (simp add: append_eq_append_conv)
qed

lemma project_key_hex: "project_key e = Inr k \<Longrightarrow> \<exists>w. k = hex16 w"
  by (auto simp: project_key_def split: option.splits if_splits)

lemma lockfile_path_inj:
  assumes "lockfile_path e = Inr f" "lockfile_path e' = Inr f'"
  shows "f = f' \<longleftrightarrow> runtime_dir e = runtime_dir e' \<and> geteuid e = geteuid e' \<and> project_key e = project_key e'"
proof -
  obtain k k' where k: "project_key e = Inr k" "project_key e' = Inr k'"
    and f: "f = runtime_dir e @ ''/beethoven-'' @ to_string (geteuid e) @ ''-'' @ k @ ''.lock''"
      "f' = runtime_dir e' @ ''/beethoven-'' @ to_string (geteuid e') @ ''-'' @ k' @ ''.lock''"
    using assms by (auto simp: lockfile_path_def andThen_Inr_iff)
  obtain w w' where w: "k = hex16 w" "k' = hex16 w'" using project_key_hex k by blast
  show ?thesis
  proof
    assume "f = f'"
    then have "(runtime_dir e @ ''/beethoven'') @ [CHR ''-''] @ (to_string (geteuid e)) @ [CHR ''-''] @ k =
        (runtime_dir e' @ ''/beethoven'') @ [CHR ''-''] @ (to_string (geteuid e')) @ [CHR ''-''] @ k'"
      by (simp add: f)
    then have "(runtime_dir e @ ''/beethoven'') @ [CHR ''-''] @ to_string (geteuid e) =
        (runtime_dir e' @ ''/beethoven'') @ [CHR ''-''] @ to_string (geteuid e') \<and> k = k'"
      using last_separator [of "(runtime_dir e @ ''/beethoven'') @ [CHR ''-''] @ to_string (geteuid e)" "CHR ''-''" k
          "(runtime_dir e' @ ''/beethoven'') @ [CHR ''-''] @ to_string (geteuid e')" k'] hex16_no_dash w
      by simp
    moreover from this have "runtime_dir e @ ''/beethoven'' = runtime_dir e' @ ''/beethoven'' \<and>
        to_string (geteuid e) = to_string (geteuid e')"
      using last_separator [OF _ to_string_no_dash to_string_no_dash] by blast
    ultimately show "runtime_dir e = runtime_dir e' \<and> geteuid e = geteuid e' \<and> project_key e = project_key e'"
      by (simp add: to_string_inj k)
  qed (simp add: f k)
qed

section \<open>The process number survives in the file\<close>

text \<open>Even over the rest of an older, longer entry: the newline ends the number.\<close>

lemma read_written_pid:
  assumes "p < 2 ^ 63"
  shows "read_holding_pid (pwrite0 (pid_line p) old) = int p"
proof -
  have "p < 10 ^ Suc 18" using assms by simp
  then have len: "length (to_string p) \<le> 19" using length_to_digits [of 10 p 18] by (simp add: to_string_def)
  then obtain k where k: "31 - length (to_string p) = Suc k" by (cases "31 - length (to_string p)") auto
  obtain rest where "take 31 (pwrite0 (pid_line p) old) = to_string p @ CHR 0x0A # rest"
    using len k by (auto simp: pwrite0_def pid_line_def)
  moreover have "\<not> is_digit 10 (CHR 0x0A)" by (simp add: is_digit_def digit_val_def)
  ultimately show ?thesis
    using strtol_to_string [OF assms, of "CHR 0x0A # rest"] by (simp add: read_holding_pid_def Let_def)
qed

section \<open>Exclusion\<close>

fun lock_path :: "lock_pc \<Rightarrow> string option" where
  "lock_path (Locked f) = Some f"
| "lock_path (Truncated f) = Some f"
| "lock_path (Written f) = Some f"
| "lock_path (Stored f) = Some f"
| "lock_path (CmdUnlinked f) = Some f"
| "lock_path (Running f) = Some f"
| "lock_path _ = None"

fun opened_path :: "lock_pc \<Rightarrow> string option" where
  "opened_path (Opened f) = Some f"
| "opened_path c = lock_path c"

definition lock_inv :: "(nat \<Rightarrow> daemon_env) \<Rightarrow> lock_sys \<Rightarrow> bool" where
  "lock_inv env s = ((\<forall>p f. flock_owner s f = Some p \<longleftrightarrow> lock_path (pc s p) = Some f) \<and>
     (\<forall>p f. opened_path (pc s p) = Some f \<longrightarrow> lockfile_path (env p) = Inr f \<and> contents s f \<noteq> None))"

lemma lock_path_opened: "lock_path c = Some f \<Longrightarrow> opened_path c = Some f"
  by (cases c) auto

lemma lock_invD:
  assumes "lock_inv env s"
  shows "flock_owner s f = Some p \<longleftrightarrow> lock_path (pc s p) = Some f"
    "opened_path (pc s p) = Some f \<Longrightarrow> lockfile_path (env p) = Inr f \<and> contents s f \<noteq> None"
  using assms by (auto simp: lock_inv_def)

lemma lock_unique: "lock_inv env s \<Longrightarrow> lock_path (pc s p) = Some f \<Longrightarrow> lock_path (pc s q) = Some f \<Longrightarrow> p = q"
  by (metis lock_invD(1) option.inject)

lemma lock_free: "lock_inv env s \<Longrightarrow> flock_owner s f = None \<Longrightarrow> lock_path (pc s q) \<noteq> Some f"
  by (metis lock_invD(1) option.distinct(1))

lemma leave_inv:
  assumes "lock_inv env s" "opened_path c = None"
  shows "lock_inv env (leave p c s)"
proof -
  have "lock_path c = None" using assms(2) lock_path_opened by (metis option.exhaust)
  then show ?thesis
    using assms lock_unique [OF assms(1)] by (auto simp: lock_inv_def leave_def set_pc_def)
qed

text \<open>A step that only moves on within the locked part, and may write the file.\<close>

lemma advance_inv:
  assumes inv: "lock_inv env s" and here: "lock_path (pc s p) = Some f" "lock_path c = Some f"
    and s': "flock_owner s' = flock_owner s" "pc s' = pc s" "\<And>g. contents s g \<noteq> None \<Longrightarrow> contents s' g \<noteq> None"
  shows "lock_inv env (set_pc p c s')"
  using inv here s' lock_path_opened [OF here(1)] lock_path_opened [OF here(2)]
  by (auto simp: lock_inv_def set_pc_def)

lemma lock_step_inv:
  assumes inv: "lock_inv env s"
  shows "lock_inv env (lock_step env ok n p s)"
proof (cases "pc s p")
  case Fresh
  then show ?thesis
    using inv by (auto simp: lock_step_def do_open_def leave_inv split: sum.split)
      (auto simp: lock_inv_def set_pc_def)
next
  case (Opened f)
  then show ?thesis
    using inv lock_invD(2) [OF inv, of p f] lock_free [OF inv, of f]
    by (auto simp: lock_step_def do_flock_def leave_inv split: option.split)
       (auto simp: lock_inv_def set_pc_def)
qed (auto simp: lock_step_def do_truncate_def do_write_def shm_unlink_def inv intro!: advance_inv [OF inv])

lemma lock_event_inv: "lock_inv env s \<Longrightarrow> lock_inv env (lock_event_step env ev s)"
proof (cases ev)
  case (CreateSegments p)
  assume "lock_inv env s"
  then show ?thesis using CreateSegments by (simp add: lock_inv_def split: lock_pc.split)
qed (simp_all add: lock_step_inv leave_inv)

lemma lock_run_inv: "lock_inv env s \<Longrightarrow> lock_inv env (lock_run env evs s)"
  unfolding lock_run_def by (induction evs arbitrary: s) (simp_all add: lock_event_inv)

lemma boot_inv: "lock_inv env (boot files names)"
  by (simp add: lock_inv_def boot_def)


section \<open>Properties\<close>

lemma running_same_key:
  assumes inv: "lock_inv env s" and run: "pc s p = Running f" "pc s q = Running g"
    and same: "geteuid (env p) = geteuid (env q)" "runtime_dir (env p) = runtime_dir (env q)"
    and root: "getenv (env p) ''BEETHOVEN_PROJECT_ROOT'' = Some r" "getenv (env q) ''BEETHOVEN_PROJECT_ROOT'' = Some r'"
      "realpath (env p) r = realpath (env q) r'"
  shows "p = q"
proof -
  have path: "lockfile_path (env p) = Inr f" "lockfile_path (env q) = Inr g"
    using lock_invD(2) [OF inv, of p f] lock_invD(2) [OF inv, of q g] run by simp_all
  then have "project_key (env p) = project_key (env q)"
    using root by (auto simp: lockfile_path_def andThen_Inr_iff project_key_def split: option.splits if_splits)
  with lockfile_path_inj [OF path] same have "f = g" by simp
  with run lock_unique [OF inv, of p f q] show ?thesis by simp
qed

text \<open>C28. Whatever daemons start, fail and die, in whatever interleaving of their system calls and
  with whatever answers of the kernel: no two processes have passed the lock with the same lock
  file, and two processes of one user that agree on the runtime directory and on the canonical
  project root never run at the same time.\<close>

theorem singleton_excludes:
  fixes env :: "nat \<Rightarrow> daemon_env"
  assumes s: "s = lock_run env evs (boot files names)"
  shows "(\<forall>p q f. lock_path (pc s p) = Some f \<longrightarrow> lock_path (pc s q) = Some f \<longrightarrow> p = q) \<and>
    (\<forall>p q f g r r'. pc s p = Running f \<longrightarrow> pc s q = Running g \<longrightarrow>
      geteuid (env p) = geteuid (env q) \<longrightarrow> runtime_dir (env p) = runtime_dir (env q) \<longrightarrow>
      getenv (env p) ''BEETHOVEN_PROJECT_ROOT'' = Some r \<longrightarrow> getenv (env q) ''BEETHOVEN_PROJECT_ROOT'' = Some r' \<longrightarrow>
      realpath (env p) r = realpath (env q) r' \<longrightarrow> p = q)"
proof -
  have inv: "lock_inv env s"
    unfolding s by (intro lock_run_inv boot_inv)
  show ?thesis using lock_unique [OF inv] running_same_key [OF inv] by blast
qed

text \<open>Two daemons of one project that differ in how they spell its root.\<close>

definition sample_env :: "nat \<Rightarrow> daemon_env" where
  "sample_env p = \<lparr>getenv = (\<lambda>v. if v = ''BEETHOVEN_PROJECT_ROOT'' then Some (if p = 7 then ''/p'' else ''/p/'') else None),
     geteuid = 1000, realpath = (\<lambda>_. Some ''/p'')\<rparr>"

definition sample_lockfile :: string where
  "sample_lockfile = ''/tmp/beethoven-'' @ to_string 1000 @ ''-'' @ hex16 (fnv1a64 ''/p'') @ ''.lock''"

lemma sample_path: "lockfile_path (sample_env p) = Inr sample_lockfile"
  by (simp add: lockfile_path_def project_key_def sample_env_def runtime_dir_def sample_lockfile_def)

theorem singleton_excludes_witness:
  "pc (lock_run sample_env (Call 8 True 0 # replicate 7 (Call 7 True 9)) (boot (\<lambda>_. None) {})) 7 = Running sample_lockfile \<and>
   {q. lock_path (pc (lock_run sample_env (Call 8 True 0 # replicate 7 (Call 7 True 9)) (boot (\<lambda>_. None) {})) q)
      = Some sample_lockfile} = {7}"
proof -
  let ?s = "lock_run sample_env (Call 8 True 0 # replicate 7 (Call 7 True 9)) (boot (\<lambda>_. None) {})"
  have run: "pc ?s 7 = Running sample_lockfile"
    by (simp add: lock_run_def eval_nat_numeral boot_def lock_step_def do_open_def sample_path set_pc_def do_flock_def
        do_truncate_def do_write_def shm_unlink_def)
  then have held: "lock_path (pc ?s 7) = Some sample_lockfile" by simp
  have "p = q" if "lock_path (pc ?s p) = Some f" "lock_path (pc ?s q) = Some f" for p q f
    using singleton_excludes [OF refl, of sample_env "Call 8 True 0 # replicate 7 (Call 7 True 9)" "\<lambda>_. None" "{}"] that by blast
  with run held show ?thesis by blast
qed

lemma lock_steps_run:
  assumes p: "pc s p = Fresh" "lockfile_path (env p) = Inr f" and free: "flock_owner s f = None"
    and n: "length (pid_line p) \<le> n"
  shows "lock_run env (replicate 7 (Call p True n)) s = s\<lparr>
     pc := (pc s)(p := Running f), contents := (contents s)(f \<mapsto> pid_line p), flock_owner := (flock_owner s)(f \<mapsto> p),
     shm_names := shm_names s - {cmd_server_file_name (env p)} - {data_server_file_name (env p)}\<rparr>"
  using assms
  by (simp add: lock_run_def eval_nat_numeral lock_step_def do_open_def set_pc_def do_flock_def do_truncate_def
      do_write_def shm_unlink_def pwrite0_def)

text \<open>After any history, and whatever earlier daemons left in the lock file, a daemon whose lock
  no process holds starts with seven successful system calls: it runs, the names of its two
  segments are gone, and the lock file holds its process number. Another daemon of the same lock
  file that starts next is refused at its second call and names that process.\<close>

theorem daemon_starts:
  assumes s: "s = lock_run env evs (boot files names)"
    and p: "pc s p = Fresh" "lockfile_path (env p) = Inr f" "\<forall>q. lock_path (pc s q) \<noteq> Some f"
    and n: "length (pid_line p) \<le> n" and pid: "0 < p" "p < 2 ^ 63"
    and s': "s' = lock_run env (replicate 7 (Call p True n)) s"
  shows "pc s' p = Running f \<and> cmd_server_file_name (env p) \<notin> shm_names s' \<and> data_server_file_name (env p) \<notin> shm_names s' \<and>
    (\<forall>q m. q \<noteq> p \<longrightarrow> pc s q = Fresh \<longrightarrow> lockfile_path (env q) = Inr f \<longrightarrow>
       pc (lock_run env [Call q True m, Call q True m] s') q = Exited (AlreadyRunning (Some (int p)) f))"
proof -
  have inv: "lock_inv env s" unfolding s by (intro lock_run_inv boot_inv)
  then have "flock_owner s f = None" using p(3) lock_invD(1) [OF inv] by (cases "flock_owner s f") auto
  from lock_steps_run [where env = env, OF p(1,2) this n] s' have s': "s' = s\<lparr>
     pc := (pc s)(p := Running f), contents := (contents s)(f \<mapsto> pid_line p), flock_owner := (flock_owner s)(f \<mapsto> p),
     shm_names := shm_names s - {cmd_server_file_name (env p)} - {data_server_file_name (env p)}\<rparr>" by simp
  have "read_holding_pid (pid_line p) = int p" using read_written_pid [OF pid(2), of "[]"] by (simp add: pwrite0_def)
  then show ?thesis
    using pid by (auto simp: s' lock_run_def lock_step_def do_open_def do_flock_def set_pc_def leave_def holding_pid_def)
qed

theorem daemon_starts_witness:
  "pc (lock_run sample_env (replicate 7 (Call 7 True 9) @ [Die 7] @ replicate 7 (Call 9 True 9) @ [Call 8 True 0, Call 8 True 0])
     (boot (\<lambda>_. Some ''123456'') {''/compo_c_1000''})) 8 = Exited (AlreadyRunning (Some 9) sample_lockfile)"
proof -
  let ?b = "boot (\<lambda>_. Some ''123456'') {''/compo_c_1000''}"
  let ?s = "lock_run sample_env (replicate 7 (Call 7 True 9) @ [Die 7]) ?b"
  have len: "length (pid_line 7) \<le> 9" "length (pid_line 9) \<le> 9"
    by (simp_all add: pid_line_def to_string_def to_digits.simps)
  have "lock_run sample_env (replicate 7 (Call 7 True 9)) ?b = ?b\<lparr>
     pc := (pc ?b)(7 := Running sample_lockfile), contents := (contents ?b)(sample_lockfile \<mapsto> pid_line 7),
     flock_owner := (flock_owner ?b)(sample_lockfile \<mapsto> 7),
     shm_names := shm_names ?b - {cmd_server_file_name (sample_env 7)} - {data_server_file_name (sample_env 7)}\<rparr>"
    by (rule lock_steps_run [OF _ sample_path _ len(1)]) (simp_all add: boot_def)
  then have s: "pc ?s = (\<lambda>q. if q = 7 then Ended else Fresh)"
    by (auto simp: lock_run_def leave_def set_pc_def boot_def)
  show ?thesis
    using daemon_starts [OF refl, of sample_env "replicate 7 (Call 7 True 9) @ [Die 7]" "\<lambda>_. Some ''123456''"
        "{''/compo_c_1000''}" 9 sample_lockfile 9 _] len s
    by (simp add: sample_path lock_run_def)
qed

text \<open>
  Outside these rules the lock does not exclude: the directory of the lock file is taken from the
  environment, so two daemons of one user and project with different \<^verbatim>\<open>XDG_RUNTIME_DIR\<close> run at the
  same time, and the later one removes the names of the earlier one's segments.
\<close>

definition split_env :: "nat \<Rightarrow> daemon_env" where
  "split_env p = \<lparr>getenv = (\<lambda>v. if v = ''BEETHOVEN_PROJECT_ROOT'' then Some ''/p''
       else if v = ''XDG_RUNTIME_DIR'' \<and> p = 7 then Some ''/run/user/1000'' else None),
     geteuid = 1000, realpath = (\<lambda>_. Some ''/p'')\<rparr>"

lemma two_daemons_of_one_project:
  "\<exists>f g. let s = lock_run split_env (replicate 7 (Call 7 True 9) @ [CreateSegments 7] @ replicate 7 (Call 8 True 9)) (boot (\<lambda>_. None) {}) in
     pc s 7 = Running f \<and> pc s 8 = Running g \<and> shm_names s = {}"
proof -
  obtain k where k: "\<And>p. project_key (split_env p) = Inr k" by (simp add: project_key_def split_env_def)
  let ?f = "\<lambda>p. runtime_dir (split_env p) @ ''/beethoven-'' @ to_string 1000 @ ''-'' @ k @ ''.lock''"
  have path: "lockfile_path (split_env p) = Inr (?f p)" for p
    using k [of p] by (simp add: lockfile_path_def) (simp add: split_env_def)
  have names: "cmd_server_file_name (split_env p) = cmd_server_file_name (split_env q)"
      "data_server_file_name (split_env p) = data_server_file_name (split_env q)" for p q
    by (simp_all add: cmd_server_file_name_def data_server_file_name_def split_env_def)
  have dir: "?f 7 \<noteq> ?f 8" by (simp add: runtime_dir_def split_env_def)
  have len: "length (pid_line 7) \<le> 9" "length (pid_line 8) \<le> 9"
    by (simp_all add: pid_line_def to_string_def to_digits.simps)
  show ?thesis
    unfolding lock_run_def fold_append comp_def
    unfolding lock_run_def [symmetric]
    using lock_steps_run [of "boot (\<lambda>_. None) {}" 7 split_env, OF _ path _ len(1)] dir
    by (subst lock_steps_run [OF _ path _ len(2)])
       (auto simp: boot_def lock_run_def names [of 7 8])
qed

end
