(* ===== verification/CmdServer.thy ===== *)
theory CmdServer
  imports Rocc
begin

text \<open>
  The command server (\<^verbatim>\<open>runtime/src/core/cmd_server.cc\<close>), the shared \<^verbatim>\<open>cmd_server_file\<close>
  (\<^verbatim>\<open>libbeethoven/include/beethoven/runtime_ipc.h\<close>, \<^verbatim>\<open>runtime_ipc.cc\<close>) and the client side of a command
  (\<^verbatim>\<open>fpga_handle_discrete.cc\<close>, \<^verbatim>\<open>response_handle.cc\<close>): the pool of response slots, the queues that
  match responses to commands, and the delivery of a response to the client that waits for it.
  Each operation is one atomic step: the shared file is accessed under \<^verbatim>\<open>cmd_send_lock\<close> and
  \<^verbatim>\<open>free_list_lock\<close>, the queues under \<^verbatim>\<open>cmdserverlock\<close>.
\<close>

section \<open>Data\<close>

definition MAX_CONCURRENT_COMMANDS :: nat where "MAX_CONCURRENT_COMMANDS = 256"

text \<open>
  \<open>wait_for_response ! i\<close> is \<^const>\<open>True\<close> while the mutex of slot \<open>i\<close> is locked. The mutexes of the
  hand-over between client and server are the subject of the theory of the handshake.
\<close>

record cmd_server_file =
  wait_for_response :: "bool list"
  responses :: "rocc_response list"
  processes_waiting :: nat
  free_slots :: "nat list"
  free_list_idx :: u16
  pthread_wait_id :: nat
  quit :: bool
  file_cmd :: rocc_cmd

definition cmd_server_file_init :: "cmd_server_file \<Rightarrow> cmd_server_file" where
  "cmd_server_file_init f =
     f\<lparr>wait_for_response := replicate MAX_CONCURRENT_COMMANDS True,
       free_slots := [0 ..< MAX_CONCURRENT_COMMANDS], free_list_idx := 255, quit := False,
       processes_waiting := 0\<rparr>"

type_synonym system_core_pair = "int \<times> int"

text \<open>The runtime's side: the queue of the simulator, the queues of outstanding slots, the bus.\<close>

record cmd_runtime =
  csf :: cmd_server_file
  cmds :: "rocc_cmd list"
  in_flight :: "system_core_pair \<rightharpoonup> nat list"
  bus_writes :: "u32 list"
  main_unlocked :: bool
  server_stopped :: bool

datatype cmd_error = SlotOutOfBounds | PackFailed pack_error | EmptyQueue | BadSlot

text \<open>The key of a command. The accessor of the core truncates to eight bits.\<close>

definition cmd_key :: "rocc_cmd \<Rightarrow> system_core_pair" where
  "cmd_key c = (uint (cmd_system_id c), uint (getCoreId c))"

definition resp_key :: "rocc_response \<Rightarrow> system_core_pair" where
  "resp_key r = (uint (resp_system_id r), uint (resp_core_id r))"

section \<open>The server's loop body\<close>

text \<open>Taking a response slot from the stack, or the marker for a command without response.\<close>

definition take_slot :: "cmd_server_file \<Rightarrow> cmd_error + (cmd_server_file \<times> nat)" where
  "take_slot f =
     (if unat (free_list_idx f) \<ge> length (free_slots f) then Inl SlotOutOfBounds
      else Inr (f\<lparr>free_list_idx := free_list_idx f - 1\<rparr>, free_slots f ! unat (free_list_idx f)))"

definition assign_slot :: "cmd_server_file \<Rightarrow> cmd_error + (cmd_server_file \<times> nat)" where
  "assign_slot f =
     (if cmd_xd (file_cmd f) \<noteq> 0
      then andThen (take_slot f) (\<lambda>(f1, slot). Inr (f1\<lparr>pthread_wait_id := slot\<rparr>, slot))
      else Inr (f\<lparr>pthread_wait_id := 0xffff\<rparr>, 0xffff))"

text \<open>
  \<^verbatim>\<open>while (!peek_mmio(CMD_READY)) {}\<close>: \<open>rdy t\<close> is what the device answers to the \<open>t\<close>th poll.
  \<^term>\<open>None\<close>: the device never becomes ready.
\<close>

partial_function (option) wait_ready :: "(nat \<Rightarrow> bool) \<Rightarrow> nat \<Rightarrow> nat option" where
  "wait_ready rdy t = (if rdy t then Some (Suc t) else wait_ready rdy (Suc t))"

declare wait_ready.simps [code]

fun push_beats :: "(nat \<Rightarrow> bool) \<Rightarrow> nat \<Rightarrow> u32 list \<Rightarrow> u32 list \<Rightarrow> (u32 list \<times> nat) option" where
  "push_beats rdy t bus [] = Some (bus, t)"
| "push_beats rdy t bus (w # ws) = Option.bind (wait_ready rdy t) (\<lambda>t'. push_beats rdy t' (bus @ [w]) ws)"

text \<open>
  Delivering the command: \<open>silicon\<close> holds when the runtime drives a board
  (\<^verbatim>\<open>(AWS or defined(ZYNQ)) && !defined(SIM)\<close>); otherwise the command is queued for the simulator.
\<close>

definition deliver_cmd :: "bool \<Rightarrow> (nat \<Rightarrow> bool) \<Rightarrow> cmd_runtime \<Rightarrow> (cmd_error + cmd_runtime) option" where
  "deliver_cmd silicon rdy s =
     (let c = file_cmd (csf s)
      in if silicon then
           (let s1 = (if cmd_xd c \<noteq> 0
                      then s\<lparr>csf := (csf s)\<lparr>processes_waiting := processes_waiting (csf s) + 1\<rparr>\<rparr> else s)
            in case pack c 255 of
                 Inl e \<Rightarrow> Some (Inl (PackFailed e))
               | Inr ws \<Rightarrow> map_option (\<lambda>(bus, t). Inr (s1\<lparr>bus_writes := bus\<rparr>)) (push_beats rdy 0 (bus_writes s1) ws))
         else Some (Inr (s\<lparr>cmds := cmds s @ [c]\<rparr>)))"

definition record_in_flight :: "nat \<Rightarrow> cmd_runtime \<Rightarrow> cmd_runtime" where
  "record_in_flight slot s =
     (let c = file_cmd (csf s); key = cmd_key c
      in if cmd_xd c \<noteq> 0
         then s\<lparr>in_flight := (in_flight s)(key \<mapsto>
                  (case in_flight s key of None \<Rightarrow> [] | Some q \<Rightarrow> q) @ [slot])\<rparr>
         else s)"

text \<open>One turn of the loop: from the wake-up to the release of the client.\<close>

definition serve_cmd :: "bool \<Rightarrow> (nat \<Rightarrow> bool) \<Rightarrow> cmd_runtime \<Rightarrow> (cmd_error + cmd_runtime) option" where
  "serve_cmd silicon rdy s =
     (case assign_slot (csf s) of
        Inl e \<Rightarrow> Some (Inl e)
      | Inr (f, slot) \<Rightarrow>
          let s1 = s\<lparr>csf := f\<rparr>
          in if quit f then Some (Inr (s1\<lparr>main_unlocked := True, server_stopped := True\<rparr>))
             else map_option (\<lambda>r. andThen r (\<lambda>s2. Inr (record_in_flight slot s2))) (deliver_cmd silicon rdy s1))"

section \<open>Registering a response\<close>

definition register_reponse :: "rocc_response \<Rightarrow> cmd_runtime \<Rightarrow> cmd_error + cmd_runtime" where
  "register_reponse r s =
     (case in_flight s (resp_key r) of
        None \<Rightarrow> Inr (s\<lparr>main_unlocked := True\<rparr>)
      | Some [] \<Rightarrow> Inl EmptyQueue
      | Some (slot # rest) \<Rightarrow>
          if slot \<ge> length (responses (csf s)) then Inl BadSlot
          else Inr (s\<lparr>csf := (csf s)\<lparr>responses := (responses (csf s))[slot := r],
                                     wait_for_response := (wait_for_response (csf s))[slot := False]\<rparr>,
                      in_flight := (in_flight s)(resp_key r \<mapsto> rest)\<rparr>))"

section \<open>The client's side\<close>

text \<open>
  \<^verbatim>\<open>fpga_handle_t::send\<close>: write the command, let the server take a turn, read the slot. A server that
  stops does not release the client, which then waits forever (\<^term>\<open>None\<close>).
\<close>

definition send_cmd :: "bool \<Rightarrow> (nat \<Rightarrow> bool) \<Rightarrow> rocc_cmd \<Rightarrow> cmd_runtime \<Rightarrow> (cmd_error + cmd_runtime \<times> nat) option" where
  "send_cmd silicon rdy c s =
     (case serve_cmd silicon rdy (s\<lparr>csf := (csf s)\<lparr>file_cmd := c\<rparr>\<rparr>) of
        None \<Rightarrow> None
      | Some (Inl e) \<Rightarrow> Some (Inl e)
      | Some (Inr s1) \<Rightarrow>
          if server_stopped s1 then None
          else Some (Inr (s1\<lparr>csf := (csf s1)\<lparr>quit := False\<rparr>\<rparr>, pthread_wait_id (csf s1))))"

text \<open>Returning a slot to the stack.\<close>

definition give_slot :: "nat \<Rightarrow> cmd_server_file \<Rightarrow> cmd_error + cmd_server_file" where
  "give_slot handle f =
     (let i = free_list_idx f + 1
      in if unat i \<ge> length (free_slots f) then Inl SlotOutOfBounds
         else Inr (f\<lparr>free_list_idx := i, free_slots := (free_slots f)[unat i := handle mod 2 ^ 16]\<rparr>))"

text \<open>
  \<^verbatim>\<open>try_get_response_from_handle\<close>: \<^term>\<open>Inr None\<close> while the slot's mutex is locked. The blocking
  \<^verbatim>\<open>get_response_from_handle\<close> is the same step, taken once the mutex is free.
\<close>

definition try_get_response_from_handle ::
  "nat \<Rightarrow> cmd_server_file \<Rightarrow> cmd_error + (cmd_server_file \<times> rocc_response) option" where
  "try_get_response_from_handle handle f =
     (if handle \<ge> length (wait_for_response f) then Inl BadSlot
      else if wait_for_response f ! handle then Inr None
      else let f1 = f\<lparr>wait_for_response := (wait_for_response f)[handle := True]\<rparr>
           in andThen (give_slot handle f1) (\<lambda>f2. Inr (Some (f2, responses f ! handle))))"

record response_getter =
  can_wait :: bool
  has_recieved :: bool
  getter_id :: nat

datatype getter_error = AlreadyReceived | CannotWait | SlotError cmd_error

definition new_getter :: "rocc_cmd \<Rightarrow> nat \<Rightarrow> response_getter" where
  "new_getter c handle = \<lparr>can_wait = (cmd_xd c \<noteq> 0), has_recieved = False, getter_id = handle\<rparr>"

definition try_get ::
  "response_getter \<Rightarrow> cmd_server_file \<Rightarrow>
   getter_error + (response_getter \<times> cmd_server_file \<times> rocc_response option)" where
  "try_get g f =
     (if \<not> can_wait g then Inl CannotWait
      else if has_recieved g then Inl AlreadyReceived
      else (case try_get_response_from_handle (getter_id g) f of
              Inl e \<Rightarrow> Inl (SlotError e)
            | Inr None \<Rightarrow> Inr (g, f, None)
            | Inr (Some (f1, r)) \<Rightarrow> Inr (g\<lparr>has_recieved := True\<rparr>, f1, Some r)))"

text \<open>
  The blocking \<^verbatim>\<open>get\<close> marks the handle before it waits. \<^term>\<open>Inr (g, f, None)\<close>: it is still waiting.
\<close>

definition get ::
  "response_getter \<Rightarrow> cmd_server_file \<Rightarrow>
   getter_error + (response_getter \<times> cmd_server_file \<times> rocc_response option)" where
  "get g f =
     (if \<not> can_wait g then Inl CannotWait
      else if has_recieved g then Inl AlreadyReceived
      else (case try_get_response_from_handle (getter_id g) f of
              Inl e \<Rightarrow> Inl (SlotError e)
            | Inr None \<Rightarrow> Inr (g\<lparr>has_recieved := True\<rparr>, f, None)
            | Inr (Some (f1, r)) \<Rightarrow> Inr (g\<lparr>has_recieved := True\<rparr>, f1, Some r)))"

section \<open>Runs\<close>

datatype cmd_event = Sent rocc_cmd nat | Responded rocc_response | Collected nat rocc_response

text \<open>
  The interleavings of clients, server and response poller. The shutdown request is not an event
  here, so \<^const>\<open>quit\<close> stays false.
\<close>

inductive cmd_step :: "bool \<Rightarrow> cmd_runtime \<Rightarrow> cmd_event \<Rightarrow> cmd_runtime \<Rightarrow> bool" for silicon where
  send: "send_cmd silicon rdy c s = Some (Inr (s', h)) \<Longrightarrow> \<not> quit (csf s) \<Longrightarrow> cmd_step silicon s (Sent c h) s'"
| respond: "register_reponse r s = Inr s' \<Longrightarrow> in_flight s (resp_key r) \<noteq> None \<Longrightarrow> cmd_step silicon s (Responded r) s'"
| collect: "try_get_response_from_handle h (csf s) = Inr (Some (f, r)) \<Longrightarrow>
    cmd_step silicon s (Collected h r) (s\<lparr>csf := f\<rparr>)"

inductive cmd_run :: "bool \<Rightarrow> cmd_runtime \<Rightarrow> cmd_event list \<Rightarrow> cmd_runtime \<Rightarrow> bool" for silicon where
  nil: "cmd_run silicon s [] s"
| snoc: "cmd_run silicon s tr s' \<Longrightarrow> cmd_step silicon s' e s'' \<Longrightarrow> cmd_run silicon s (tr @ [e]) s''"

inductive_cases cmd_step_sendE: "cmd_step silicon s (Sent c h) s'"
inductive_cases cmd_step_respondE: "cmd_step silicon s (Responded r) s'"
inductive_cases cmd_step_collectE: "cmd_step silicon s (Collected h r) s'"

definition cmd_runtime_init :: "cmd_server_file \<Rightarrow> cmd_runtime" where
  "cmd_runtime_init f =
     \<lparr>csf = cmd_server_file_init f, cmds = [], in_flight = Map.empty, bus_writes = [],
      main_unlocked = False, server_stopped = False\<rparr>"

section \<open>The specification\<close>

text \<open>
  Every command that expects a response has a number of its own. The commands sent to a core wait
  in the order in which they were sent; a response of the core answers the first of them, and
  collecting a handle gives the answer to the command the handle was issued for. A handle is
  never issued while it is in use.
\<close>

record cmd_spec =
  next_ticket :: nat
  owner :: "nat \<rightharpoonup> nat"
  waiting :: "system_core_pair \<Rightarrow> nat list"
  answer :: "nat \<rightharpoonup> rocc_response"

definition spec_init :: cmd_spec where
  "spec_init = \<lparr>next_ticket = 0, owner = Map.empty, waiting = (\<lambda>_. []), answer = Map.empty\<rparr>"

fun spec_step :: "cmd_spec \<Rightarrow> cmd_event \<Rightarrow> cmd_spec option" where
  "spec_step a (Sent c h) =
     (if cmd_xd c = 0 then Some a
      else if owner a h \<noteq> None then None
      else Some (a\<lparr>next_ticket := next_ticket a + 1, owner := (owner a)(h \<mapsto> next_ticket a),
                   waiting := (waiting a)(cmd_key c := waiting a (cmd_key c) @ [next_ticket a])\<rparr>))"
| "spec_step a (Responded r) =
     (case waiting a (resp_key r) of
        [] \<Rightarrow> None
      | n # ns \<Rightarrow> Some (a\<lparr>waiting := (waiting a)(resp_key r := ns), answer := (answer a)(n \<mapsto> r)\<rparr>))"
| "spec_step a (Collected h r) =
     (case owner a h of
        None \<Rightarrow> None
      | Some n \<Rightarrow> if answer a n = Some r then Some (a\<lparr>owner := (owner a)(h := None)\<rparr>) else None)"

fun spec_run :: "cmd_spec \<Rightarrow> cmd_event list \<Rightarrow> cmd_spec option" where
  "spec_run a [] = Some a"
| "spec_run a (e # es) = Option.bind (spec_step a e) (\<lambda>b. spec_run b es)"

section \<open>The pool of response slots\<close>

definition stack :: "cmd_server_file \<Rightarrow> nat list" where
  "stack f = List.take (unat (free_list_idx f + 1)) (free_slots f)"

definition pool_ok :: "cmd_server_file \<Rightarrow> bool" where
  "pool_ok f \<longleftrightarrow> length (free_slots f) = 256 \<and> unat (free_list_idx f + 1) \<le> 256 \<and> distinct (stack f) \<and>
     set (stack f) \<subseteq> {..< 256}"

lemma stack_cong: "free_list_idx f = free_list_idx g \<Longrightarrow> free_slots f = free_slots g \<Longrightarrow> stack f = stack g"
  by (simp add: stack_def)

lemma pool_cong: "free_list_idx f = free_list_idx g \<Longrightarrow> free_slots f = free_slots g \<Longrightarrow> pool_ok f = pool_ok g"
  by (simp add: pool_ok_def stack_def)

lemma stack_length: "pool_ok f \<Longrightarrow> length (stack f) = unat (free_list_idx f + 1)"
  by (simp add: pool_ok_def stack_def)

lemma idx_cases:
  fixes i :: u16
  obtains "i = - 1" "unat i = 65535" | "unat (i + 1) = Suc (unat i)"
proof (cases "1 + i = 0")
  case True
  then have "i = - 1" by (simp add: eq_neg_iff_add_eq_0 add.commute)
  then show ?thesis using that(1) by (simp add: unsigned_minus_1_eq_mask mask_eq_exp_minus_1)
next
  case False
  then show ?thesis using that(2) unatSuc [OF False] by (simp add: add.commute)
qed

lemma take_slot_ok:
  assumes ok: "pool_ok f" and ne: "stack f \<noteq> []"
  shows "\<exists>g i. take_slot f = Inr (g, i) \<and> i \<in> set (stack f) \<and> pool_ok g \<and> set (stack g) = set (stack f) - {i}"
proof -
  let ?i = "free_list_idx f" and ?g = "f\<lparr>free_list_idx := free_list_idx f - 1\<rparr>"
  have n: "unat (?i + 1) = Suc (unat ?i)"
    using ne by (cases ?i rule: idx_cases) (auto simp: stack_def)
  have lt: "unat ?i < 256" "length (free_slots f) = 256" using ok n by (auto simp: pool_ok_def)
  have st: "stack f = List.take (unat ?i) (free_slots f) @ [free_slots f ! unat ?i]"
    using lt by (simp add: stack_def n take_Suc_conv_app_nth)
  have g: "stack ?g = List.take (unat ?i) (free_slots f)" by (simp add: stack_def)
  have "take_slot f = Inr (?g, free_slots f ! unat ?i)" using lt by (simp add: take_slot_def)
  moreover have "pool_ok ?g" using ok st g lt by (simp add: pool_ok_def)
  moreover have "set (stack ?g) = set (stack f) - {free_slots f ! unat ?i}"
    using ok st g by (auto simp: pool_ok_def)
  ultimately show ?thesis using st by auto
qed

lemma take_slot_empty: "pool_ok f \<Longrightarrow> stack f = [] \<Longrightarrow> take_slot f = Inl SlotOutOfBounds"
  by (cases "free_list_idx f" rule: idx_cases) (auto simp: stack_def pool_ok_def take_slot_def)

lemma give_slot_ok:
  assumes ok: "pool_ok f" and i: "i < 256" "i \<notin> set (stack f)"
  shows "\<exists>g. give_slot i f = Inr g \<and> pool_ok g \<and> set (stack g) = insert i (set (stack f)) \<and>
    g = f\<lparr>free_list_idx := free_list_idx g, free_slots := free_slots g\<rparr>"
proof -
  let ?n = "unat (free_list_idx f + 1)"
  let ?g = "f\<lparr>free_list_idx := free_list_idx f + 1, free_slots := (free_slots f)[?n := i]\<rparr>"
  have "card (set (stack f)) < card {..< 256 :: nat}"
    using ok i by (intro psubset_card_mono) (auto simp: pool_ok_def)
  then have n: "?n < 256" using stack_length [OF ok] ok by (simp add: pool_ok_def distinct_card)
  have l: "length (free_slots f) = 256" using ok by (simp add: pool_ok_def)
  have "unat (free_list_idx f + 1 + 1) = Suc ?n"
    by (rule idx_cases [of "free_list_idx f + 1"]) (use n in linarith)+
  then have st: "stack ?g = stack f @ [i]"
    using n l by (simp add: stack_def take_Suc_conv_app_nth)
  have "give_slot i f = Inr ?g" using n l i by (simp add: give_slot_def Let_def)
  moreover have "pool_ok ?g"
    using ok st n l i \<open>unat (free_list_idx f + 1 + 1) = Suc ?n\<close> by (simp add: pool_ok_def)
  ultimately show ?thesis using st by auto
qed

text \<open>
  The contract of a pool of slots: taking gives a free slot and fails only when there is none;
  giving back a slot that is not free makes it free again.
\<close>

locale slot_pool =
  fixes ok :: "'f \<Rightarrow> bool" and free_set :: "'f \<Rightarrow> nat set"
    and acquire :: "'f \<Rightarrow> 'e + ('f \<times> nat)" and release :: "nat \<Rightarrow> 'f \<Rightarrow> 'e + 'f" and capacity :: nat
  assumes acquire_ok: "ok f \<Longrightarrow> free_set f \<noteq> {} \<Longrightarrow>
      \<exists>g i. acquire f = Inr (g, i) \<and> i \<in> free_set f \<and> ok g \<and> free_set g = free_set f - {i}"
    and acquire_empty: "ok f \<Longrightarrow> free_set f = {} \<Longrightarrow> \<exists>e. acquire f = Inl e"
    and release_ok: "ok f \<Longrightarrow> i < capacity \<Longrightarrow> i \<notin> free_set f \<Longrightarrow>
      \<exists>g. release i f = Inr g \<and> ok g \<and> free_set g = insert i (free_set f)"
    and bounded: "ok f \<Longrightarrow> free_set f \<subseteq> {..< capacity}"
begin

lemma acquire_Inr_iff: "ok f \<Longrightarrow> (\<exists>g i. acquire f = Inr (g, i)) \<longleftrightarrow> free_set f \<noteq> {}"
  using acquire_ok acquire_empty by fastforce

lemma acquireD:
  assumes "ok f" "acquire f = Inr (g, i)"
  shows "i \<in> free_set f" "i < capacity" "ok g" "free_set g = free_set f - {i}"
proof -
  have "free_set f \<noteq> {}" using acquire_Inr_iff assms by blast
  then show "i \<in> free_set f" "ok g" "free_set g = free_set f - {i}" using acquire_ok [OF assms(1)] assms(2) by auto
  then show "i < capacity" using bounded [OF assms(1)] by auto
qed

lemma releaseD:
  assumes "ok f" "i < capacity" "i \<notin> free_set f" "release i f = Inr g"
  shows "ok g" "free_set g = insert i (free_set f)"
  using release_ok [OF assms(1-3)] assms(4) by auto

lemma release_after_acquire:
  assumes "ok f" "acquire f = Inr (g, i)"
  shows "\<exists>h. release i g = Inr h \<and> ok h \<and> free_set h = free_set f"
  using acquireD [OF assms] release_ok [of g i] by auto

fun acquire_many :: "nat \<Rightarrow> 'f \<Rightarrow> 'e + ('f \<times> nat list)" where
  "acquire_many 0 f = Inr (f, [])"
| "acquire_many (Suc n) f = andThen (acquire f) (\<lambda>(g, i). andThen (acquire_many n g) (\<lambda>(h, is). Inr (h, i # is)))"

lemma acquire_many_ok:
  "ok f \<Longrightarrow> n \<le> card (free_set f) \<Longrightarrow>
     \<exists>g is. acquire_many n f = Inr (g, is) \<and> ok g \<and> distinct is \<and> length is = n \<and> set is \<subseteq> free_set f \<and>
       free_set g = free_set f - set is"
proof (induction n arbitrary: f)
  case (Suc n)
  then have "free_set f \<noteq> {}" by auto
  then obtain g i where g: "acquire f = Inr (g, i)" using acquire_Inr_iff Suc.prems(1) by blast
  note G = acquireD [OF Suc.prems(1) g]
  have "finite (free_set f)" using bounded [OF Suc.prems(1)] finite_subset by blast
  then have "n \<le> card (free_set g)" using Suc.prems(2) G by simp
  from Suc.IH [OF G(3) this] obtain h "is" where "acquire_many n g = Inr (h, is)" "ok h" "distinct is" "length is = n"
    "set is \<subseteq> free_set g" "free_set h = free_set g - set is" by blast
  then show ?case using g G by (intro exI [of _ h] exI [of _ "i # is"]) auto
qed simp

end

interpretation slots: slot_pool pool_ok "\<lambda>f. set (stack f)" take_slot give_slot 256
proof (unfold_locales, goal_cases)
  case (1 f)
  then show ?case using take_slot_ok by simp
next
  case (2 f)
  then show ?case using take_slot_empty by simp
next
  case (3 f i)
  then show ?case using give_slot_ok [of f i] by blast
next
  case (4 f)
  then show ?case by (simp add: pool_ok_def)
qed

section \<open>The effect of each event\<close>

definition pending :: "cmd_runtime \<Rightarrow> system_core_pair \<Rightarrow> nat list" where
  "pending s k = (case in_flight s k of None \<Rightarrow> [] | Some q \<Rightarrow> q)"

lemma deliver_cmd_frame:
  assumes "deliver_cmd silicon rdy s = Some (Inr s')"
  shows "in_flight s' = in_flight s" "free_list_idx (csf s') = free_list_idx (csf s)"
    "free_slots (csf s') = free_slots (csf s)" "wait_for_response (csf s') = wait_for_response (csf s)"
    "responses (csf s') = responses (csf s)" "file_cmd (csf s') = file_cmd (csf s)"
    "pthread_wait_id (csf s') = pthread_wait_id (csf s)" "quit (csf s') = quit (csf s)"
    "server_stopped s' = server_stopped s"
  using assms by (auto simp: deliver_cmd_def Let_def split: if_splits sum.splits)

lemma take_slot_file_cmd:
  assumes "take_slot (f\<lparr>file_cmd := c\<rparr>) = Inr (g, i)"
  shows "\<exists>g'. take_slot f = Inr (g', i) \<and> free_slots g' = free_slots g \<and> free_list_idx g' = free_list_idx g"
proof (cases "unat (free_list_idx f) \<ge> length (free_slots f)")
  case False
  then have "g = f\<lparr>file_cmd := c, free_list_idx := free_list_idx f - 1\<rparr>" "i = free_slots f ! unat (free_list_idx f)"
    using assms by (simp_all add: take_slot_def)
  then show ?thesis using False by (simp add: take_slot_def)
qed (use assms in \<open>simp add: take_slot_def\<close>)

text \<open>What a successful send changes: the slot leaves the stack and joins the queue of its core.\<close>

lemma send_effect:
  assumes run: "send_cmd silicon rdy c s = Some (Inr (s', h))" and q: "\<not> quit (csf s)"
  shows "wait_for_response (csf s') = wait_for_response (csf s) \<and> responses (csf s') = responses (csf s) \<and>
    \<not> quit (csf s') \<and>
    (if cmd_xd c = 0 then stack (csf s') = stack (csf s) \<and> pool_ok (csf s') = pool_ok (csf s) \<and> in_flight s' = in_flight s
     else \<exists>g. take_slot (csf s) = Inr (g, h) \<and> stack (csf s') = stack g \<and> pool_ok (csf s') = pool_ok g \<and>
            in_flight s' = (in_flight s)(cmd_key c \<mapsto> pending s (cmd_key c) @ [h]))"
proof -
  let ?s = "s\<lparr>csf := (csf s)\<lparr>file_cmd := c\<rparr>\<rparr>"
  obtain s1 where s1: "serve_cmd silicon rdy ?s = Some (Inr s1)" and s': "s' = s1\<lparr>csf := (csf s1)\<lparr>quit := False\<rparr>\<rparr>"
    and h: "h = pthread_wait_id (csf s1)" and ns: "\<not> server_stopped s1"
    using run by (auto simp: send_cmd_def split: option.splits sum.splits if_splits)
  obtain f slot where f: "assign_slot (csf ?s) = Inr (f, slot)"
    using s1 by (auto simp: serve_cmd_def split: sum.splits)
  have keep: "wait_for_response f = wait_for_response (csf s)" "responses f = responses (csf s)" "\<not> quit f"
    "file_cmd f = c" "pthread_wait_id f = slot"
    using f q by (auto simp: assign_slot_def take_slot_def split: if_splits)
  obtain s2 where s2: "deliver_cmd silicon rdy (?s\<lparr>csf := f\<rparr>) = Some (Inr s2)" and s1': "s1 = record_in_flight slot s2"
  proof -
    obtain res where res: "deliver_cmd silicon rdy (?s\<lparr>csf := f\<rparr>) = Some res"
      "andThen res (\<lambda>s2. Inr (record_in_flight slot s2)) = Inr s1"
      using s1 keep(3) unfolding serve_cmd_def f by (auto simp: Let_def)
    then show thesis using that by (cases res) auto
  qed
  note D = deliver_cmd_frame [OF s2]
  have csf1: "csf s1 = csf s2" by (simp add: s1' record_in_flight_def Let_def)
  have cong: "stack (csf s') = stack f" "pool_ok (csf s') = pool_ok f"
    by (auto intro!: stack_cong pool_cong simp: s' csf1 D)
  have hs: "h = slot" using h csf1 D(7) keep(5) by simp
  show ?thesis
  proof (cases "cmd_xd c = 0")
    case True
    then have "stack f = stack (csf s)" "pool_ok f = pool_ok (csf s)"
      using f by (auto simp: assign_slot_def intro!: stack_cong pool_cong)
    moreover have "in_flight s1 = in_flight s" using True D keep by (simp add: s1' record_in_flight_def Let_def)
    ultimately show ?thesis using True cong keep D csf1 by (simp add: s')
  next
    case False
    obtain g0 where g0: "take_slot (csf ?s) = Inr (g0, slot)" "f = g0\<lparr>pthread_wait_id := slot\<rparr>"
      using f False by (auto simp: assign_slot_def andThen_Inr_iff)
    obtain g where g: "take_slot (csf s) = Inr (g, slot)" "free_slots g = free_slots g0" "free_list_idx g = free_list_idx g0"
      using take_slot_file_cmd [where f = "csf s" and c = c] g0(1) by auto
    have "stack f = stack g" "pool_ok f = pool_ok g" using g g0(2) by (auto intro!: stack_cong pool_cong)
    moreover have "in_flight s1 = (in_flight s)(cmd_key c \<mapsto> pending s (cmd_key c) @ [slot])"
      using False D keep by (simp add: s1' record_in_flight_def Let_def pending_def)
    ultimately show ?thesis using False cong keep D csf1 g(1) hs by (auto simp: s')
  qed
qed

lemma respond_effect:
  assumes "register_reponse r s = Inr s'" "in_flight s (resp_key r) \<noteq> None"
  obtains slot rest where "in_flight s (resp_key r) = Some (slot # rest)" "slot < length (responses (csf s))"
    "s' = s\<lparr>csf := (csf s)\<lparr>responses := (responses (csf s))[slot := r],
                          wait_for_response := (wait_for_response (csf s))[slot := False]\<rparr>,
            in_flight := (in_flight s)(resp_key r \<mapsto> rest)\<rparr>"
  using assms by (auto simp: register_reponse_def split: option.splits list.splits if_splits)

lemma collect_effect:
  assumes "try_get_response_from_handle h f = Inr (Some (f', r))"
  obtains "h < length (wait_for_response f)" "\<not> wait_for_response f ! h" "r = responses f ! h"
    "give_slot h (f\<lparr>wait_for_response := (wait_for_response f)[h := True]\<rparr>) = Inr f'"
    "wait_for_response f' = (wait_for_response f)[h := True]" "responses f' = responses f" "quit f' = quit f"
  using assms
  by (auto simp: try_get_response_from_handle_def give_slot_def Let_def andThen_Inr_iff split: if_splits)

section \<open>The invariant and the simulation\<close>

text \<open>
  Every slot is either on the stack, or queued for a core, or ready (its mutex is open because a
  response was stored), and in one place only.
\<close>

definition cmd_inv :: "cmd_runtime \<Rightarrow> bool" where
  "cmd_inv s \<longleftrightarrow> pool_ok (csf s) \<and> length (wait_for_response (csf s)) = 256 \<and> length (responses (csf s)) = 256 \<and>
     (\<forall>k. distinct (pending s k)) \<and> (\<forall>k j. k \<noteq> j \<longrightarrow> set (pending s k) \<inter> set (pending s j) = {}) \<and>
     (\<forall>k. \<forall>i \<in> set (pending s k). i < 256 \<and> wait_for_response (csf s) ! i \<and> i \<notin> set (stack (csf s))) \<and>
     (\<forall>i \<in> set (stack (csf s)). wait_for_response (csf s) ! i) \<and>
     (\<forall>i < 256. wait_for_response (csf s) ! i \<longrightarrow> i \<in> set (stack (csf s)) \<or> (\<exists>k. i \<in> set (pending s k)))"

lemma cmd_invD:
  assumes "cmd_inv s"
  shows "pool_ok (csf s)" "length (wait_for_response (csf s)) = 256" "length (responses (csf s)) = 256"
    "distinct (pending s k)" "k \<noteq> j \<Longrightarrow> set (pending s k) \<inter> set (pending s j) = {}"
    "i \<in> set (pending s k) \<Longrightarrow> i < 256" "i \<in> set (pending s k) \<Longrightarrow> wait_for_response (csf s) ! i"
    "i \<in> set (pending s k) \<Longrightarrow> i \<notin> set (stack (csf s))" "i \<in> set (stack (csf s)) \<Longrightarrow> wait_for_response (csf s) ! i"
    "i < 256 \<Longrightarrow> wait_for_response (csf s) ! i \<Longrightarrow> i \<in> set (stack (csf s)) \<or> (\<exists>k. i \<in> set (pending s k))"
    "i \<in> set (stack (csf s)) \<Longrightarrow> i < 256"
  using assms slots.bounded [of "csf s"] unfolding cmd_inv_def by blast+

lemma cmd_invI:
  assumes "pool_ok (csf s)" "length (wait_for_response (csf s)) = 256" "length (responses (csf s)) = 256"
    "\<And>k. distinct (pending s k)" "\<And>k j. k \<noteq> j \<Longrightarrow> set (pending s k) \<inter> set (pending s j) = {}"
    "\<And>k i. i \<in> set (pending s k) \<Longrightarrow> i < 256 \<and> wait_for_response (csf s) ! i \<and> i \<notin> set (stack (csf s))"
    "\<And>i. i \<in> set (stack (csf s)) \<Longrightarrow> wait_for_response (csf s) ! i"
    "\<And>i. i < 256 \<Longrightarrow> wait_for_response (csf s) ! i \<Longrightarrow> i \<in> set (stack (csf s)) \<or> (\<exists>k. i \<in> set (pending s k))"
  shows "cmd_inv s"
  using assms unfolding cmd_inv_def by blast

lemma cmd_inv_send:
  assumes inv: "cmd_inv s" and run: "send_cmd silicon rdy c s = Some (Inr (s', h))" and q: "\<not> quit (csf s)"
  shows "cmd_inv s'"
proof -
  note E = send_effect [OF run q] and D = cmd_invD [OF inv]
  show ?thesis
  proof (cases "cmd_xd c = 0")
    case True
    then have "pending s' = pending s" using E by (auto simp: pending_def fun_eq_iff)
    then show ?thesis using inv E True by (simp add: cmd_inv_def)
  next
    case False
    then obtain g where g: "take_slot (csf s) = Inr (g, h)" and st: "stack (csf s') = stack g" "pool_ok (csf s') = pool_ok g"
      and fl: "in_flight s' = (in_flight s)(cmd_key c \<mapsto> pending s (cmd_key c) @ [h])" using E by auto
    note T = slots.acquireD [OF D(1) g]
    have p: "pending s' k = (if k = cmd_key c then pending s k @ [h] else pending s k)" for k
      by (simp add: pending_def fl)
    have h: "h \<notin> set (pending s k)" for k using T(1) D(8) by blast
    have w: "wait_for_response (csf s') = wait_for_response (csf s)" "responses (csf s') = responses (csf s)" using E by auto
    show ?thesis
    proof (rule cmd_invI, goal_cases)
      case 1 then show ?case using st T by simp
    next
      case 2 then show ?case using w D by simp
    next
      case 3 then show ?case using w D by simp
    next
      case (4 k) then show ?case using p h D(4) by simp
    next
      case (5 k j) then show ?case using p h D(5) [of k j] by auto
    next
      case (6 k i) then show ?case using p w st T D(6,7,8) [of i k] D(9) [of h] by (auto split: if_splits)
    next
      case (7 i) then show ?case using w st T D(9) by simp
    next
      case (8 i)
      then have "i \<in> set (stack (csf s)) \<or> (\<exists>k. i \<in> set (pending s k))" using w D(10) by simp
      then show ?case using p st(1) T(4) by (metis Diff_iff UnI1 insert_iff list.simps(15) set_append singletonD UnI2 list.set_intros(1))
    qed
  qed
qed

lemma cmd_inv_respond:
  assumes inv: "cmd_inv s" and run: "register_reponse r s = Inr s'" "in_flight s (resp_key r) \<noteq> None"
  shows "cmd_inv s'"
proof -
  note D = cmd_invD [OF inv]
  obtain slot rest where S: "in_flight s (resp_key r) = Some (slot # rest)"
    "s' = s\<lparr>csf := (csf s)\<lparr>responses := (responses (csf s))[slot := r],
                          wait_for_response := (wait_for_response (csf s))[slot := False]\<rparr>,
            in_flight := (in_flight s)(resp_key r \<mapsto> rest)\<rparr>"
    using respond_effect [OF run] by metis
  have q: "pending s (resp_key r) = slot # rest" by (simp add: pending_def S)
  have p: "pending s' k = (if k = resp_key r then rest else pending s k)" for k by (simp add: pending_def S)
  have st: "stack (csf s') = stack (csf s)" "pool_ok (csf s') = pool_ok (csf s)"
    by (auto intro!: stack_cong pool_cong simp: S)
  have slot: "slot < 256" "slot \<notin> set (stack (csf s))" "slot \<notin> set rest" using D(4) [of "resp_key r"] D(6,8) [of slot "resp_key r"] q by auto
  have other: "slot \<notin> set (pending s k)" if "k \<noteq> resp_key r" for k using D(5) [OF that] q by auto
  have w: "wait_for_response (csf s') ! i \<longleftrightarrow> i \<noteq> slot \<and> wait_for_response (csf s) ! i" if "i < 256" for i
    using that slot(1) D(2) by (simp add: S nth_list_update)
  show ?thesis
  proof (rule cmd_invI, goal_cases)
    case 1 then show ?case using st D by simp
  next
    case 2 then show ?case using D by (simp add: S)
  next
    case 3 then show ?case using D by (simp add: S)
  next
    case (4 k) then show ?case using p q D(4) [of k] by (auto split: if_splits)
  next
    case (5 k j) then show ?case using p q D(5) [of k j] by (auto split: if_splits)
  next
    case (6 k i)
    then have "i \<in> set (pending s k)" "i \<noteq> slot" using p [of k] q other [of k] slot(3) by (auto split: if_splits)
    then show ?case using D(6,7,8) [of i k] w st by simp
  next
    case (7 i) then show ?case using st D(9) D(11) w slot(2) by auto
  next
    case (8 i)
    then have i: "i \<noteq> slot" "wait_for_response (csf s) ! i" using w by auto
    then consider "i \<in> set (stack (csf s))" | k where "i \<in> set (pending s k)" using D(10) 8(1) by blast
    then show ?case
    proof cases
      case (2 k)
      then have "i \<in> set (pending s' k)" using p [of k] q i(1) by (auto split: if_splits)
      then show ?thesis by blast
    qed (simp add: st)
  qed
qed

lemma cmd_inv_collect:
  assumes inv: "cmd_inv s" and run: "try_get_response_from_handle h (csf s) = Inr (Some (f, r))"
  shows "cmd_inv (s\<lparr>csf := f\<rparr>)" "h \<notin> set (stack (csf s))" "h < 256" "set (stack f) = insert h (set (stack (csf s)))"
    "\<And>k. h \<notin> set (pending s k)" "r = responses (csf s) ! h"
proof -
  note D = cmd_invD [OF inv]
  from run obtain C: "h < length (wait_for_response (csf s))" "\<not> wait_for_response (csf s) ! h" "r = responses (csf s) ! h"
    "give_slot h ((csf s)\<lparr>wait_for_response := (wait_for_response (csf s))[h := True]\<rparr>) = Inr f"
    "wait_for_response f = (wait_for_response (csf s))[h := True]" "responses f = responses (csf s)"
    by (elim collect_effect)
  let ?f = "(csf s)\<lparr>wait_for_response := (wait_for_response (csf s))[h := True]\<rparr>"
  have st: "stack ?f = stack (csf s)" "pool_ok ?f = pool_ok (csf s)" by (auto intro!: stack_cong pool_cong)
  show h: "h < 256" "h \<notin> set (stack (csf s))" "\<And>k. h \<notin> set (pending s k)" "r = responses (csf s) ! h"
    using C D(2,7,9) by auto
  have G: "pool_ok f" "set (stack f) = insert h (set (stack (csf s)))"
    using slots.releaseD [of ?f h f] st D(1) h C(4) by auto
  then show "set (stack f) = insert h (set (stack (csf s)))" by simp
  have w: "wait_for_response f ! i \<longleftrightarrow> i = h \<or> wait_for_response (csf s) ! i" if "i < 256" for i
    using that h(1) D(2) C(5) by (simp add: nth_list_update)
  have p: "pending (s\<lparr>csf := f\<rparr>) = pending s" by (auto simp: pending_def fun_eq_iff)
  show "cmd_inv (s\<lparr>csf := f\<rparr>)"
  proof (rule cmd_invI; simp add: p G C(5,6) D(2-5))
    fix k i assume "i \<in> set (pending s k)"
    then show "i < 256 \<and> (wait_for_response (csf s))[h := True] ! i \<and> i \<noteq> h \<and> i \<notin> set (stack (csf s))"
      using D(6-8) h(3) w C(5) by metis
  next
    fix i assume "i = h \<or> i \<in> set (stack (csf s))"
    then show "(wait_for_response (csf s))[h := True] ! i" using w C(5) D(9) D(11) h(1) by metis
  next
    fix i assume "i < (256 :: nat)" "(wait_for_response (csf s))[h := True] ! i"
    then show "i = h \<or> i \<in> set (stack (csf s)) \<or> (\<exists>a b. i \<in> set (pending s (a, b)))"
      using w C(5) D(10) by (metis surj_pair)
  qed
qed

text \<open>
  The simulation relation: the clients' handles are the slots that are not on the stack; the queue
  of a core holds the slots of the waiting commands in their order; a ready slot holds the answer to
  its command.
\<close>

definition cmd_sim :: "cmd_runtime \<Rightarrow> cmd_spec \<Rightarrow> bool" where
  "cmd_sim s a \<longleftrightarrow> cmd_inv s \<and> dom (owner a) = {..< 256} - set (stack (csf s)) \<and>
     (\<forall>i j n. owner a i = Some n \<longrightarrow> owner a j = Some n \<longrightarrow> i = j) \<and>
     (\<forall>n \<in> ran (owner a). n < next_ticket a) \<and>
     (\<forall>k. map Some (waiting a k) = map (owner a) (pending s k)) \<and>
     (\<forall>i < 256. \<not> wait_for_response (csf s) ! i \<longrightarrow>
        (\<exists>n. owner a i = Some n \<and> answer a n = Some (responses (csf s) ! i)))"

lemma cmd_simI:
  assumes "cmd_inv s" "dom (owner a) = {..< 256} - set (stack (csf s))"
    "\<forall>i j n. owner a i = Some n \<longrightarrow> owner a j = Some n \<longrightarrow> i = j" "\<forall>n \<in> ran (owner a). n < next_ticket a"
    "\<And>k. map Some (waiting a k) = map (owner a) (pending s k)"
    "\<And>i. i < 256 \<Longrightarrow> \<not> wait_for_response (csf s) ! i \<Longrightarrow>
        \<exists>n. owner a i = Some n \<and> answer a n = Some (responses (csf s) ! i)"
  shows "cmd_sim s a"
  using assms unfolding cmd_sim_def by blast

lemma cmd_sim_send:
  assumes sim: "cmd_sim s a" and run: "send_cmd silicon rdy c s = Some (Inr (s', h))" and q: "\<not> quit (csf s)"
  shows "\<exists>b. spec_step a (Sent c h) = Some b \<and> cmd_sim s' b"
proof -
  have inv: "cmd_inv s" using sim by (simp add: cmd_sim_def)
  note E = send_effect [OF run q] and D = cmd_invD [OF inv] and inv' = cmd_inv_send [OF inv run q]
  show ?thesis
  proof (cases "cmd_xd c = 0")
    case True
    then have "pending s' = pending s" using E by (auto simp: pending_def fun_eq_iff)
    then show ?thesis using sim inv' E True by (simp add: cmd_sim_def)
  next
    case False
    then obtain g where g: "take_slot (csf s) = Inr (g, h)" and st: "stack (csf s') = stack g"
      and fl: "in_flight s' = (in_flight s)(cmd_key c \<mapsto> pending s (cmd_key c) @ [h])" using E by auto
    note T = slots.acquireD [OF D(1) g]
    let ?n = "next_ticket a"
    let ?b = "a\<lparr>next_ticket := ?n + 1, owner := (owner a)(h \<mapsto> ?n),
                waiting := (waiting a)(cmd_key c := waiting a (cmd_key c) @ [?n])\<rparr>"
    have dom: "dom (owner a) = {..< 256} - set (stack (csf s))" and ran: "\<forall>n \<in> ran (owner a). n < ?n"
      and inj: "\<forall>i j n. owner a i = Some n \<longrightarrow> owner a j = Some n \<longrightarrow> i = j" using sim by (auto simp: cmd_sim_def)
    have free: "owner a h = None" using dom T(1) by (metis Diff_iff domIff)
    have p: "pending s' k = (if k = cmd_key c then pending s k @ [h] else pending s k)" for k
      by (simp add: pending_def fl)
    have h: "h \<notin> set (pending s k)" for k using T(1) D(8) by blast
    have w: "wait_for_response (csf s') = wait_for_response (csf s)" "responses (csf s') = responses (csf s)" using E by auto
    have "dom (owner ?b) = {..< 256} - set (stack (csf s'))" using dom st T by auto
    moreover have "\<forall>i j n. owner ?b i = Some n \<longrightarrow> owner ?b j = Some n \<longrightarrow> i = j"
    proof -
      have "owner a z \<noteq> Some ?n" for z using ran by (metis less_irrefl ranI)
      then show ?thesis using inj by auto
    qed
    moreover have "\<forall>n \<in> ran (owner ?b). n < next_ticket ?b" using ran free by (auto intro: less_SucI)
    moreover have "map Some (waiting ?b k) = map (owner ?b) (pending s' k)" for k
    proof -
      have "map Some (waiting a k) = map (owner a) (pending s k)" using sim unfolding cmd_sim_def by blast
      moreover have "map (owner ?b) (pending s k) = map (owner a) (pending s k)" using h [of k] by auto
      ultimately show ?thesis using p [of k] by (cases "k = cmd_key c") (simp_all del: map_eq_conv)
    qed
    moreover have "\<exists>n. owner ?b i = Some n \<and> answer ?b n = Some (responses (csf s') ! i)"
      if "i < 256" "\<not> wait_for_response (csf s') ! i" for i
    proof -
      have "i \<noteq> h" using that w T(1) D(9) by auto
      moreover have "\<exists>n. owner a i = Some n \<and> answer a n = Some (responses (csf s) ! i)"
        using sim that w by (simp add: cmd_sim_def)
      ultimately show ?thesis using w by simp
    qed
    ultimately have "cmd_sim s' ?b" using inv' unfolding cmd_sim_def by blast
    then show ?thesis using False free by simp
  qed
qed

lemma cmd_sim_respond:
  assumes sim: "cmd_sim s a" and run: "register_reponse r s = Inr s'" "in_flight s (resp_key r) \<noteq> None"
  shows "\<exists>b. spec_step a (Responded r) = Some b \<and> cmd_sim s' b"
proof -
  have inv: "cmd_inv s" using sim by (simp add: cmd_sim_def)
  note D = cmd_invD [OF inv] and inv' = cmd_inv_respond [OF inv run]
  obtain slot rest where S: "in_flight s (resp_key r) = Some (slot # rest)"
    "s' = s\<lparr>csf := (csf s)\<lparr>responses := (responses (csf s))[slot := r],
                          wait_for_response := (wait_for_response (csf s))[slot := False]\<rparr>,
            in_flight := (in_flight s)(resp_key r \<mapsto> rest)\<rparr>"
    using respond_effect [OF run] by metis
  have q: "pending s (resp_key r) = slot # rest" by (simp add: pending_def S)
  have p: "pending s' k = (if k = resp_key r then rest else pending s k)" for k by (simp add: pending_def S)
  have wt: "map Some (waiting a k) = map (owner a) (pending s k)" for k using sim unfolding cmd_sim_def by blast
  have inj: "\<forall>i j n. owner a i = Some n \<longrightarrow> owner a j = Some n \<longrightarrow> i = j" using sim by (simp add: cmd_sim_def)
  obtain n ns where n: "waiting a (resp_key r) = n # ns" "owner a slot = Some n" "map Some ns = map (owner a) rest"
    using wt [of "resp_key r"] q by auto
  have slot: "slot < 256" using D(6) [of slot "resp_key r"] q by simp
  let ?b = "a\<lparr>waiting := (waiting a)(resp_key r := ns), answer := (answer a)(n \<mapsto> r)\<rparr>"
  have "stack (csf s') = stack (csf s)" by (auto intro!: stack_cong simp: S)
  moreover have "map Some (waiting ?b k) = map (owner ?b) (pending s' k)" for k using p [of k] n(3) wt [of k] by simp
  moreover have "\<exists>m. owner ?b i = Some m \<and> answer ?b m = Some (responses (csf s') ! i)"
    if i: "i < 256" "\<not> wait_for_response (csf s') ! i" for i
  proof (cases "i = slot")
    case True
    then show ?thesis using n(2) slot D(3) by (simp add: S)
  next
    case False
    then have "\<not> wait_for_response (csf s) ! i" "responses (csf s') ! i = responses (csf s) ! i"
      using i D(2) by (simp_all add: S)
    moreover from this obtain m where m: "owner a i = Some m" "answer a m = Some (responses (csf s) ! i)"
      using sim i(1) unfolding cmd_sim_def by blast
    moreover have "m \<noteq> n" using inj m(1) n(2) False by blast
    ultimately show ?thesis by simp
  qed
  ultimately have "cmd_sim s' ?b" using sim inv' unfolding cmd_sim_def by simp
  then show ?thesis using n(1) by simp
qed

lemma cmd_sim_collect:
  assumes sim: "cmd_sim s a" and run: "try_get_response_from_handle h (csf s) = Inr (Some (f, r))"
  shows "\<exists>b. spec_step a (Collected h r) = Some b \<and> cmd_sim (s\<lparr>csf := f\<rparr>) b"
proof -
  have inv: "cmd_inv s" using sim by (simp add: cmd_sim_def)
  note D = cmd_invD [OF inv] and C = cmd_inv_collect [OF inv run]
  have eff: "\<not> wait_for_response (csf s) ! h" "wait_for_response f = (wait_for_response (csf s))[h := True]"
    "responses f = responses (csf s)" using run by (auto elim: collect_effect)
  obtain n where n: "owner a h = Some n" "answer a n = Some r"
    using sim C(3,6) eff(1) unfolding cmd_sim_def by blast
  let ?b = "a\<lparr>owner := (owner a)(h := None)\<rparr>"
  have p: "pending (s\<lparr>csf := f\<rparr>) = pending s" by (auto simp: pending_def fun_eq_iff)
  have csf_f: "csf (s\<lparr>csf := f\<rparr>) = f" by simp
  have "dom (owner ?b) = {..< 256} - set (stack f)" using sim C(4) by (auto simp: cmd_sim_def)
  moreover have "\<forall>i j n. owner ?b i = Some n \<longrightarrow> owner ?b j = Some n \<longrightarrow> i = j" using sim by (simp add: cmd_sim_def)
  moreover have "\<forall>m \<in> ran (owner ?b). m < next_ticket ?b"
  proof
    fix m assume "m \<in> ran (owner ?b)"
    then have "m \<in> ran (owner a)" by (auto simp: ran_def split: if_splits)
    then show "m < next_ticket ?b" using sim by (simp add: cmd_sim_def)
  qed
  moreover have "map Some (waiting ?b k) = map (owner ?b) (pending s k)" for k
  proof -
    have "map Some (waiting a k) = map (owner a) (pending s k)" using sim unfolding cmd_sim_def by blast
    moreover have "map (owner ?b) (pending s k) = map (owner a) (pending s k)" using C(5) [of k] by auto
    ultimately show ?thesis by simp
  qed
  moreover have "\<exists>m. owner ?b i = Some m \<and> answer ?b m = Some (responses f ! i)"
    if i: "i < 256" "\<not> wait_for_response f ! i" for i
  proof -
    have "i \<noteq> h" "\<not> wait_for_response (csf s) ! i" using i eff(2) D(2) C(3) by (auto simp: nth_list_update split: if_splits)
    then show ?thesis using sim i(1) eff(3) by (simp add: cmd_sim_def)
  qed
  ultimately have "cmd_sim (s\<lparr>csf := f\<rparr>) ?b"
    using C(1) by (intro cmd_simI) (simp_all only: p csf_f)
  then show ?thesis using n by simp
qed

lemma cmd_sim_step:
  assumes "cmd_sim s a" "cmd_step silicon s e s'"
  shows "\<exists>b. spec_step a e = Some b \<and> cmd_sim s' b"
  using assms(2)
proof cases
  case (send rdy c h)
  then show ?thesis using cmd_sim_send [OF assms(1)] by blast
next
  case (respond r)
  then show ?thesis using cmd_sim_respond [OF assms(1)] by blast
next
  case (collect h f r)
  then show ?thesis using cmd_sim_collect [OF assms(1)] by blast
qed

lemma spec_run_snoc: "spec_run a (es @ [e]) = Option.bind (spec_run a es) (\<lambda>b. spec_step b e)"
  by (induction es arbitrary: a) auto

lemma stack_init: "stack (csf (cmd_runtime_init f)) = [0 ..< 256]"
  by (simp add: stack_def cmd_runtime_init_def cmd_server_file_init_def MAX_CONCURRENT_COMMANDS_def)

lemma cmd_inv_init: "length (responses f) = 256 \<Longrightarrow> cmd_inv (cmd_runtime_init f)"
  unfolding cmd_inv_def pool_ok_def stack_init
  by (auto simp: pending_def cmd_runtime_init_def cmd_server_file_init_def MAX_CONCURRENT_COMMANDS_def)

lemma cmd_sim_init: "length (responses f) = 256 \<Longrightarrow> cmd_sim (cmd_runtime_init f) spec_init"
  using cmd_inv_init [of f] unfolding cmd_sim_def stack_init
  by (auto simp: spec_init_def pending_def cmd_runtime_init_def cmd_server_file_init_def
      MAX_CONCURRENT_COMMANDS_def)

lemma cmd_run_sim:
  assumes "cmd_run silicon s0 tr s" "cmd_sim s0 a0"
  shows "\<exists>a. spec_run a0 tr = Some a \<and> cmd_sim s a"
  using assms
proof (induction rule: cmd_run.induct)
  case (snoc s tr s' e s'')
  then obtain a where "spec_run a0 tr = Some a" "cmd_sim s' a" by blast
  moreover obtain b where "spec_step a e = Some b" "cmd_sim s'' b" using cmd_sim_step calculation(2) snoc.hyps(2) by blast
  ultimately show ?case by (simp add: spec_run_snoc)
qed simp

lemma cmd_inv_step: "cmd_inv s \<Longrightarrow> cmd_step silicon s e s' \<Longrightarrow> cmd_inv s'"
  by (erule cmd_step.cases) (auto intro: cmd_inv_send cmd_inv_respond cmd_inv_collect)

lemma ready_step:
  assumes inv: "cmd_inv s" and step: "cmd_step silicon s e s'" and ready: "i < 256" "\<not> wait_for_response (csf s) ! i"
    and e: "\<And>r. e \<noteq> Collected i r"
  shows "\<not> wait_for_response (csf s') ! i \<and> responses (csf s') ! i = responses (csf s) ! i"
  using step
proof cases
  case (send rdy c h)
  then show ?thesis using send_effect [of silicon rdy c s s' h] ready(2) by simp
next
  case (respond r)
  from respond(2,3) obtain slot rest where S: "in_flight s (resp_key r) = Some (slot # rest)"
    "s' = s\<lparr>csf := (csf s)\<lparr>responses := (responses (csf s))[slot := r],
                          wait_for_response := (wait_for_response (csf s))[slot := False]\<rparr>,
            in_flight := (in_flight s)(resp_key r \<mapsto> rest)\<rparr>"
    by (elim respond_effect)
  then have "slot \<in> set (pending s (resp_key r))" by (simp add: pending_def)
  then have "slot \<noteq> i" using cmd_invD(7) [OF inv] ready(2) by blast
  then show ?thesis using ready(2) by (simp add: S(2))
next
  case (collect h f r)
  then have "h \<noteq> i" using e by blast
  then show ?thesis using collect ready(2) by (auto elim!: collect_effect)
qed

lemma wait_ready_returns: "rdy u \<Longrightarrow> t \<le> u \<Longrightarrow> \<exists>t'. wait_ready rdy t = Some t'"
proof (induction "u - t" arbitrary: t)
  case 0
  then show ?case by (simp add: wait_ready.simps)
next
  case (Suc n)
  then show ?case using Suc.hyps(1) [of "Suc t"] by (subst wait_ready.simps) auto
qed

lemma push_beats_returns:
  "(\<And>t. \<exists>u \<ge> t. rdy u) \<Longrightarrow> \<exists>t'. push_beats rdy t bus ws = Some (bus @ ws, t')"
proof (induction ws arbitrary: t bus)
  case (Cons w ws)
  obtain t1 where "wait_ready rdy t = Some t1" using wait_ready_returns Cons.prems by metis
  then show ?case using Cons.IH [OF Cons.prems, of t1 "bus @ [w]"] by simp
qed simp

lemma send_error_slot:
  assumes "cmd_xd c \<noteq> 0"
  shows "send_cmd silicon rdy c s = Some (Inl SlotOutOfBounds) \<longleftrightarrow> take_slot (csf s) = Inl SlotOutOfBounds"
proof -
  have t: "take_slot (f\<lparr>file_cmd := c\<rparr>) = Inl e \<longleftrightarrow> take_slot f = Inl e" for f e by (auto simp: take_slot_def)
  have d: "deliver_cmd silicon rdy x \<noteq> Some (Inl SlotOutOfBounds)" for x
    by (auto simp: deliver_cmd_def Let_def split: sum.splits)
  show ?thesis
  proof (cases "take_slot ((csf s)\<lparr>file_cmd := c\<rparr>)")
    case (Inl e)
    moreover have "take_slot (csf s) = Inl e" using Inl t by simp
    ultimately show ?thesis using assms by (simp add: send_cmd_def serve_cmd_def assign_slot_def)
  next
    case (Inr p)
    obtain f i where p: "p = (f, i)" by (cases p)
    have "send_cmd silicon rdy c s \<noteq> Some (Inl SlotOutOfBounds)"
      using assms d Inr by (auto simp: send_cmd_def serve_cmd_def assign_slot_def p Let_def andThen_def
          split: option.splits sum.splits if_splits)
    then show ?thesis using Inr t [of "csf s"] by (metis sum.simps(4))
  qed
qed

section \<open>Properties\<close>


definition blank_file :: cmd_server_file where
  "blank_file = \<lparr>wait_for_response = [],
     responses = replicate 256 \<lparr>resp_data = 0, resp_core_id = 0, resp_system_id = 0, resp_rd = 0\<rparr>,
     processes_waiting = 0, free_slots = [], free_list_idx = 0, pthread_wait_id = 0, quit = False,
     file_cmd = start_cmd 0 False 0 0 0 0 0 0 0\<rparr>"

lemma blank_runtime: "length (responses blank_file) = 256" "\<not> quit (csf (cmd_runtime_init blank_file))"
  by (simp_all add: blank_file_def cmd_runtime_init_def cmd_server_file_init_def)

lemma first_send:
  "\<exists>s. send_cmd False (\<lambda>_. True) (start_cmd 2 True 3 0 0 7 1 2 0) (cmd_runtime_init blank_file) = Some (Inr (s, 255))"
  by (simp add: send_cmd_def serve_cmd_def assign_slot_def take_slot_def deliver_cmd_def cmd_runtime_init_def
      cmd_server_file_init_def blank_file_def start_cmd_def MAX_CONCURRENT_COMMANDS_def record_in_flight_def Let_def)


text \<open>
  C26. A response that is ready stays what it is until it is collected: whatever other clients send,
  whatever the accelerator answers and whatever other handles are collected in between, the slot
  stays ready and its content is not overwritten.
\<close>

theorem response_stable:
  assumes "cmd_run silicon s tr s'" and "cmd_inv s" and "i < 256" and "\<not> wait_for_response (csf s) ! i"
    and "\<forall>r. Collected i r \<notin> set tr"
  shows "\<not> wait_for_response (csf s') ! i \<and> responses (csf s') ! i = responses (csf s) ! i \<and> cmd_inv s'"
  using assms
proof (induction rule: cmd_run.induct)
  case (snoc s tr s' e s'')
  then have IH: "\<not> wait_for_response (csf s') ! i" "responses (csf s') ! i = responses (csf s) ! i" "cmd_inv s'" by auto
  then show ?case using ready_step [OF IH(3) snoc.hyps(2) snoc.prems(2) IH(1)] snoc.prems(4) cmd_inv_step [OF IH(3) snoc.hyps(2)]
    by auto
qed simp

theorem response_stable_witness:
  "\<exists>s s'. cmd_run False s [Responded \<lparr>resp_data = 9, resp_core_id = 7, resp_system_id = 2, resp_rd = 3\<rparr>] s' \<and>
     \<not> wait_for_response (csf s') ! 0 \<and> resp_data (responses (csf s') ! 0) = 5"
proof -
  define r :: rocc_response where "r = \<lparr>resp_data = 5, resp_core_id = 7, resp_system_id = 2, resp_rd = 3\<rparr>"
  define q :: rocc_response where "q = \<lparr>resp_data = 9, resp_core_id = 7, resp_system_id = 2, resp_rd = 3\<rparr>"
  define f where "f = blank_file\<lparr>wait_for_response := False # replicate 255 True, responses := replicate 256 r,
    free_slots := [2 ..< 258], free_list_idx := 253\<rparr>"
  define s where "s = (cmd_runtime_init blank_file)\<lparr>csf := f, in_flight := [(2, 7) \<mapsto> [1]]\<rparr>"
  have f: "wait_for_response f = False # replicate 255 True" "responses f = replicate 256 r" "stack f = [2 ..< 256]"
    by (simp_all add: f_def stack_def)
  have sf: "set (stack f) = {2 ..< 256}" by (simp only: f(3) set_upt)
  have "pool_ok f" unfolding pool_ok_def f(3) set_upt by (auto simp: f_def)
  moreover have s: "csf s = f" "in_flight s (2, 7) = Some [1]" by (simp_all add: s_def)
  moreover have p: "pending s k = (if k = (2, 7) then [1] else [])" for k by (simp add: pending_def s_def)
  ultimately have inv: "cmd_inv s"
    by (intro cmd_invI) (auto simp: f(1,2) sf nth_Cons' split: if_splits)
  have key: "resp_key q = (2, 7)" by (simp add: resp_key_def q_def)
  obtain s' where reg: "register_reponse q s = Inr s'" by (simp add: register_reponse_def key s f(2))
  have "cmd_step False s (Responded q) s'" by (rule cmd_step.respond [OF reg]) (simp add: key s)
  then have run: "cmd_run False s ([] @ [Responded q]) s'" by (rule cmd_run.snoc [OF cmd_run.nil])
  have "\<not> wait_for_response (csf s') ! 0 \<and> responses (csf s') ! 0 = responses (csf s) ! 0"
    using response_stable [OF run inv, of 0] by (simp add: s f(1))
  then have "\<not> wait_for_response (csf s') ! 0 \<and> resp_data (responses (csf s') ! 0) = 5" by (simp add: s f(2) r_def)
  then show ?thesis using run unfolding append_Nil q_def by blast
qed

text \<open>
  The server runs out of slots exactly when all 256 of them are in use: a command that
  expects a response then makes it read the stack of free slots out of bounds; there is no check
  and no waiting. With one slot free the read is in bounds.
\<close>

theorem send_out_of_slots:
  assumes "cmd_inv s" and "cmd_xd c \<noteq> 0"
  shows "send_cmd silicon rdy c s = Some (Inl SlotOutOfBounds) \<longleftrightarrow>
    (\<forall>i < 256. (\<exists>k. i \<in> set (pending s k)) \<or> \<not> wait_for_response (csf s) ! i)"
proof -
  note D = cmd_invD [OF assms(1)]
  have "stack (csf s) = [] \<longleftrightarrow> (\<forall>i < 256. (\<exists>k. i \<in> set (pending s k)) \<or> \<not> wait_for_response (csf s) ! i)"
  proof
    assume "stack (csf s) = []"
    then show "\<forall>i < 256. (\<exists>k. i \<in> set (pending s k)) \<or> \<not> wait_for_response (csf s) ! i" using D(10) by fastforce
  next
    assume all: "\<forall>i < 256. (\<exists>k. i \<in> set (pending s k)) \<or> \<not> wait_for_response (csf s) ! i"
    show "stack (csf s) = []"
    proof (rule ccontr)
      assume "stack (csf s) \<noteq> []"
      then obtain i where "i \<in> set (stack (csf s))" by (cases "stack (csf s)") auto
      then show False using all D(8,9,11) by metis
    qed
  qed
  moreover have "take_slot (csf s) = Inl SlotOutOfBounds \<longleftrightarrow> stack (csf s) = []"
    using take_slot_empty [OF D(1)] take_slot_ok [OF D(1)] by force
  moreover have "send_cmd silicon rdy c s = Some (Inl SlotOutOfBounds) \<longleftrightarrow> take_slot (csf s) = Inl SlotOutOfBounds"
    by (rule send_error_slot [OF assms(2)])
  ultimately show ?thesis by simp
qed

theorem send_out_of_slots_witness:
  "\<exists>s. cmd_inv s \<and> send_cmd False (\<lambda>_. True) (start_cmd 2 True 3 0 0 7 1 2 0) s = Some (Inl SlotOutOfBounds)"
proof -
  define f where "f = blank_file\<lparr>wait_for_response := replicate 256 False, free_slots := [0 ..< 256], free_list_idx := - 1\<rparr>"
  define s where "s = (cmd_runtime_init blank_file)\<lparr>csf := f\<rparr>"
  have f: "wait_for_response f = replicate 256 False" "stack f = []" by (simp_all add: f_def stack_def)
  have s: "csf s = f" "pending s k = []" for k by (simp_all add: s_def pending_def cmd_runtime_init_def)
  have "pool_ok f" "length (responses f) = 256" unfolding pool_ok_def f(2) by (simp_all add: f_def blank_file_def)
  then have "cmd_inv s" by (intro cmd_invI) (simp_all add: s f)
  moreover from this have "send_cmd False (\<lambda>_. True) (start_cmd 2 True 3 0 0 7 1 2 0) s = Some (Inl SlotOutOfBounds)"
    using send_out_of_slots [of s "start_cmd 2 True 3 0 0 7 1 2 0"] by (simp add: s f start_cmd_def)
  ultimately show ?thesis by blast
qed

text \<open>
  On a board, a command that passes the range checks reaches the bus: if the device becomes ready
  again and again, the server writes the five words of the command, in order and exactly once,
  and wakes the response poller once if the command expects a response.
\<close>

theorem deliver_on_board:
  assumes "\<forall>t. \<exists>u \<ge> t. rdy u" and "pack (file_cmd (csf s)) 255 = Inr ws"
  shows "\<exists>s'. deliver_cmd True rdy s = Some (Inr s') \<and> bus_writes s' = bus_writes s @ ws \<and> length ws = 5 \<and>
    processes_waiting (csf s') = processes_waiting (csf s) + (if cmd_xd (file_cmd (csf s)) \<noteq> 0 then 1 else 0)"
proof -
  obtain t where "push_beats rdy 0 (bus_writes s) ws = Some (bus_writes s @ ws, t)"
    using push_beats_returns assms(1) by blast
  moreover have "length ws = 5" using assms(2) by (auto simp: pack_Inr_iff pack_words_def)
  ultimately show ?thesis using assms(2) by (simp add: deliver_cmd_def Let_def)
qed

theorem deliver_on_board_witness:
  "let c = start_cmd 2 True 3 0 0 7 1 2 0;
       s = (cmd_runtime_init blank_file)\<lparr>csf := blank_file\<lparr>file_cmd := c\<rparr>\<rparr>
   in \<exists>s'. deliver_cmd True even s = Some (Inr s') \<and> bus_writes s' = pack_words c 255"
proof -
  let ?c = "start_cmd 2 True 3 0 0 7 1 2 0"
  let ?s = "(cmd_runtime_init blank_file)\<lparr>csf := blank_file\<lparr>file_cmd := ?c\<rparr>\<rparr>"
  have "\<forall>t. \<exists>u \<ge> t. even (u :: nat)" by (metis even_Suc le_Suc_eq order_refl)
  moreover have "pack (file_cmd (csf ?s)) 255 = Inr (pack_words ?c 255)"
    by (simp add: pack_Inr_iff start_cmd_def)
  ultimately show ?thesis using deliver_on_board [of even ?s "pack_words ?c 255"]
    unfolding Let_def by (auto simp: cmd_runtime_init_def)
qed

text \<open>
  Which commands share a queue of outstanding slots: those of the same system whose core numbers
  agree modulo 256, because the key is built from an eight-bit core number. A response is matched
  by the same eight bits, so two cores that differ by 256 can receive each other's responses.
\<close>

theorem cmd_key_shared:
  "cmd_key c = cmd_key d \<longleftrightarrow>
     cmd_system_id c = cmd_system_id d \<and> unat (cmd_core_id c) mod 256 = unat (cmd_core_id d) mod 256"
proof -
  have "getCoreId c = getCoreId d \<longleftrightarrow> unat (cmd_core_id c) mod 256 = unat (cmd_core_id d) mod 256"
    unfolding getCoreId_def word_unat_eq_iff by (simp add: unsigned_ucast_eq take_bit_eq_mod)
  then show ?thesis by (simp add: cmd_key_def flip: word_uint_eq_iff)
qed

end
