(* ===== verification/Baremetal.thy ===== *)
theory Baremetal
  imports CmdServer
begin

text \<open>
  The client library without an operating system (the \<^verbatim>\<open>BAREMETAL\<close> parts of
  \<^verbatim>\<open>libbeethoven/src/rocc_cmd.cc\<close> and \<^verbatim>\<open>src/fpga_handle_impl/fpga_handle_baremetal.cc\<close>): there is no
  daemon, commands are written to the device registers and responses read from them by the caller.
  Two bit sets remember which response numbers are in use and which responses were read early.
  The device is described by what its registers answer: \<open>cmd_rdy\<close> and \<open>resp_valid\<close> at each poll, and
  \<open>words\<close>, the successive values of the response register. Shifts that C leaves undefined are errors.
\<close>

section \<open>State\<close>

record bare_state =
  actives :: u32
  valid_resps :: u32
  resps :: "rocc_response list"
  cmd_poll :: nat
  resp_poll :: nat
  cmd_words :: "u32 list"
  words_read :: nat

record bare_device =
  cmd_rdy :: "nat \<Rightarrow> bool"
  resp_valid :: "nat \<Rightarrow> bool"
  words :: "nat \<Rightarrow> u32"

datatype bare_error = ShiftOutOfRange | BadPackInfo

definition bare_start :: bare_state where
  "bare_start = \<lparr>actives = 0, valid_resps = 0,
     resps = replicate 32 \<lparr>resp_data = 0, resp_core_id = 0, resp_system_id = 0, resp_rd = 0\<rparr>,
     cmd_poll = 0, resp_poll = 0, cmd_words = [], words_read = 0\<rparr>"

section \<open>Collecting a response\<close>

text \<open>\<^verbatim>\<open>1 << id\<close> for an \<^verbatim>\<open>int\<close>.\<close>

definition flag_of :: "u8 \<Rightarrow> bare_error + u32" where
  "flag_of i = (if unat i < 32 then Inr (push_bit (unat i) 1) else Inl ShiftOutOfRange)"

text \<open>The three words of the next response; the valid register is polled once for all of them.\<close>

definition read_response :: "beethoven_pack_info \<Rightarrow> bare_device \<Rightarrow> bare_state \<Rightarrow> (rocc_response \<times> bare_state) option" where
  "read_response cfg d s = (let k = words_read s in
     map_option (\<lambda>r. (r, s\<lparr>words_read := k + 3\<rparr>))
       (decode_response (words d k) (words d (k + 1)) (words d (k + 2)) cfg))"

text \<open>\<^verbatim>\<open>response_getter::get_help\<close>. \<^term>\<open>None\<close>: the device never answers a blocking call.\<close>

partial_function (option) get_help ::
  "beethoven_pack_info \<Rightarrow> bare_device \<Rightarrow> u8 \<Rightarrow> bool \<Rightarrow> bare_state \<Rightarrow> (bare_error + rocc_response option \<times> bare_state) option" where
  "get_help cfg d i block s =
     (case flag_of i of
        Inl e \<Rightarrow> Some (Inl e)
      | Inr flag \<Rightarrow>
          if valid_resps s AND flag = flag then
            Some (Inr (Some (resps s ! unat i),
              s\<lparr>valid_resps := valid_resps s XOR flag, actives := actives s XOR flag\<rparr>))
          else if \<not> block \<and> \<not> resp_valid d (resp_poll s) then
            Some (Inr (None, s\<lparr>resp_poll := resp_poll s + 1\<rparr>))
          else Option.bind (wait_ready (resp_valid d) (resp_poll s)) (\<lambda>t.
            case read_response cfg d (s\<lparr>resp_poll := t\<rparr>) of
              None \<Rightarrow> Some (Inl BadPackInfo)
            | Some (r, s1) \<Rightarrow>
                if i = resp_rd r then Some (Inr (Some r, s1\<lparr>actives := actives s1 XOR flag\<rparr>))
                else get_help cfg d i True
                  (s1\<lparr>resps := (resps s1)[unat (resp_rd r) := r], valid_resps := valid_resps s1 OR flag\<rparr>)))"

declare get_help.simps [code]

section \<open>Sending a command\<close>

text \<open>\<^verbatim>\<open>__builtin_ffs\<close>: the position of the lowest set bit, counted from 1; 0 when there is none.\<close>

definition ffs :: "u32 \<Rightarrow> nat" where
  "ffs x = (case find (\<lambda>i. bit x i) [0..<32] of None \<Rightarrow> 0 | Some i \<Rightarrow> Suc i)"

text \<open>
  The choice of a response number. When the search gives 32 the code waits for a response through
  \<^verbatim>\<open>response_getter(-1)\<close>, whose first step is an undefined shift; when it gives 0 so is the
  shift by \<^verbatim>\<open>id - 1\<close>.
\<close>

definition choose_id :: "rocc_cmd \<Rightarrow> bare_state \<Rightarrow> bare_error + (u8 \<times> bare_state)" where
  "choose_id c s =
     (if cmd_xd c \<noteq> 0 then
        (let i = ffs (NOT (actives s) OR NOT (valid_resps s))
         in if i = 32 \<or> i = 0 then Inl ShiftOutOfRange
            else Inr (of_nat i, s\<lparr>actives := actives s OR push_bit (i - 1) 1\<rparr>))
      else Inr (255, s))"

definition bare_send :: "bare_device \<Rightarrow> rocc_cmd \<Rightarrow> bare_state \<Rightarrow> (bare_error + u8 \<times> bare_state) option" where
  "bare_send d c s =
     (case choose_id c s of
        Inl e \<Rightarrow> Some (Inl e)
      | Inr (i, s1) \<Rightarrow>
          Option.bind (push_beats (cmd_rdy d) (cmd_poll s1) (cmd_words s1) (pack_words c i)) (\<lambda>(ws, t).
            Some (Inr (i, s1\<lparr>cmd_words := ws, cmd_poll := t\<rparr>))))"

definition bare_get :: "beethoven_pack_info \<Rightarrow> bare_device \<Rightarrow> u8 \<Rightarrow> bare_state \<Rightarrow> (bare_error + rocc_response option \<times> bare_state) option" where
  "bare_get cfg d i s = get_help cfg d i True s"

definition bare_try_get :: "beethoven_pack_info \<Rightarrow> bare_device \<Rightarrow> u8 \<Rightarrow> bare_state \<Rightarrow> (bare_error + rocc_response option \<times> bare_state) option" where
  "bare_try_get cfg d i s = get_help cfg d i False s"

section \<open>Programs\<close>

datatype bare_op = BareSend rocc_cmd | BareGet u8 | BareTryGet u8

datatype bare_out = Sent u8 | Got "rocc_response option"

fun bare_step :: "beethoven_pack_info \<Rightarrow> bare_device \<Rightarrow> bare_op \<Rightarrow> bare_state \<Rightarrow> (bare_error + bare_out \<times> bare_state) option" where
  "bare_step cfg d (BareSend c) s = map_option (map_sum id (\<lambda>(i, s1). (Sent i, s1))) (bare_send d c s)"
| "bare_step cfg d (BareGet i) s = map_option (map_sum id (\<lambda>(r, s1). (Got r, s1))) (bare_get cfg d i s)"
| "bare_step cfg d (BareTryGet i) s = map_option (map_sum id (\<lambda>(r, s1). (Got r, s1))) (bare_try_get cfg d i s)"

fun bare_run :: "beethoven_pack_info \<Rightarrow> bare_device \<Rightarrow> bare_op list \<Rightarrow> bare_state \<Rightarrow> (bare_error + bare_out list \<times> bare_state) option" where
  "bare_run cfg d [] s = Some (Inr ([], s))"
| "bare_run cfg d (x # xs) s = Option.bind (bare_step cfg d x s) (\<lambda>r. case r of
      Inl e \<Rightarrow> Some (Inl e)
    | Inr (y, s1) \<Rightarrow> map_option (map_sum id (\<lambda>(ys, s2). (y # ys, s2))) (bare_run cfg d xs s1))"

section \<open>First come, first served\<close>

text \<open>The \<open>k\<close>th response of the device.\<close>

definition nth_response :: "beethoven_pack_info \<Rightarrow> bare_device \<Rightarrow> nat \<Rightarrow> rocc_response option" where
  "nth_response cfg d k = decode_response (words d (3 * k)) (words d (3 * k + 1)) (words d (3 * k + 2)) cfg"

text \<open>What a program sees: every command that expects a response has the same number, and each
  collection takes the next response of the device.\<close>

fun fifo_outs :: "beethoven_pack_info \<Rightarrow> bare_device \<Rightarrow> bare_op list \<Rightarrow> nat \<Rightarrow> bare_out list \<Rightarrow> bool" where
  "fifo_outs cfg d [] k ys = (ys = [])"
| "fifo_outs cfg d (BareSend c # xs) k ys =
     (\<exists>ys'. ys = Sent (if cmd_xd c \<noteq> 0 then 1 else 255) # ys' \<and> fifo_outs cfg d xs k ys')"
| "fifo_outs cfg d (BareGet i # xs) k ys =
     (\<exists>ys'. ys = Got (nth_response cfg d k) # ys' \<and> fifo_outs cfg d xs (Suc k) ys')"
| "fifo_outs cfg d (BareTryGet i # xs) k ys =
     (\<exists>ys'. ys = Got None # ys' \<and> fifo_outs cfg d xs k ys' \<or>
            ys = Got (nth_response cfg d k) # ys' \<and> fifo_outs cfg d xs (Suc k) ys')"

lemma ffs_all: "ffs (- 1) = 1"
  by (simp add: ffs_def upt_rec)

lemma send_fifo:
  assumes "valid_resps s = 0" "\<And>t. \<exists>u \<ge> t. cmd_rdy d u"
  shows "\<exists>t a. bare_send d c s = Some (Inr (if cmd_xd c \<noteq> 0 then 1 else 255, s\<lparr>actives := a, cmd_poll := t,
    cmd_words := cmd_words s @ pack_words c (if cmd_xd c \<noteq> 0 then 1 else 255)\<rparr>))"
proof -
  have "NOT (actives s) OR NOT 0 = NOT (0 :: u32)" by (intro bit_word_eqI) (simp add: bit_simps)
  then have i: "choose_id c s = Inr (if cmd_xd c \<noteq> 0 then (1, s\<lparr>actives := actives s OR 1\<rparr>) else (255, s))"
    using assms(1) by (simp add: choose_id_def ffs_all Let_def)
  obtain t where "push_beats (cmd_rdy d) (cmd_poll s) (cmd_words s) (pack_words c (if cmd_xd c \<noteq> 0 then 1 else 255)) =
      Some (cmd_words s @ pack_words c (if cmd_xd c \<noteq> 0 then 1 else 255), t)"
    using push_beats_returns [OF assms(2)] by blast
  then show ?thesis
    using i by (auto simp: bare_send_def
        intro!: exI [of _ t] exI [of _ "if cmd_xd c = 0 then actives s else actives s OR 1"])
qed

lemma get_fifo:
  assumes valid: "valid_resps s = 0" "words_read s = 3 * k"
    and r: "nth_response cfg d k = Some r" "resp_rd r = 1"
    and dev: "\<And>t. \<exists>u \<ge> t. resp_valid d u" and wait: "block \<or> resp_valid d (resp_poll s)"
  shows "\<exists>t a. get_help cfg d 1 block s =
    Some (Inr (Some r, s\<lparr>resp_poll := t, words_read := 3 * Suc k, actives := a\<rparr>))"
proof -
  obtain t where t: "wait_ready (resp_valid d) (resp_poll s) = Some t"
    using wait_ready_returns dev by metis
  have flag: "flag_of 1 = Inr 2" by (simp add: flag_of_def)
  have rr: "read_response cfg d (s\<lparr>resp_poll := t\<rparr>) = Some (r, s\<lparr>resp_poll := t, words_read := 3 * Suc k\<rparr>)"
    using r(1) valid(2) by (simp add: read_response_def nth_response_def Let_def numeral_3_eq_3)
  show ?thesis
    using valid(1) wait t rr r(2) flag by (subst get_help.simps) auto
qed


lemma try_fifo:
  assumes "valid_resps s = 0" "\<not> resp_valid d (resp_poll s)"
  shows "get_help cfg d 1 False s = Some (Inr (None, s\<lparr>resp_poll := resp_poll s + 1\<rparr>))"
  using assms by (subst get_help.simps) (simp add: flag_of_def)

fun collects_own :: "bare_op \<Rightarrow> bool" where
  "collects_own (BareSend c) = True"
| "collects_own (BareGet i) = (i = 1)"
| "collects_own (BareTryGet i) = (i = 1)"

lemma bare_step_fifo:
  assumes x: "collects_own x" and s: "valid_resps s = 0" "words_read s = 3 * k"
    and dev: "\<And>t. \<exists>u \<ge> t. cmd_rdy d u" "\<And>t. \<exists>u \<ge> t. resp_valid d u"
    and r: "\<And>k. \<exists>r. nth_response cfg d k = Some r \<and> resp_rd r = 1"
  shows "\<exists>y s' k'. bare_step cfg d x s = Some (Inr (y, s')) \<and> valid_resps s' = 0 \<and> words_read s' = 3 * k' \<and>
    (\<forall>xs ys. fifo_outs cfg d xs k' ys \<longrightarrow> fifo_outs cfg d (x # xs) k (y # ys))"
proof (cases x)
  case (BareSend c)
  from send_fifo [OF s(1) dev(1), of c] s show ?thesis unfolding BareSend
    by (elim exE) (force intro!: exI [of _ k])
next
  case (BareGet i)
  obtain r0 where r0: "nth_response cfg d k = Some r0" "resp_rd r0 = 1" using r by blast
  from get_fifo [OF s r0 dev(2), of True] obtain t a
    where "get_help cfg d 1 True s = Some (Inr (Some r0, s\<lparr>resp_poll := t, words_read := 3 * Suc k, actives := a\<rparr>))" by auto
  with s r0 x show ?thesis unfolding BareGet by (force simp: bare_get_def intro!: exI [of _ "Suc k"])
next
  case (BareTryGet i)
  show ?thesis
  proof (cases "resp_valid d (resp_poll s)")
    case True
    obtain r0 where r0: "nth_response cfg d k = Some r0" "resp_rd r0 = 1" using r by blast
    from get_fifo [OF s r0 dev(2), of False] True obtain t a
      where "get_help cfg d 1 False s = Some (Inr (Some r0, s\<lparr>resp_poll := t, words_read := 3 * Suc k, actives := a\<rparr>))" by auto
    with s r0 x show ?thesis unfolding BareTryGet by (force simp: bare_try_get_def intro!: exI [of _ "Suc k"])
  next
    case False
    from try_fifo [OF s(1) False, of cfg] s x show ?thesis unfolding BareTryGet
      by (force simp: bare_try_get_def intro!: exI [of _ k])
  qed
qed

lemma bare_run_fifo:
  assumes "list_all collects_own xs" and s: "valid_resps s = 0" "words_read s = 3 * k"
    and dev: "\<And>t. \<exists>u \<ge> t. cmd_rdy d u" "\<And>t. \<exists>u \<ge> t. resp_valid d u"
    and r: "\<And>k. \<exists>r. nth_response cfg d k = Some r \<and> resp_rd r = 1"
  shows "\<exists>ys s'. bare_run cfg d xs s = Some (Inr (ys, s')) \<and> fifo_outs cfg d xs k ys"
  using assms(1) s
proof (induction xs arbitrary: s k)
  case (Cons x xs)
  obtain y s1 k1 where y: "bare_step cfg d x s = Some (Inr (y, s1))" "valid_resps s1 = 0" "words_read s1 = 3 * k1"
    and out: "\<forall>xs ys. fifo_outs cfg d xs k1 ys \<longrightarrow> fifo_outs cfg d (x # xs) k (y # ys)"
    using bare_step_fifo [OF _ Cons.prems(2,3) dev r, of x] Cons.prems(1) by auto
  obtain ys s2 where "bare_run cfg d xs s1 = Some (Inr (ys, s2))" "fifo_outs cfg d xs k1 ys"
    using Cons.IH [OF _ y(2,3)] Cons.prems(1) by auto
  then show ?case using y(1) out by auto
qed simp

section \<open>Properties\<close>


definition eager_device :: bare_device where
  "eager_device = \<lparr>cmd_rdy = (\<lambda>_. True), resp_valid = (\<lambda>_. True), words = (\<lambda>k. if k mod 3 = 2 then 1 else of_nat k)\<rparr>"


text \<open>A response with another number is stored there, but the flag set is the caller's own: the
  caller is given whatever its slot held before.\<close>

lemma early_response_lost:
  assumes s: "valid_resps s = 0" "words_read s = 3 * k" "length (resps s) = 32" and i: "unat i < 32"
    and r: "nth_response cfg d k = Some r" "resp_rd r \<noteq> i" and dev: "resp_valid d (resp_poll s)"
  shows "\<exists>s'. bare_get cfg d i s = Some (Inr (Some (resps s ! unat i), s'))"
proof -
  have t: "wait_ready (resp_valid d) (resp_poll s) = Some (Suc (resp_poll s))"
    using dev by (subst wait_ready.simps) simp
  have flag: "flag_of i = Inr (push_bit (unat i) 1)" "push_bit (unat i) 1 \<noteq> (0 :: u32)"
    using i by (simp_all add: flag_of_def)
  have ne: "unat (resp_rd r) \<noteq> unat i" using r(2) by (simp add: word_unat_eq_iff)
  define s1 where "s1 = s\<lparr>resp_poll := Suc (resp_poll s), words_read := 3 * Suc k,
    resps := (resps s)[unat (resp_rd r) := r], valid_resps := push_bit (unat i) 1\<rparr>"
  have "bare_get cfg d i s = get_help cfg d i True s1"
    unfolding bare_get_def
    using s t flag r by (subst get_help.simps)
      (auto simp: read_response_def nth_response_def Let_def numeral_3_eq_3 s1_def)
  also have "\<exists>s'. \<dots> = Some (Inr (Some (resps s ! unat i), s'))"
    using flag ne by (subst get_help.simps) (simp add: s1_def)
  finally show ?thesis .
qed

end
