(* ===== verification/Poller.thy ===== *)
theory Poller
  imports CmdServer
begin

text \<open>
  The thread of the daemon that reads responses from a board
  (\<^verbatim>\<open>runtime/src/fpga/response_poller.cc\<close>, over the registers of \<^verbatim>\<open>runtime/src/core/mmio.cc\<close>). Each time
  the command server announces that a response is due (it posts the semaphore), the thread reads
  three words, waiting for the valid register before each, and hands them to \<^verbatim>\<open>register_reponse\<close>.
  \<open>vld\<close> is what the valid register answers at each poll, \<open>ws\<close> the successive response words. The bus lock
  only keeps the accesses of the two threads apart.
\<close>

section \<open>The thread\<close>

record poller =
  polls :: nat
  taken :: nat

definition poll_word :: "(nat \<Rightarrow> bool) \<Rightarrow> (nat \<Rightarrow> u32) \<Rightarrow> poller \<Rightarrow> (u32 \<times> poller) option" where
  "poll_word vld ws p = Option.bind (wait_ready vld (polls p)) (\<lambda>t.
     Some (ws (taken p), p\<lparr>polls := t, taken := taken p + 1\<rparr>))"

datatype poll_error = Register cmd_error | ShiftUndefined

text \<open>One turn of the loop, after the semaphore. \<^term>\<open>None\<close>: the thread waits forever.\<close>

definition poll_turn ::
  "beethoven_pack_info \<Rightarrow> (nat \<Rightarrow> bool) \<Rightarrow> (nat \<Rightarrow> u32) \<Rightarrow> poller \<times> cmd_runtime \<Rightarrow> (poll_error + poller \<times> cmd_runtime) option" where
  "poll_turn cfg vld ws = (\<lambda>(p, s).
     Option.bind (poll_word vld ws p) (\<lambda>(b0, p1).
     Option.bind (poll_word vld ws p1) (\<lambda>(b1, p2).
     Option.bind (poll_word vld ws p2) (\<lambda>(b2, p3).
       Some (case decode_response b0 b1 b2 cfg of
           None \<Rightarrow> Inl ShiftUndefined
         | Some r \<Rightarrow> (case register_reponse r s of
             Inl e \<Rightarrow> Inl (Register e)
           | Inr s1 \<Rightarrow> Inr (p3, s1)))))))"

text \<open>The thread, for as many posts of the semaphore as there have been.\<close>

fun poll_thread ::
  "beethoven_pack_info \<Rightarrow> (nat \<Rightarrow> bool) \<Rightarrow> (nat \<Rightarrow> u32) \<Rightarrow> nat \<Rightarrow> poller \<times> cmd_runtime \<Rightarrow> (poll_error + poller \<times> cmd_runtime) option" where
  "poll_thread cfg vld ws 0 x = Some (Inr x)"
| "poll_thread cfg vld ws (Suc n) x = Option.bind (poll_turn cfg vld ws x) (\<lambda>r. case r of
      Inl e \<Rightarrow> Some (Inl e) | Inr y \<Rightarrow> poll_thread cfg vld ws n y)"

section \<open>What reaches the command server\<close>

definition board_response :: "beethoven_pack_info \<Rightarrow> (nat \<Rightarrow> u32) \<Rightarrow> nat \<Rightarrow> rocc_response" where
  "board_response cfg ws k = the (decode_response (ws (3 * k)) (ws (3 * k + 1)) (ws (3 * k + 2)) cfg)"

lemma poll_word_returns:
  assumes "\<And>t. \<exists>u \<ge> t. vld u"
  shows "\<exists>t. poll_word vld ws p = Some (ws (taken p), p\<lparr>polls := t, taken := Suc (taken p)\<rparr>)"
proof -
  obtain t where "wait_ready vld (polls p) = Some t" using wait_ready_returns assms by metis
  then show ?thesis by (auto simp: poll_word_def)
qed

lemma poll_turn_registers:
  assumes fair: "\<And>t. \<exists>u \<ge> t. vld u" and cfg: "pack_info_ok cfg" and p: "taken p = 3 * k"
  shows "\<exists>p'. taken p' = 3 * Suc k \<and> poll_turn cfg vld ws (p, s) =
    Some (case register_reponse (board_response cfg ws k) s of Inl e \<Rightarrow> Inl (Register e) | Inr s1 \<Rightarrow> Inr (p', s1))"
proof -
  obtain t0 where t0: "poll_word vld ws p = Some (ws (taken p), p\<lparr>polls := t0, taken := Suc (taken p)\<rparr>)"
    using poll_word_returns [OF fair] by blast
  let ?p1 = "p\<lparr>polls := t0, taken := Suc (taken p)\<rparr>"
  obtain t1 where t1: "poll_word vld ws ?p1 = Some (ws (taken ?p1), ?p1\<lparr>polls := t1, taken := Suc (taken ?p1)\<rparr>)"
    using poll_word_returns [OF fair, of _ "?p1"] by blast
  let ?p2 = "?p1\<lparr>polls := t1, taken := Suc (taken ?p1)\<rparr>"
  obtain t2 where t2: "poll_word vld ws ?p2 = Some (ws (taken ?p2), ?p2\<lparr>polls := t2, taken := Suc (taken ?p2)\<rparr>)"
    using poll_word_returns [OF fair, of _ "?p2"] by blast
  let ?p3 = "?p2\<lparr>polls := t2, taken := Suc (taken ?p2)\<rparr>"
  have dec: "decode_response (ws (3 * k)) (ws (3 * k + 1)) (ws (3 * k + 2)) cfg = Some (board_response cfg ws k)"
    using cfg by (simp add: board_response_def decode_response_def)
  show ?thesis
    by (rule exI [of _ ?p3])
       (use t0 t1 t2 dec p in \<open>simp add: poll_turn_def split: sum.split\<close>)
qed

text \<open>
  On a board that offers words again and again the thread never waits forever: \<open>n\<close> posts register
  exactly the next \<open>n\<close> responses of the board, in order, as far as registering does not fail.
\<close>

lemma poll_thread_registers:
  assumes fair: "\<And>t. \<exists>u \<ge> t. vld u" and cfg: "pack_info_ok cfg" and "taken p = 3 * k"
  shows "\<exists>p'. poll_thread cfg vld ws n (p, s) =
    Some (case run_all register_reponse (map (board_response cfg ws) [k..<k + n]) s of
        Inl e \<Rightarrow> Inl (Register e) | Inr s' \<Rightarrow> Inr (p', s'))"
  using assms(3)
proof (induction n arbitrary: p k s)
  case (Suc n)
  obtain p1 where p1: "taken p1 = 3 * Suc k" "poll_turn cfg vld ws (p, s) =
    Some (case register_reponse (board_response cfg ws k) s of Inl e \<Rightarrow> Inl (Register e) | Inr s1 \<Rightarrow> Inr (p1, s1))"
    using poll_turn_registers [OF fair cfg Suc.prems] by blast
  have up: "[k..<k + Suc n] = k # [Suc k..<Suc k + n]" by (simp add: upt_rec)
  show ?case
  proof (cases "register_reponse (board_response cfg ws k) s")
    case (Inr s1)
    with p1(2) Suc.IH [OF p1(1), of s1] show ?thesis unfolding up by (simp del: upt_Suc)
  qed (use p1(2) in \<open>unfold up, simp del: upt_Suc\<close>)
qed simp

end
