(* ===== verification/AxiControl.thy ===== *)
theory AxiControl
  imports CmdServer
begin

text \<open>
  The front-bus controller of the AXI simulators (\<^verbatim>\<open>runtime/include/core/state_machine.h\<close>): three
  state machines share one AXI-Lite port. One sends the five words of a command, one reads the
  three words of a response, one polls the \<^verbatim>\<open>CMD_READY\<close> and \<^verbatim>\<open>RESP_VALID\<close> registers and starts the
  other two. \<open>tick\<close> is one clock cycle.
\<close>

section \<open>Data\<close>

datatype cmd_transfer_state =
    CMD_INACTIVE | CMD_BITS_WRITE_ADDR | CMD_BITS_WRITE_DAT | CMD_BITS_WRITE_B | CMD_VALID_ADDR
  | CMD_VALID_DAT | CMD_VALID_WRITE_B | CMD_RECHECK_READY_ADDR | CMD_RECHECK_READY_DAT

datatype resp_transfer_state =
    RESPT_INACTIVE | RESPT_BITS_ADDR | RESPT_BITS_READ | RESPT_READY_ADDR | RESPT_READY_WRITE
  | RESPT_READY_WRITE_B | RESPT_RECHECK_VALID_ADDR | RESPT_RECHECK_VALID_READ

datatype update_state =
    UPDATE_IDLE_RESP | UPDATE_IDLE_CMD | UPDATE_CMD_ADDR | UPDATE_CMD_WAIT | UPDATE_RESP_ADDR | UPDATE_RESP_WAIT

text \<open>The registers of the accelerator's front bus; their addresses are in a generated header.\<close>

datatype mmio_reg = CMD_BITS | CMD_VALID | CMD_READY | RESP_BITS | RESP_READY | RESP_VALID

record command_transaction =
  cmdbuf :: "u32 list"
  cmd_progress :: nat
  cmd_state :: cmd_transfer_state
  ready_for_command :: bool

record response_transaction =
  resbuf :: "u32 list"
  rsp_progress :: nat
  rsp_state :: resp_transfer_state

definition cmd_payload_length :: nat where "cmd_payload_length = 5"

definition rsp_payload_length :: nat where "rsp_payload_length = 3"

text \<open>The signals the device drives in a cycle, and those the controller drives.\<close>

record axi_in =
  aw_ready :: bool
  w_ready :: bool
  b_valid :: bool
  ar_ready :: bool
  r_valid :: bool
  r_data :: u32

record axi_out =
  aw_valid :: "mmio_reg option"
  w_valid :: "u32 option"
  b_ready :: bool
  ar_valid :: "mmio_reg option"
  r_ready :: bool

record axi_control =
  runtime :: cmd_runtime
  ongoing_cmd :: command_transaction
  ongoing_rsp :: response_transaction
  ongoing_update :: update_state
  check_freq_ctr :: nat
  bus_occupied :: bool
  cmds_inflight :: int
  start_times :: "system_core_pair \<rightharpoonup> nat"
  time_last_command :: nat
  memory_transacted :: nat
  kill_sig :: bool

definition check_freq :: nat where "check_freq = 50"

datatype axi_error = CmdFailed cmd_error | ExitPack pack_error | BadPackInfo | BufferOverrun

text \<open>The start state of the object, and the outputs with every valid and ready signal low.\<close>

definition axi_control_init :: "cmd_runtime \<Rightarrow> axi_control" where
  "axi_control_init rt =
     \<lparr>runtime = rt,
      ongoing_cmd = \<lparr>cmdbuf = [0, 0, 0, 0, 0], cmd_progress = 0, cmd_state = CMD_INACTIVE, ready_for_command = False\<rparr>,
      ongoing_rsp = \<lparr>resbuf = [0, 0, 0], rsp_progress = 0, rsp_state = RESPT_INACTIVE\<rparr>,
      ongoing_update = UPDATE_IDLE_CMD, check_freq_ctr = 0, bus_occupied = False, cmds_inflight = 0,
      start_times = Map.empty, time_last_command = 0, memory_transacted = 0, kill_sig = False\<rparr>"

definition axi_idle :: axi_out where
  "axi_idle = \<lparr>aw_valid = None, w_valid = None, b_ready = False, ar_valid = None, r_ready = False\<rparr>"

section \<open>The three machines\<close>

text \<open>Taking the next command from the queue; it packs the command into the buffer.\<close>

definition start_command :: "nat \<Rightarrow> axi_control \<Rightarrow> axi_error + axi_control" where
  "start_command main_time s =
     (case cmds (runtime s) of
        [] \<Rightarrow> Inr s
      | c # rest \<Rightarrow>
          (case pack c 255 of
             Inl e \<Rightarrow> Inl (ExitPack e)
           | Inr ws \<Rightarrow>
               Inr (s\<lparr>runtime := (runtime s)\<lparr>cmds := rest\<rparr>, bus_occupied := True,
                      ongoing_cmd := (ongoing_cmd s)\<lparr>cmd_state := CMD_BITS_WRITE_ADDR, cmdbuf := ws, cmd_progress := 0\<rparr>,
                      start_times := (if cmd_xd c \<noteq> 0 then (start_times s)(cmd_key c \<mapsto> main_time) else start_times s),
                      kill_sig := (cmd_opcode c = ROCC_OP_FLUSH),
                      cmds_inflight := (if cmd_xd c = 1 then cmds_inflight s + 1 else cmds_inflight s)\<rparr>)))"

definition set_cmd_state :: "cmd_transfer_state \<Rightarrow> axi_control \<Rightarrow> axi_control" where
  "set_cmd_state q s = s\<lparr>ongoing_cmd := (ongoing_cmd s)\<lparr>cmd_state := q\<rparr>\<rparr>"

text \<open>\<open>ddr\<close>: the design has a memory channel, whose statistics are reset after each command.\<close>

definition update_command_state ::
  "bool \<Rightarrow> nat \<Rightarrow> axi_in \<Rightarrow> axi_out \<times> axi_control \<Rightarrow> axi_error + (axi_out \<times> axi_control)" where
  "update_command_state ddr main_time inp os = (case os of (outp, s) \<Rightarrow>
     (case cmd_state (ongoing_cmd s) of
        CMD_BITS_WRITE_ADDR \<Rightarrow>
          Inr (outp\<lparr>aw_valid := Some CMD_BITS\<rparr>,
               (let s1 = s\<lparr>ongoing_cmd := (ongoing_cmd s)\<lparr>ready_for_command := False\<rparr>\<rparr>
                in if aw_ready inp then set_cmd_state CMD_BITS_WRITE_DAT s1 else s1))
      | CMD_BITS_WRITE_DAT \<Rightarrow>
          if cmd_progress (ongoing_cmd s) \<ge> length (cmdbuf (ongoing_cmd s)) then Inl BufferOverrun
          else Inr (outp\<lparr>w_valid := Some (cmdbuf (ongoing_cmd s) ! cmd_progress (ongoing_cmd s))\<rparr>,
                    (if w_ready inp then set_cmd_state CMD_BITS_WRITE_B s else s))
      | CMD_BITS_WRITE_B \<Rightarrow>
          Inr (outp\<lparr>b_ready := True\<rparr>, (if b_valid inp then set_cmd_state CMD_VALID_ADDR s else s))
      | CMD_VALID_ADDR \<Rightarrow>
          Inr (outp\<lparr>aw_valid := Some CMD_VALID\<rparr>, (if aw_ready inp then set_cmd_state CMD_VALID_DAT s else s))
      | CMD_VALID_DAT \<Rightarrow>
          Inr (outp\<lparr>w_valid := Some 1\<rparr>, (if w_ready inp then set_cmd_state CMD_VALID_WRITE_B s else s))
      | CMD_VALID_WRITE_B \<Rightarrow>
          Inr (outp\<lparr>b_ready := True\<rparr>,
               (if b_valid inp then
                  (let p = cmd_progress (ongoing_cmd s) + 1;
                       s1 = s\<lparr>ongoing_cmd := (ongoing_cmd s)\<lparr>cmd_progress := p\<rparr>\<rparr>
                   in if p = cmd_payload_length
                      then (set_cmd_state CMD_INACTIVE s1)
                             \<lparr>bus_occupied := False,
                              time_last_command := (if ddr then main_time else time_last_command s),
                              memory_transacted := (if ddr then 0 else memory_transacted s)\<rparr>
                      else set_cmd_state CMD_RECHECK_READY_ADDR s1)
                else s))
      | CMD_RECHECK_READY_ADDR \<Rightarrow>
          Inr (outp\<lparr>ar_valid := Some CMD_READY\<rparr>, (if ar_ready inp then set_cmd_state CMD_RECHECK_READY_DAT s else s))
      | CMD_RECHECK_READY_DAT \<Rightarrow>
          Inr (outp\<lparr>r_ready := True\<rparr>,
               (if r_valid inp
                then set_cmd_state (if r_data inp \<noteq> 0 then CMD_BITS_WRITE_ADDR else CMD_RECHECK_READY_ADDR) s
                else s))
      | CMD_INACTIVE \<Rightarrow>
          if ready_for_command (ongoing_cmd s) \<and> \<not> bus_occupied s \<and>
             (ongoing_update s = UPDATE_IDLE_CMD \<or> ongoing_update s = UPDATE_IDLE_RESP)
          then andThen (start_command main_time s) (\<lambda>s1. Inr (outp, s1))
          else Inr (outp, s)))"

definition set_rsp_state :: "resp_transfer_state \<Rightarrow> axi_control \<Rightarrow> axi_control" where
  "set_rsp_state q s = s\<lparr>ongoing_rsp := (ongoing_rsp s)\<lparr>rsp_state := q\<rparr>\<rparr>"

text \<open>
  The end of a response: decode it, look up its start time (which creates a missing entry), hand it to
  the command server and release the bus.
\<close>

definition finish_response :: "beethoven_pack_info \<Rightarrow> axi_control \<Rightarrow> axi_error + axi_control" where
  "finish_response pack_cfg s =
     (case resbuf (ongoing_rsp s) of
        [b0, b1, b2] \<Rightarrow>
          (case decode_response b0 b1 b2 pack_cfg of
             None \<Rightarrow> Inl BadPackInfo
           | Some r \<Rightarrow>
               (case register_reponse r (runtime s) of
                  Inl e \<Rightarrow> Inl (CmdFailed e)
                | Inr rt \<Rightarrow>
                    Inr (set_rsp_state RESPT_INACTIVE
                      (s\<lparr>runtime := rt, cmds_inflight := cmds_inflight s - 1, bus_occupied := False,
                         start_times := (if start_times s (resp_key r) = None
                                         then (start_times s)(resp_key r \<mapsto> 0) else start_times s)\<rparr>))))
      | _ \<Rightarrow> Inl BufferOverrun)"

definition resp_ready_b :: "beethoven_pack_info \<Rightarrow> axi_in \<Rightarrow> axi_out \<Rightarrow> axi_control \<Rightarrow> axi_error + (axi_out \<times> axi_control)" where
  "resp_ready_b pack_cfg inp outp s =
     andThen
       (if b_valid inp then
          (if rsp_progress (ongoing_rsp s) = rsp_payload_length then finish_response pack_cfg s
           else Inr (set_rsp_state RESPT_RECHECK_VALID_ADDR s))
        else Inr s)
       (\<lambda>s1. Inr (outp\<lparr>b_ready := True\<rparr>, s1))"

text \<open>\<^verbatim>\<open>case RESPT_READY_WRITE\<close> has no \<^verbatim>\<open>break\<close>: it goes on with the code of \<^verbatim>\<open>RESPT_READY_WRITE_B\<close>.\<close>

definition update_resp_state ::
  "beethoven_pack_info \<Rightarrow> axi_in \<Rightarrow> axi_out \<times> axi_control \<Rightarrow> axi_error + (axi_out \<times> axi_control)" where
  "update_resp_state pack_cfg inp os = (case os of (outp, s) \<Rightarrow>
     (case rsp_state (ongoing_rsp s) of
        RESPT_INACTIVE \<Rightarrow> Inr (outp, s)
      | RESPT_BITS_ADDR \<Rightarrow>
          Inr (outp\<lparr>ar_valid := Some RESP_BITS\<rparr>, (if ar_ready inp then set_rsp_state RESPT_BITS_READ s else s))
      | RESPT_BITS_READ \<Rightarrow>
          if r_valid inp then
            (if rsp_progress (ongoing_rsp s) \<ge> length (resbuf (ongoing_rsp s)) then Inl BufferOverrun
             else Inr (outp\<lparr>r_ready := True\<rparr>,
                       set_rsp_state RESPT_READY_ADDR
                         (s\<lparr>ongoing_rsp := (ongoing_rsp s)
                              \<lparr>resbuf := (resbuf (ongoing_rsp s))[rsp_progress (ongoing_rsp s) := r_data inp],
                               rsp_progress := rsp_progress (ongoing_rsp s) + 1\<rparr>\<rparr>)))
          else Inr (outp\<lparr>r_ready := True\<rparr>, s)
      | RESPT_READY_ADDR \<Rightarrow>
          Inr (outp\<lparr>aw_valid := Some RESP_READY\<rparr>, (if aw_ready inp then set_rsp_state RESPT_READY_WRITE s else s))
      | RESPT_READY_WRITE \<Rightarrow>
          resp_ready_b pack_cfg inp (outp\<lparr>w_valid := Some 1\<rparr>)
            (if w_ready inp then set_rsp_state RESPT_READY_WRITE_B s else s)
      | RESPT_READY_WRITE_B \<Rightarrow> resp_ready_b pack_cfg inp outp s
      | RESPT_RECHECK_VALID_ADDR \<Rightarrow>
          Inr (outp\<lparr>ar_valid := Some RESP_VALID\<rparr>, (if ar_ready inp then set_rsp_state RESPT_RECHECK_VALID_READ s else s))
      | RESPT_RECHECK_VALID_READ \<Rightarrow>
          Inr (outp\<lparr>r_ready := True\<rparr>,
               (if r_valid inp
                then set_rsp_state (if r_data inp \<noteq> 0 then RESPT_BITS_ADDR else RESPT_RECHECK_VALID_ADDR) s
                else s))))"

definition update_update_state :: "axi_in \<Rightarrow> axi_out \<times> axi_control \<Rightarrow> axi_out \<times> axi_control" where
  "update_update_state inp os = (case os of (outp, s) \<Rightarrow>
     (case ongoing_update s of
        UPDATE_IDLE_RESP \<Rightarrow>
          (outp, if \<not> bus_occupied s \<and> check_freq_ctr s > check_freq
                 then s\<lparr>check_freq_ctr := 0, bus_occupied := True, ongoing_update := UPDATE_RESP_ADDR\<rparr>
                 else s\<lparr>check_freq_ctr := check_freq_ctr s + 1\<rparr>)
      | UPDATE_RESP_ADDR \<Rightarrow>
          (outp\<lparr>ar_valid := Some RESP_VALID\<rparr>, if ar_ready inp then s\<lparr>ongoing_update := UPDATE_RESP_WAIT\<rparr> else s)
      | UPDATE_RESP_WAIT \<Rightarrow>
          (outp\<lparr>r_ready := True\<rparr>,
           if r_valid inp then
             (let s1 = s\<lparr>ongoing_rsp := (ongoing_rsp s)\<lparr>rsp_progress := 0\<rparr>, ongoing_update := UPDATE_IDLE_CMD\<rparr>
              in if r_data inp \<noteq> 0 then set_rsp_state RESPT_BITS_ADDR s1 else s1\<lparr>bus_occupied := False\<rparr>)
           else s)
      | UPDATE_IDLE_CMD \<Rightarrow>
          (outp, if \<not> bus_occupied s \<and> check_freq_ctr s > check_freq
                 then s\<lparr>check_freq_ctr := 0, bus_occupied := True, ongoing_update := UPDATE_CMD_ADDR\<rparr>
                 else s\<lparr>check_freq_ctr := check_freq_ctr s + 1\<rparr>)
      | UPDATE_CMD_ADDR \<Rightarrow>
          (outp\<lparr>ar_valid := Some CMD_READY\<rparr>, if ar_ready inp then s\<lparr>ongoing_update := UPDATE_CMD_WAIT\<rparr> else s)
      | UPDATE_CMD_WAIT \<Rightarrow>
          (outp\<lparr>r_ready := True\<rparr>,
           (if r_valid inp
            then s\<lparr>ongoing_cmd := (ongoing_cmd s)\<lparr>ready_for_command := (r_data inp \<noteq> 0)\<rparr>,
                   ongoing_update := (if cmds_inflight s > 0 then UPDATE_IDLE_RESP else UPDATE_IDLE_CMD)\<rparr>
            else s)\<lparr>bus_occupied := False\<rparr>)))"

definition tick ::
  "bool \<Rightarrow> beethoven_pack_info \<Rightarrow> nat \<Rightarrow> axi_in \<Rightarrow> axi_control \<Rightarrow> axi_error + (axi_out \<times> axi_control)" where
  "tick ddr pack_cfg main_time inp s =
     andThen (update_command_state ddr main_time inp (axi_idle, s)) (\<lambda>os.
     andThen (update_resp_state pack_cfg inp os) (\<lambda>os'. Inr (update_update_state inp os')))"

section \<open>The bus invariant\<close>

definition cmd_active :: "axi_control \<Rightarrow> bool" where
  "cmd_active s \<longleftrightarrow> cmd_state (ongoing_cmd s) \<noteq> CMD_INACTIVE"

definition rsp_active :: "axi_control \<Rightarrow> bool" where
  "rsp_active s \<longleftrightarrow> rsp_state (ongoing_rsp s) \<noteq> RESPT_INACTIVE"

definition upd_active :: "axi_control \<Rightarrow> bool" where
  "upd_active s \<longleftrightarrow> ongoing_update s \<noteq> UPDATE_IDLE_CMD \<and> ongoing_update s \<noteq> UPDATE_IDLE_RESP"

text \<open>At most one machine is active; the bus is marked occupied by an active machine only, and by every
  active machine except the poll of \<^verbatim>\<open>CMD_READY\<close>, which gives the mark up while it waits. The
  buffers have their length and the progress counters stay inside them.\<close>

definition axi_excl :: "axi_control \<Rightarrow> bool" where
  "axi_excl s \<longleftrightarrow>
     \<not> (cmd_active s \<and> rsp_active s) \<and> \<not> (cmd_active s \<and> upd_active s) \<and> \<not> (rsp_active s \<and> upd_active s) \<and>
     (cmd_active s \<or> rsp_active s \<or> upd_active s \<and> ongoing_update s \<noteq> UPDATE_CMD_WAIT \<longrightarrow> bus_occupied s) \<and>
     (bus_occupied s \<longrightarrow> cmd_active s \<or> rsp_active s \<or> upd_active s)"

definition axi_bounds :: "axi_control \<Rightarrow> bool" where
  "axi_bounds s \<longleftrightarrow> length (cmdbuf (ongoing_cmd s)) = 5 \<and> length (resbuf (ongoing_rsp s)) = 3 \<and>
     (cmd_active s \<longrightarrow> cmd_progress (ongoing_cmd s) < 5) \<and> rsp_progress (ongoing_rsp s) \<le> 3 \<and>
     (rsp_state (ongoing_rsp s) \<in> {RESPT_BITS_ADDR, RESPT_BITS_READ, RESPT_RECHECK_VALID_ADDR, RESPT_RECHECK_VALID_READ}
        \<longrightarrow> rsp_progress (ongoing_rsp s) < 3)"

definition axi_inv :: "axi_control \<Rightarrow> bool" where
  "axi_inv s \<longleftrightarrow> axi_excl s \<and> axi_bounds s"

lemmas axi_defs = axi_inv_def axi_excl_def axi_bounds_def cmd_active_def rsp_active_def upd_active_def
  set_cmd_state_def set_rsp_state_def

lemma axi_inv_init: "axi_inv (axi_control_init rt)"
  by (simp add: axi_defs axi_control_init_def)

lemma pack_length: "pack c ov = Inr ws \<Longrightarrow> length ws = 5"
  by (auto simp: pack_Inr_iff pack_words_def)

lemma start_command_Inr:
  assumes "start_command t s = Inr s'"
  obtains "cmds (runtime s) = []" "s' = s"
  | c rest where "cmds (runtime s) = c # rest" "pack c 255 = Inr (cmdbuf (ongoing_cmd s'))"
    "cmds (runtime s') = rest" "bus_occupied s'" "cmd_state (ongoing_cmd s') = CMD_BITS_WRITE_ADDR"
    "cmd_progress (ongoing_cmd s') = 0" "ongoing_rsp s' = ongoing_rsp s" "ongoing_update s' = ongoing_update s"
  using assms by (auto simp: start_command_def split: list.splits sum.splits)

lemma cmd_state_inv:
  assumes "axi_inv s" "cmd_active s" "q \<noteq> CMD_INACTIVE" "p < 5"
  shows "axi_inv (s\<lparr>ongoing_cmd := (ongoing_cmd s)\<lparr>cmd_progress := p, cmd_state := q, ready_for_command := r\<rparr>\<rparr>)"
  using assms by (auto simp: axi_defs)

lemma cmd_state_inv':
  assumes "axi_inv s" "cmd_active s" "q \<noteq> CMD_INACTIVE"
  shows "axi_inv (set_cmd_state q s)"
proof -
  have "cmd_progress (ongoing_cmd s) < 5" using assms(1,2) by (simp add: axi_inv_def axi_bounds_def)
  from cmd_state_inv [OF assms this, of "ready_for_command (ongoing_cmd s)"] show ?thesis by (simp add: set_cmd_state_def)
qed

lemma cmd_done_inv:
  assumes "axi_inv s" "cmd_active s"
  shows "axi_inv ((set_cmd_state CMD_INACTIVE (s\<lparr>ongoing_cmd := (ongoing_cmd s)\<lparr>cmd_progress := p\<rparr>\<rparr>))
    \<lparr>bus_occupied := False, time_last_command := a, memory_transacted := b\<rparr>)"
  using assms by (auto simp: axi_defs)

lemma cmd_machine_active:
  assumes inv: "axi_inv s" and act: "cmd_active s"
  shows "on_Inr (\<lambda>(outp', s'). axi_inv s' \<and> ongoing_rsp s' = ongoing_rsp s \<and> ongoing_update s' = ongoing_update s \<and>
    runtime s' = runtime s) (update_command_state ddr t inp (outp, s))"
proof -
  note step = cmd_state_inv' [OF inv act]
  show ?thesis
  proof (cases "cmd_state (ongoing_cmd s)")
    case CMD_INACTIVE
    then show ?thesis using act by (simp add: cmd_active_def)
  next
    case CMD_BITS_WRITE_ADDR
    let ?s = "s\<lparr>ongoing_cmd := (ongoing_cmd s)\<lparr>ready_for_command := False\<rparr>\<rparr>"
    have "axi_inv ?s" "cmd_active ?s" using assms by (simp_all add: axi_defs)
    then show ?thesis using CMD_BITS_WRITE_ADDR cmd_state_inv' [of ?s CMD_BITS_WRITE_DAT]
      by (simp add: update_command_state_def Let_def) (simp add: set_cmd_state_def)
  next
    case CMD_VALID_WRITE_B
    have "axi_inv (set_cmd_state CMD_RECHECK_READY_ADDR (s\<lparr>ongoing_cmd := (ongoing_cmd s)\<lparr>cmd_progress := p\<rparr>\<rparr>))"
      if "p < 5" for p
      using cmd_state_inv [OF inv act _ that, of CMD_RECHECK_READY_ADDR "ready_for_command (ongoing_cmd s)"]
      by (simp add: set_cmd_state_def)
    moreover have "Suc (cmd_progress (ongoing_cmd s)) = 5 \<or> Suc (cmd_progress (ongoing_cmd s)) < 5"
      using assms by (auto simp: axi_inv_def axi_bounds_def)
    ultimately show ?thesis using CMD_VALID_WRITE_B inv cmd_done_inv [OF inv act]
      by (auto simp: update_command_state_def Let_def cmd_payload_length_def) (simp_all add: set_cmd_state_def)
  qed (use inv step in \<open>simp_all add: update_command_state_def\<close>, simp_all add: set_cmd_state_def)
qed

lemma cmd_machine_inactive:
  assumes inv: "axi_inv s" and act: "\<not> cmd_active s" and run: "update_command_state ddr t inp (outp, s) = Inr (outp', s')"
  obtains "outp' = outp" "s' = s"
  | c rest where "outp' = outp" "axi_inv s'" "\<not> rsp_active s" "\<not> upd_active s" "cmds (runtime s) = c # rest"
    "cmds (runtime s') = rest" "pack c 255 = Inr (cmdbuf (ongoing_cmd s'))" "cmd_state (ongoing_cmd s') = CMD_BITS_WRITE_ADDR"
    "cmd_progress (ongoing_cmd s') = 0" "ongoing_rsp s' = ongoing_rsp s" "ongoing_update s' = ongoing_update s"
proof (cases "ready_for_command (ongoing_cmd s) \<and> \<not> bus_occupied s \<and>
        (ongoing_update s = UPDATE_IDLE_CMD \<or> ongoing_update s = UPDATE_IDLE_RESP)")
  case go: True
  have cs: "cmd_state (ongoing_cmd s) = CMD_INACTIVE" using act by (simp add: cmd_active_def)
  have start: "start_command t s = Inr s'" and o: "outp' = outp"
    using cs go run by (auto simp: update_command_state_def andThen_Inr_iff)
  have off: "\<not> rsp_active s" "\<not> upd_active s" using inv go by (auto simp: axi_inv_def axi_excl_def upd_active_def)
  from start show ?thesis
  proof (cases rule: start_command_Inr)
    case 1
    then show ?thesis using that(1) o by simp
  next
    case (2 c rest)
    have "axi_bounds s'" using inv 2 pack_length [OF 2(2)] by (simp add: axi_inv_def axi_bounds_def)
    moreover have "axi_excl s'" using off 2(4,5,7,8) by (simp add: axi_excl_def cmd_active_def rsp_active_def upd_active_def)
    ultimately have "axi_inv s'" by (simp add: axi_inv_def)
    then show ?thesis using that(2) o off 2 by blast
  qed
next
  case False
  have cs: "cmd_state (ongoing_cmd s) = CMD_INACTIVE" using act by (simp add: cmd_active_def)
  have "outp' = outp" "s' = s" using cs False run by (auto simp: update_command_state_def split: if_splits)
  then show ?thesis using that(1) by blast
qed

lemma cmd_machine_inv:
  assumes inv: "axi_inv s" and run: "update_command_state ddr t inp (outp, s) = Inr (outp', s')"
  shows "axi_inv s' \<and> ongoing_rsp s' = ongoing_rsp s \<and> ongoing_update s' = ongoing_update s \<and> (cmd_active s \<or> outp' = outp)"
proof (cases "cmd_active s")
  case True
  then show ?thesis using cmd_machine_active [OF inv True, THEN on_InrD, OF run] by simp
next
  case False
  from inv False run show ?thesis by (rule cmd_machine_inactive) (use inv in auto)
qed

lemma finish_response_Inr:
  assumes "finish_response cfg s = Inr s'"
  shows "ongoing_cmd s' = ongoing_cmd s" "ongoing_update s' = ongoing_update s" "\<not> bus_occupied s'"
    "rsp_state (ongoing_rsp s') = RESPT_INACTIVE" "resbuf (ongoing_rsp s') = resbuf (ongoing_rsp s)"
    "rsp_progress (ongoing_rsp s') = rsp_progress (ongoing_rsp s)" "cmds (runtime s') = cmds (runtime s)"
  using assms by (auto simp: finish_response_def set_rsp_state_def register_reponse_def
      split: list.splits option.splits sum.splits if_splits)

lemma rsp_state_inv:
  assumes "axi_inv s" "rsp_active s" "q \<noteq> RESPT_INACTIVE"
    "q \<in> {RESPT_BITS_ADDR, RESPT_BITS_READ, RESPT_RECHECK_VALID_ADDR, RESPT_RECHECK_VALID_READ} \<Longrightarrow> rsp_progress (ongoing_rsp s) < 3"
  shows "axi_inv (set_rsp_state q s)"
  using assms by (auto simp: axi_defs)

lemma resp_b_inv:
  assumes inv: "axi_inv s" and act: "rsp_state (ongoing_rsp s) \<in> {RESPT_READY_WRITE, RESPT_READY_WRITE_B}"
  shows "on_Inr (\<lambda>(outp', s'). axi_inv s' \<and> ongoing_cmd s' = ongoing_cmd s \<and> ongoing_update s' = ongoing_update s \<and>
    cmds (runtime s') = cmds (runtime s) \<and> outp' = outp\<lparr>b_ready := True\<rparr>) (resp_ready_b cfg inp outp s)"
proof (cases "b_valid inp \<and> rsp_progress (ongoing_rsp s) = rsp_payload_length")
  case True
  show ?thesis
  proof (cases "finish_response cfg s")
    case (Inr s')
    note F = finish_response_Inr [OF Inr]
    have "axi_inv s'" using inv act F by (auto simp: axi_defs)
    then show ?thesis using F Inr True by (simp add: resp_ready_b_def)
  qed (simp add: True resp_ready_b_def)
next
  case False
  moreover have "rsp_progress (ongoing_rsp s) \<noteq> rsp_payload_length \<Longrightarrow> axi_inv (set_rsp_state RESPT_RECHECK_VALID_ADDR s)"
    using inv act by (intro rsp_state_inv) (auto simp: rsp_payload_length_def rsp_active_def axi_inv_def axi_bounds_def)
  ultimately show ?thesis using inv by (simp add: resp_ready_b_def set_rsp_state_def)
qed

lemma rsp_machine_inv:
  assumes inv: "axi_inv s"
  shows "on_Inr (\<lambda>(outp', s'). axi_inv s' \<and> ongoing_cmd s' = ongoing_cmd s \<and> ongoing_update s' = ongoing_update s \<and>
    cmds (runtime s') = cmds (runtime s) \<and> (rsp_active s \<or> outp' = outp)) (update_resp_state cfg inp (outp, s))"
proof (cases "rsp_state (ongoing_rsp s) \<in> {RESPT_READY_WRITE, RESPT_READY_WRITE_B}")
  case True
  let ?s = "if rsp_state (ongoing_rsp s) = RESPT_READY_WRITE \<and> w_ready inp then set_rsp_state RESPT_READY_WRITE_B s else s"
  let ?o = "if rsp_state (ongoing_rsp s) = RESPT_READY_WRITE then outp\<lparr>w_valid := Some 1\<rparr> else outp"
  have act: "rsp_active s" using True by (auto simp: rsp_active_def)
  have "axi_inv ?s" using inv act by (auto intro: rsp_state_inv)
  moreover have "rsp_state (ongoing_rsp ?s) \<in> {RESPT_READY_WRITE, RESPT_READY_WRITE_B}"
    using True by (simp add: set_rsp_state_def)
  ultimately have "on_Inr (\<lambda>(outp', s'). axi_inv s' \<and> ongoing_cmd s' = ongoing_cmd ?s \<and> ongoing_update s' = ongoing_update ?s \<and>
    cmds (runtime s') = cmds (runtime ?s) \<and> outp' = ?o\<lparr>b_ready := True\<rparr>) (resp_ready_b cfg inp ?o ?s)"
    by (rule resp_b_inv)
  moreover have "update_resp_state cfg inp (outp, s) = resp_ready_b cfg inp ?o ?s"
    using True by (auto simp: update_resp_state_def)
  ultimately show ?thesis using act by (auto simp: set_rsp_state_def elim!: on_Inr_mono split: if_splits)
next
  case False
  have step: "axi_inv (set_rsp_state q s)" if "rsp_active s" "q \<noteq> RESPT_INACTIVE"
    "q \<in> {RESPT_BITS_ADDR, RESPT_BITS_READ, RESPT_RECHECK_VALID_ADDR, RESPT_RECHECK_VALID_READ} \<Longrightarrow> rsp_progress (ongoing_rsp s) < 3" for q
    using rsp_state_inv [OF inv that] .
  have lim: "length (resbuf (ongoing_rsp s)) = 3" using inv by (simp add: axi_inv_def axi_bounds_def)
  have rd: "axi_inv (set_rsp_state RESPT_READY_ADDR (s\<lparr>ongoing_rsp := (ongoing_rsp s)\<lparr>resbuf := b, rsp_progress := Suc p\<rparr>\<rparr>))"
    if "rsp_active s" "length b = 3" "p < 3" for b p
    using inv that by (simp add: axi_defs)
  have low: "rsp_state (ongoing_rsp s) \<in> {RESPT_BITS_ADDR, RESPT_BITS_READ, RESPT_RECHECK_VALID_ADDR, RESPT_RECHECK_VALID_READ} \<Longrightarrow>
    rsp_progress (ongoing_rsp s) < 3" using inv by (simp add: axi_inv_def axi_bounds_def)
  show ?thesis
  proof (cases "rsp_state (ongoing_rsp s)")
    case RESPT_BITS_READ
    then show ?thesis using inv lim low rd [of "(resbuf (ongoing_rsp s))[rsp_progress (ongoing_rsp s) := r_data inp]"
        "rsp_progress (ongoing_rsp s)"] by (simp add: update_resp_state_def rsp_active_def set_rsp_state_def)
  qed (use inv False low step in \<open>auto simp: update_resp_state_def rsp_active_def\<close>, auto simp: set_rsp_state_def)
qed

lemma upd_machine_inv:
  assumes inv: "axi_inv s"
  shows "axi_inv (snd (update_update_state inp (outp, s)))"
  using inv
  by (cases "ongoing_update s") (simp_all add: update_update_state_def Let_def axi_defs, blast+)

lemma upd_machine_frame:
  fixes inp outp s
  defines "r \<equiv> update_update_state inp (outp, s)"
  shows "runtime (snd r) = runtime s" "upd_active s \<or> fst r = outp"
    "cmd_state (ongoing_cmd (snd r)) = cmd_state (ongoing_cmd s)" "cmdbuf (ongoing_cmd (snd r)) = cmdbuf (ongoing_cmd s)"
    "cmd_progress (ongoing_cmd (snd r)) = cmd_progress (ongoing_cmd s)"
  unfolding r_def
  by (cases "ongoing_update s"; simp add: update_update_state_def Let_def upd_active_def set_rsp_state_def)+

lemma tick_Inr:
  assumes "tick ddr cfg t inp s = Inr (outp, s')"
  obtains o1 s1 o2 s2 where "update_command_state ddr t inp (axi_idle, s) = Inr (o1, s1)"
    "update_resp_state cfg inp (o1, s1) = Inr (o2, s2)" "update_update_state inp (o2, s2) = (outp, s')"
  using assms by (auto simp: tick_def andThen_Inr_iff)

lemma tick_inv:
  assumes inv: "axi_inv s" and run: "tick ddr cfg t inp s = Inr (outp, s')"
  shows "axi_inv s'"
proof -
  obtain o1 s1 o2 s2 where R: "update_command_state ddr t inp (axi_idle, s) = Inr (o1, s1)"
    "update_resp_state cfg inp (o1, s1) = Inr (o2, s2)" "update_update_state inp (o2, s2) = (outp, s')"
    using run by (rule tick_Inr)
  have "axi_inv s1" using cmd_machine_inv [OF inv R(1)] by simp
  then have "axi_inv s2" using rsp_machine_inv [THEN on_InrD, OF _ R(2)] by simp
  then show ?thesis using upd_machine_inv [of s2 inp o2] R(3) by simp
qed

section \<open>What the device sees\<close>

text \<open>One machine drives the port in a cycle, so no two channels start a transfer together.\<close>

definition single_channel :: "axi_out \<Rightarrow> bool" where
  "single_channel p \<longleftrightarrow>
     \<not> (aw_valid p \<noteq> None \<and> w_valid p \<noteq> None) \<and> \<not> (aw_valid p \<noteq> None \<and> ar_valid p \<noteq> None) \<and>
     \<not> (w_valid p \<noteq> None \<and> ar_valid p \<noteq> None) \<and>
     \<not> (r_ready p \<and> (aw_valid p \<noteq> None \<or> w_valid p \<noteq> None \<or> ar_valid p \<noteq> None))"

lemma cmd_single: "on_Inr (\<lambda>(p, s'). single_channel p) (update_command_state ddr t inp (axi_idle, s))"
proof (cases "cmd_state (ongoing_cmd s)")
  case CMD_INACTIVE
  then show ?thesis
    by (cases "start_command t s") (simp_all add: update_command_state_def single_channel_def axi_idle_def)
qed (simp_all add: update_command_state_def single_channel_def axi_idle_def)

lemma rsp_single: "on_Inr (\<lambda>(p, s'). single_channel p) (update_resp_state cfg inp (axi_idle, s))"
proof -
  have b: "on_Inr (\<lambda>(p, s'). single_channel p) (resp_ready_b cfg inp q u)" if "single_channel q" for q u
    unfolding resp_ready_b_def by (rule on_Inr_andThen [OF on_Inr_True]) (use that in \<open>simp add: single_channel_def\<close>)
  have "single_channel axi_idle" "single_channel (axi_idle\<lparr>w_valid := Some d\<rparr>)" "single_channel (axi_idle\<lparr>aw_valid := r\<rparr>)"
    "single_channel (axi_idle\<lparr>ar_valid := r\<rparr>)" "single_channel (axi_idle\<lparr>r_ready := x\<rparr>)" for d r x
    by (simp_all add: single_channel_def axi_idle_def)
  then show ?thesis by (cases "rsp_state (ongoing_rsp s)") (simp_all add: update_resp_state_def b)
qed

lemma upd_single: "single_channel (fst (update_update_state inp (axi_idle, s)))"
  by (cases "ongoing_update s") (simp_all add: update_update_state_def single_channel_def axi_idle_def)

lemma tick_single:
  assumes inv: "axi_inv s" and run: "tick ddr cfg t inp s = Inr (outp, s')"
  shows "single_channel outp"
proof -
  obtain o1 s1 o2 s2 where R: "update_command_state ddr t inp (axi_idle, s) = Inr (o1, s1)"
    "update_resp_state cfg inp (o1, s1) = Inr (o2, s2)" "update_update_state inp (o2, s2) = (outp, s')"
    using run by (rule tick_Inr)
  have C: "axi_inv s1" "ongoing_rsp s1 = ongoing_rsp s" "ongoing_update s1 = ongoing_update s" "cmd_active s \<or> o1 = axi_idle"
    using cmd_machine_inv [OF inv R(1)] by auto
  have P: "axi_inv s2" "ongoing_update s2 = ongoing_update s1" "rsp_active s1 \<or> o2 = o1"
    using rsp_machine_inv [OF C(1), THEN on_InrD, OF R(2)] by auto
  have U: "upd_active s2 \<or> outp = o2" using upd_machine_frame(2) [of s2 inp o2] R(3) by simp
  consider "cmd_active s" | "rsp_active s" | "\<not> cmd_active s" "\<not> rsp_active s" by blast
  then show ?thesis
  proof cases
    case 1
    then have "\<not> rsp_active s1" "\<not> upd_active s2" using inv C P by (auto simp: axi_inv_def axi_excl_def rsp_active_def upd_active_def)
    then have "outp = o1" using P U by auto
    then show ?thesis using cmd_single [THEN on_InrD, OF R(1)] by simp
  next
    case 2
    then have "o1 = axi_idle" "\<not> upd_active s2" using inv C P by (auto simp: axi_inv_def axi_excl_def upd_active_def)
    then show ?thesis using U rsp_single [THEN on_InrD, of cfg inp s1] R(2) by auto
  next
    case 3
    then have "o2 = axi_idle" using C(2,4) P(3) by (auto simp: rsp_active_def)
    then show ?thesis using upd_single [of inp s2] R(3) by simp
  qed
qed

text \<open>The device's view of the write channel: the register last addressed, and the writes performed.\<close>

record axi_obs =
  wr_reg :: "mmio_reg option"
  wr_log :: "(mmio_reg option \<times> u32) list"

definition observe :: "axi_in \<Rightarrow> axi_out \<Rightarrow> axi_obs \<Rightarrow> axi_obs" where
  "observe inp p ob =
     ob\<lparr>wr_reg := (if aw_ready inp \<and> aw_valid p \<noteq> None then aw_valid p else wr_reg ob),
        wr_log := (case w_valid p of
                     None \<Rightarrow> wr_log ob
                   | Some d \<Rightarrow> if w_ready inp then wr_log ob @ [(wr_reg ob, d)] else wr_log ob)\<rparr>"

text \<open>Environment and controller together: commands arrive in the queue, clock cycles pass.\<close>

datatype axi_event = Push rocc_cmd | Cycle axi_in nat

fun axi_run ::
  "bool \<Rightarrow> beethoven_pack_info \<Rightarrow> axi_control \<times> axi_obs \<Rightarrow> axi_event list \<Rightarrow> axi_error + (axi_control \<times> axi_obs)" where
  "axi_run ddr cfg so [] = Inr so"
| "axi_run ddr cfg (s, ob) (Push c # es) =
     axi_run ddr cfg (s\<lparr>runtime := (runtime s)\<lparr>cmds := cmds (runtime s) @ [c]\<rparr>\<rparr>, ob) es"
| "axi_run ddr cfg (s, ob) (Cycle inp t # es) =
     andThen (tick ddr cfg t inp s) (\<lambda>(p, s'). axi_run ddr cfg (s', observe inp p ob) es)"

fun pushed :: "axi_event list \<Rightarrow> rocc_cmd list" where
  "pushed [] = []"
| "pushed (Push c # es) = c # pushed es"
| "pushed (Cycle inp t # es) = pushed es"

definition obs_init :: axi_obs where "obs_init = \<lparr>wr_reg = None, wr_log = []\<rparr>"

text \<open>The writes that transfer a command: each word, followed by a write of 1 to \<^verbatim>\<open>CMD_VALID\<close>.\<close>

definition cblock :: "u32 list \<Rightarrow> (mmio_reg option \<times> u32) list" where
  "cblock ws = concat (map (\<lambda>w. [(Some CMD_BITS, w), (Some CMD_VALID, 1)]) ws)"

definition cmd_log :: "axi_obs \<Rightarrow> (mmio_reg option \<times> u32) list" where
  "cmd_log ob = filter (\<lambda>(r, d). r = Some CMD_BITS \<or> r = Some CMD_VALID) (wr_log ob)"

text \<open>How many of these writes the machine has done.\<close>

fun cmd_pos :: "cmd_transfer_state \<Rightarrow> nat \<Rightarrow> nat" where
  "cmd_pos CMD_BITS_WRITE_B p = 2 * p + 1"
| "cmd_pos CMD_VALID_ADDR p = 2 * p + 1"
| "cmd_pos CMD_VALID_DAT p = 2 * p + 1"
| "cmd_pos CMD_VALID_WRITE_B p = 2 * p + 2"
| "cmd_pos _ p = 2 * p"

lemma cblock_length: "length (cblock ws) = 2 * length ws"
  by (induction ws) (simp_all add: cblock_def)

lemma cblock_nth: "p < length ws \<Longrightarrow> cblock ws ! (2 * p) = (Some CMD_BITS, ws ! p) \<and> cblock ws ! (2 * p + 1) = (Some CMD_VALID, 1)"
proof (induction ws arbitrary: p)
  case (Cons w ws)
  have c: "cblock (w # ws) = (Some CMD_BITS, w) # (Some CMD_VALID, 1) # cblock ws" by (simp add: cblock_def)
  show ?case using Cons by (cases p) (simp_all add: c)
qed simp

lemma cblock_take:
  assumes "p < length ws"
  shows "take (2 * p + 1) (cblock ws) = take (2 * p) (cblock ws) @ [(Some CMD_BITS, ws ! p)]"
    "take (2 * p + 2) (cblock ws) = take (2 * p + 1) (cblock ws) @ [(Some CMD_VALID, 1)]"
proof -
  have l: "2 * p < length (cblock ws)" "2 * p + 1 < length (cblock ws)" using assms by (simp_all add: cblock_length)
  show "take (2 * p + 1) (cblock ws) = take (2 * p) (cblock ws) @ [(Some CMD_BITS, ws ! p)]"
    using take_Suc_conv_app_nth [OF l(1)] cblock_nth [OF assms] by simp
  show "take (2 * p + 2) (cblock ws) = take (2 * p + 1) (cblock ws) @ [(Some CMD_VALID, 1)]"
    using take_Suc_conv_app_nth [OF l(2)] cblock_nth [OF assms] by simp
qed

definition cwords :: "rocc_cmd \<Rightarrow> (mmio_reg option \<times> u32) list" where
  "cwords c = cblock (pack_words c 255)"

definition reg_ok :: "axi_control \<Rightarrow> axi_obs \<Rightarrow> bool" where
  "reg_ok s ob \<longleftrightarrow>
     (cmd_state (ongoing_cmd s) = CMD_BITS_WRITE_DAT \<longrightarrow> wr_reg ob = Some CMD_BITS) \<and>
     (cmd_state (ongoing_cmd s) = CMD_VALID_DAT \<longrightarrow> wr_reg ob = Some CMD_VALID) \<and>
     (rsp_state (ongoing_rsp s) = RESPT_READY_WRITE \<longrightarrow> wr_reg ob = Some RESP_READY)"

text \<open>
  \<open>sent\<close> are the commands taken from the queue so far. All but the last are completely transferred;
  of the last, the first \<^const>\<open>cmd_pos\<close> writes are done while the machine is active.
\<close>

definition log_ok :: "axi_control \<Rightarrow> axi_obs \<Rightarrow> rocc_cmd list \<Rightarrow> bool" where
  "log_ok s ob sent \<longleftrightarrow> reg_ok s ob \<and>
     (if cmd_active s
      then \<exists>done c. sent = done @ [c] \<and> pack c 255 = Inr (cmdbuf (ongoing_cmd s)) \<and>
             cmd_log ob = concat (map cwords done) @
               take (cmd_pos (cmd_state (ongoing_cmd s)) (cmd_progress (ongoing_cmd s))) (cblock (cmdbuf (ongoing_cmd s)))
      else cmd_log ob = concat (map cwords sent))"

lemma cmd_log_observe:
  "cmd_log (observe inp p ob) =
     (case w_valid p of
        None \<Rightarrow> cmd_log ob
      | Some d \<Rightarrow> if w_ready inp \<and> (wr_reg ob = Some CMD_BITS \<or> wr_reg ob = Some CMD_VALID)
                  then cmd_log ob @ [(wr_reg ob, d)] else cmd_log ob)"
  by (simp add: cmd_log_def observe_def split: option.split)

lemma wr_reg_observe: "wr_reg (observe inp p ob) = (if aw_ready inp \<and> aw_valid p \<noteq> None then aw_valid p else wr_reg ob)"
  by (simp add: observe_def)

lemma observe_quiet: "aw_valid p = None \<Longrightarrow> w_valid p = None \<Longrightarrow> observe inp p ob = ob"
  by (simp add: observe_def)

lemma axi_idle_fields [simp]:
  "aw_valid axi_idle = None" "w_valid axi_idle = None" "ar_valid axi_idle = None" "\<not> b_ready axi_idle" "\<not> r_ready axi_idle"
  by (simp_all add: axi_idle_def)

lemma log_cmd_active:
  assumes inv: "axi_inv s" and log: "log_ok s ob sent" and act: "cmd_active s"
  shows "on_Inr (\<lambda>(p, s'). log_ok s' (observe inp p ob) sent) (update_command_state ddr t inp (axi_idle, s))"
proof -
  let ?p = "cmd_progress (ongoing_cmd s)" and ?ws = "cmdbuf (ongoing_cmd s)"
  obtain dn c where S: "sent = dn @ [c]" "pack c 255 = Inr ?ws"
    "cmd_log ob = concat (map cwords dn) @ take (cmd_pos (cmd_state (ongoing_cmd s)) ?p) (cblock ?ws)"
    using log act by (auto simp: log_ok_def)
  have b: "?p < length ?ws" "length ?ws = 5" and r: "rsp_state (ongoing_rsp s) = RESPT_INACTIVE"
    using inv act by (auto simp: axi_inv_def axi_bounds_def axi_excl_def rsp_active_def)
  have reg: "reg_ok s ob" using log by (simp add: log_ok_def)
  note T = cblock_take [OF b(1)]
  have fin: "cwords c = take (2 * ?p + 2) (cblock ?ws)" if "Suc ?p = 5"
    using S(2) that b by (simp add: cwords_def pack_Inr_iff cblock_length)
  note simps = update_command_state_def set_cmd_state_def Let_def log_ok_def reg_ok_def cmd_active_def r S(1,2)
    cmd_log_observe wr_reg_observe cmd_payload_length_def
  show ?thesis
  proof (cases "cmd_state (ongoing_cmd s)")
    case CMD_INACTIVE
    then show ?thesis using act by (simp add: cmd_active_def)
  next
    case CMD_BITS_WRITE_DAT
    then have "wr_reg ob = Some CMD_BITS" using reg by (simp add: reg_ok_def)
    then show ?thesis using CMD_BITS_WRITE_DAT S(3) T(1) b by (simp add: simps)
  next
    case CMD_VALID_DAT
    then have "wr_reg ob = Some CMD_VALID" using reg by (simp add: reg_ok_def)
    then show ?thesis using CMD_VALID_DAT S(3) T(2) by (simp add: simps)
  next
    case CMD_VALID_WRITE_B
    then show ?thesis using S(3) fin by (simp add: simps)
  qed (use S(3) in \<open>simp_all add: simps\<close>)
qed

lemma log_rsp:
  assumes inv: "axi_inv s" and log: "log_ok s ob sent" and act: "\<not> cmd_active s"
  shows "on_Inr (\<lambda>(p, s'). log_ok s' (observe inp p ob) sent) (update_resp_state cfg inp (axi_idle, s))"
proof -
  have cs: "cmd_state (ongoing_cmd s) = CMD_INACTIVE" using act by (simp add: cmd_active_def)
  have l: "cmd_log ob = concat (map cwords sent)" and reg: "reg_ok s ob" using log act by (auto simp: log_ok_def)
  note simps = update_resp_state_def set_rsp_state_def log_ok_def reg_ok_def cmd_active_def cs l cmd_log_observe wr_reg_observe
  have fin: "on_Inr (\<lambda>(p, s'). log_ok s' (observe inp p ob) sent) (resp_ready_b cfg inp q u)"
    if q: "aw_valid q = None" "w_valid q \<noteq> None \<longrightarrow> wr_reg ob = Some RESP_READY"
      and u: "ongoing_cmd u = ongoing_cmd s" "rsp_state (ongoing_rsp u) = RESPT_READY_WRITE \<longrightarrow> wr_reg ob = Some RESP_READY" for q u
  proof -
    have log': "cmd_log (observe inp (q\<lparr>b_ready := True\<rparr>) ob) = concat (map cwords sent)"
      "wr_reg (observe inp (q\<lparr>b_ready := True\<rparr>) ob) = wr_reg ob"
      using q l by (simp_all add: cmd_log_observe wr_reg_observe split: option.split)
    have "on_Inr (\<lambda>u'. ongoing_cmd u' = ongoing_cmd s \<and> (rsp_state (ongoing_rsp u') = RESPT_READY_WRITE \<longrightarrow> wr_reg ob = Some RESP_READY))
      (if b_valid inp then if rsp_progress (ongoing_rsp u) = rsp_payload_length then finish_response cfg u
         else Inr (set_rsp_state RESPT_RECHECK_VALID_ADDR u) else Inr u)"
      using u finish_response_Inr(1,4) [of cfg u] by (cases "finish_response cfg u") (simp_all add: set_rsp_state_def)
    then show ?thesis unfolding resp_ready_b_def
      by (rule on_Inr_andThen) (simp add: log_ok_def reg_ok_def cmd_active_def cs log')
  qed
  show ?thesis
  proof (cases "rsp_state (ongoing_rsp s)")
    case RESPT_READY_WRITE
    then have "wr_reg ob = Some RESP_READY" using reg by (simp add: reg_ok_def)
    then show ?thesis using RESPT_READY_WRITE
      fin [of "axi_idle\<lparr>w_valid := Some 1\<rparr>" "if w_ready inp then set_rsp_state RESPT_READY_WRITE_B s else s"]
      by (simp add: update_resp_state_def set_rsp_state_def)
  next
    case RESPT_READY_WRITE_B
    then show ?thesis using fin [of axi_idle s] by (simp add: update_resp_state_def)
  qed (use reg in \<open>simp_all add: simps\<close>)
qed

lemma log_upd:
  assumes "log_ok s ob sent"
  shows "log_ok (snd (update_update_state inp (q, s))) ob sent"
proof -
  note F = upd_machine_frame [where s = s and inp = inp and outp = q]
  have "rsp_state (ongoing_rsp (snd (update_update_state inp (q, s)))) = RESPT_READY_WRITE \<longrightarrow>
      rsp_state (ongoing_rsp s) = RESPT_READY_WRITE"
    by (cases "ongoing_update s") (simp_all add: update_update_state_def Let_def set_rsp_state_def)
  then show ?thesis using assms F by (auto simp: log_ok_def reg_ok_def cmd_active_def)
qed

lemma upd_quiet: "observe inp (fst (update_update_state inp (q, s))) ob = observe inp q ob"
proof -
  have "aw_valid (fst (update_update_state inp (q, s))) = aw_valid q \<and> w_valid (fst (update_update_state inp (q, s))) = w_valid q"
    by (cases "ongoing_update s") (simp_all add: update_update_state_def)
  then show ?thesis unfolding observe_def by (simp only:)
qed

lemma tick_log:
  assumes inv: "axi_inv s" and log: "log_ok s ob sent" and run: "tick ddr cfg t inp s = Inr (p, s')"
  shows "\<exists>sent'. log_ok s' (observe inp p ob) sent' \<and> sent' @ cmds (runtime s') = sent @ cmds (runtime s)"
proof -
  obtain o1 s1 o2 s2 where R: "update_command_state ddr t inp (axi_idle, s) = Inr (o1, s1)"
    "update_resp_state cfg inp (o1, s1) = Inr (o2, s2)" "update_update_state inp (o2, s2) = (p, s')"
    using run by (rule tick_Inr)
  have upd: "runtime s' = runtime s2" "observe inp p ob = observe inp o2 ob"
    "log_ok s2 (observe inp o2 ob) l \<Longrightarrow> log_ok s' (observe inp p ob) l" for l
    using upd_machine_frame(1) [of inp o2 s2] upd_quiet [of inp o2 s2 ob] log_upd [of s2 "observe inp o2 ob" l inp o2] R(3)
    by simp_all
  show ?thesis
  proof (cases "cmd_active s")
    case True
    have s1: "axi_inv s1" "ongoing_rsp s1 = ongoing_rsp s" "runtime s1 = runtime s"
      using cmd_machine_active [OF inv True, THEN on_InrD, OF R(1)] by auto
    have "\<not> rsp_active s1" using inv True s1(2) by (simp add: axi_inv_def axi_excl_def rsp_active_def)
    then have "o2 = o1" "s2 = s1" using R(2) by (auto simp: update_resp_state_def rsp_active_def)
    then show ?thesis using log_cmd_active [OF inv log True, THEN on_InrD, OF R(1)] upd s1(3) by auto
  next
    case False
    have l: "cmd_log ob = concat (map cwords sent)" "reg_ok s ob" using log False by (auto simp: log_ok_def)
    from inv False R(1) show ?thesis
    proof (cases rule: cmd_machine_inactive)
      case 1
      have "cmds (runtime s2) = cmds (runtime s)" using rsp_machine_inv [OF inv, THEN on_InrD] R(2) 1 by auto
      then show ?thesis using log_rsp [OF inv log False, THEN on_InrD] R(2) 1 upd by (intro exI [of _ sent]) auto
    next
      case (2 c rest)
      then have "\<not> rsp_active s1" by (simp add: rsp_active_def)
      then have "o2 = axi_idle" "s2 = s1" using R(2) 2(1) by (auto simp: update_resp_state_def rsp_active_def)
      moreover have "log_ok s1 ob (sent @ [c])"
        using l 2 by (simp add: log_ok_def reg_ok_def cmd_active_def)
      ultimately show ?thesis using upd 2(5,6) observe_quiet [of axi_idle inp ob] by (intro exI [of _ "sent @ [c]"]) auto
    qed
  qed
qed

lemma axi_run_log:
  assumes "axi_run ddr cfg (s, ob) es = Inr (s', ob')" "axi_inv s" "log_ok s ob sent"
  shows "axi_inv s' \<and> (\<exists>sent'. log_ok s' ob' sent' \<and> sent' @ cmds (runtime s') = sent @ cmds (runtime s) @ pushed es)"
  using assms
proof (induction es arbitrary: s ob sent)
  case (Cons e es)
  show ?case
  proof (cases e)
    case (Push c)
    let ?s = "s\<lparr>runtime := (runtime s)\<lparr>cmds := cmds (runtime s) @ [c]\<rparr>\<rparr>"
    have "axi_inv ?s" "log_ok ?s ob sent"
      using Cons.prems(2,3) by (simp_all add: axi_defs log_ok_def reg_ok_def)
    then show ?thesis using Cons.IH [of ?s ob sent] Cons.prems(1) Push by simp
  next
    case (Cycle inp t)
    then obtain p u where u: "tick ddr cfg t inp s = Inr (p, u)" "axi_run ddr cfg (u, observe inp p ob) es = Inr (s', ob')"
      using Cons.prems(1) by (auto simp: andThen_Inr_iff)
    obtain l where l: "log_ok u (observe inp p ob) l" "l @ cmds (runtime u) = sent @ cmds (runtime s)"
      using tick_log [OF Cons.prems(2,3) u(1)] by blast
    have "l @ cmds (runtime u) @ pushed es = sent @ cmds (runtime s) @ pushed es" using l(2) by (metis append.assoc)
    then show ?thesis using Cons.IH [OF u(2) tick_inv [OF Cons.prems(2) u(1)] l(1)] Cycle by (simp only: pushed.simps)
  qed
qed auto

lemma log_ok_init: "log_ok (axi_control_init rt) obs_init []"
  by (simp add: log_ok_def reg_ok_def cmd_active_def axi_control_init_def obs_init_def cmd_log_def)

lemma tick_no_overrun:
  assumes inv: "axi_inv s"
  shows "tick ddr cfg t inp s \<noteq> Inl BufferOverrun"
proof
  assume run: "tick ddr cfg t inp s = Inl BufferOverrun"
  have c: "update_command_state ddr t inp (axi_idle, s) \<noteq> Inl BufferOverrun"
  proof (cases "cmd_state (ongoing_cmd s)")
    case CMD_INACTIVE
    then show ?thesis by (simp add: update_command_state_def start_command_def andThen_def split: list.split sum.split)
  qed (use inv in \<open>simp_all add: update_command_state_def axi_inv_def axi_bounds_def cmd_active_def\<close>)
  then obtain o1 s1 where o1: "update_command_state ddr t inp (axi_idle, s) = Inr (o1, s1)"
    using run by (cases "update_command_state ddr t inp (axi_idle, s)") (auto simp: tick_def)
  then have inv1: "axi_inv s1" using cmd_machine_inv [OF inv] by blast
  have fin: "finish_response cfg u \<noteq> Inl BufferOverrun" if l: "length (resbuf (ongoing_rsp u)) = 3" for u
  proof -
    obtain a b d where "resbuf (ongoing_rsp u) = [a, b, d]" using l by (auto simp: numeral_eq_Suc length_Suc_conv)
    then show ?thesis by (simp add: finish_response_def split: option.split sum.split)
  qed
  have "length (resbuf (ongoing_rsp s1)) = 3"
    "rsp_state (ongoing_rsp s1) = RESPT_BITS_READ \<longrightarrow> rsp_progress (ongoing_rsp s1) < 3"
    using inv1 by (auto simp: axi_inv_def axi_bounds_def)
  then have "update_resp_state cfg inp (o1, s1) \<noteq> Inl BufferOverrun"
    using fin [of s1] fin [of "set_rsp_state RESPT_READY_WRITE_B s1"]
    by (cases "rsp_state (ongoing_rsp s1)")
      (auto simp: update_resp_state_def resp_ready_b_def set_rsp_state_def andThen_def split: sum.split)
  then show False using run o1 by (cases "update_resp_state cfg inp (o1, s1)") (auto simp: tick_def)
qed

text \<open>A device that accepts and answers at once, and reports that it is ready.\<close>

definition all_ready :: axi_in where
  "all_ready = \<lparr>aw_ready = True, w_ready = True, b_valid = True, ar_ready = True, r_valid = True, r_data = 1\<rparr>"

text \<open>The cycles left in the transfer of a command when the device never delays.\<close>

fun cmd_rank :: "cmd_transfer_state \<Rightarrow> nat \<Rightarrow> nat" where
  "cmd_rank CMD_INACTIVE p = 0"
| "cmd_rank CMD_BITS_WRITE_ADDR p = 8 * (4 - p) + 6"
| "cmd_rank CMD_BITS_WRITE_DAT p = 8 * (4 - p) + 5"
| "cmd_rank CMD_BITS_WRITE_B p = 8 * (4 - p) + 4"
| "cmd_rank CMD_VALID_ADDR p = 8 * (4 - p) + 3"
| "cmd_rank CMD_VALID_DAT p = 8 * (4 - p) + 2"
| "cmd_rank CMD_VALID_WRITE_B p = 8 * (4 - p) + 1"
| "cmd_rank CMD_RECHECK_READY_ADDR p = 8 * (4 - p) + 8"
| "cmd_rank CMD_RECHECK_READY_DAT p = 8 * (4 - p) + 7"

definition ticks_left :: "axi_control \<Rightarrow> nat" where
  "ticks_left s = cmd_rank (cmd_state (ongoing_cmd s)) (cmd_progress (ongoing_cmd s))"

lemma ticks_left_0: "ticks_left s = 0 \<longleftrightarrow> \<not> cmd_active s"
  by (cases "cmd_state (ongoing_cmd s)") (simp_all add: ticks_left_def cmd_active_def)

lemma tick_ready:
  assumes inv: "axi_inv s" and act: "cmd_active s"
  shows "\<exists>p s'. tick ddr cfg t all_ready s = Inr (p, s') \<and> Suc (ticks_left s') = ticks_left s"
proof -
  let ?p = "cmd_progress (ongoing_cmd s)"
  have b: "?p < 5" "length (cmdbuf (ongoing_cmd s)) = 5" and r: "rsp_state (ongoing_rsp s) = RESPT_INACTIVE"
    using inv act by (auto simp: axi_inv_def axi_bounds_def axi_excl_def rsp_active_def)
  have "\<exists>o1 s1. update_command_state ddr t all_ready (axi_idle, s) = Inr (o1, s1) \<and> Suc (ticks_left s1) = ticks_left s"
  proof (cases "cmd_state (ongoing_cmd s)")
    case CMD_INACTIVE
    then show ?thesis using act by (simp add: cmd_active_def)
  next
    case CMD_VALID_WRITE_B
    then show ?thesis using b(1)
      by (auto simp: update_command_state_def all_ready_def set_cmd_state_def Let_def ticks_left_def cmd_payload_length_def)
  qed (use b in \<open>simp_all add: update_command_state_def all_ready_def set_cmd_state_def Let_def ticks_left_def\<close>)
  then obtain o1 s1 where s1: "update_command_state ddr t all_ready (axi_idle, s) = Inr (o1, s1)" "Suc (ticks_left s1) = ticks_left s"
    by blast
  then have "rsp_state (ongoing_rsp s1) = RESPT_INACTIVE" using cmd_machine_inv [OF inv s1(1)] r by simp
  then have "update_resp_state cfg all_ready (o1, s1) = Inr (o1, s1)" by (simp add: update_resp_state_def)
  moreover have "ticks_left (snd (update_update_state all_ready (o1, s1))) = ticks_left s1"
    using upd_machine_frame [where s = s1 and inp = all_ready and outp = o1] by (simp add: ticks_left_def)
  ultimately show ?thesis using s1 by (auto simp: tick_def prod_eq_iff)
qed

section \<open>Properties\<close>

text \<open>
  C8. Commands reach the device completely, in order and exactly once: whatever the timing of the
  device, the commands taken from the queue followed by those still in it are the commands that
  arrived; the writes the device has seen to \<^verbatim>\<open>CMD_BITS\<close> and \<^verbatim>\<open>CMD_VALID\<close> are, for each command taken, its five
  packed words, each followed by a valid flag, and the command in transfer has been written up
  to the position its state says.
\<close>

theorem axi_commands_delivered:
  assumes "axi_run ddr cfg (axi_control_init rt, obs_init) es = Inr (s, ob)" and "cmds rt = []"
  shows "\<exists>sent. pushed es = sent @ cmds (runtime s) \<and>
    (if cmd_state (ongoing_cmd s) = CMD_INACTIVE then cmd_log ob = concat (map cwords sent)
     else \<exists>done c. sent = done @ [c] \<and> cmd_log ob = concat (map cwords done) @
            take (cmd_pos (cmd_state (ongoing_cmd s)) (cmd_progress (ongoing_cmd s))) (cwords c))"
proof -
  obtain sent where "log_ok s ob sent" "sent @ cmds (runtime s) = pushed es"
    using axi_run_log [OF assms(1) axi_inv_init log_ok_init] assms(2) by (auto simp: axi_control_init_def)
  then show ?thesis
    by (intro exI [of _ sent]) (auto simp: log_ok_def cmd_active_def cwords_def pack_Inr_iff split: if_splits)
qed

theorem axi_commands_delivered_witness:
  "let rt = cmd_runtime_init blank_file; c = start_cmd 2 True 3 0 0 7 1 2 0
   in \<exists>s ob sent. axi_run True \<lparr>system_id_bits = 4, core_id_bits = 10\<rparr> (axi_control_init rt, obs_init) [Push c] = Inr (s, ob) \<and>
        [c] = sent @ cmds (runtime s) \<and> cmd_log ob = concat (map cwords sent)"
proof -
  let ?rt = "cmd_runtime_init blank_file" and ?c = "start_cmd 2 True 3 0 0 7 1 2 0"
  have "cmds ?rt = []" by (simp add: cmd_runtime_init_def)
  then show ?thesis
    using axi_commands_delivered [of True "\<lparr>system_id_bits = 4, core_id_bits = 10\<rparr>" ?rt "[Push ?c]"]
    unfolding Let_def by (fastforce simp: axi_control_init_def)
qed

text \<open>
  C30. The port is used safely in every reachable state: at most one of the three machines is active, the
  bus mark agrees with it, the progress counters stay inside the buffers, no cycle accesses a
  buffer out of bounds, and no two channels start a transfer in the same cycle.
\<close>

theorem axi_port_safe:
  assumes "axi_run ddr cfg (axi_control_init rt, obs_init) es = Inr (s, ob)"
  shows "axi_inv s \<and> tick ddr cfg t inp s \<noteq> Inl BufferOverrun \<and>
    (\<forall>p s'. tick ddr cfg t inp s = Inr (p, s') \<longrightarrow> single_channel p)"
proof -
  have inv: "axi_inv s" using axi_run_log [OF assms axi_inv_init log_ok_init] by blast
  then show ?thesis using tick_no_overrun [OF inv] tick_single [OF inv] by blast
qed

theorem axi_port_safe_witness:
  "\<exists>p s'. tick True \<lparr>system_id_bits = 4, core_id_bits = 10\<rparr> 0 all_ready (axi_control_init (cmd_runtime_init blank_file)) = Inr (p, s') \<and>
     single_channel p"
proof -
  let ?s = "axi_control_init (cmd_runtime_init blank_file)"
  have "\<exists>p s'. tick True \<lparr>system_id_bits = 4, core_id_bits = 10\<rparr> 0 all_ready ?s = Inr (p, s')"
    by (simp add: tick_def update_command_state_def update_resp_state_def axi_control_init_def)
  then show ?thesis using axi_port_safe [of True "\<lparr>system_id_bits = 4, core_id_bits = 10\<rparr>" "cmd_runtime_init blank_file" "[]"
      ?s obs_init 0 all_ready] by auto
qed

text \<open>
  C31. With a device that never delays, the transfer of a command ends: from any reachable state with a
  command in transfer, the machine is idle again after exactly \<^const>\<open>ticks_left\<close> cycles, which is at
  most 38 from the start of a command.
\<close>

theorem axi_command_completes:
  assumes "axi_inv s" and "cmd_active s"
  shows "\<exists>s' ob'. axi_run ddr cfg (s, ob) (replicate (ticks_left s) (Cycle all_ready t)) = Inr (s', ob') \<and>
    \<not> cmd_active s' \<and> ticks_left s \<le> 40 \<and>
    (cmd_state (ongoing_cmd s) = CMD_BITS_WRITE_ADDR \<longrightarrow> ticks_left s \<le> 38)"
proof -
  have "\<exists>s' ob'. axi_run ddr cfg (s, ob) (replicate (ticks_left s) (Cycle all_ready t)) = Inr (s', ob') \<and> \<not> cmd_active s'"
    using assms(1)
  proof (induction "ticks_left s" arbitrary: s ob)
    case 0
    then show ?case using ticks_left_0 [of s] by simp
  next
    case (Suc n)
    then have "cmd_active s" using ticks_left_0 [of s] by simp
    then obtain p u where u: "tick ddr cfg t all_ready s = Inr (p, u)" "Suc (ticks_left u) = ticks_left s"
      using tick_ready [OF Suc.prems] by blast
    then have "n = ticks_left u" using Suc.hyps(2) by simp
    then obtain s' ob' where "axi_run ddr cfg (u, observe all_ready p ob) (replicate n (Cycle all_ready t)) = Inr (s', ob')"
      "\<not> cmd_active s'" using Suc.hyps(1) [of u "observe all_ready p ob"] tick_inv [OF Suc.prems u(1)] by blast
    then show ?case using u(1) by (simp flip: Suc.hyps(2))
  qed
  moreover have "ticks_left s \<le> 40 \<and> (cmd_state (ongoing_cmd s) = CMD_BITS_WRITE_ADDR \<longrightarrow> ticks_left s \<le> 38)"
    by (cases "cmd_state (ongoing_cmd s)") (simp_all add: ticks_left_def)
  ultimately show ?thesis by blast
qed

theorem axi_command_completes_witness:
  "\<exists>s s' ob'. cmd_state (ongoing_cmd s) = CMD_BITS_WRITE_ADDR \<and>
     axi_run True \<lparr>system_id_bits = 4, core_id_bits = 10\<rparr> (s, obs_init) (replicate 38 (Cycle all_ready 0)) = Inr (s', ob') \<and>
     \<not> cmd_active s'"
proof -
  define s where "s = (set_cmd_state CMD_BITS_WRITE_ADDR (axi_control_init (cmd_runtime_init blank_file)))\<lparr>bus_occupied := True\<rparr>"
  have "axi_inv s" "cmd_active s" "ticks_left s = 38" "cmd_state (ongoing_cmd s) = CMD_BITS_WRITE_ADDR"
    by (simp_all add: s_def axi_defs axi_control_init_def ticks_left_def)
  then show ?thesis using axi_command_completes [of s True "\<lparr>system_id_bits = 4, core_id_bits = 10\<rparr>" obs_init 0] by metis
qed

end
