(* ===== verification/Uart.thy ===== *)
theory Uart
  imports Prelude
begin

text \<open>
  The UART front end of the ChipKit simulators (\<^verbatim>\<open>runtime/include/frontends/chipkit/state_machine.h\<close>,
  \<^verbatim>\<open>runtime/src/frontends/chipkit/front_bus_ctrl_chipkit.cc\<close>): one machine shifts queued bytes out
  on the chip's receive line \<^verbatim>\<open>rxd\<close>, the other collects bytes from its transmit line \<^verbatim>\<open>txd\<close>.
\<close>

section \<open>Data\<close>

definition baud_table :: "nat list" where
  "baud_table = [1302, 217, 108, 54, 27, 22, 20, 19, 16, 15, 10, 8, 6, 5, 4, 2]"

text \<open>\<^verbatim>\<open>set_baud\<close> asserts that the selector is not 15; a selector beyond the table has no entry.\<close>

definition set_baud :: "nat \<Rightarrow> (nat \<times> nat) option" where
  "set_baud baud_flag =
     (if baud_flag = 15 \<or> baud_flag \<ge> length baud_table then None else Some (baud_flag, baud_table ! baud_flag * 4))"

datatype uart_state = IDLE | START_BAUD | START | BITS | BITS_BAUD | STOP

record chipkit_intf =
  rxd :: u8
  out_byte :: u8
  in_state :: uart_state
  out_state :: uart_state
  baud_count_in :: nat
  baud_count_out :: nat
  in_byte_progress :: nat
  out_byte_progress :: nat
  in_stream :: "u8 list"
  out_stream :: "u8 list"
  in_enable :: bool
  out_enable :: bool

definition chipkit_init :: "u8 \<Rightarrow> chipkit_intf" where
  "chipkit_init line =
     \<lparr>rxd = line, out_byte = 0, in_state = IDLE, out_state = IDLE, baud_count_in = 0, baud_count_out = 0,
      in_byte_progress = 0, out_byte_progress = 0, in_stream = [], out_stream = [], in_enable = True,
      out_enable = False\<rparr>"

text \<open>Bit \<open>ti\<close> of the target becomes bit \<open>si\<close> of the source (\<^verbatim>\<open>set\<close> and \<^verbatim>\<open>set_u\<close>).\<close>

definition set_bit_from :: "u8 \<Rightarrow> nat \<Rightarrow> u8 \<Rightarrow> nat \<Rightarrow> u8" where
  "set_bit_from target ti src si =
     (target AND NOT (push_bit ti 1)) OR push_bit ti (drop_bit si (src AND push_bit si 1))"

section \<open>The clock tick\<close>

text \<open>The sending machine. \<^term>\<open>None\<close>: \<^verbatim>\<open>front()\<close> or \<^verbatim>\<open>pop()\<close> of an empty queue.\<close>

definition tick_in :: "nat \<Rightarrow> chipkit_intf \<Rightarrow> chipkit_intf option" where
  "tick_in baud_div s =
     (case in_state s of
        IDLE \<Rightarrow>
          Some (if in_stream s \<noteq> [] \<and> in_enable s
                then s\<lparr>rxd := 0, in_byte_progress := 0, in_state := START, baud_count_in := baud_count_in s + 1\<rparr>
                else s\<lparr>rxd := 1\<rparr>)
      | START \<Rightarrow>
          if baud_count_in s + 1 = baud_div then
            (case in_stream s of
               [] \<Rightarrow> None
             | b # _ \<Rightarrow> Some (s\<lparr>rxd := set_bit_from (rxd s) 0 b (in_byte_progress s),
                               in_byte_progress := in_byte_progress s + 1, baud_count_in := 0, in_state := BITS_BAUD\<rparr>))
          else Some (s\<lparr>baud_count_in := baud_count_in s + 1\<rparr>)
      | BITS \<Rightarrow>
          (case in_stream s of
             [] \<Rightarrow> None
           | b # bs \<Rightarrow>
               let s1 = s\<lparr>rxd := set_bit_from (rxd s) 0 b (in_byte_progress s),
                         in_byte_progress := in_byte_progress s + 1, baud_count_in := 0\<rparr>
               in Some (if baud_div > 1 then s1\<lparr>in_state := BITS_BAUD\<rparr>
                        else if in_byte_progress s1 = 8 then s1\<lparr>in_state := STOP, in_stream := bs\<rparr>
                        else s1\<lparr>in_state := BITS\<rparr>))
      | BITS_BAUD \<Rightarrow>
          if baud_count_in s + 1 = baud_div then
            (if in_byte_progress s = 8
             then (case in_stream s of
                     [] \<Rightarrow> None
                   | b # bs \<Rightarrow> Some (s\<lparr>baud_count_in := 0, in_state := STOP, in_stream := bs\<rparr>))
             else Some (s\<lparr>baud_count_in := 0, in_state := BITS\<rparr>))
          else Some (s\<lparr>baud_count_in := baud_count_in s + 1\<rparr>)
      | STOP \<Rightarrow>
          Some (if baud_count_in s + 1 = 2 * baud_div
                then s\<lparr>rxd := 1, in_state := IDLE, baud_count_in := 0\<rparr>
                else s\<lparr>rxd := 1, baud_count_in := baud_count_in s + 1\<rparr>)
      | START_BAUD \<Rightarrow> Some s)"

text \<open>
  The receiving machine. The last statement of \<^verbatim>\<open>case BITS_BAUD\<close> resets the counter in every cycle.
\<close>

definition tick_out :: "nat \<Rightarrow> u8 \<Rightarrow> chipkit_intf \<Rightarrow> chipkit_intf" where
  "tick_out baud_div txd s =
     (case out_state s of
        IDLE \<Rightarrow>
          if txd = 0 \<and> out_enable s then
            (if baud_div = 1 then s\<lparr>out_byte := 0, out_state := BITS, out_byte_progress := 0\<rparr>
             else s\<lparr>out_byte := 0, baud_count_out := 1, out_state := START_BAUD\<rparr>)
          else s
      | START_BAUD \<Rightarrow>
          if baud_count_out s + 1 = baud_div
          then s\<lparr>out_state := BITS, out_byte_progress := 0, baud_count_out := 0\<rparr>
          else s\<lparr>baud_count_out := baud_count_out s + 1\<rparr>
      | BITS \<Rightarrow>
          (let s1 = s\<lparr>out_byte := set_bit_from (out_byte s) (out_byte_progress s) txd 0,
                      out_byte_progress := out_byte_progress s + 1\<rparr>
           in if baud_div = 1 then
                (if out_byte_progress s1 = 8 then s1\<lparr>baud_count_out := 0, out_state := STOP\<rparr> else s1)
              else s1\<lparr>baud_count_out := 1, out_state := BITS_BAUD\<rparr>)
      | BITS_BAUD \<Rightarrow>
          (if baud_count_out s + 1 = baud_div
           then s\<lparr>out_state := (if out_byte_progress s = 8 then STOP else BITS), baud_count_out := 0\<rparr>
           else s\<lparr>baud_count_out := 0\<rparr>)
      | STOP \<Rightarrow>
          if baud_count_out s + 1 = 2 * baud_div
          then s\<lparr>baud_count_out := baud_count_out s + 1, out_state := IDLE, out_stream := out_stream s @ [out_byte s],
                 out_byte := 0\<rparr>
          else s\<lparr>baud_count_out := baud_count_out s + 1\<rparr>
      | START \<Rightarrow> s)"

definition uart_tick :: "nat \<Rightarrow> u8 \<Rightarrow> chipkit_intf \<Rightarrow> chipkit_intf option" where
  "uart_tick baud_div txd s = map_option (tick_out baud_div txd) (tick_in baud_div s)"

section \<open>Sending\<close>

text \<open>The line during \<open>n\<close> cycles, and the frame a byte should produce on it.\<close>

fun in_trace :: "nat \<Rightarrow> nat \<Rightarrow> chipkit_intf \<Rightarrow> (u8 list \<times> chipkit_intf) option" where
  "in_trace d 0 s = Some ([], s)"
| "in_trace d (Suc n) s =
     Option.bind (tick_in d s) (\<lambda>s1. map_option (\<lambda>(xs, s2). (rxd s1 # xs, s2)) (in_trace d n s1))"

definition frame :: "nat \<Rightarrow> u8 \<Rightarrow> u8 list" where
  "frame d b = replicate (d - 1) 0 @ concat (map (\<lambda>i. replicate (d + 1) (of_bool (bit b i))) [0 ..< 8]) @
     replicate (2 * d) 1"

lemma in_trace_add:
  "in_trace d (m + n) s =
     Option.bind (in_trace d m s) (\<lambda>(xs, t). map_option (\<lambda>(ys, u). (xs @ ys, u)) (in_trace d n t))"
proof (induction m arbitrary: s)
  case 0
  show ?case by (cases "in_trace d n s") auto
next
  case (Suc m)
  show ?case
  proof (cases "tick_in d s")
    case (Some t)
    then show ?thesis using Suc.IH [of t] by (cases "in_trace d m t"; cases "in_trace d n (snd (the (in_trace d m t)))") auto
  qed simp
qed

lemma in_trace_step: "in_trace d m s = Some (xs, t) \<Longrightarrow> in_trace d n t = Some (ys, u) \<Longrightarrow> in_trace d (m + n) s = Some (xs @ ys, u)"
  by (simp add: in_trace_add)

lemma set_bit_from_line: "x = 0 \<or> x = 1 \<Longrightarrow> i < 8 \<Longrightarrow> set_bit_from x 0 b i = of_bool (bit b i)"
  by (rule bit_word_eqI) (auto simp: set_bit_from_def bit_simps)

lemma wait_bits:
  assumes "in_state s = BITS_BAUD" "baud_count_in s + n < d"
  shows "in_trace d n s = Some (replicate n (rxd s), s\<lparr>baud_count_in := baud_count_in s + n\<rparr>)"
  using assms
proof (induction n arbitrary: s)
  case (Suc n)
  then have "tick_in d s = Some (s\<lparr>baud_count_in := baud_count_in s + 1\<rparr>)" by (simp add: tick_in_def)
  then show ?case using Suc.IH [of "s\<lparr>baud_count_in := baud_count_in s + 1\<rparr>"] Suc.prems by simp
qed simp

lemma wait_start:
  assumes "in_state s = START" "baud_count_in s + n < d"
  shows "in_trace d n s = Some (replicate n (rxd s), s\<lparr>baud_count_in := baud_count_in s + n\<rparr>)"
  using assms
proof (induction n arbitrary: s)
  case (Suc n)
  then have "tick_in d s = Some (s\<lparr>baud_count_in := baud_count_in s + 1\<rparr>)" by (simp add: tick_in_def)
  then show ?case using Suc.IH [of "s\<lparr>baud_count_in := baud_count_in s + 1\<rparr>"] Suc.prems by simp
qed simp

lemma wait_stop:
  assumes "in_state s = STOP" "baud_count_in s + Suc n < 2 * d"
  shows "in_trace d (Suc n) s = Some (replicate (Suc n) 1, s\<lparr>rxd := 1, baud_count_in := baud_count_in s + Suc n\<rparr>)"
  using assms
proof (induction n arbitrary: s)
  case 0
  then show ?case by (simp add: tick_in_def)
next
  case (Suc n)
  then have "tick_in d s = Some (s\<lparr>rxd := 1, baud_count_in := baud_count_in s + 1\<rparr>)" by (simp add: tick_in_def)
  then show ?case using Suc.IH [of "s\<lparr>rxd := 1, baud_count_in := baud_count_in s + 1\<rparr>"] Suc.prems by simp
qed

lemma replicate_snoc: "0 < d \<Longrightarrow> replicate (d - 1) x @ [x] = replicate d x"
  by (cases d) (simp_all add: replicate_append_same)

text \<open>After a bit is on the line, it stays for \<open>d\<close> further cycles; then the next state is entered.\<close>

lemma hold_bit:
  assumes "in_state s = BITS_BAUD" "baud_count_in s = 0" "0 < d" "in_stream s = b # bs"
  shows "in_trace d d s = Some (replicate d (rxd s),
    if in_byte_progress s = 8 then s\<lparr>in_state := STOP, in_stream := bs\<rparr> else s\<lparr>in_state := BITS\<rparr>)"
proof -
  have w: "in_trace d (d - 1) s = Some (replicate (d - 1) (rxd s), s\<lparr>baud_count_in := d - 1\<rparr>)"
    using wait_bits [of s "d - 1" d] assms by simp
  have "in_trace d 1 (s\<lparr>baud_count_in := d - 1\<rparr>) = Some ([rxd s],
      if in_byte_progress s = 8 then s\<lparr>in_state := STOP, in_stream := bs\<rparr> else s\<lparr>in_state := BITS\<rparr>)"
    using assms by (cases s) (simp add: tick_in_def)
  from in_trace_step [OF w this] show ?thesis using assms(3) by (simp only: replicate_snoc) simp
qed

lemma send_bit:
  assumes "in_state s = BITS" "in_stream s = b # bs" "in_byte_progress s < 8" "1 < d" "rxd s = 0 \<or> rxd s = 1"
  shows "in_trace d (d + 1) s = Some (replicate (d + 1) (of_bool (bit b (in_byte_progress s))),
    s\<lparr>rxd := of_bool (bit b (in_byte_progress s)), in_byte_progress := in_byte_progress s + 1, baud_count_in := 0,
      in_state := (if in_byte_progress s = 7 then STOP else BITS), in_stream := (if in_byte_progress s = 7 then bs else b # bs)\<rparr>)"
proof -
  let ?t = "s\<lparr>rxd := of_bool (bit b (in_byte_progress s)), in_byte_progress := in_byte_progress s + 1,
    baud_count_in := 0, in_state := BITS_BAUD\<rparr>"
  have "tick_in d s = Some ?t" using assms by (simp add: tick_in_def Let_def set_bit_from_line)
  moreover have "in_trace d d ?t = Some (replicate d (rxd ?t),
      if in_byte_progress ?t = 8 then ?t\<lparr>in_state := STOP, in_stream := bs\<rparr> else ?t\<lparr>in_state := BITS\<rparr>)"
    using assms by (intro hold_bit) auto
  ultimately show ?thesis using assms(2,3) by (cases s) auto
qed

lemma send_bits:
  assumes "in_state s = BITS" "in_stream s = b # bs" "in_byte_progress s + n = 8" "0 < n" "1 < d" "rxd s = 0 \<or> rxd s = 1"
  shows "\<exists>x. in_trace d (n * (d + 1)) s =
    Some (concat (map (\<lambda>i. replicate (d + 1) (of_bool (bit b i))) [in_byte_progress s ..< 8]),
          s\<lparr>rxd := x, in_byte_progress := 8, baud_count_in := 0, in_state := STOP, in_stream := bs\<rparr>)"
  using assms
proof (induction n arbitrary: s)
  case (Suc n)
  let ?i = "in_byte_progress s"
  have lt: "?i < 8" using Suc.prems by simp
  note B = send_bit [OF Suc.prems(1,2) lt Suc.prems(5,6)]
  have upt: "[?i ..< 8] = ?i # [Suc ?i ..< 8]" using lt by (simp add: upt_conv_Cons)
  show ?case
  proof (cases "n = 0")
    case True
    then have "?i = 7" using Suc.prems(3) by simp
    then show ?thesis using B True upt by (intro exI [of _ "of_bool (bit b 7)"]) simp
  next
    case False
    then have ne: "?i \<noteq> 7" using Suc.prems(3) by simp
    let ?t = "s\<lparr>rxd := of_bool (bit b ?i), in_byte_progress := ?i + 1, baud_count_in := 0, in_state := BITS, in_stream := b # bs\<rparr>"
    obtain x where x: "in_trace d (n * (d + 1)) ?t =
      Some (concat (map (\<lambda>i. replicate (d + 1) (of_bool (bit b i))) [Suc ?i ..< 8]),
          ?t\<lparr>rxd := x, in_byte_progress := 8, baud_count_in := 0, in_state := STOP, in_stream := bs\<rparr>)"
      using Suc.IH [of ?t] Suc.prems False by auto
    have "in_trace d ((d + 1) + n * (d + 1)) s =
      Some (replicate (d + 1) (of_bool (bit b ?i)) @ concat (map (\<lambda>i. replicate (d + 1) (of_bool (bit b i))) [Suc ?i ..< 8]),
          ?t\<lparr>rxd := x, in_byte_progress := 8, baud_count_in := 0, in_state := STOP, in_stream := bs\<rparr>)"
      using B ne by (intro in_trace_step [OF _ x]) simp
    moreover have "?t\<lparr>rxd := x, in_byte_progress := 8, baud_count_in := 0, in_state := STOP, in_stream := bs\<rparr> =
        s\<lparr>rxd := x, in_byte_progress := 8, baud_count_in := 0, in_state := STOP, in_stream := bs\<rparr>" by simp
    ultimately show ?thesis unfolding upt mult_Suc list.map concat.simps by metis
  qed
qed simp

lemma send_start:
  assumes "in_state s = IDLE" "in_enable s" "in_stream s = b # bs" "baud_count_in s = 0" "1 < d"
  shows "in_trace d (2 * d) s = Some (replicate (d - 1) 0 @ replicate (d + 1) (of_bool (bit b 0)),
    s\<lparr>rxd := of_bool (bit b 0), in_byte_progress := 1, baud_count_in := 0, in_state := BITS\<rparr>)"
proof -
  let ?t = "s\<lparr>rxd := 0, in_byte_progress := 0, in_state := START, baud_count_in := 1\<rparr>"
  let ?u = "s\<lparr>rxd := of_bool (bit b 0), in_byte_progress := 1, baud_count_in := 0, in_state := BITS_BAUD\<rparr>"
  have "in_trace d 1 s = Some ([0], ?t)" using assms by (simp add: tick_in_def)
  moreover have "in_trace d (d - 2) ?t = Some (replicate (d - 2) 0, ?t\<lparr>baud_count_in := d - 1\<rparr>)"
    using wait_start [of ?t "d - 2" d] assms(5) by (simp add: numeral_2_eq_2)
  ultimately have "in_trace d (1 + (d - 2)) s = Some ([0] @ replicate (d - 2) 0, ?t\<lparr>baud_count_in := d - 1\<rparr>)"
    by (rule in_trace_step)
  moreover have "in_trace d 1 (?t\<lparr>baud_count_in := d - 1\<rparr>) = Some ([of_bool (bit b 0)], ?u)"
    using assms set_bit_from_line [of 0 0 b] by (simp add: tick_in_def)
  ultimately have "in_trace d (1 + (d - 2) + 1) s = Some (([0] @ replicate (d - 2) 0) @ [of_bool (bit b 0)], ?u)"
    by (rule in_trace_step)
  moreover have "in_trace d d ?u = Some (replicate d (of_bool (bit b 0)), ?u\<lparr>in_state := BITS\<rparr>)"
    using hold_bit [of ?u d b bs] assms by simp
  ultimately have R: "in_trace d (1 + (d - 2) + 1 + d) s =
      Some ((([0] @ replicate (d - 2) 0) @ [of_bool (bit b 0)]) @ replicate d (of_bool (bit b 0)), ?u\<lparr>in_state := BITS\<rparr>)"
    by (rule in_trace_step)
  have n: "1 + (d - 2) + 1 + d = 2 * d" using assms(5) by simp
  have z: "[0] @ replicate (d - 2) 0 = replicate (d - 1) (0 :: u8)" using assms(5) by (simp flip: replicate_Suc)
  have c: "(xs @ [v]) @ replicate d v = xs @ replicate (d + 1) v" for xs and v :: u8 by simp
  have st: "?u\<lparr>in_state := BITS\<rparr> =
      s\<lparr>rxd := of_bool (bit b 0), in_byte_progress := 1, baud_count_in := 0, in_state := BITS\<rparr>" by simp
  show ?thesis using R unfolding n z c st .
qed

lemma send_stop:
  assumes "in_state s = STOP" "baud_count_in s = 0" "0 < d"
  shows "in_trace d (2 * d) s = Some (replicate (2 * d) 1, s\<lparr>rxd := 1, in_state := IDLE\<rparr>)"
proof -
  let ?t = "s\<lparr>rxd := 1, baud_count_in := 2 * d - 1\<rparr>"
  have "2 * d - 1 = Suc (2 * d - 2)" using assms(3) by simp
  then have "in_trace d (2 * d - 1) s = Some (replicate (2 * d - 1) 1, ?t)"
    using wait_stop [of s "2 * d - 2" d] assms by simp
  moreover have "in_trace d 1 ?t = Some ([1], s\<lparr>rxd := 1, in_state := IDLE\<rparr>)"
    using assms by (cases s) (simp add: tick_in_def)
  ultimately have "in_trace d (2 * d - 1 + 1) s = Some (replicate (2 * d - 1) 1 @ [1], s\<lparr>rxd := 1, in_state := IDLE\<rparr>)"
    by (rule in_trace_step)
  moreover have "2 * d - 1 + 1 = 2 * d" "replicate (2 * d - 1) 1 @ [1] = replicate (2 * d) (1 :: u8)"
    using assms(3) replicate_snoc [of "2 * d"] by simp_all
  ultimately show ?thesis by simp
qed

text \<open>The part of the frame before the stop level, and the frame.\<close>

definition frame_bits :: "nat \<Rightarrow> u8 \<Rightarrow> u8 list" where
  "frame_bits d b = replicate (d - 1) 0 @ concat (map (\<lambda>i. replicate (d + 1) (of_bool (bit b i))) [0 ..< 8])"

lemma frame_split: "frame d b = frame_bits d b @ replicate (2 * d) 1"
  by (simp add: frame_def frame_bits_def)

lemma length_frame_bits: "1 < d \<Longrightarrow> length (frame_bits d b) = 2 * d + 7 * (d + 1)"
  by (simp add: frame_bits_def length_concat comp_def sum_list_triv)

lemma send_byte:
  assumes "in_state s = IDLE" and "in_enable s" and "in_stream s = b # bs" and "baud_count_in s = 0" and "1 < d"
  shows "\<exists>x. in_trace d (length (frame_bits d b)) s =
    Some (frame_bits d b, s\<lparr>rxd := x, in_byte_progress := 8, in_state := STOP, in_stream := bs\<rparr>)"
proof -
  let ?t = "s\<lparr>rxd := of_bool (bit b 0), in_byte_progress := 1, baud_count_in := 0, in_state := BITS\<rparr>"
  obtain x where x: "in_trace d (7 * (d + 1)) ?t =
    Some (concat (map (\<lambda>i. replicate (d + 1) (of_bool (bit b i))) [1 ..< 8]),
          ?t\<lparr>rxd := x, in_byte_progress := 8, baud_count_in := 0, in_state := STOP, in_stream := bs\<rparr>)"
    using send_bits [of ?t b bs 7 d] assms by auto
  have "?t\<lparr>rxd := x, in_byte_progress := 8, baud_count_in := 0, in_state := STOP, in_stream := bs\<rparr> =
      s\<lparr>rxd := x, in_byte_progress := 8, in_state := STOP, in_stream := bs\<rparr>" using assms(4) by (cases s) simp
  moreover have "(replicate (d - 1) 0 @ replicate (d + 1) (of_bool (bit b 0))) @
       concat (map (\<lambda>i. replicate (d + 1) (of_bool (bit b i))) [1 ..< 8]) = frame_bits d b"
    by (simp add: frame_bits_def upt_conv_Cons del: replicate.simps)
  ultimately show ?thesis using in_trace_step [OF send_start [OF assms] x] length_frame_bits [OF assms(5), of b] by auto
qed

lemma send_frame:
  assumes "in_state s = IDLE" and "in_enable s" and "in_stream s = b # bs" and "baud_count_in s = 0" and "1 < d"
  shows "in_trace d (length (frame d b)) s = Some (frame d b, s\<lparr>rxd := 1, in_byte_progress := 8, in_stream := bs\<rparr>)"
proof -
  obtain x where x: "in_trace d (length (frame_bits d b)) s =
      Some (frame_bits d b, s\<lparr>rxd := x, in_byte_progress := 8, in_state := STOP, in_stream := bs\<rparr>)" using send_byte [OF assms] by blast
  let ?u = "s\<lparr>rxd := x, in_byte_progress := 8, in_state := STOP, in_stream := bs\<rparr>"
  have "in_trace d (2 * d) ?u = Some (replicate (2 * d) 1, ?u\<lparr>rxd := 1, in_state := IDLE\<rparr>)"
    using assms(4,5) by (intro send_stop) auto
  from in_trace_step [OF x this] show ?thesis using assms(1) by (cases s) (simp add: frame_split)
qed

section \<open>Properties\<close>

text \<open>
  Sending a byte: from an idle machine with an enabled, non-empty queue, the line carries the start
  bit for \<open>d - 1\<close> cycles, the eight data bits from the lowest on for \<open>d + 1\<close> cycles each and the stop
  level for \<open>2 d\<close> cycles; then the machine is idle again and the byte has left the queue, so
  queued bytes go out one after the other.
\<close>

theorem uart_sends_frame:
  assumes "in_state s = IDLE" and "in_enable s" and "in_stream s = b # bs" and "baud_count_in s = 0" and "1 < d"
  shows "in_trace d (length (frame d b)) s =
    Some (frame d b, s\<lparr>rxd := 1, in_byte_progress := 8, in_stream := bs\<rparr>)"
  by (rule send_frame [OF assms])

theorem uart_sends_frame_witness:
  "in_trace 8 95 ((chipkit_init 1)\<lparr>in_stream := [0x41]\<rparr>) =
     Some (frame 8 0x41, (chipkit_init 1)\<lparr>rxd := 1, in_byte_progress := 8, in_stream := []\<rparr>)"
proof -
  have "length (frame 8 0x41) = 95" by (simp add: frame_def length_concat comp_def sum_list_triv)
  then show ?thesis using uart_sends_frame [of "(chipkit_init 1)\<lparr>in_stream := [0x41]\<rparr>" "0x41" "[]" 8]
    by (simp add: chipkit_init_def)
qed

text \<open>The receiving machine at a divider of three or more.\<close>

definition out_stuck :: "chipkit_intf \<Rightarrow> bool" where
  "out_stuck s \<longleftrightarrow> out_stream s = [] \<and> out_state s \<noteq> STOP \<and> (out_state s = BITS_BAUD \<longrightarrow> baud_count_out s \<le> 1)"

fun out_run :: "nat \<Rightarrow> u8 list \<Rightarrow> chipkit_intf \<Rightarrow> chipkit_intf" where
  "out_run d [] s = s"
| "out_run d (x # xs) s = out_run d xs (tick_out d x s)"

lemma out_stuck_step: "3 \<le> d \<Longrightarrow> out_stuck s \<Longrightarrow> out_stuck (tick_out d x s)"
  by (cases "out_state s") (auto simp: out_stuck_def tick_out_def Let_def)

text \<open>
  The receiver never delivers a byte: with any selectable baud rate (the divider is at least 16), and
  whatever the chip sends, the stream of received bytes stays empty, because the counter of
  the bit period is reset in every cycle and never reaches the divider.
\<close>

theorem uart_never_receives:
  assumes "set_baud k = Some (sel, d)"
  shows "out_stream (out_run d line ((chipkit_init l)\<lparr>out_enable := True\<rparr>)) = []"
proof -
  have "d \<in> (\<lambda>x. x * 4) ` set baud_table" using assms by (auto simp: set_baud_def split: if_splits)
  then have d: "3 \<le> d" by (auto simp: baud_table_def)
  have "out_stuck (out_run d line s)" if "out_stuck s" for s
    using that by (induction line arbitrary: s) (auto intro: out_stuck_step [OF d])
  moreover have "out_stuck ((chipkit_init l)\<lparr>out_enable := True\<rparr>)" by (simp add: out_stuck_def chipkit_init_def)
  ultimately have "out_stuck (out_run d line ((chipkit_init l)\<lparr>out_enable := True\<rparr>))" by blast
  then show ?thesis by (simp add: out_stuck_def)
qed

theorem uart_never_receives_witness:
  "set_baud 14 = Some (14, 16) \<and>
   out_stream (out_run 16 (replicate 500 0) ((chipkit_init 1)\<lparr>out_enable := True\<rparr>)) = []"
proof -
  have "set_baud 14 = Some (14, 16)" by (simp add: set_baud_def baud_table_def)
  then show ?thesis using uart_never_receives by blast
qed

end
