(* ===== verification/ChipKitLoader.thy ===== *)
theory ChipKitLoader
  imports CStrings Uart
begin

text \<open>
  The loader of the ChipKit front end (\<^verbatim>\<open>runtime/src/frontends/chipkit/util.cc\<close>): it turns a memory
  image in the text format of Verilog's \<^verbatim>\<open>$readmemh\<close> (addresses after \<^verbatim>\<open>@\<close>, bytes in hexadecimal)
  into the write commands that are sent over the serial line, one per four bytes. The file is its
  list of characters; \<^verbatim>\<open>getc\<close> stores its result in a \<^verbatim>\<open>char\<close>, so the character \<^verbatim>\<open>0xFF\<close> is taken for the
  end of the file. What C leaves undefined is an error value: a token that does not fit the buffer
  of 256 bytes, and an \<^verbatim>\<open>@\<close> at the end of the file before any token was read.
\<close>

section \<open>The loader\<close>

datatype loader_error = TokenTooLong | BufferUninitialised | AssertionFailed

definition eof_char :: char where "eof_char = CHR 0xFF"

text \<open>\<^verbatim>\<open>fscanf(f, "%s", buf)\<close>: the token and the rest of the file; no token at the end of the file.\<close>

definition scan_token :: "string \<Rightarrow> string \<times> string" where
  "scan_token s = (let t = dropWhile isspace s in (takeWhile (\<lambda>c. \<not> isspace c) t, dropWhile (\<lambda>c. \<not> isspace c) t))"

definition scan_into :: "string option \<Rightarrow> string \<Rightarrow> loader_error + string" where
  "scan_into buf tok = (if 256 \<le> length tok then Inl TokenTooLong
     else if tok = [] then (case buf of None \<Rightarrow> Inl BufferUninitialised | Some b \<Rightarrow> Inr b)
     else Inr tok)"

text \<open>The two versions of \<^verbatim>\<open>push_val\<close>, and a whole write command.\<close>

definition push_val :: "u32 \<Rightarrow> u8 list" where
  "push_val v = map (\<lambda>i. ucast (drop_bit (8 * i) v)) [0..<4]"

definition write_command :: "u32 \<Rightarrow> u8 list \<Rightarrow> u8 list" where
  "write_command addr inst_buf = [0x77] @ push_val addr @ inst_buf @ [0x0A]"

lemma scan_rest_le: "(tok, rest) = scan_token s \<Longrightarrow> length rest \<le> length s"
  unfolding scan_token_def Let_def prod.inject
  by (simp add: order_trans [OF length_dropWhile_le length_dropWhile_le])

lemma scan_rest_less: "(tok, rest) = scan_token (c # s) \<Longrightarrow> \<not> isspace c \<Longrightarrow> length rest \<le> length s"
  by (simp add: scan_token_def length_dropWhile_le)

lemma dropWhile_hd: "dropWhile P xs = y # ys \<Longrightarrow> \<not> P y \<and> length ys < length xs"
proof (induction xs)
  case (Cons x xs)
  then show ?case by (cases "P x") auto
qed simp

lemma after_space:
  assumes "(if isspace c0 then dropWhile isspace rest else c0 # rest) = c # rest1"
  shows "length rest1 \<le> length rest \<and> \<not> isspace c"
  using assms dropWhile_hd [of isspace rest c rest1] by (auto split: if_splits)

text \<open>
  The loop. \<open>inst\<close> is the part of \<^verbatim>\<open>inst_buf\<close> filled so far, \<open>buf\<close> the last token. The character read
  first is dropped if it is white space, together with the white space after it; a character other
  than \<^verbatim>\<open>@\<close> is put back, so that the token scanned next begins with it.
\<close>

function read_mem :: "string \<Rightarrow> string option \<Rightarrow> u32 \<Rightarrow> u8 list \<Rightarrow> loader_error + u8 list" where
  "read_mem inp buf addr inst =
     (let fin = (if inst = [] then Inr [] else Inl AssertionFailed) in
      case inp of
        [] \<Rightarrow> fin
      | c0 # rest \<Rightarrow>
          if c0 = eof_char then fin
          else (case (if isspace c0 then dropWhile isspace rest else c0 # rest) of
              [] \<Rightarrow> fin
            | c # rest1 \<Rightarrow>
                if c = eof_char then fin
                else if c = CHR ''@'' then
                  (let (tok, rest2) = scan_token rest1 in
                   andThen (scan_into buf tok) (\<lambda>b. read_mem rest2 (Some b) (of_int (strtol 16 b)) inst))
                else
                  (let (tok, rest2) = scan_token (c # rest1) in
                   andThen (scan_into buf tok) (\<lambda>b.
                   let inst' = inst @ [of_int (strtol 16 b)] in
                   if length inst' = 4
                   then andThen (read_mem rest2 (Some b) (addr + 4) []) (\<lambda>out. Inr (write_command addr inst' @ out))
                   else read_mem rest2 (Some b) addr inst'))))"
  by pat_completeness auto

termination
proof (relation "measure (\<lambda>(inp, buf, addr, inst). length inp)", goal_cases)
  case (2 inp buf addr inst fin c0 rest c rest1 p tok rest2 b)
  then show ?case using after_space [OF 2(4)] scan_rest_le [of tok rest2 rest1] by simp
next
  case (3 inp buf addr inst fin c0 rest c rest1 p tok rest2 b inst')
  then show ?case using after_space [OF 3(4)] scan_rest_less [of tok rest2 c rest1] by simp
next
  case (4 inp buf addr inst fin c0 rest c rest1 p tok rest2 b inst')
  then show ?case using after_space [OF 4(4)] scan_rest_less [of tok rest2 c rest1] by simp
qed simp

declare read_mem.simps [simp del]

definition readMemFile2ChipkitDMA :: "string \<Rightarrow> loader_error + u8 list" where
  "readMemFile2ChipkitDMA file = read_mem file None 0 []"

section \<open>Images\<close>

text \<open>
  What an image says: addresses and bytes, each written in hexadecimal (bytes with two digits) and
  separated by any white space. The loader should send the write commands of \<open>image_commands\<close>.
\<close>

datatype image_item = ImgAddr u32 | ImgByte u8

definition item_text :: "image_item \<Rightarrow> string" where
  "item_text x = (case x of
      ImgAddr a \<Rightarrow> CHR ''@'' # map digit_char (to_digits 16 (unat a))
    | ImgByte b \<Rightarrow> map digit_char [unat b div 16, unat b mod 16])"

fun image_text :: "(image_item \<times> string) list \<Rightarrow> string" where
  "image_text [] = []"
| "image_text ((x, w) # xs) = item_text x @ w @ image_text xs"

definition separators :: "(image_item \<times> string) list \<Rightarrow> bool" where
  "separators xs = list_all (\<lambda>(x, w). w \<noteq> [] \<and> list_all isspace w) xs"

fun image_commands :: "image_item list \<Rightarrow> u32 \<Rightarrow> u8 list \<Rightarrow> loader_error + u8 list" where
  "image_commands [] addr inst = (if inst = [] then Inr [] else Inl AssertionFailed)"
| "image_commands (ImgAddr a # xs) addr inst = image_commands xs a inst"
| "image_commands (ImgByte b # xs) addr inst =
     (if length inst = 3
      then andThen (image_commands xs (addr + 4) []) (\<lambda>out. Inr (write_command addr (inst @ [b]) @ out))
      else image_commands xs addr (inst @ [b]))"

lemma digit_char_plain: "d < 16 \<Longrightarrow> digit_char d \<noteq> eof_char \<and> digit_char d \<noteq> CHR ''@'' \<and> \<not> isspace (digit_char d)"
proof -
  assume d: "d < 16"
  have "(of_char (digit_char d) :: nat) \<noteq> 255" "(of_char (digit_char d) :: nat) \<noteq> 64" using d by (auto simp: of_char_digit)
  then show ?thesis using digit_char_not(1) [OF d] by (auto simp: eof_char_def)
qed

lemma scan_token_word:
  assumes "\<forall>c \<in> set t. \<not> isspace c" "t \<noteq> []" "rest = [] \<or> isspace (hd rest)"
  shows "scan_token (t @ rest) = (t, rest)"
proof -
  have "dropWhile isspace (t @ rest) = t @ rest" using assms(1,2) by (cases t) auto
  moreover have "takeWhile (\<lambda>c. \<not> isspace c) (t @ rest) = t" "dropWhile (\<lambda>c. \<not> isspace c) (t @ rest) = rest"
    using assms(1,3) by (cases rest; simp add: takeWhile_append dropWhile_append)+
  ultimately show ?thesis by (simp add: scan_token_def)
qed

lemma skip_space:
  assumes "list_all isspace w" "\<not> isspace c"
  shows "read_mem (w @ c # t) buf addr inst = read_mem (c # t) buf addr inst"
proof (cases w)
  case (Cons c0 w')
  have drop: "dropWhile isspace (w' @ c # t) = c # t" using assms Cons by (simp add: list_all_iff dropWhile_append)
  have "c0 \<noteq> eof_char" "isspace c0" using assms Cons by (auto simp: eof_char_def isspace_def)
  then show ?thesis using drop assms(2) Cons
    by (subst (1 2) read_mem.simps) (simp add: Let_def)
qed simp

lemma read_addr:
  assumes "wx \<noteq> []" "list_all isspace wx"
  shows "read_mem (item_text (ImgAddr a) @ wx @ t) buf addr inst =
    read_mem (wx @ t) (Some (map digit_char (to_digits 16 (unat a)))) a inst"
proof -
  let ?ds = "to_digits 16 (unat a)"
  have ds: "\<forall>d \<in> set ?ds. d < 16" using to_digits_less [of 16] by simp
  have a: "unat a < 2 ^ 32" using unsigned_less [of a, where ?'a = nat] by simp
  then have len: "length ?ds \<le> 8" using length_to_digits [of 16 "unat a" 7] by simp
  have tok: "scan_token (map digit_char ?ds @ wx @ t) = (map digit_char ?ds, wx @ t)"
    using assms ds digit_char_plain by (intro scan_token_word) (cases wx; auto)+
  have val: "strtol 16 (map digit_char ?ds) = int (unat a)"
    using strtol_digits [of ?ds 16 "[]"] ds a by (simp add: of_to_digits)
  show ?thesis
    using tok len val by (subst read_mem.simps) (simp add: item_text_def Let_def eof_char_def isspace_def scan_into_def)
qed

lemma read_byte:
  assumes "wx \<noteq> []" "list_all isspace wx"
  shows "read_mem (item_text (ImgByte b) @ wx @ t) buf addr inst =
    (let buf' = Some (item_text (ImgByte b)) in
     if length inst = 3
     then andThen (read_mem (wx @ t) buf' (addr + 4) []) (\<lambda>out. Inr (write_command addr (inst @ [b]) @ out))
     else read_mem (wx @ t) buf' addr (inst @ [b]))"
proof -
  let ?ds = "[unat b div 16, unat b mod 16]"
  have b: "unat b < 256" using unsigned_less [of b, where ?'a = nat] by simp
  then have ds: "\<forall>d \<in> set ?ds. d < 16" by auto
  have tok: "scan_token (map digit_char ?ds @ wx @ t) = (map digit_char ?ds, wx @ t)"
    using assms ds digit_char_plain by (intro scan_token_word) (cases wx; auto)+
  have od: "of_digits 16 ?ds = unat b" by (simp add: of_digits_def)
  have "strtol 16 (map digit_char ?ds @ []) = int (of_digits 16 ?ds)"
    using b by (intro strtol_digits [OF ds]) (simp_all add: od)
  then have val: "strtol 16 (map digit_char ?ds) = int (unat b)" unfolding od append_Nil2 .
  have c: "digit_char (unat b div 16) \<noteq> eof_char \<and> digit_char (unat b div 16) \<noteq> CHR ''@'' \<and> \<not> isspace (digit_char (unat b div 16))"
    using ds by (intro digit_char_plain) simp
  show ?thesis
    using tok val c by (subst read_mem.simps) (simp add: item_text_def Let_def scan_into_def)
qed

lemma read_spaces:
  assumes "list_all isspace w"
  shows "read_mem w buf addr inst = (if inst = [] then Inr [] else Inl AssertionFailed)"
proof (cases w)
  case (Cons c0 w')
  have drop: "dropWhile isspace w' = []" using assms Cons by (simp add: list_all_iff dropWhile_eq_Nil_conv)
  show ?thesis using assms Cons by (subst read_mem.simps) (simp add: Let_def drop)
qed (simp add: read_mem.simps)

lemma item_text_hd: "\<exists>c t. item_text x = c # t \<and> \<not> isspace c"
proof (cases x)
  case (ImgByte b)
  have "unat b div 16 < 16" using unsigned_less [of b, where ?'a = nat] by auto
  then show ?thesis using ImgByte digit_char_plain by (simp add: item_text_def)
qed (simp add: item_text_def isspace_def)

lemma read_image:
  assumes "separators xs" "list_all isspace w"
  shows "read_mem (w @ image_text xs) buf addr inst = image_commands (map fst xs) addr inst"
  using assms
proof (induction xs arbitrary: w buf addr inst)
  case Nil
  then show ?case by (simp add: read_spaces)
next
  case (Cons e xs)
  obtain x wx where e: "e = (x, wx)" by (cases e)
  have wx: "wx \<noteq> []" "list_all isspace wx" "separators xs" using Cons.prems(1) by (simp_all add: separators_def e)
  have "read_mem (w @ image_text (e # xs)) buf addr inst = read_mem (item_text x @ wx @ image_text xs) buf addr inst"
    using skip_space [OF Cons.prems(2)] item_text_hd [of x] by (auto simp: e)
  also have "\<dots> = image_commands (map fst (e # xs)) addr inst"
    by (cases x) (simp_all add: e read_addr [OF wx(1,2)] read_byte [OF wx(1,2)] Cons.IH [OF wx(3,2)] Let_def)
  finally show ?case .
qed

section \<open>Properties\<close>

text \<open>C33. For every image, whatever white space separates its items and stands before them, the
  loader sends exactly the write commands the image says: each group of four bytes with the address
  it belongs to, addresses advancing by four and set anew by \<^verbatim>\<open>@\<close>, and the assertion at the end fails
  exactly when bytes are left over.\<close>

theorem loader_sends_image:
  assumes "separators xs" "list_all isspace w"
  shows "readMemFile2ChipkitDMA (w @ image_text xs) = image_commands (map fst xs) 0 []"
  unfolding readMemFile2ChipkitDMA_def by (rule read_image [OF assms])

definition sample_image :: "(image_item \<times> string) list" where
  "sample_image = [(ImgAddr 0x1FC, [CHR 0x0A]), (ImgByte 1, '' ''), (ImgByte 2, ''  ''), (ImgByte 0xA, '' ''), (ImgByte 0xFF, [CHR 0x0A])]"

theorem loader_sends_image_witness:
  "readMemFile2ChipkitDMA ('' '' @ image_text sample_image) = Inr [0x77, 0xFC, 1, 0, 0, 1, 2, 0xA, 0xFF, 0x0A]"
proof -
  have "separators sample_image" "list_all isspace '' ''"
    by (simp_all add: separators_def sample_image_def isspace_def)
  from loader_sends_image [OF this] show ?thesis
    by (simp add: sample_image_def write_command_def push_val_def upt_rec)
qed

end
