(* ===== verification/ChipBoot.thy ===== *)
theory ChipBoot
  imports Uart ChipKitLoader
begin

text \<open>
  How the ChipKit simulation boots its chip (\<^verbatim>\<open>run_verilator\<close> in
  \<^verbatim>\<open>runtime/src/frontends/chipkit/verilator_chipkit_frontend.cc\<close>): reset, a steady phase, the memory image
  and the program through the loader and the UART front end, another steady phase and a second reset. The
  generated design is represented by what it is clocked with (the pins in each clock period) and by the
  level it drives on its transmit line, an argument.
\<close>

section \<open>The boot sequence\<close>

record boot_state =
  front :: chipkit_intf
  aspsel :: u8
  reset_pin :: bool
  seen :: "(u8 \<times> bool \<times> u8) list"

datatype boot_error = LoaderStops loader_error | LoadEndless

text \<open>One period of the clock, and \<open>n\<close> of them with the pins unchanged.\<close>

definition clock_cycle :: "boot_state \<Rightarrow> boot_state" where
  "clock_cycle s = s\<lparr>seen := seen s @ [(aspsel s, reset_pin s, rxd (front s))]\<rparr>"

definition clock_cycles :: "nat \<Rightarrow> boot_state \<Rightarrow> boot_state" where
  "clock_cycles n s = (clock_cycle ^^ n) s"

text \<open>
  The loop that lets the front end send: a clock period, then a tick of the front end. \<^term>\<open>None\<close>: it
  does not end, or the front end reads an empty queue.
\<close>

partial_function (option) load_loop :: "nat \<Rightarrow> (nat \<Rightarrow> u8) \<Rightarrow> boot_state \<Rightarrow> boot_state option" where
  "load_loop d txd s =
     (if in_stream (front s) = [] \<and> rxd (front s) \<noteq> 0 then Some s
      else Option.bind (uart_tick d (txd (length (seen s))) (front s)) (\<lambda>f. load_loop d txd ((clock_cycle s)\<lparr>front := f\<rparr>)))"

definition load_file :: "nat \<Rightarrow> (nat \<Rightarrow> u8) \<Rightarrow> u8 \<Rightarrow> string \<Rightarrow> boot_state \<Rightarrow> boot_error + boot_state" where
  "load_file d txd sel file s =
     (case readMemFile2ChipkitDMA file of
        Inl e \<Rightarrow> Inl (LoaderStops e)
      | Inr bytes \<Rightarrow>
          (case load_loop d txd (s\<lparr>front := (front s)\<lparr>in_stream := in_stream (front s) @ bytes\<rparr>, aspsel := sel\<rparr>) of
             None \<Rightarrow> Inl LoadEndless
           | Some s' \<Rightarrow> Inr s'))"

definition run_boot :: "nat \<Rightarrow> (nat \<Rightarrow> u8) \<Rightarrow> string option \<Rightarrow> string \<Rightarrow> boot_state \<Rightarrow> boot_error + boot_state" where
  "run_boot d txd dma_file trace_file s =
     (let s1 = clock_cycles 1000 ((clock_cycles 50 (s\<lparr>reset_pin := True\<rparr>))\<lparr>reset_pin := False\<rparr>)
      in andThen (case dma_file of None \<Rightarrow> Inr s1 | Some file \<Rightarrow> load_file d txd 0 file s1) (\<lambda>s2.
         andThen (load_file d txd 1 trace_file s2) (\<lambda>s3.
           let s4 = clock_cycles 6 ((clock_cycles 1000 s3)\<lparr>reset_pin := True\<rparr>)
           in Inr (s4\<lparr>reset_pin := False\<rparr>))))"

section \<open>Sending a whole queue\<close>

lemma clock_cycles_eq: "clock_cycles n s = s\<lparr>seen := seen s @ replicate n (aspsel s, reset_pin s, rxd (front s))\<rparr>"
proof (induction n)
  case (Suc n)
  have "clock_cycles (Suc n) s = clock_cycle (clock_cycles n s)" by (simp add: clock_cycles_def)
  then show ?case unfolding Suc by (simp add: clock_cycle_def replicate_append_same [symmetric])
qed (simp add: clock_cycles_def)

text \<open>The receiver of the chip's front end is never enabled: its tick is the tick of the sender.\<close>

definition sends_only :: "chipkit_intf \<Rightarrow> bool" where
  "sends_only f \<longleftrightarrow> \<not> out_enable f \<and> out_state f = IDLE"

lemma tick_in_out: "tick_in d f = Some f' \<Longrightarrow> out_enable f' = out_enable f \<and> out_state f' = out_state f"
  by (cases "in_state f"; cases "in_stream f") (auto simp: tick_in_def Let_def split: if_splits)

lemma sends_only_kept: "sends_only f \<Longrightarrow> tick_in d f = Some f' \<Longrightarrow> sends_only f'"
  using tick_in_out by (simp add: sends_only_def)

lemma sends_only_tick: "sends_only f \<Longrightarrow> uart_tick d x f = tick_in d f"
proof (cases "tick_in d f")
  case (Some f')
  moreover assume "sends_only f"
  ultimately have "sends_only f'" using sends_only_kept by blast
  then show ?thesis using Some by (simp add: uart_tick_def tick_out_def sends_only_def)
qed (simp add: uart_tick_def)

text \<open>What the loop does over a stretch in which it does not end: the pins show the line before each tick.\<close>

definition busy :: "chipkit_intf \<Rightarrow> bool" where
  "busy f \<longleftrightarrow> in_stream f \<noteq> [] \<or> rxd f = 0"

fun busy_trace :: "nat \<Rightarrow> nat \<Rightarrow> chipkit_intf \<Rightarrow> bool" where
  "busy_trace d 0 f = True"
| "busy_trace d (Suc n) f = (busy f \<and> (case tick_in d f of None \<Rightarrow> False | Some f' \<Rightarrow> busy_trace d n f'))"

lemma load_loop_stretch:
  assumes "busy_trace d n (front s)" "in_trace d n (front s) = Some (xs, f)" "sends_only (front s)"
  shows "load_loop d txd s = load_loop d txd
      (s\<lparr>front := f, seen := seen s @ map (\<lambda>x. (aspsel s, reset_pin s, x)) (butlast (rxd (front s) # xs))\<rparr>) \<and> sends_only f"
  using assms
proof (induction n arbitrary: s xs)
  case 0
  then show ?case by (cases s) simp
next
  case (Suc n)
  obtain f1 where f1: "tick_in d (front s) = Some f1" "busy_trace d n f1" "busy (front s)"
    using Suc.prems(1) by (auto split: option.splits)
  obtain ys where ys: "xs = rxd f1 # ys" "in_trace d n f1 = Some (ys, f)" using Suc.prems(2) f1(1) by auto
  let ?s = "(clock_cycle s)\<lparr>front := f1\<rparr>"
  have "load_loop d txd s = load_loop d txd ?s"
    using f1(1,3) sends_only_tick [OF Suc.prems(3)] by (subst load_loop.simps) (auto simp: busy_def)
  then show ?case using Suc.IH [of ?s ys] f1 ys sends_only_kept [OF Suc.prems(3) f1(1)] by (simp add: clock_cycle_def)
qed

lemma busy_trace_step:
  "busy_trace d m f \<Longrightarrow> in_trace d m f = Some (xs, g) \<Longrightarrow> busy_trace d n g \<Longrightarrow> busy_trace d (m + n) f"
proof (induction m arbitrary: f xs)
  case (Suc m)
  then show ?case by (auto split: option.splits)
qed simp

lemma in_trace_Suc:
  "in_trace d (Suc n) f = Some (xs, g) \<Longrightarrow> \<exists>f1 ys. tick_in d f = Some f1 \<and> xs = rxd f1 # ys \<and> in_trace d n f1 = Some (ys, g)"
  by (auto simp: Option.bind_eq_Some_conv)

lemma in_trace_last: "in_trace d n f = Some (xs, g) \<Longrightarrow> last (rxd f # xs) = rxd g"
proof (induction n arbitrary: f xs)
  case (Suc n)
  then obtain f1 ys where "tick_in d f = Some f1" "xs = rxd f1 # ys" "in_trace d n f1 = Some (ys, g)" using in_trace_Suc by blast
  then show ?case using Suc.IH by simp
qed simp

lemma tick_in_stream: "tick_in d f = Some g \<Longrightarrow> in_stream g \<noteq> [] \<Longrightarrow> in_stream f \<noteq> []"
  by (cases "in_state f"; cases "in_stream f") (auto simp: tick_in_def Let_def split: if_splits)

lemma tick_in_pops: "tick_in d f = Some g \<Longrightarrow> in_state g = STOP \<Longrightarrow> baud_count_in g = 0 \<Longrightarrow> in_stream f \<noteq> []"
  by (cases "in_state f"; cases "in_stream f") (auto simp: tick_in_def Let_def split: if_splits)

text \<open>The loop goes on while bytes are queued, and up to the moment the last one is taken from the queue.\<close>

lemma busy_while_queued: "in_trace d n f = Some (xs, g) \<Longrightarrow> in_stream g \<noteq> [] \<Longrightarrow> busy_trace d n f \<and> in_stream f \<noteq> []"
proof (induction n arbitrary: f xs)
  case (Suc n)
  then obtain f1 ys where "tick_in d f = Some f1" "in_trace d n f1 = Some (ys, g)" using in_trace_Suc by blast
  then show ?case using Suc tick_in_stream by (fastforce simp: busy_def)
qed simp

lemma busy_until_stop:
  "in_trace d n f = Some (xs, g) \<Longrightarrow> in_state g = STOP \<Longrightarrow> baud_count_in g = 0 \<Longrightarrow> busy_trace d n f \<and> (0 < n \<longrightarrow> in_stream f \<noteq> [])"
proof (induction n arbitrary: f xs)
  case (Suc n)
  then obtain f1 ys where f1: "tick_in d f = Some f1" "in_trace d n f1 = Some (ys, g)" using in_trace_Suc by blast
  have "in_stream f \<noteq> []"
  proof (cases n)
    case 0
    then show ?thesis using f1 Suc.prems(2,3) tick_in_pops by auto
  next
    case (Suc m)
    then show ?thesis using Suc.IH [OF f1(2) Suc.prems(2,3)] tick_in_stream [OF f1(1)] by simp
  qed
  then show ?case using Suc.IH [OF f1(2) Suc.prems(2,3)] f1(1) by (simp add: busy_def)
qed simp

text \<open>A front end between two loads: idle, or \<open>r\<close> cycles from the end of the stop level; the line is high.\<close>

definition parked :: "nat \<Rightarrow> nat \<Rightarrow> chipkit_intf \<Rightarrow> bool" where
  "parked d r f \<longleftrightarrow> rxd f = 1 \<and> in_enable f \<and> sends_only f \<and>
     (in_state f = IDLE \<and> baud_count_in f = 0 \<and> r = 0 \<or> in_state f = STOP \<and> baud_count_in f \<le> 1 \<and> r = 2 * d - baud_count_in f)"

lemma parked_idle:
  assumes "parked d r f" "1 < d"
  shows "in_trace d r f = Some (replicate r 1, f\<lparr>in_state := IDLE, baud_count_in := 0\<rparr>)"
proof (cases "in_state f = IDLE")
  case True
  then show ?thesis using assms(1) by (cases f) (auto simp: parked_def)
next
  case False
  then have f: "in_state f = STOP" "baud_count_in f \<le> 1" "r = 2 * d - baud_count_in f" "rxd f = 1" using assms(1) by (auto simp: parked_def)
  let ?f = "f\<lparr>baud_count_in := 0\<rparr>"
  have stop: "in_trace d (2 * d) ?f = Some (replicate (2 * d) 1, ?f\<lparr>rxd := 1, in_state := IDLE\<rparr>)"
    using f(1) assms(2) by (intro send_stop) auto
  show ?thesis
  proof (cases "baud_count_in f = 0")
    case True
    then have "?f = f" by (cases f) simp
    then show ?thesis using stop f True by (cases f) auto
  next
    case False
    then have one: "baud_count_in f = 1" using f(2) by simp
    obtain m where m: "2 * d = Suc m" using assms(2) by (cases "2 * d") auto
    have "tick_in d ?f = Some f" using f one assms(2) by (cases f) (simp add: tick_in_def)
    then show ?thesis using stop f one unfolding m by (cases f) (auto split: option.splits)
  qed
qed

lemma last_frame_bits: "last (frame_bits d b) = of_bool (bit b 7)"
proof -
  have "[0..<8] = [0..<7] @ [7::nat]" by (simp add: upt_rec)
  then show ?thesis by (simp add: frame_bits_def)
qed

text \<open>The end of the loop, with the last byte: at the first high level after the queue is empty.\<close>

lemma send_last:
  assumes "1 < d" "parked d r f" "in_stream f = [b]"
  shows "\<exists>n xs g r'. in_trace d n f = Some (xs, g) \<and> busy_trace d n f \<and> parked d r' g \<and> in_stream g = [] \<and>
    xs @ replicate r' 1 = replicate r 1 @ frame d b"
proof -
  let ?i = "f\<lparr>in_state := IDLE, baud_count_in := 0\<rparr>" and ?n = "length (frame_bits d b)"
  have e: "in_enable f" "sends_only f" using assms(2) by (simp_all add: parked_def)
  obtain x where "in_trace d ?n ?i = Some (frame_bits d b, ?i\<lparr>rxd := x, in_byte_progress := 8, in_state := STOP, in_stream := []\<rparr>)"
    using send_byte [of ?i b "[]" d] assms e by auto
  from in_trace_step [OF parked_idle [OF assms(2,1)] this]
  obtain g where t: "in_trace d (r + ?n) f = Some (replicate r 1 @ frame_bits d b, g)" and g: "g = ?i\<lparr>rxd := x, in_byte_progress := 8, in_state := STOP, in_stream := []\<rparr>"
    by blast
  have busy: "busy_trace d (r + ?n) f" using busy_until_stop [OF t] g by simp
  have ne: "frame_bits d b \<noteq> []" using length_frame_bits [OF assms(1), of b] assms(1) by (metis add_is_0 length_0_conv mult_eq_0_iff not_one_less_zero zero_neq_numeral)
  have x: "x = of_bool (bit b 7)" using in_trace_last [OF t] ne by (simp add: last_frame_bits g)
  show ?thesis
  proof (cases "bit b 7")
    case True
    then have "parked d (2 * d) g" using x e by (simp add: parked_def g sends_only_def)
    then show ?thesis using t busy by (intro exI [of _ "r + ?n"] exI [of _ "2 * d"] exI) (auto simp: g frame_split)
  next
    case False
    let ?g = "g\<lparr>rxd := 1, baud_count_in := 1\<rparr>"
    have one: "in_trace d 1 g = Some ([1], ?g)" using assms(1) by (simp add: g tick_in_def)
    have "busy_trace d (r + ?n + 1) f"
      using busy_trace_step [OF busy t, of 1] one False x by (simp add: g busy_def tick_in_def)
    moreover have "parked d (2 * d - 1) ?g" using e by (simp add: parked_def g sends_only_def)
    moreover have "(replicate r 1 @ frame_bits d b @ [1]) @ replicate (2 * d - 1) 1 = replicate r 1 @ frame d b"
      using assms(1) by (simp add: frame_split flip: replicate_Suc)
    ultimately show ?thesis using in_trace_step [OF t one]
      by (intro exI [of _ "r + ?n + 1"] exI [of _ "replicate r 1 @ frame_bits d b @ [1]"] exI [of _ ?g] exI [of _ "2 * d - 1"]) (simp add: g)
  qed
qed

lemma send_next:
  assumes "1 < d" "parked d r f" "in_stream f = b # bs" "bs \<noteq> []"
  shows "\<exists>n g. in_trace d n f = Some (replicate r 1 @ frame d b, g) \<and> busy_trace d n f \<and> parked d 0 g \<and> in_stream g = bs"
proof -
  let ?i = "f\<lparr>in_state := IDLE, baud_count_in := 0\<rparr>"
  have e: "in_enable f" "sends_only f" using assms(2) by (simp_all add: parked_def)
  have "in_trace d (length (frame d b)) ?i = Some (frame d b, ?i\<lparr>rxd := 1, in_byte_progress := 8, in_stream := bs\<rparr>)"
    using send_frame [of ?i b bs d] assms e by simp
  from in_trace_step [OF parked_idle [OF assms(2,1)] this] busy_while_queued [OF in_trace_step [OF parked_idle [OF assms(2,1)] this]]
  show ?thesis using assms(4) e by (intro exI [of _ "r + length (frame d b)"] exI) (auto simp: parked_def sends_only_def)
qed

lemma butlast_high: "last (x # xs) = 1 \<Longrightarrow> butlast (x # xs) @ [1] = x # xs"
  by (metis append_butlast_last_id list.distinct(1))

lemma load_loop_sends:
  assumes "1 < d" "parked d r (front s)"
  shows "\<exists>f l r'. load_loop d txd s = Some (s\<lparr>front := f, seen := seen s @ map (\<lambda>x. (aspsel s, reset_pin s, x)) l\<rparr>) \<and> parked d r' f \<and>
    in_stream f = [] \<and> l @ [1] @ replicate r' 1 = 1 # replicate r 1 @ concat (map (frame d) (in_stream (front s)))"
  using assms(2)
proof (induction "in_stream (front s)" arbitrary: s r)
  case Nil
  then have "load_loop d txd s = Some s" by (subst load_loop.simps) (simp add: parked_def)
  then show ?case using Nil by (intro exI [of _ "front s"] exI [of _ "[]"] exI [of _ r]) auto
next
  case (Cons b bs)
  have line: "rxd (front s) = 1" "sends_only (front s)" using Cons.prems by (simp_all add: parked_def)
  let ?log = "\<lambda>l. map (\<lambda>x. (aspsel s, reset_pin s, x)) l"
  show ?case
  proof (cases "bs = []")
    case True
    obtain n xs g r' where g: "in_trace d n (front s) = Some (xs, g)" "busy_trace d n (front s)" "parked d r' g" "in_stream g = []"
      "xs @ replicate r' 1 = replicate r 1 @ frame d b"
      using send_last [OF assms(1) Cons.prems, of b] Cons.hyps(2) [symmetric] True by auto
    let ?l = "butlast (1 # xs)"
    have "load_loop d txd s = load_loop d txd (s\<lparr>front := g, seen := seen s @ ?log ?l\<rparr>)"
      using load_loop_stretch [OF g(2,1) line(2)] line(1) by simp
    also have "\<dots> = Some (s\<lparr>front := g, seen := seen s @ ?log ?l\<rparr>)"
      using g(3,4) by (subst load_loop.simps) (simp add: parked_def)
    finally have "load_loop d txd s = Some (s\<lparr>front := g, seen := seen s @ ?log ?l\<rparr>)" .
    moreover have "?l @ [1] = 1 # xs" using in_trace_last [OF g(1)] line(1) g(3) by (intro butlast_high) (simp add: parked_def)
    then have "?l @ [1] @ replicate r' 1 = 1 # replicate r 1 @ concat (map (frame d) (in_stream (front s)))"
      using g(5) Cons.hyps(2) True by (metis append.assoc append_Cons append_Nil2 concat.simps list.map)
    ultimately show ?thesis using g(3,4) by blast
  next
    case False
    obtain n g where g: "in_trace d n (front s) = Some (replicate r 1 @ frame d b, g)" "busy_trace d n (front s)" "parked d 0 g" "in_stream g = bs"
      using send_next [OF assms(1) Cons.prems _ False] Cons.hyps(2) by metis
    let ?k = "butlast (1 # replicate r 1 @ frame d b)"
    let ?s = "s\<lparr>front := g, seen := seen s @ ?log ?k\<rparr>"
    have one: "load_loop d txd s = load_loop d txd ?s" using load_loop_stretch [OF g(2,1) line(2)] line(1) by simp
    obtain f l r' where l: "load_loop d txd ?s = Some (?s\<lparr>front := f, seen := seen ?s @ map (\<lambda>x. (aspsel ?s, reset_pin ?s, x)) l\<rparr>)"
      "parked d r' f" "in_stream f = []" "l @ [1] @ replicate r' 1 = 1 # concat (map (frame d) bs)"
      using Cons.hyps(1) [of ?s 0] g(3,4) by auto
    have k: "?k @ [1] = 1 # replicate r 1 @ frame d b" using in_trace_last [OF g(1)] line(1) g(3) by (intro butlast_high) (simp add: parked_def)
    have "(?k @ l) @ [1] @ replicate r' 1 = ?k @ 1 # concat (map (frame d) bs)" using l(4) by (simp only: append.assoc)
    also have "\<dots> = (?k @ [1]) @ concat (map (frame d) bs)" by simp
    also have "\<dots> = 1 # replicate r 1 @ concat (map (frame d) (in_stream (front s)))" unfolding k Cons.hyps(2) [symmetric] by simp
    finally have "(?k @ l) @ [1] @ replicate r' 1 = 1 # replicate r 1 @ concat (map (frame d) (in_stream (front s)))" .
    then show ?thesis using one l by (intro exI [of _ f] exI [of _ "?k @ l"] exI [of _ r']) simp
  qed
qed

section \<open>Properties\<close>



end
