(* ===== verification/MemChannel.thy ===== *)
theory MemChannel
  imports Prelude
begin

text \<open>
  The signals of a simulated AXI memory port (\<^verbatim>\<open>runtime/include/core/data_wrapper.h\<close>,
  \<^verbatim>\<open>address_channel.h\<close>, \<^verbatim>\<open>data_channel.h\<close>, \<^verbatim>\<open>response_channel.h\<close>): typed windows onto the variables
  of the generated simulation and the channels built from them, in the Verilator build. A signal
  of type \<^verbatim>\<open>byte_t\<close> is its byte; the other signals are wrappers that know how many bytes their
  variable has, since reading them depends on it.
\<close>

section \<open>Wrappers\<close>

text \<open>\<open>wr_len\<close> is \<^verbatim>\<open>sizeof(T)\<close> (1, 2, 4 or 8), \<open>wr_ptr\<close> the variable pointed to.\<close>

record get_set_wrapper =
  wr_len :: nat
  wr_ptr :: u64

definition wrapper_get_idx :: "get_set_wrapper \<Rightarrow> nat \<Rightarrow> u64" where
  "wrapper_get_idx v idx =
     (if wr_len v \<le> 4 then wr_ptr v
      else if idx = 0 then wr_ptr v AND 0xFFFFFFFF
      else drop_bit 32 (wr_ptr v))"

definition wrapper_get :: "get_set_wrapper \<Rightarrow> u64" where
  "wrapper_get v = wrapper_get_idx v 0"

text \<open>Both branches of the code copy \<open>wr_len\<close> bytes, because the test is on \<^verbatim>\<open>sizeof(uint8_t)\<close>.\<close>

definition wrapper_set :: "u64 \<Rightarrow> get_set_wrapper \<Rightarrow> get_set_wrapper" where
  "wrapper_set value v = v\<lparr>wr_ptr := take_bit (8 * wr_len v) value\<rparr>"

definition wrapper_ok :: "get_set_wrapper \<Rightarrow> bool" where
  "wrapper_ok v \<longleftrightarrow> wr_len v \<in> {1, 2, 4, 8} \<and> take_bit (8 * wr_len v) (wr_ptr v) = wr_ptr v"

text \<open>The data bus: the bytes of the variable. A 32-bit word is stored in little-endian order.\<close>

definition word_bytes :: "u32 \<Rightarrow> u8 list" where
  "word_bytes x = map (\<lambda>k. ucast (drop_bit (8 * k) x)) [0..<4]"

definition data_set_word :: "u32 \<Rightarrow> nat \<Rightarrow> u8 list \<Rightarrow> u8 list" where
  "data_set_word payload idx bs = take (4 * idx) bs @ word_bytes payload @ drop (4 * idx + 4) bs"

section \<open>Channels\<close>

record address_channel =
  ready_field :: u8
  valid_field :: u8
  id_field :: get_set_wrapper
  size_field :: get_set_wrapper
  burst_field :: get_set_wrapper
  addr_field :: get_set_wrapper
  len_field :: get_set_wrapper

record data_channel =
  d_ready :: u8
  d_valid :: u8
  d_data :: "u8 list"
  d_strb :: get_set_wrapper
  d_id :: get_set_wrapper
  d_last :: u8

record response_channel =
  b_ready_field :: u8
  b_valid_field :: u8
  b_id_field :: get_set_wrapper
  send_ids :: "u32 list"
  to_enqueue :: "u32 list"

definition bool_byte :: "bool \<Rightarrow> u8" where
  "bool_byte v = (if v then 1 else 0)"

definition getAddr :: "address_channel \<Rightarrow> u64" where
  "getAddr c = wrapper_get_idx (addr_field c) 0"

definition addr_fire :: "address_channel \<Rightarrow> bool" where
  "addr_fire c \<longleftrightarrow> ready_field c \<noteq> 0 \<and> valid_field c \<noteq> 0"

definition setReady :: "bool \<Rightarrow> address_channel \<Rightarrow> address_channel" where
  "setReady v c = c\<lparr>ready_field := bool_byte v\<rparr>"

definition data_fire :: "data_channel \<Rightarrow> bool" where
  "data_fire c \<longleftrightarrow> d_ready c \<noteq> 0 \<and> d_valid c \<noteq> 0"

definition getStrb :: "data_channel \<Rightarrow> nat \<Rightarrow> bool" where
  "getStrb c i =
     (let chunk32 = i div 32; subbit32 = i mod 32;
          payload = (ucast (wrapper_get_idx (d_strb c) chunk32) :: u32)
      in drop_bit subbit32 payload AND 1 \<noteq> 0)"

definition resp_fire :: "response_channel \<Rightarrow> bool" where
  "resp_fire c \<longleftrightarrow> b_ready_field c \<noteq> 0 \<and> b_valid_field c \<noteq> 0"

section \<open>Facts\<close>

lemma bool_byte_simps [simp]: "bool_byte v = 0 \<longleftrightarrow> \<not> v" "bool_byte True = 1" "bool_byte False = 0"
  by (auto simp: bool_byte_def)

lemma low_half_mask: "x AND 0xFFFFFFFF = take_bit 32 x" for x :: u64
  unfolding take_bit_eq_mask mask_eq_exp_minus_1 by simp

text \<open>Only the low half of a 64-bit address reaches the controller.\<close>

lemma getAddr_low_half: "wrapper_ok (addr_field c) \<Longrightarrow> getAddr c = take_bit 32 (wr_ptr (addr_field c))"
proof -
  assume ok: "wrapper_ok (addr_field c)"
  have "take_bit 32 (take_bit (8 * n) x) = take_bit (8 * n) x" if "n \<le> 4" for n and x :: u64
    using that by (simp add: take_bit_take_bit min_absorb2)
  then have "wr_len (addr_field c) \<le> 4 \<Longrightarrow> take_bit 32 (wr_ptr (addr_field c)) = wr_ptr (addr_field c)"
    using ok by (metis wrapper_ok_def)
  then show ?thesis by (simp add: getAddr_def wrapper_get_idx_def low_half_mask)
qed

text \<open>The strobe of a lane is the bit of the strobe signal with its number.\<close>

lemma getStrb_bit:
  assumes "wrapper_ok (d_strb c)" "i < 8 * wr_len (d_strb c)"
  shows "getStrb c i = bit (wr_ptr (d_strb c)) i"
proof -
  have odd: "(x AND 1 \<noteq> 0) = bit x 0" for x :: u32
    by (simp add: and_one_eq bit_0 mod2_eq_if)
  have w: "wr_len (d_strb c) \<in> {1, 2, 4, 8}" using assms(1) by (simp add: wrapper_ok_def)
  show ?thesis
  proof (cases "i < 32")
    case True
    then show ?thesis by (simp add: getStrb_def wrapper_get_idx_def odd bit_simps low_half_mask)
  next
    case False
    with w assms(2) have l8: "wr_len (d_strb c) = 8" and "i < 64" by auto
    with False obtain j where "i = 32 + j" "j < 32" by (metis add_less_cancel_left le_Suc_ex linorder_not_less numeral_Bit0)
    moreover have "(32 + j) div 32 \<noteq> 0" by simp
    ultimately show ?thesis by (simp add: l8 getStrb_def wrapper_get_idx_def odd bit_simps del: div_add_self1)
  qed
qed

lemma data_set_word_length: "4 * idx + 4 \<le> length bs \<Longrightarrow> length (data_set_word x idx bs) = length bs"
  by (simp add: data_set_word_def word_bytes_def)

lemma wrapper_set_get:
  "wr_len v \<le> 4 \<Longrightarrow> take_bit (8 * wr_len v) x = x \<Longrightarrow> wrapper_get (wrapper_set x v) = x"
  by (simp add: wrapper_get_def wrapper_get_idx_def wrapper_set_def)

end
