(* ===== verification/MemCtrl.thy ===== *)
theory MemCtrl
  imports MemChannel AddressTranslator "HOL-Library.Signed_Division" "HOL-Library.Multiset"
begin

text \<open>
  The simulated memory controller (\<^verbatim>\<open>runtime/include/core/mem_ctrl.h\<close>, \<^verbatim>\<open>runtime/src/core/mem_ctrl.cc\<close>):
  AXI bursts cut into DRAM accesses, the queues of accesses not yet issued and in flight, and the
  two call-backs the DRAM simulator makes when an access completes. Transactions are shared objects
  that several queues point to, so they live in a store and the queues hold their indices. The DRAM
  simulator enters through its two observable actions: it accepts or refuses an access (a predicate
  on addresses) and it completes one (a call-back).
\<close>

section \<open>Configuration\<close>

text \<open>\<open>data_bus_bytes\<close> is \<^verbatim>\<open>DATA_BUS_WIDTH / 8\<close>; the other values are the globals of \<^verbatim>\<open>mem_ctrl.cc\<close>.\<close>

record mem_config =
  data_bus_bytes :: nat
  DDR_BUS_WIDTH_BYTES :: nat
  axi_ddr_bus_multiplicity :: nat
  TOTAL_BURST :: nat
  DDR_ENQUEUE_SIZE_BYTES :: nat

datatype mem_error =
    ConfigNotFound | DivisionByZero | AssertBusWidth
  | NullQueue | EmptyFront | IndexOutOfRange | MemTranslate translate_error

text \<open>\<^verbatim>\<open>mem_ctrl::init\<close>: \<open>found\<close> is the answer of \<^verbatim>\<open>stat\<close>, \<open>bus_width\<close> and \<open>BL\<close> come from the DRAM configuration.\<close>

definition mem_ctrl_init :: "nat \<Rightarrow> bool \<Rightarrow> nat \<Rightarrow> nat \<Rightarrow> mem_error + mem_config" where
  "mem_ctrl_init DATA_BUS_WIDTH found bus_width BL =
     (if \<not> found then Inl ConfigNotFound
      else let bytes = bus_width div 8
           in if bytes = 0 then Inl DivisionByZero
              else if bytes > DATA_BUS_WIDTH div 8 then Inl AssertBusWidth
              else Inr \<lparr>data_bus_bytes = DATA_BUS_WIDTH div 8, DDR_BUS_WIDTH_BYTES = bytes,
                        axi_ddr_bus_multiplicity = (DATA_BUS_WIDTH div 8) div bytes,
                        TOTAL_BURST = BL, DDR_ENQUEUE_SIZE_BYTES = bytes * BL\<rparr>)"

section \<open>Transactions\<close>

text \<open>
  \<^verbatim>\<open>struct memory_transaction\<close>. A burst has at most 256 beats of at most 128 bytes, so \<open>tx_size\<close> and
  \<open>tx_len\<close> and the counts made from them are natural numbers; the progress counter is also counted
  down below zero and is an integer.
\<close>

record memory_transaction =
  tx_addr :: u64
  tx_size :: nat
  tx_len :: nat
  axi_bus_beats_progress :: int
  tx_id :: u32
  tx_fixed :: bool
  tx_fpga_addr :: u64
  dram_tx_n_enqueues :: nat
  dram_tx_axi_enqueue_progress :: nat
  dram_tx_load_progress :: nat
  can_be_last :: bool
  is_intermediate :: bool
  ddr_bus_beats_retrieved :: "bool list"

text \<open>The constructor. (A configured burst length of zero would make its division trap; \<open>mem_config_ok\<close> below excludes it.)\<close>

definition new_transaction ::
  "mem_config \<Rightarrow> u64 \<Rightarrow> nat \<Rightarrow> nat \<Rightarrow> int \<Rightarrow> bool \<Rightarrow> u32 \<Rightarrow> u64 \<Rightarrow> bool \<Rightarrow> memory_transaction" where
  "new_transaction c a sz len progress fixed i fpga intermediate =
     (let n0 = (len * sz) div DDR_ENQUEUE_SIZE_BYTES c;
          n = (if n0 = 0 then 1 else n0)
      in \<lparr>tx_addr = a, tx_size = sz, tx_len = len, axi_bus_beats_progress = progress, tx_id = i,
          tx_fixed = fixed, tx_fpga_addr = fpga, dram_tx_n_enqueues = n,
          dram_tx_axi_enqueue_progress = 0, dram_tx_load_progress = 0, can_be_last = True,
          is_intermediate = intermediate,
          ddr_bus_beats_retrieved = replicate (n * TOTAL_BURST c) False\<rparr>)"

definition axi_bus_beats_length :: "mem_config \<Rightarrow> memory_transaction \<Rightarrow> nat" where
  "axi_bus_beats_length c t = tx_len t * tx_size t div data_bus_bytes c"

definition dramsim_tx_finished :: "memory_transaction \<Rightarrow> bool" where
  "dramsim_tx_finished t \<longleftrightarrow> dram_tx_axi_enqueue_progress t \<ge> dram_tx_n_enqueues t"

definition bankId :: "memory_transaction \<Rightarrow> int" where
  "bankId t = sint (ucast (drop_bit 12 (tx_fpga_addr t)) :: 32 word)"

text \<open>
  \<^verbatim>\<open>dramsim_hasBeatReady\<close>: the loop stops at the first missing part of the beat; reading the vector
  outside its bounds is undefined.
\<close>

fun parts_ready :: "bool list \<Rightarrow> nat \<Rightarrow> nat \<Rightarrow> mem_error + bool" where
  "parts_ready got start 0 = (if start < length got then Inr (got ! start) else Inl IndexOutOfRange)"
| "parts_ready got start (Suc n) =
     (if start \<ge> length got then Inl IndexOutOfRange
      else if \<not> got ! start then Inr False
      else if n = 0 then Inr True
      else parts_ready got (Suc start) n)"

definition dramsim_hasBeatReady :: "mem_config \<Rightarrow> memory_transaction \<Rightarrow> mem_error + bool" where
  "dramsim_hasBeatReady c t =
     (if axi_bus_beats_progress t = int (axi_bus_beats_length c t) then Inr False
      else if axi_bus_beats_progress t < 0 then Inl IndexOutOfRange
      else parts_ready (ddr_bus_beats_retrieved t)
             (nat (axi_bus_beats_progress t) * axi_ddr_bus_multiplicity c) (axi_ddr_bus_multiplicity c))"

section \<open>The port\<close>

record mem_interface =
  txs :: "memory_transaction list"
  in_flight_reads :: "u64 \<rightharpoonup> nat list"
  in_flight_writes :: "u64 \<rightharpoonup> nat list"
  ddr_read_q :: "nat list"
  ddr_write_q :: "nat list"
  aw_ch :: address_channel
  ar_ch :: address_channel
  w_ch :: data_channel
  r_ch :: data_channel
  b_ch :: response_channel
  write_transactions :: "nat list"
  read_transactions :: "nat list"
  num_in_flight_writes :: int

definition max_q_length :: nat where "max_q_length = 40"

definition max_in_flight_writes :: int where "max_in_flight_writes = 32"

definition can_accept_read :: "mem_interface \<Rightarrow> bool" where
  "can_accept_read s \<longleftrightarrow> length (ddr_read_q s) < max_q_length"

definition can_accept_write :: "mem_interface \<Rightarrow> bool" where
  "can_accept_write s \<longleftrightarrow> length (ddr_write_q s) < max_q_length"

definition upd_tx :: "nat \<Rightarrow> (memory_transaction \<Rightarrow> memory_transaction) \<Rightarrow> mem_interface \<Rightarrow> mem_interface" where
  "upd_tx p f s = s\<lparr>txs := (txs s)[p := f (txs s ! p)]\<rparr>"

text \<open>\<^verbatim>\<open>make_shared\<close> followed by \<^verbatim>\<open>enqueue_read\<close>, and \<^verbatim>\<open>enqueue_response\<close>.\<close>

definition enqueue_read :: "memory_transaction \<Rightarrow> mem_interface \<Rightarrow> mem_interface" where
  "enqueue_read t s = s\<lparr>txs := txs s @ [t], read_transactions := read_transactions s @ [length (txs s)]\<rparr>"

definition enqueue_response :: "u32 \<Rightarrow> mem_interface \<Rightarrow> mem_interface" where
  "enqueue_response i s = s\<lparr>b_ch := (b_ch s)\<lparr>to_enqueue := to_enqueue (b_ch s) @ [i]\<rparr>\<rparr>"

section \<open>Call-backs of the DRAM simulator\<close>

text \<open>One turn of the loop that hands complete beats to the read channel: the transaction that stands for the beat.\<close>

definition beat_of :: "mem_config \<Rightarrow> memory_transaction \<Rightarrow> memory_transaction" where
  "beat_of c t =
     (new_transaction c (tx_addr t) (tx_size t) 1 0 False (tx_id t) 0 True)
       \<lparr>tx_fpga_addr := tx_fpga_addr t,
        can_be_last := (axi_bus_beats_progress t = int (axi_bus_beats_length c t) - 1)\<rparr>"

definition next_beat :: "memory_transaction \<Rightarrow> memory_transaction" where
  "next_beat t = t\<lparr>tx_addr := tx_addr t + of_nat (tx_size t), axi_bus_beats_progress := axi_bus_beats_progress t + 1\<rparr>"

text \<open>
  The loop itself. It ends at the latest when all beats of the burst are out, so the number of beats
  still to come bounds the turns.
\<close>

fun emit_beats :: "mem_config \<Rightarrow> nat \<Rightarrow> memory_transaction \<Rightarrow> mem_error + (memory_transaction \<times> memory_transaction list)" where
  "emit_beats c 0 t = Inr (t, [])"
| "emit_beats c (Suc n) t =
     andThen (dramsim_hasBeatReady c t) (\<lambda>rdy.
       if \<not> rdy then Inr (t, [])
       else andThen (emit_beats c n (next_beat t)) (\<lambda>(t', bs). Inr (t', beat_of c t # bs)))"

definition mark_retrieved :: "mem_config \<Rightarrow> u64 \<Rightarrow> memory_transaction \<Rightarrow> mem_error + memory_transaction" where
  "mark_retrieved c a t =
     (let base = sint (ucast (a - tx_fpga_addr t) :: 32 word) sdiv int (DDR_BUS_WIDTH_BYTES c);
          got = ddr_bus_beats_retrieved t
      in if 0 < TOTAL_BURST c \<and> (base < 0 \<or> nat base + TOTAL_BURST c > length got) then Inl IndexOutOfRange
         else Inr (t\<lparr>dram_tx_load_progress := dram_tx_load_progress t + 1,
                     ddr_bus_beats_retrieved :=
                       take (nat base) got @ replicate (TOTAL_BURST c) True @ drop (nat base + TOTAL_BURST c) got\<rparr>))"

definition retrieve :: "mem_config \<Rightarrow> u64 \<Rightarrow> memory_transaction \<Rightarrow> mem_error + (memory_transaction \<times> memory_transaction list)" where
  "retrieve c a t =
     andThen (mark_retrieved c a t)
       (\<lambda>t1. emit_beats c (nat (int (axi_bus_beats_length c t1) - axi_bus_beats_progress t1)) t1)"

text \<open>\<^verbatim>\<open>operator[]\<close> on a missing address gives a null queue, and \<^verbatim>\<open>front\<close> of an empty queue is undefined.\<close>

definition read_callback :: "mem_config \<Rightarrow> u64 \<Rightarrow> mem_interface \<Rightarrow> mem_error + mem_interface" where
  "read_callback c a s =
     (case in_flight_reads s a of
        None \<Rightarrow> Inl NullQueue
      | Some [] \<Rightarrow> Inl EmptyFront
      | Some (p # ps) \<Rightarrow>
          andThen (retrieve c a (txs s ! p)) (\<lambda>(t, bs).
            Inr ((fold enqueue_read bs (upd_tx p (\<lambda>_. t) s))
                   \<lparr>in_flight_reads := (in_flight_reads s)(a \<mapsto> ps)\<rparr>)))"

definition write_callback :: "u64 \<Rightarrow> mem_interface \<Rightarrow> mem_error + mem_interface" where
  "write_callback a s =
     (case in_flight_writes s a of
        None \<Rightarrow> Inl NullQueue
      | Some [] \<Rightarrow> Inl EmptyFront
      | Some (p # ps) \<Rightarrow>
          (let s1 = upd_tx p (\<lambda>t. t\<lparr>axi_bus_beats_progress := axi_bus_beats_progress t - 1\<rparr>) s;
               t = txs s1 ! p;
               s2 = (if axi_bus_beats_progress t = 0 then enqueue_response (tx_id t) s1 else s1)
           in Inr (s2\<lparr>in_flight_writes := (in_flight_writes s2)(a \<mapsto> ps)\<rparr>)))"

section \<open>Issuing accesses to the DRAM\<close>

definition dimm_addr :: "mem_config \<Rightarrow> memory_transaction \<Rightarrow> u64" where
  "dimm_addr c t = tx_fpga_addr t + of_nat (DDR_ENQUEUE_SIZE_BYTES c * dram_tx_axi_enqueue_progress t)"

text \<open>
  The scan for the next read, oldest first: the DRAM accepts the first address of the burst, no older
  transaction has the same AXI id, and the DRAM accepts the next address of the burst.
\<close>

fun scan_reads :: "mem_config \<Rightarrow> (u64 \<Rightarrow> bool) \<Rightarrow> memory_transaction list \<Rightarrow> nat list \<Rightarrow> nat list \<Rightarrow> nat option" where
  "scan_reads c accept ts older [] = None"
| "scan_reads c accept ts older (p # ps) =
     (if accept (tx_fpga_addr (ts ! p))
         \<and> \<not> (\<exists>q \<in> set older. tx_id (ts ! q) = tx_id (ts ! p))
         \<and> accept (dimm_addr c (ts ! p))
      then Some p
      else scan_reads c accept ts (older @ [p]) ps)"

definition issue :: "memory_transaction \<Rightarrow> memory_transaction" where
  "issue t = t\<lparr>dram_tx_axi_enqueue_progress := dram_tx_axi_enqueue_progress t + 1\<rparr>"

definition push_in_flight :: "u64 \<Rightarrow> nat \<Rightarrow> (u64 \<rightharpoonup> nat list) \<Rightarrow> (u64 \<rightharpoonup> nat list)" where
  "push_in_flight a p m = m(a \<mapsto> (case m a of None \<Rightarrow> [] | Some q \<Rightarrow> q) @ [p])"

text \<open>Both halves return the new state and the access given to the DRAM, if any.\<close>

definition enqueue_ddr_read :: "mem_config \<Rightarrow> (u64 \<Rightarrow> bool) \<Rightarrow> mem_interface \<Rightarrow> mem_interface \<times> (nat \<times> u64) option" where
  "enqueue_ddr_read c accept s =
     (case scan_reads c accept (txs s) [] (ddr_read_q s) of
        None \<Rightarrow> (s, None)
      | Some p \<Rightarrow>
          (let a = dimm_addr c (txs s ! p);
               s1 = upd_tx p issue (s\<lparr>in_flight_reads := push_in_flight a p (in_flight_reads s)\<rparr>)
           in (if dramsim_tx_finished (txs s1 ! p) then s1\<lparr>ddr_read_q := remove1 p (ddr_read_q s1)\<rparr> else s1,
               Some (p, a))))"

definition enqueue_ddr_write :: "mem_config \<Rightarrow> (u64 \<Rightarrow> bool) \<Rightarrow> mem_interface \<Rightarrow> mem_interface \<times> (nat \<times> u64) option" where
  "enqueue_ddr_write c accept s =
     (case find (\<lambda>p. accept (dimm_addr c (txs s ! p))) (ddr_write_q s) of
        None \<Rightarrow> (s, None)
      | Some p \<Rightarrow>
          (let a = dimm_addr c (txs s ! p);
               s1 = upd_tx p issue (s\<lparr>in_flight_writes := push_in_flight a p (in_flight_writes s)\<rparr>)
           in (if dramsim_tx_finished (txs s1 ! p) then s1\<lparr>ddr_write_q := remove1 p (ddr_write_q s1)\<rparr> else s1,
               Some (p, a))))"

text \<open>The DRAM is asked again for writes after it took the read: two predicates.\<close>

definition try_to_enqueue_ddr ::
  "mem_config \<Rightarrow> (u64 \<Rightarrow> bool) \<Rightarrow> (u64 \<Rightarrow> bool) \<Rightarrow> mem_interface
     \<Rightarrow> mem_interface \<times> (nat \<times> u64) option \<times> (nat \<times> u64) option" where
  "try_to_enqueue_ddr c accept_rd accept_wr s =
     (let (s1, rd) = enqueue_ddr_read c accept_rd s; (s2, wr) = enqueue_ddr_write c accept_wr s1
      in (s2, rd, wr))"

end
