(* ===== verification/MemTick.thy ===== *)
theory MemTick
  imports MemCtrl
begin

text \<open>
  The memory half of one clock cycle of the simulation (\<^verbatim>\<open>tick_signals\<close> in
  \<^verbatim>\<open>runtime/src/core/tick.cc\<close>): DRAM cycles, then the five AXI channels of every memory port. The
  simulated hardware drives its side of the signals between two cycles; what it drives is an input.
  How many DRAM cycles fall into a clock cycle is computed from a floating-point ratio and is an
  input too, as are the call-backs and the answers of the DRAM in each of them.
\<close>

section \<open>What the cycle shares between ports\<close>

record mem_globals =
  at_map :: address_translator
  host :: "u64 \<Rightarrow> u8"
  mem_transacted :: u64

type_synonym port_state = "mem_interface \<times> mem_globals"

definition load_word :: "(u64 \<Rightarrow> u8) \<Rightarrow> u64 \<Rightarrow> u32" where
  "load_word m a = ucast (m a) OR push_bit 8 (ucast (m (a + 1)))
     OR push_bit 16 (ucast (m (a + 2))) OR push_bit 24 (ucast (m (a + 3)))"

section \<open>DRAM cycles\<close>

datatype dram_event = ReadDone u64 | WriteDone u64

fun dram_callback :: "mem_config \<Rightarrow> dram_event \<Rightarrow> mem_interface \<Rightarrow> mem_error + mem_interface" where
  "dram_callback c (ReadDone a) s = read_callback c a s"
| "dram_callback c (WriteDone a) s = write_callback a s"

fun dram_callbacks :: "mem_config \<Rightarrow> dram_event list \<Rightarrow> mem_interface \<Rightarrow> mem_error + mem_interface" where
  "dram_callbacks c [] s = Inr s"
| "dram_callbacks c (e # es) s = andThen (dram_callback c e s) (dram_callbacks c es)"

text \<open>What the DRAM of one port does in one of its cycles: the completions, then its answers.\<close>

record dram_round =
  completions :: "dram_event list"
  accepts_rd :: "u64 \<Rightarrow> bool"
  accepts_wr :: "u64 \<Rightarrow> bool"

definition ddr_tick :: "mem_config \<Rightarrow> dram_round \<Rightarrow> mem_interface \<Rightarrow> mem_error + mem_interface" where
  "ddr_tick c d s =
     andThen (dram_callbacks c (completions d) s)
       (\<lambda>s1. Inr (fst (try_to_enqueue_ddr c (accepts_rd d) (accepts_wr d) s1)))"

section \<open>The channels of a port\<close>

definition r_handshake :: "mem_config \<Rightarrow> port_state \<Rightarrow> mem_error + port_state" where
  "r_handshake c = (\<lambda>(s, g).
     if data_fire (r_ch s) then
       (case read_transactions s of
          [] \<Rightarrow> Inl EmptyFront
        | p # ps \<Rightarrow>
            (let t = txs s ! p;
                 s1 = upd_tx p (\<lambda>t. t\<lparr>axi_bus_beats_progress := axi_bus_beats_progress t + 1,
                                      tx_addr := (if tx_fixed t then tx_addr t else tx_addr t + of_nat (tx_size t))\<rparr>) s
             in Inr (if d_last (r_ch s) \<noteq> 0 \<or> \<not> can_be_last t then s1\<lparr>read_transactions := ps\<rparr> else s1,
                     g\<lparr>mem_transacted := mem_transacted g + of_nat (data_bus_bytes c)\<rparr>)))
     else Inr (s, g))"

text \<open>The transaction a handshake on an address channel asks for.\<close>

definition requested ::
  "mem_config \<Rightarrow> bool \<Rightarrow> u64 \<Rightarrow> address_channel \<Rightarrow> memory_transaction" where
  "requested c fixed host_addr ch =
     new_transaction c host_addr (2 ^ unat (wrapper_get (size_field ch))) (unat (wrapper_get (len_field ch)) + 1) 0
       fixed (ucast (wrapper_get (id_field ch))) (getAddr ch) False"

text \<open>
  In this build the translator throws for an unknown address and the null tests that follow it are
  never met, because no segment is mapped at address 0; a null result is an error value.
\<close>

definition ar_handshake :: "mem_config \<Rightarrow> port_state \<Rightarrow> mem_error + port_state" where
  "ar_handshake c = (\<lambda>(s, g).
     if addr_fire (ar_ch s) then
       (case translate (at_map g) (getAddr (ar_ch s)) of
          Inl e \<Rightarrow> Inl (MemTranslate e)
        | Inr ad \<Rightarrow>
            if ad = 0 then Inl (MemTranslate BadAddress)
            else Inr (s\<lparr>txs := txs s @ [requested c False ad (ar_ch s)],
                        ddr_read_q := ddr_read_q s @ [length (txs s)]\<rparr>, g))
     else Inr (s, g))"

definition b_handshake :: "port_state \<Rightarrow> mem_error + port_state" where
  "b_handshake = (\<lambda>(s, g).
     if resp_fire (b_ch s) then
       (case send_ids (b_ch s) of
          [] \<Rightarrow> Inl EmptyFront
        | i # is \<Rightarrow> Inr (s\<lparr>b_ch := (b_ch s)\<lparr>send_ids := is\<rparr>,
                          num_in_flight_writes := num_in_flight_writes s - 1\<rparr>, g))
     else Inr (s, g))"

text \<open>The words of a read beat, written to the data bus from \<open>start\<close> on; past its end is out of bounds.\<close>

definition put_words :: "(u64 \<Rightarrow> u8) \<Rightarrow> u64 \<Rightarrow> nat \<Rightarrow> nat \<Rightarrow> u8 list \<Rightarrow> mem_error + u8 list" where
  "put_words m a n start bus =
     (if n > 0 \<and> 4 * (start + n) > length bus then Inl IndexOutOfRange
      else Inr (fold (\<lambda>i. data_set_word (load_word m (a + of_nat (4 * i))) (i + start)) [0..<n] bus))"

definition r_drive :: "mem_config \<Rightarrow> port_state \<Rightarrow> mem_error + port_state" where
  "r_drive c = (\<lambda>(s, g).
     case read_transactions s of
       [] \<Rightarrow> Inr (s\<lparr>r_ch := (r_ch s)\<lparr>d_valid := 0, d_last := 0\<rparr>\<rparr>, g)
     | p # _ \<Rightarrow>
         (let t = txs s ! p;
              start = nat ((axi_bus_beats_progress t * int (tx_size t)) mod int (data_bus_bytes c)) div 4;
              am_done = (int (tx_len t) = axi_bus_beats_progress t + 1)
          in andThen (put_words (host g) (tx_addr t) (tx_size t div 4) start (d_data (r_ch s))) (\<lambda>bus.
               Inr (s\<lparr>r_ch := (r_ch s)\<lparr>d_data := bus, d_valid := 1, d_last := bool_byte (am_done \<and> can_be_last t),
                                       d_id := wrapper_set (ucast (tx_id t)) (d_id (r_ch s))\<rparr>\<rparr>, g))))"

definition b_drive :: "port_state \<Rightarrow> port_state" where
  "b_drive = (\<lambda>(s, g).
     (let b1 = (case send_ids (b_ch s) of
                  [] \<Rightarrow> (b_ch s)\<lparr>b_valid_field := 0\<rparr>
                | i # _ \<Rightarrow> (b_ch s)\<lparr>b_valid_field := 1, b_id_field := wrapper_set (ucast i) (b_id_field (b_ch s))\<rparr>);
          b2 = (case to_enqueue b1 of
                  [] \<Rightarrow> b1
                | i # is \<Rightarrow> b1\<lparr>send_ids := send_ids b1 @ [i], to_enqueue := is\<rparr>)
      in (s\<lparr>b_ch := b2\<rparr>, g)))"

definition aw_handshake :: "mem_config \<Rightarrow> port_state \<Rightarrow> mem_error + port_state" where
  "aw_handshake c = (\<lambda>(s, g).
     if addr_fire (aw_ch s) then
       (case translate (at_map g) (getAddr (aw_ch s)) of
          Inl e \<Rightarrow> Inl (MemTranslate e)
        | Inr ad \<Rightarrow>
            if ad = 0 then Inl (MemTranslate BadAddress)
            else Inr (s\<lparr>txs := txs s @ [requested c (wrapper_get (burst_field (aw_ch s)) = 0) ad (aw_ch s)],
                        write_transactions := write_transactions s @ [length (txs s)],
                        num_in_flight_writes := num_in_flight_writes s + 1\<rparr>, g))
     else Inr (s, g))"

text \<open>The bytes of a write beat whose strobe is set.\<close>

definition write_lanes :: "(nat \<Rightarrow> bool) \<Rightarrow> u8 list \<Rightarrow> u64 \<Rightarrow> nat list \<Rightarrow> mem_globals \<Rightarrow> mem_globals" where
  "write_lanes strb data a offs g =
     fold (\<lambda>off g. if strb off
                   then g\<lparr>host := (host g)(a + of_nat off := data ! off), mem_transacted := mem_transacted g + 1\<rparr>
                   else g) offs g"

definition set_w_ready :: "bool \<Rightarrow> mem_interface \<Rightarrow> mem_interface" where
  "set_w_ready v s = s\<lparr>w_ch := (w_ch s)\<lparr>d_ready := bool_byte v\<rparr>\<rparr>"

definition room_for_writes :: "mem_interface \<Rightarrow> bool" where
  "room_for_writes s \<longleftrightarrow> num_in_flight_writes s < max_in_flight_writes"

definition w_beat :: "mem_config \<Rightarrow> port_state \<Rightarrow> port_state" where
  "w_beat c = (\<lambda>(s, g).
     case write_transactions s of
       [] \<Rightarrow> (set_w_ready (room_for_writes s) s, g)
     | p # ps \<Rightarrow>
         if data_fire (w_ch s) then
           (let t = txs s ! p;
                g1 = write_lanes (getStrb (w_ch s)) (d_data (w_ch s)) (tx_addr t) [0..<data_bus_bytes c]
                       (g\<lparr>mem_transacted := mem_transacted g + of_nat (data_bus_bytes c)\<rparr>);
                s1 = upd_tx p (\<lambda>t. t\<lparr>axi_bus_beats_progress := axi_bus_beats_progress t + 1,
                                     tx_addr := (if tx_fixed t then tx_addr t else tx_addr t + of_nat (tx_size t))\<rparr>) s
            in if d_last (w_ch s) \<noteq> 0
               then (let s2 = upd_tx p (\<lambda>t. t\<lparr>dram_tx_axi_enqueue_progress := 0, axi_bus_beats_progress := 1\<rparr>)
                                (s1\<lparr>write_transactions := ps, ddr_write_q := ddr_write_q s1 @ [p]\<rparr>)
                     in (set_w_ready (ps \<noteq> [] \<or> room_for_writes s2) s2, g1))
               else (set_w_ready True s1, g1))
         else (s, g))"

definition ready_drive :: "port_state \<Rightarrow> port_state" where
  "ready_drive = (\<lambda>(s, g).
     (s\<lparr>ar_ch := setReady (can_accept_read s) (ar_ch s), aw_ch := setReady (room_for_writes s) (aw_ch s)\<rparr>, g))"

text \<open>The two passes over the ports: completed handshakes on the read side, then everything else.\<close>

definition port_reads :: "mem_config \<Rightarrow> port_state \<Rightarrow> mem_error + port_state" where
  "port_reads c p = andThen (r_handshake c p) (ar_handshake c)"

definition port_update :: "mem_config \<Rightarrow> port_state \<Rightarrow> mem_error + port_state" where
  "port_update c p =
     andThen (b_handshake p) (\<lambda>p. andThen (r_drive c p) (\<lambda>p.
     andThen (aw_handshake c (b_drive p)) (\<lambda>p. Inr (ready_drive (w_beat c p)))))"

fun over_ports ::
  "(port_state \<Rightarrow> mem_error + port_state) \<Rightarrow> mem_interface list \<Rightarrow> mem_globals \<Rightarrow> mem_error + (mem_interface list \<times> mem_globals)" where
  "over_ports f [] g = Inr ([], g)"
| "over_ports f (s # ss) g =
     andThen (f (s, g)) (\<lambda>(s', g1). andThen (over_ports f ss g1) (\<lambda>(ss', g2). Inr (s' # ss', g2)))"

fun ddr_round :: "mem_config \<Rightarrow> dram_round list \<Rightarrow> mem_interface list \<Rightarrow> mem_error + mem_interface list" where
  "ddr_round c (d # ds) (s # ss) =
     andThen (ddr_tick c d s) (\<lambda>s'. andThen (ddr_round c ds ss) (\<lambda>ss'. Inr (s' # ss')))"
| "ddr_round c _ ss = Inr ss"

fun ddr_rounds :: "mem_config \<Rightarrow> dram_round list list \<Rightarrow> mem_interface list \<Rightarrow> mem_error + mem_interface list" where
  "ddr_rounds c [] ss = Inr ss"
| "ddr_rounds c (r # rs) ss = andThen (ddr_round c r ss) (ddr_rounds c rs)"

definition tick_memory ::
  "mem_config \<Rightarrow> dram_round list list \<Rightarrow> mem_interface list \<Rightarrow> mem_globals \<Rightarrow> mem_error + (mem_interface list \<times> mem_globals)" where
  "tick_memory c rounds ss g =
     andThen (ddr_rounds c rounds ss) (\<lambda>ss1.
     andThen (over_ports (port_reads c) ss1 g) (\<lambda>(ss2, g2). over_ports (port_update c) ss2 g2))"

section \<open>Between two cycles\<close>

text \<open>The signals the simulated hardware drives.\<close>

record axi_master =
  m_aw :: address_channel
  m_ar :: address_channel
  m_w :: data_channel
  m_r_ready :: u8
  m_b_ready :: u8

definition drive :: "axi_master \<Rightarrow> mem_interface \<Rightarrow> mem_interface" where
  "drive m s =
     s\<lparr>aw_ch := (m_aw m)\<lparr>ready_field := ready_field (aw_ch s)\<rparr>,
       ar_ch := (m_ar m)\<lparr>ready_field := ready_field (ar_ch s)\<rparr>,
       w_ch := (m_w m)\<lparr>d_ready := d_ready (w_ch s)\<rparr>,
       r_ch := (r_ch s)\<lparr>d_ready := m_r_ready m\<rparr>,
       b_ch := (b_ch s)\<lparr>b_ready_field := m_b_ready m\<rparr>\<rparr>"

end
