(* ===== verification/MemPort.thy ===== *)
theory MemPort
  imports MemTick
begin

text \<open>
  What every reachable state of a simulated memory port satisfies: which objects its queues point
  to, how many writes are outstanding and under which AXI ids, and what the signals it drives say
  about its queues. Proved for the call-backs, the issuing of accesses and each AXI channel of
  \<^verbatim>\<open>runtime/src/core/mem_ctrl.cc\<close> and \<^verbatim>\<open>tick.cc\<close>, then for whole cycles and runs.
\<close>

section \<open>The invariant of a port\<close>

text \<open>The pointers held by a table of accesses in flight, and by the write and the read side of a port.\<close>

definition held :: "(u64 \<rightharpoonup> nat list) \<Rightarrow> nat set" where
  "held m = {p. \<exists>a q. m a = Some q \<and> p \<in> set q}"

definition wptrs :: "mem_interface \<Rightarrow> nat set" where
  "wptrs s = set (write_transactions s) \<union> set (ddr_write_q s) \<union> held (in_flight_writes s)"

definition rptrs :: "mem_interface \<Rightarrow> nat set" where
  "rptrs s = set (ddr_read_q s) \<union> held (in_flight_reads s) \<union> set (read_transactions s)"

text \<open>Writes whose data is complete and whose first DRAM access has not completed yet.\<close>

definition waiting :: "mem_interface \<Rightarrow> nat set" where
  "waiting s = {p \<in> set (ddr_write_q s) \<union> held (in_flight_writes s). axi_bus_beats_progress (txs s ! p) = 1}"

text \<open>The AXI ids of the writes that are accepted and not yet answered.\<close>

definition outstanding :: "mem_interface \<Rightarrow> u32 multiset" where
  "outstanding s =
     image_mset (\<lambda>p. tx_id (txs s ! p)) (mset (write_transactions s) + mset_set (waiting s))
     + mset (to_enqueue (b_ch s)) + mset (send_ids (b_ch s))"

definition ptr_inv :: "mem_interface \<Rightarrow> bool" where
  "ptr_inv s \<longleftrightarrow> wptrs s \<union> rptrs s \<subseteq> {..<length (txs s)} \<and> wptrs s \<inter> rptrs s = {}"

definition write_inv :: "mem_interface \<Rightarrow> bool" where
  "write_inv s \<longleftrightarrow>
     distinct (write_transactions s @ ddr_write_q s) \<and>
     set (write_transactions s) \<inter> held (in_flight_writes s) = {} \<and>
     (\<forall>p \<in> set (ddr_write_q s) \<union> held (in_flight_writes s). axi_bus_beats_progress (txs s ! p) \<le> 1) \<and>
     num_in_flight_writes s = int (size (outstanding s)) \<and> num_in_flight_writes s \<le> max_in_flight_writes"

text \<open>
  What waits on the read channel are single beats, each of them its own object; what waits for the
  DRAM has accesses left to issue.
\<close>

definition beat_ok :: "memory_transaction \<Rightarrow> bool" where
  "beat_ok t \<longleftrightarrow> tx_len t = 1 \<and> axi_bus_beats_progress t = 0 \<and> is_intermediate t"

definition read_inv :: "mem_interface \<Rightarrow> bool" where
  "read_inv s \<longleftrightarrow>
     distinct (ddr_read_q s @ read_transactions s) \<and>
     set (read_transactions s) \<inter> held (in_flight_reads s) = {} \<and>
     (\<forall>p \<in> set (read_transactions s). beat_ok (txs s ! p)) \<and>
     (\<forall>p \<in> set (ddr_read_q s). \<not> dramsim_tx_finished (txs s ! p)) \<and>
     length (ddr_read_q s) \<le> max_q_length"

definition port_inv :: "mem_interface \<Rightarrow> bool" where
  "port_inv s \<longleftrightarrow> ptr_inv s \<and> write_inv s \<and> read_inv s"

text \<open>What the signals the controller drives say about its state, between two cycles.\<close>

definition aw_sig :: "mem_interface \<Rightarrow> bool" where
  "aw_sig s \<longleftrightarrow> (ready_field (aw_ch s) \<noteq> 0 \<longrightarrow> num_in_flight_writes s < max_in_flight_writes)"

definition ar_sig :: "mem_interface \<Rightarrow> bool" where
  "ar_sig s \<longleftrightarrow> (ready_field (ar_ch s) \<noteq> 0 \<longrightarrow> length (ddr_read_q s) < max_q_length)"

definition shows_id :: "get_set_wrapper \<Rightarrow> u32 \<Rightarrow> bool" where
  "shows_id v i \<longleftrightarrow> wr_ptr v = take_bit (8 * wr_len v) (ucast i)"

definition b_sig :: "mem_interface \<Rightarrow> bool" where
  "b_sig s \<longleftrightarrow> (b_valid_field (b_ch s) \<noteq> 0 \<longrightarrow>
     send_ids (b_ch s) \<noteq> [] \<and> shows_id (b_id_field (b_ch s)) (hd (send_ids (b_ch s))))"

definition r_sig :: "mem_interface \<Rightarrow> bool" where
  "r_sig s \<longleftrightarrow> (d_valid (r_ch s) \<noteq> 0 \<longrightarrow>
     read_transactions s \<noteq> [] \<and>
     (let t = txs s ! hd (read_transactions s)
      in (d_last (r_ch s) \<noteq> 0 \<longleftrightarrow> can_be_last t) \<and> shows_id (d_id (r_ch s)) (tx_id t)))"

definition sig_inv :: "mem_interface \<Rightarrow> bool" where
  "sig_inv s \<longleftrightarrow> aw_sig s \<and> ar_sig s \<and> b_sig s \<and> r_sig s"

section \<open>Framing\<close>

lemma held_split: "held m = (case m a of None \<Rightarrow> {} | Some q \<Rightarrow> set q) \<union> held (m(a := None))"
proof (rule set_eqI)
  fix p
  have "p \<in> held m \<longleftrightarrow> (\<exists>q. m a = Some q \<and> p \<in> set q) \<or> (\<exists>b q. b \<noteq> a \<and> m b = Some q \<and> p \<in> set q)"
    unfolding held_def mem_Collect_eq by metis
  then show "p \<in> held m \<longleftrightarrow> p \<in> (case m a of None \<Rightarrow> {} | Some q \<Rightarrow> set q) \<union> held (m(a := None))"
    by (cases "m a") (auto simp: held_def)
qed

lemma held_push [simp]: "held (push_in_flight a p m) = insert p (held m)"
  using held_split [of "push_in_flight a p m" a] held_split [of m a]
  by (cases "m a") (auto simp: push_in_flight_def)

lemma held_pop: "m a = Some (p # ps) \<Longrightarrow> held m = insert p (held (m(a \<mapsto> ps)))"
  using held_split [of m a] held_split [of "m(a \<mapsto> ps)" a] by simp

lemma wptrsI [intro]:
  "p \<in> set (write_transactions s) \<Longrightarrow> p \<in> wptrs s"
  "p \<in> set (ddr_write_q s) \<Longrightarrow> p \<in> wptrs s"
  "p \<in> held (in_flight_writes s) \<Longrightarrow> p \<in> wptrs s"
  by (simp_all add: wptrs_def)

text \<open>A step that leaves the write side alone, and the objects it points to, keeps everything said of it.\<close>

definition same_writes :: "mem_interface \<Rightarrow> mem_interface \<Rightarrow> bool" where
  "same_writes s s' \<longleftrightarrow>
     write_transactions s' = write_transactions s \<and> ddr_write_q s' = ddr_write_q s \<and>
     in_flight_writes s' = in_flight_writes s \<and> num_in_flight_writes s' = num_in_flight_writes s \<and>
     send_ids (b_ch s') = send_ids (b_ch s) \<and> to_enqueue (b_ch s') = to_enqueue (b_ch s) \<and>
     (\<forall>p \<in> wptrs s. txs s' ! p = txs s ! p)"

lemma same_writes_refl [simp]: "same_writes s s"
  by (simp add: same_writes_def)

lemma same_writes_wptrs: "same_writes s s' \<Longrightarrow> wptrs s' = wptrs s"
  by (simp add: same_writes_def wptrs_def)

lemma same_writes_trans: "same_writes s s' \<Longrightarrow> same_writes s' s'' \<Longrightarrow> same_writes s s''"
  by (simp add: same_writes_def wptrs_def)

lemma same_writes_waiting: "same_writes s s' \<Longrightarrow> waiting s' = waiting s"
  unfolding waiting_def same_writes_def by (intro Collect_cong) (metis (no_types, lifting) Un_iff wptrsI(2,3))

lemma finite_held: "held m \<subseteq> {..<n} \<Longrightarrow> finite (held m)" for n :: nat
  by (rule finite_subset) auto

lemma finite_waiting: "ptr_inv s \<Longrightarrow> finite (waiting s)"
  by (rule finite_subset [of _ "{..<length (txs s)}"]) (auto simp: waiting_def ptr_inv_def)

lemma waiting_wptrs: "p \<in> waiting s \<Longrightarrow> p \<in> wptrs s"
  by (auto simp: waiting_def)

lemma elem_mset_set_D: "p \<in># mset_set A \<Longrightarrow> p \<in> A"
  by (cases "finite A") simp_all

lemma outstanding_cong:
  assumes "write_transactions s' = write_transactions s" "waiting s' = waiting s"
    "send_ids (b_ch s') = send_ids (b_ch s)" "to_enqueue (b_ch s') = to_enqueue (b_ch s)"
    and "\<And>p. p \<in> wptrs s \<Longrightarrow> tx_id (txs s' ! p) = tx_id (txs s ! p)"
  shows "outstanding s' = outstanding s"
proof -
  have "image_mset (\<lambda>p. tx_id (txs s' ! p)) (mset (write_transactions s) + mset_set (waiting s))
      = image_mset (\<lambda>p. tx_id (txs s ! p)) (mset (write_transactions s) + mset_set (waiting s))"
    by (rule image_mset_cong) (use assms(5) waiting_wptrs in \<open>auto dest!: elem_mset_set_D\<close>)
  then show ?thesis by (simp add: outstanding_def assms(1-4))
qed

lemma same_writes_outstanding: "same_writes s s' \<Longrightarrow> outstanding s' = outstanding s"
  by (rule outstanding_cong) (simp_all add: same_writes_waiting, simp_all add: same_writes_def)

lemma same_writes_inv: "same_writes s s' \<Longrightarrow> write_inv s \<Longrightarrow> write_inv s'"
  using same_writes_outstanding [of s s']
  by (simp add: write_inv_def same_writes_def) (metis Un_iff wptrsI(2,3))


section \<open>Call-backs and issuing\<close>

lemma upd_tx_simps [simp]:
  "txs (upd_tx p f s) = (txs s)[p := f (txs s ! p)]"
  "in_flight_reads (upd_tx p f s) = in_flight_reads s" "in_flight_writes (upd_tx p f s) = in_flight_writes s"
  "ddr_read_q (upd_tx p f s) = ddr_read_q s" "ddr_write_q (upd_tx p f s) = ddr_write_q s"
  "aw_ch (upd_tx p f s) = aw_ch s" "ar_ch (upd_tx p f s) = ar_ch s" "w_ch (upd_tx p f s) = w_ch s"
  "r_ch (upd_tx p f s) = r_ch s" "b_ch (upd_tx p f s) = b_ch s"
  "write_transactions (upd_tx p f s) = write_transactions s" "read_transactions (upd_tx p f s) = read_transactions s"
  "num_in_flight_writes (upd_tx p f s) = num_in_flight_writes s"
  by (simp_all add: upd_tx_def)

text \<open>The first completed access of a write moves its id from the waiting writes to the answers.\<close>

lemma mset_set_remove:
  "finite A \<Longrightarrow> p \<in> A \<Longrightarrow> mset_set A = add_mset p (mset_set (A - {p}))"
  by (metis finite_Diff insert_Diff mset_set.insert Diff_iff singletonI finite_Diff insert_Diff_single)

lemma outstanding_answer:
  assumes "ptr_inv s" "p \<in> waiting s"
    and "write_transactions s' = write_transactions s" "waiting s' = waiting s - {p}"
    "send_ids (b_ch s') = send_ids (b_ch s)" "to_enqueue (b_ch s') = to_enqueue (b_ch s) @ [tx_id (txs s ! p)]"
    and "\<And>q. q \<in> wptrs s \<Longrightarrow> tx_id (txs s' ! q) = tx_id (txs s ! q)"
  shows "outstanding s' = outstanding s"
proof -
  have "image_mset (\<lambda>q. tx_id (txs s' ! q)) (mset (write_transactions s) + mset_set (waiting s - {p}))
      = image_mset (\<lambda>q. tx_id (txs s ! q)) (mset (write_transactions s) + mset_set (waiting s - {p}))"
    by (rule image_mset_cong) (use assms(7) waiting_wptrs in \<open>auto dest!: elem_mset_set_D\<close>)
  moreover have "mset_set (waiting s) = add_mset p (mset_set (waiting s - {p}))"
    using mset_set_remove [OF finite_waiting [OF assms(1)] assms(2)] .
  ultimately show ?thesis by (simp add: outstanding_def assms(3-6))
qed

definition count_down :: "memory_transaction \<Rightarrow> memory_transaction" where
  "count_down t = t\<lparr>axi_bus_beats_progress := axi_bus_beats_progress t - 1\<rparr>"

lemma count_down_simps [simp]:
  "axi_bus_beats_progress (count_down t) = axi_bus_beats_progress t - 1" "tx_id (count_down t) = tx_id t"
  by (simp_all add: count_down_def)

lemma write_callback_eq:
  "in_flight_writes s a = Some (p # ps) \<Longrightarrow> p < length (txs s) \<Longrightarrow>
   write_callback a s = Inr
     (s\<lparr>txs := (txs s)[p := count_down (txs s ! p)],
        b_ch := (if axi_bus_beats_progress (txs s ! p) = 1
                 then (b_ch s)\<lparr>to_enqueue := to_enqueue (b_ch s) @ [tx_id (txs s ! p)]\<rparr> else b_ch s),
        in_flight_writes := (in_flight_writes s)(a \<mapsto> ps)\<rparr>)"
  by (simp add: write_callback_def Let_def upd_tx_def enqueue_response_def count_down_def)

lemma write_callback_inv:
  assumes "port_inv s" and "in_flight_writes s a = Some (p # ps)"
  shows "on_Inr (\<lambda>s'. port_inv s' \<and> outstanding s' = outstanding s) (write_callback a s)"
proof -
  define h' where "h' = held ((in_flight_writes s)(a \<mapsto> ps))"
  have h: "held (in_flight_writes s) = insert p h'"
    using held_pop [of "in_flight_writes s" a p ps] assms(2) by (simp add: h'_def)
  have i: "ptr_inv s" "write_inv s" "read_inv s" using assms(1) by (simp_all add: port_inv_def)
  have p: "p < length (txs s)" "axi_bus_beats_progress (txs s ! p) \<le> 1"
    "p \<notin> set (write_transactions s)" "p \<notin> rptrs s"
    using i(1,2) h by (auto simp: ptr_inv_def wptrs_def write_inv_def)
  define s' where "s' = s\<lparr>txs := (txs s)[p := count_down (txs s ! p)],
        b_ch := (if axi_bus_beats_progress (txs s ! p) = 1
                 then (b_ch s)\<lparr>to_enqueue := to_enqueue (b_ch s) @ [tx_id (txs s ! p)]\<rparr> else b_ch s),
        in_flight_writes := (in_flight_writes s)(a \<mapsto> ps)\<rparr>"
  have sel: "txs s' = (txs s)[p := count_down (txs s ! p)]" "write_transactions s' = write_transactions s"
    "ddr_write_q s' = ddr_write_q s" "held (in_flight_writes s') = h'" "read_transactions s' = read_transactions s"
    "ddr_read_q s' = ddr_read_q s" "in_flight_reads s' = in_flight_reads s"
    "num_in_flight_writes s' = num_in_flight_writes s" "send_ids (b_ch s') = send_ids (b_ch s)"
    "to_enqueue (b_ch s') = (if axi_bus_beats_progress (txs s ! p) = 1
       then to_enqueue (b_ch s) @ [tx_id (txs s ! p)] else to_enqueue (b_ch s))"
    by (simp_all add: s'_def h'_def)
  have w: "waiting s' = waiting s - {p}"
    using p(1,2) h by (auto simp: waiting_def sel nth_list_update)
  have ids: "tx_id (txs s' ! q) = tx_id (txs s ! q)" for q
    using p(1) by (simp add: sel nth_list_update)
  have out: "outstanding s' = outstanding s"
  proof (cases "axi_bus_beats_progress (txs s ! p) = 1")
    case True
    then have "p \<in> waiting s" using h by (simp add: waiting_def)
    then show ?thesis
      by (rule outstanding_answer [OF i(1)]) (simp_all add: w ids sel(2,9,10) True)
  next
    case False
    then have "waiting s' = waiting s" using w by (auto simp: waiting_def)
    then show ?thesis by (rule outstanding_cong [rotated]) (simp_all add: ids sel(2,9,10) False)
  qed
  have "ptr_inv s'" using i(1) h by (auto simp: ptr_inv_def wptrs_def rptrs_def sel)
  moreover have "write_inv s'"
    using i(2) h p(1,2) by (auto simp: write_inv_def out sel nth_list_update)
  moreover have "read_inv s'"
    using i(3) p(1,4) by (auto simp: read_inv_def sel nth_list_update rptrs_def)
  ultimately show ?thesis
    using write_callback_eq [OF assms(2) p(1)] out by (simp add: port_inv_def s'_def)
qed


lemma enqueue_ddr_write_inv:
  assumes "port_inv s"
  shows "port_inv (fst (enqueue_ddr_write c accept s)) \<and> outstanding (fst (enqueue_ddr_write c accept s)) = outstanding s"
proof (cases "find (\<lambda>p. accept (dimm_addr c (txs s ! p))) (ddr_write_q s)")
  case None
  then show ?thesis using assms by (simp add: enqueue_ddr_write_def)
next
  case (Some p)
  then have pq: "p \<in> set (ddr_write_q s)" by (auto simp: find_Some_iff)
  have i: "ptr_inv s" "write_inv s" "read_inv s" using assms by (simp_all add: port_inv_def)
  have p: "p < length (txs s)" "p \<notin> set (write_transactions s)" "p \<notin> rptrs s"
    using i(1,2) pq by (auto simp: ptr_inv_def wptrs_def write_inv_def)
  define s' where "s' = fst (enqueue_ddr_write c accept s)"
  obtain q where sel: "txs s' = (txs s)[p := issue (txs s ! p)]" "ddr_write_q s' = q"
    "write_transactions s' = write_transactions s" "held (in_flight_writes s') = insert p (held (in_flight_writes s))"
    "read_transactions s' = read_transactions s" "ddr_read_q s' = ddr_read_q s" "in_flight_reads s' = in_flight_reads s"
    "num_in_flight_writes s' = num_in_flight_writes s" "b_ch s' = b_ch s"
    and q: "q = ddr_write_q s \<or> q = remove1 p (ddr_write_q s)"
    by (simp add: s'_def enqueue_ddr_write_def Some Let_def split: if_splits)
  have dq: "distinct (ddr_write_q s)" using i(2) by (simp add: write_inv_def)
  have qs: "set q \<subseteq> set (ddr_write_q s)" "distinct q" "insert p (set q) = set (ddr_write_q s)"
    using q pq dq by (auto simp: set_remove1_eq)
  have tx: "axi_bus_beats_progress (txs s' ! r) = axi_bus_beats_progress (txs s ! r)"
    "tx_id (txs s' ! r) = tx_id (txs s ! r)" "beat_ok (txs s' ! r) = beat_ok (txs s ! r)" for r
    using p(1) by (simp_all add: sel nth_list_update issue_def beat_ok_def)
  have un: "set q \<union> insert p (held (in_flight_writes s)) = set (ddr_write_q s) \<union> held (in_flight_writes s)"
    using qs(3) by auto
  have "waiting s' = waiting s" unfolding waiting_def tx unfolding sel un ..
  then have out: "outstanding s' = outstanding s" by (rule outstanding_cong [rotated]) (simp_all add: tx sel(3,9))
  have wp: "wptrs s' = wptrs s" unfolding wptrs_def sel using un by auto
  have "ptr_inv s'" using i(1) by (simp add: ptr_inv_def wp rptrs_def) (simp add: sel)
  moreover have "write_inv s'"
  proof -
    have "\<forall>r \<in> set q \<union> insert p (held (in_flight_writes s)). axi_bus_beats_progress (txs s ! r) \<le> 1"
      unfolding un using i(2) by (simp add: write_inv_def)
    then show ?thesis using i(2) qs(1,2) p(2) unfolding write_inv_def out tx unfolding sel by auto
  qed
  moreover have "read_inv s'" using i(3) p(1,3) by (auto simp: read_inv_def sel(1,5-7) nth_list_update rptrs_def)
  ultimately show ?thesis using out by (simp add: port_inv_def s'_def)
qed

lemma scan_reads_Some: "scan_reads c acc ts old ps = Some p \<Longrightarrow> p \<in> set ps"
  by (induction ps arbitrary: old) (auto split: if_splits)

lemma enqueue_ddr_read_inv:
  assumes "port_inv s"
  shows "port_inv (fst (enqueue_ddr_read c accept s)) \<and> same_writes s (fst (enqueue_ddr_read c accept s))"
proof (cases "scan_reads c accept (txs s) [] (ddr_read_q s)")
  case None
  then show ?thesis using assms by (simp add: enqueue_ddr_read_def)
next
  case (Some p)
  then have pq: "p \<in> set (ddr_read_q s)" by (rule scan_reads_Some)
  have i: "ptr_inv s" "write_inv s" "read_inv s" using assms by (simp_all add: port_inv_def)
  have p: "p < length (txs s)" "p \<notin> set (read_transactions s)" "p \<notin> wptrs s"
    using i(1,3) pq by (auto simp: ptr_inv_def rptrs_def read_inv_def)
  define s' where "s' = fst (enqueue_ddr_read c accept s)"
  define q where "q = ddr_read_q s'"
  have sel: "txs s' = (txs s)[p := issue (txs s ! p)]" "ddr_read_q s' = q"
    "read_transactions s' = read_transactions s" "held (in_flight_reads s') = insert p (held (in_flight_reads s))"
    and q: "q = (if dramsim_tx_finished (issue (txs s ! p)) then remove1 p (ddr_read_q s) else ddr_read_q s)"
    using p(1) by (simp_all add: q_def s'_def enqueue_ddr_read_def Some Let_def)
  have "txs s' ! r = txs s ! r" if "r \<in> wptrs s" for r
    using that p(3) by (metis sel(1) nth_list_update_neq)
  then have same: "same_writes s s'"
    by (simp add: same_writes_def) (simp add: s'_def enqueue_ddr_read_def Some Let_def)
  have dq: "distinct (ddr_read_q s)" using i(3) by (simp add: read_inv_def)
  have qs: "set q \<subseteq> set (ddr_read_q s)" "distinct q" "length q \<le> length (ddr_read_q s)"
    and fin: "p \<in> set q \<Longrightarrow> \<not> dramsim_tx_finished (issue (txs s ! p))"
    using q dq by (auto simp: set_remove1_eq length_remove1 split: if_splits)
  have "ptr_inv s'"
    using i(1) qs(1) pq unfolding ptr_inv_def same_writes_wptrs [OF same] rptrs_def sel by auto
  moreover have "read_inv s'"
    using i(3) qs p(1,2) fin by (auto simp: read_inv_def sel nth_list_update)
  ultimately show ?thesis using same_writes_inv [OF same i(2)] same by (simp add: port_inv_def s'_def)
qed


text \<open>A DRAM cycle drives no signal, and only adds to what the channels are about to send.\<close>

definition grows :: "mem_interface \<Rightarrow> mem_interface \<Rightarrow> bool" where
  "grows s s' \<longleftrightarrow>
     aw_ch s' = aw_ch s \<and> ar_ch s' = ar_ch s \<and> w_ch s' = w_ch s \<and> r_ch s' = r_ch s \<and>
     b_ready_field (b_ch s') = b_ready_field (b_ch s) \<and> b_valid_field (b_ch s') = b_valid_field (b_ch s) \<and>
     b_id_field (b_ch s') = b_id_field (b_ch s) \<and> send_ids (b_ch s') = send_ids (b_ch s) \<and>
     num_in_flight_writes s' = num_in_flight_writes s \<and> write_transactions s' = write_transactions s \<and>
     (\<exists>n. read_transactions s' = read_transactions s @ n) \<and>
     (\<forall>p \<in> set (read_transactions s). txs s' ! p = txs s ! p) \<and>
     length (ddr_read_q s') \<le> length (ddr_read_q s)"

lemma grows_refl [simp]: "grows s s"
  by (simp add: grows_def)

lemma grows_trans: "grows s s' \<Longrightarrow> grows s' s'' \<Longrightarrow> grows s s''"
  unfolding grows_def by (auto simp: ball_Un)

lemma grows_sig: "grows s s' \<Longrightarrow> sig_inv s \<Longrightarrow> sig_inv s'"
  unfolding sig_inv_def grows_def aw_sig_def ar_sig_def b_sig_def r_sig_def Let_def
  by (clarsimp simp: hd_append)

lemma nth_list_update_other: "p \<notin> A \<Longrightarrow> q \<in> A \<Longrightarrow> xs[p := x] ! q = xs ! q"
  by (metis nth_list_update_neq)

lemma write_callback_grows:
  assumes "port_inv s" "in_flight_writes s a = Some (p # ps)"
  shows "on_Inr (grows s) (write_callback a s)"
proof -
  have "p \<in> wptrs s" using held_pop [of "in_flight_writes s" a p ps] assms(2) by (auto simp: wptrs_def)
  then have "p < length (txs s)" "p \<notin> set (read_transactions s)"
    using assms(1) by (auto simp: port_inv_def ptr_inv_def rptrs_def)
  then show ?thesis
    using write_callback_eq [of s a p ps] assms(2) by (auto simp: grows_def nth_list_update)
qed

lemma enqueue_ddr_write_grows:
  assumes "port_inv s"
  shows "grows s (fst (enqueue_ddr_write c accept s))"
proof (cases "find (\<lambda>p. accept (dimm_addr c (txs s ! p))) (ddr_write_q s)")
  case None
  then show ?thesis by (simp add: enqueue_ddr_write_def)
next
  case (Some p)
  then have "p \<in> wptrs s" by (auto simp: find_Some_iff wptrs_def)
  then have "p \<notin> set (read_transactions s)" using assms by (auto simp: port_inv_def ptr_inv_def rptrs_def)
  then show ?thesis by (auto simp: grows_def enqueue_ddr_write_def Some Let_def nth_list_update_other)
qed

lemma enqueue_ddr_read_grows:
  assumes "port_inv s"
  shows "grows s (fst (enqueue_ddr_read c accept s))"
proof (cases "scan_reads c accept (txs s) [] (ddr_read_q s)")
  case None
  then show ?thesis by (simp add: enqueue_ddr_read_def)
next
  case (Some p)
  then have "p \<in> set (ddr_read_q s)" by (rule scan_reads_Some)
  then have "p \<notin> set (read_transactions s)" using assms by (auto simp: port_inv_def read_inv_def)
  then show ?thesis by (auto simp: grows_def enqueue_ddr_read_def Some Let_def nth_list_update_other length_remove1)
qed

lemma fold_enqueue_read:
  "fold enqueue_read bs s =
     s\<lparr>txs := txs s @ bs, read_transactions := read_transactions s @ [length (txs s)..<length (txs s) + length bs]\<rparr>"
  by (induction bs rule: rev_induct) (simp_all add: enqueue_read_def)

lemma emit_beats_ok: "on_Inr (\<lambda>(t', bs). \<forall>b \<in> set bs. beat_ok b) (emit_beats c n t)"
proof (induction n arbitrary: t)
  case (Suc n)
  have "beat_ok (beat_of c t)" by (simp add: beat_ok_def beat_of_def new_transaction_def Let_def)
  with Suc show ?case
    by (cases "dramsim_hasBeatReady c t"; cases "emit_beats c n (next_beat t)")
      (auto dest!: on_InrD [OF Suc])
qed simp

lemma emit_beats_finished: "on_Inr (\<lambda>(t', bs). dramsim_tx_finished t' = dramsim_tx_finished t) (emit_beats c n t)"
proof (induction n arbitrary: t)
  case (Suc n)
  have "dramsim_tx_finished (next_beat t) = dramsim_tx_finished t" by (simp add: next_beat_def dramsim_tx_finished_def)
  then show ?case
    by (cases "dramsim_hasBeatReady c t"; cases "emit_beats c n (next_beat t)") (auto dest!: on_InrD [OF Suc])
qed simp

lemma retrieve_finished: "on_Inr (\<lambda>(t', bs). dramsim_tx_finished t' = dramsim_tx_finished t) (retrieve c a t)"
proof (cases "mark_retrieved c a t")
  case (Inr t1)
  then have "dramsim_tx_finished t1 = dramsim_tx_finished t"
    by (auto simp: mark_retrieved_def Let_def dramsim_tx_finished_def split: if_splits)
  then show ?thesis
    using emit_beats_finished [of t1 c "nat (int (axi_bus_beats_length c t1) - axi_bus_beats_progress t1)"]
    by (simp add: retrieve_def Inr)
qed (simp add: retrieve_def)

lemma retrieve_ok: "on_Inr (\<lambda>(t', bs). \<forall>b \<in> set bs. beat_ok b) (retrieve c a t)"
  by (cases "mark_retrieved c a t") (simp_all add: retrieve_def emit_beats_ok)

lemma read_callback_inv:
  assumes "port_inv s" and "in_flight_reads s a = Some (p # ps)"
  shows "on_Inr (\<lambda>s'. port_inv s' \<and> same_writes s s' \<and> grows s s') (read_callback c a s)"
proof (cases "retrieve c a (txs s ! p)")
  case (Inl e)
  then show ?thesis by (simp add: read_callback_def assms(2))
next
  case (Inr tb)
  obtain t bs where tb: "tb = (t, bs)" by (cases tb)
  have bs: "\<forall>b \<in> set bs. beat_ok b" using retrieve_ok [of c a "txs s ! p"] Inr tb by simp
  define h' where "h' = held ((in_flight_reads s)(a \<mapsto> ps))"
  have h: "held (in_flight_reads s) = insert p h'"
    using held_pop [of "in_flight_reads s" a p ps] assms(2) by (simp add: h'_def)
  have i: "ptr_inv s" "write_inv s" "read_inv s" using assms(1) by (simp_all add: port_inv_def)
  have p: "p < length (txs s)" "p \<notin> set (read_transactions s)" "p \<notin> wptrs s"
    using i(1,3) h by (auto simp: ptr_inv_def rptrs_def read_inv_def)
  define n where "n = length (txs s)"
  have lt: "wptrs s \<union> rptrs s \<subseteq> {..<n}" using i(1) by (simp add: ptr_inv_def n_def)
  define s' where "s' = (fold enqueue_read bs (upd_tx p (\<lambda>_. t) s))\<lparr>in_flight_reads := (in_flight_reads s)(a \<mapsto> ps)\<rparr>"
  have sel: "txs s' = (txs s)[p := t] @ bs" "read_transactions s' = read_transactions s @ [n..<n + length bs]"
    "ddr_read_q s' = ddr_read_q s" "held (in_flight_reads s') = h'"
    by (simp_all add: s'_def h'_def fold_enqueue_read n_def)
  have tx: "txs s' ! q = txs s ! q" if "q < n" "q \<noteq> p" for q
    using that by (simp add: sel nth_append n_def)
  have tw: "\<forall>q \<in> wptrs s. txs s' ! q = txs s ! q" and tr: "\<forall>q \<in> set (read_transactions s). txs s' ! q = txs s ! q"
    using lt p(2,3) tx by (auto simp: rptrs_def subset_iff)
  have "same_writes s s'"
    using tw by (simp add: same_writes_def) (simp add: s'_def fold_enqueue_read)
  moreover have "grows s s'"
    using tr by (simp add: grows_def) (simp add: s'_def fold_enqueue_read)
  moreover have "ptr_inv s'"
    using i(1) h lt unfolding ptr_inv_def same_writes_wptrs [OF \<open>same_writes s s'\<close>]
    by (auto simp: rptrs_def sel n_def)
  moreover have "read_inv s'"
  proof -
    have "beat_ok (txs s' ! q)" if "q \<in> set (read_transactions s')" for q
    proof (cases "q < n")
      case True
      then have "q \<in> set (read_transactions s)" using that by (auto simp: sel)
      moreover from this p(2) have "q \<noteq> p" by blast
      ultimately show ?thesis using True tx i(3) by (simp add: read_inv_def)
    next
      case False
      then have "txs s' ! q = bs ! (q - n)" "q - n < length bs" using that lt by (auto simp: sel nth_append n_def rptrs_def)
      then show ?thesis using bs by simp
    qed
    moreover have "dramsim_tx_finished (txs s' ! q) = dramsim_tx_finished (txs s ! q)" if "q \<in> set (ddr_read_q s)" for q
    proof (cases "q = p")
      case True
      then show ?thesis using retrieve_finished [of "txs s ! p" c a] Inr tb p(1) by (simp add: sel nth_append)
    next
      case False
      then show ?thesis using that lt tx [of q] by (auto simp: rptrs_def)
    qed
    ultimately show ?thesis using i(3) h lt by (auto simp: read_inv_def sel(2-4) rptrs_def)
  qed
  ultimately show ?thesis
    using same_writes_inv [OF _ i(2)] by (simp add: read_callback_def assms(2) Inr tb port_inv_def s'_def)
qed

section \<open>The AXI channels\<close>

lemma on_Inr_andThen_pair:
  "on_Inr (\<lambda>(a, b). P a b) m \<Longrightarrow> (\<And>a b. P a b \<Longrightarrow> on_Inr Q (f (a, b))) \<Longrightarrow> on_Inr Q (andThen m f)"
  by (cases m) auto

definition same_core :: "mem_interface \<Rightarrow> mem_interface \<Rightarrow> bool" where
  "same_core s s' \<longleftrightarrow>
     txs s' = txs s \<and> in_flight_reads s' = in_flight_reads s \<and> in_flight_writes s' = in_flight_writes s \<and>
     ddr_read_q s' = ddr_read_q s \<and> ddr_write_q s' = ddr_write_q s \<and>
     write_transactions s' = write_transactions s \<and> read_transactions s' = read_transactions s \<and>
     num_in_flight_writes s' = num_in_flight_writes s \<and>
     send_ids (b_ch s') = send_ids (b_ch s) \<and> to_enqueue (b_ch s') = to_enqueue (b_ch s)"

lemma same_core_inv: "same_core s s' \<Longrightarrow> port_inv s \<Longrightarrow> port_inv s' \<and> outstanding s' = outstanding s"
  by (simp add: same_core_def port_inv_def ptr_inv_def wptrs_def rptrs_def write_inv_def read_inv_def
      outstanding_def waiting_def)

lemma r_handshake_inv:
  assumes "port_inv s" "r_sig s"
  shows "\<exists>s' g'. r_handshake c (s, g) = Inr (s', g') \<and> port_inv s' \<and> same_writes s s' \<and>
    aw_ch s' = aw_ch s \<and> ar_ch s' = ar_ch s \<and> w_ch s' = w_ch s \<and> b_ch s' = b_ch s \<and> ddr_read_q s' = ddr_read_q s \<and>
    read_transactions s' = (if data_fire (r_ch s) then tl (read_transactions s) else read_transactions s) \<and>
    at_map g' = at_map g \<and> host g' = host g"
proof (cases "data_fire (r_ch s)")
  case False
  then show ?thesis using assms(1) by (simp add: r_handshake_def)
next
  case True
  then obtain p ps where ps: "read_transactions s = p # ps" and l: "d_last (r_ch s) \<noteq> 0 \<longleftrightarrow> can_be_last (txs s ! p)"
    using assms(2) by (cases "read_transactions s") (auto simp: r_sig_def data_fire_def Let_def)
  let ?f = "\<lambda>t. t\<lparr>axi_bus_beats_progress := axi_bus_beats_progress t + 1,
                  tx_addr := (if tx_fixed t then tx_addr t else tx_addr t + of_nat (tx_size t))\<rparr>"
  define s' where "s' = (upd_tx p ?f s)\<lparr>read_transactions := ps\<rparr>"
  have i: "ptr_inv s" "write_inv s" "read_inv s" using assms(1) by (simp_all add: port_inv_def)
  have p: "p \<notin> wptrs s" "p \<notin> set ps" using i(1,3) ps by (auto simp: ptr_inv_def rptrs_def read_inv_def)
  have same: "same_writes s s'" using p(1) by (auto simp: same_writes_def s'_def nth_list_update_other)
  have "ptr_inv s'"
    using i(1) ps unfolding ptr_inv_def same_writes_wptrs [OF same] by (auto simp: rptrs_def s'_def)
  moreover have "read_inv s'"
    using i(3) ps p(2) by (auto simp: read_inv_def s'_def nth_list_update_other)
  ultimately have "port_inv s'" using same_writes_inv [OF same i(2)] by (simp add: port_inv_def)
  with same show ?thesis using True ps l by (simp add: r_handshake_def Let_def s'_def)
qed

lemma ar_handshake_inv:
  assumes "port_inv s" "ar_sig s"
  shows "on_Inr (\<lambda>(s', g'). port_inv s' \<and> same_writes s s' \<and> g' = g \<and>
    aw_ch s' = aw_ch s \<and> w_ch s' = w_ch s \<and> b_ch s' = b_ch s) (ar_handshake c (s, g))"
proof (cases "addr_fire (ar_ch s) \<and> (\<exists>ad. translate (at_map g) (getAddr (ar_ch s)) = Inr ad \<and> ad \<noteq> 0)")
  case False
  then show ?thesis using assms(1) by (auto simp: ar_handshake_def on_Inr_def split: sum.splits)
next
  case True
  then obtain ad where ad: "addr_fire (ar_ch s)" "translate (at_map g) (getAddr (ar_ch s)) = Inr ad" "ad \<noteq> 0" by auto
  define n t where "n = length (txs s)" and "t = requested c False ad (ar_ch s)"
  define s' where "s' = s\<lparr>txs := txs s @ [t], ddr_read_q := ddr_read_q s @ [n]\<rparr>"
  have i: "ptr_inv s" "write_inv s" "read_inv s" using assms(1) by (simp_all add: port_inv_def)
  have lt: "wptrs s \<union> rptrs s \<subseteq> {..<n}" using i(1) by (simp add: ptr_inv_def n_def)
  have room: "length (ddr_read_q s) < max_q_length" using assms(2) ad(1) by (simp add: ar_sig_def addr_fire_def)
  have new: "\<not> dramsim_tx_finished t"
    by (simp add: t_def requested_def new_transaction_def dramsim_tx_finished_def Let_def)
  have same: "same_writes s s'" using lt by (auto simp: same_writes_def s'_def nth_append n_def)
  have "ptr_inv s'"
    using i(1) lt unfolding ptr_inv_def same_writes_wptrs [OF same] by (auto simp: rptrs_def s'_def n_def)
  moreover have "read_inv s'"
    using i(3) lt room new by (auto simp: read_inv_def s'_def nth_append n_def rptrs_def)
  ultimately have "port_inv s'" using same_writes_inv [OF same i(2)] by (simp add: port_inv_def)
  with same show ?thesis using ad by (simp add: ar_handshake_def s'_def n_def t_def)
qed

lemma b_handshake_inv:
  assumes "port_inv s" "b_sig s"
  shows "\<exists>s'. b_handshake (s, g) = Inr (s', g) \<and> port_inv s' \<and>
    outstanding s = (if resp_fire (b_ch s) then {#hd (send_ids (b_ch s))#} else {#}) + outstanding s' \<and>
    num_in_flight_writes s' \<le> num_in_flight_writes s \<and>
    aw_ch s' = aw_ch s \<and> w_ch s' = w_ch s \<and> write_transactions s' = write_transactions s"
proof (cases "resp_fire (b_ch s)")
  case False
  then show ?thesis using assms(1) by (simp add: b_handshake_def)
next
  case True
  then obtain j js where js: "send_ids (b_ch s) = j # js"
    using assms(2) by (cases "send_ids (b_ch s)") (auto simp: b_sig_def resp_fire_def)
  define s' where "s' = s\<lparr>b_ch := (b_ch s)\<lparr>send_ids := js\<rparr>, num_in_flight_writes := num_in_flight_writes s - 1\<rparr>"
  have w: "waiting s' = waiting s" by (simp add: waiting_def s'_def)
  have out: "outstanding s = add_mset j (outstanding s')"
    by (simp add: outstanding_def w) (simp add: s'_def js)
  have i: "ptr_inv s" "write_inv s" "read_inv s" using assms(1) by (simp_all add: port_inv_def)
  have "ptr_inv s'" "read_inv s'"
    using i(1,3) by (simp_all add: ptr_inv_def wptrs_def rptrs_def read_inv_def s'_def)
  moreover have "write_inv s'"
    using i(2) by (simp add: write_inv_def out) (simp add: s'_def)
  ultimately show ?thesis using True js out by (simp add: b_handshake_def port_inv_def s'_def)
qed

lemma aw_handshake_inv:
  assumes "port_inv s" "aw_sig s"
  shows "on_Inr (\<lambda>(s', g'). port_inv s' \<and> g' = g \<and> r_ch s' = r_ch s \<and> b_ch s' = b_ch s \<and>
    read_transactions s' = read_transactions s \<and> (\<forall>p < length (txs s). txs s' ! p = txs s ! p) \<and>
    outstanding s' = outstanding s
      + (if addr_fire (aw_ch s) then {#ucast (wrapper_get (id_field (aw_ch s)))#} else {#}))
    (aw_handshake c (s, g))"
proof (cases "addr_fire (aw_ch s) \<and> (\<exists>ad. translate (at_map g) (getAddr (aw_ch s)) = Inr ad \<and> ad \<noteq> 0)")
  case False
  then show ?thesis using assms(1) by (auto simp: aw_handshake_def on_Inr_def split: sum.splits)
next
  case True
  then obtain ad where ad: "addr_fire (aw_ch s)" "translate (at_map g) (getAddr (aw_ch s)) = Inr ad" "ad \<noteq> 0" by auto
  define n t where "n = length (txs s)" and "t = requested c (wrapper_get (burst_field (aw_ch s)) = 0) ad (aw_ch s)"
  have tid: "tx_id t = ucast (wrapper_get (id_field (aw_ch s)))"
    by (simp add: t_def requested_def new_transaction_def Let_def)
  define s' where "s' = s\<lparr>txs := txs s @ [t], write_transactions := write_transactions s @ [n],
     num_in_flight_writes := num_in_flight_writes s + 1\<rparr>"
  have i: "ptr_inv s" "write_inv s" "read_inv s" using assms(1) by (simp_all add: port_inv_def)
  have lt: "wptrs s \<union> rptrs s \<subseteq> {..<n}" using i(1) by (simp add: ptr_inv_def n_def)
  have tx: "txs s' ! p = txs s ! p" if "p < n" for p using that by (simp add: s'_def nth_append n_def)
  have w: "waiting s' = waiting s"
    using lt by (auto simp: waiting_def s'_def nth_append n_def wptrs_def)
  have "image_mset (\<lambda>p. tx_id (txs s' ! p)) (mset (write_transactions s) + mset_set (waiting s))
      = image_mset (\<lambda>p. tx_id (txs s ! p)) (mset (write_transactions s) + mset_set (waiting s))"
    by (rule image_mset_cong) (use lt tx waiting_wptrs in \<open>auto dest!: elem_mset_set_D simp: subset_iff\<close>)
  then have out: "outstanding s' = add_mset (tx_id t) (outstanding s)"
    by (simp add: outstanding_def w) (simp add: s'_def n_def)
  have room: "num_in_flight_writes s < max_in_flight_writes" using assms(2) ad(1) by (simp add: aw_sig_def addr_fire_def)
  have "ptr_inv s'" using i(1) lt by (auto simp: ptr_inv_def wptrs_def rptrs_def s'_def n_def)
  moreover have "write_inv s'"
    using i(2) lt room by (auto simp: write_inv_def out) (auto simp: s'_def nth_append n_def wptrs_def)
  moreover have "read_inv s'"
    using i(3) lt by (auto simp: read_inv_def s'_def nth_append n_def rptrs_def)
  ultimately have "port_inv s'" by (simp add: port_inv_def)
  then show ?thesis using ad out tx by (simp add: aw_handshake_def s'_def n_def t_def tid [unfolded t_def])
qed


lemma outstanding_move:
  assumes "ptr_inv s" "p \<notin> waiting s" "write_transactions s = p # ps"
    and "write_transactions s' = ps" "waiting s' = insert p (waiting s)" "b_ch s' = b_ch s"
    and "\<And>q. q \<in> wptrs s \<Longrightarrow> tx_id (txs s' ! q) = tx_id (txs s ! q)"
  shows "outstanding s' = outstanding s"
proof -
  have "image_mset (\<lambda>q. tx_id (txs s' ! q)) (mset (write_transactions s) + mset_set (waiting s))
      = image_mset (\<lambda>q. tx_id (txs s ! q)) (mset (write_transactions s) + mset_set (waiting s))"
    by (rule image_mset_cong) (use assms(7) waiting_wptrs in \<open>auto dest!: elem_mset_set_D\<close>)
  then show ?thesis
    by (simp add: outstanding_def assms(3-6) finite_waiting [OF assms(1)] assms(2))
qed

text \<open>A beat moves the pointer into the buffer; the last one hands the transaction to the DRAM queue.\<close>

definition advance :: "memory_transaction \<Rightarrow> memory_transaction" where
  "advance t = t\<lparr>axi_bus_beats_progress := axi_bus_beats_progress t + 1,
                 tx_addr := (if tx_fixed t then tx_addr t else tx_addr t + of_nat (tx_size t))\<rparr>"

definition to_dram :: "memory_transaction \<Rightarrow> memory_transaction" where
  "to_dram t = (advance t)\<lparr>dram_tx_axi_enqueue_progress := 0, axi_bus_beats_progress := 1\<rparr>"

lemma advance_simps [simp]: "tx_id (advance t) = tx_id t" "tx_id (to_dram t) = tx_id t"
  "axi_bus_beats_progress (to_dram t) = 1"
  by (simp_all add: advance_def to_dram_def)

definition core_w_beat :: "mem_interface \<Rightarrow> mem_interface" where
  "core_w_beat s =
     (case write_transactions s of
        [] \<Rightarrow> s
      | p # ps \<Rightarrow>
          if \<not> data_fire (w_ch s) then s
          else if d_last (w_ch s) \<noteq> 0
          then s\<lparr>txs := (txs s)[p := to_dram (txs s ! p)], write_transactions := ps, ddr_write_q := ddr_write_q s @ [p]\<rparr>
          else s\<lparr>txs := (txs s)[p := advance (txs s ! p)]\<rparr>)"

lemma w_beat_core:
  assumes "port_inv s"
  shows "fst (w_beat c (s, g)) = (core_w_beat s)\<lparr>w_ch := w_ch (fst (w_beat c (s, g)))\<rparr>"
proof (cases "write_transactions s")
  case Nil
  then show ?thesis by (simp add: w_beat_def core_w_beat_def set_w_ready_def)
next
  case (Cons p ps)
  then have "p < length (txs s)" using assms by (simp add: port_inv_def ptr_inv_def wptrs_def)
  with Cons show ?thesis
    by (intro mem_interface.equality)
      (simp_all add: w_beat_def core_w_beat_def set_w_ready_def Let_def to_dram_def advance_def)
qed

lemma core_w_beat_last:
  assumes "port_inv s" "write_transactions s = p # ps"
  defines "s' \<equiv> s\<lparr>txs := (txs s)[p := to_dram (txs s ! p)], write_transactions := ps, ddr_write_q := ddr_write_q s @ [p]\<rparr>"
  shows "port_inv s' \<and> outstanding s' = outstanding s"
proof -
  have i: "ptr_inv s" "write_inv s" "read_inv s" using assms(1) by (simp_all add: port_inv_def)
  have p: "p < length (txs s)" "p \<notin> rptrs s" "p \<notin> set ps" "p \<notin> set (ddr_write_q s)" "p \<notin> held (in_flight_writes s)"
    using i(1,2) assms(2) by (auto simp: ptr_inv_def wptrs_def write_inv_def)
  have sel: "txs s' = (txs s)[p := to_dram (txs s ! p)]" "write_transactions s' = ps" "ddr_write_q s' = ddr_write_q s @ [p]"
    "in_flight_writes s' = in_flight_writes s" "b_ch s' = b_ch s" "num_in_flight_writes s' = num_in_flight_writes s"
    "ddr_read_q s' = ddr_read_q s" "read_transactions s' = read_transactions s" "in_flight_reads s' = in_flight_reads s"
    by (simp_all add: s'_def)
  have w: "waiting s' = insert p (waiting s)"
    using p(1,4,5) by (auto simp: waiting_def sel nth_list_update)
  have out: "outstanding s' = outstanding s"
    by (rule outstanding_move [OF i(1) _ assms(2)])
      (use p(1,4,5) in \<open>auto simp: w sel nth_list_update waiting_def\<close>)
  have "ptr_inv s'" using i(1) assms(2) by (auto simp: ptr_inv_def wptrs_def rptrs_def sel)
  moreover have "write_inv s'"
    using i(2) p assms(2) by (auto simp: write_inv_def out sel nth_list_update)
  moreover have "read_inv s'"
    using i(3) p(1,2) by (auto simp: read_inv_def sel nth_list_update rptrs_def)
  ultimately show ?thesis using out by (simp add: port_inv_def)
qed

lemma core_w_beat_more:
  assumes "port_inv s" "write_transactions s = p # ps"
  defines "s' \<equiv> s\<lparr>txs := (txs s)[p := advance (txs s ! p)]\<rparr>"
  shows "port_inv s' \<and> outstanding s' = outstanding s"
proof -
  have i: "ptr_inv s" "write_inv s" "read_inv s" using assms(1) by (simp_all add: port_inv_def)
  have p: "p < length (txs s)" "p \<notin> rptrs s" "p \<notin> set (ddr_write_q s)" "p \<notin> held (in_flight_writes s)"
    using i(1,2) assms(2) by (auto simp: ptr_inv_def wptrs_def write_inv_def)
  have sel: "txs s' = (txs s)[p := advance (txs s ! p)]" "write_transactions s' = write_transactions s"
    "ddr_write_q s' = ddr_write_q s" "in_flight_writes s' = in_flight_writes s" "b_ch s' = b_ch s"
    "num_in_flight_writes s' = num_in_flight_writes s" "ddr_read_q s' = ddr_read_q s"
    "read_transactions s' = read_transactions s" "in_flight_reads s' = in_flight_reads s"
    by (simp_all add: s'_def)
  have w: "waiting s' = waiting s" using p(3,4) by (auto simp: waiting_def sel nth_list_update_other)
  have out: "outstanding s' = outstanding s"
    by (rule outstanding_cong [OF sel(2) w]) (use p(1) in \<open>simp_all add: sel nth_list_update\<close>)
  have "ptr_inv s'" using i(1) by (simp add: ptr_inv_def wptrs_def rptrs_def sel)
  moreover have "write_inv s'" using i(2) p(1,3,4) by (auto simp: write_inv_def out sel nth_list_update)
  moreover have "read_inv s'" using i(3) p(1,2) by (auto simp: read_inv_def sel nth_list_update rptrs_def)
  ultimately show ?thesis using out by (simp add: port_inv_def)
qed

lemma core_w_beat_inv: "port_inv s \<Longrightarrow> port_inv (core_w_beat s) \<and> outstanding (core_w_beat s) = outstanding s"
  using core_w_beat_last core_w_beat_more by (simp add: core_w_beat_def split: list.split)

lemma core_w_beat_sel [simp]:
  "r_ch (core_w_beat s) = r_ch s" "b_ch (core_w_beat s) = b_ch s" "read_transactions (core_w_beat s) = read_transactions s"
  "aw_ch (core_w_beat s) = aw_ch s" "ar_ch (core_w_beat s) = ar_ch s"
  by (simp_all add: core_w_beat_def split: list.split)

lemma core_w_beat_reads:
  "port_inv s \<Longrightarrow> p \<in> set (read_transactions s) \<Longrightarrow> txs (core_w_beat s) ! p = txs s ! p"
  by (auto simp: core_w_beat_def port_inv_def ptr_inv_def wptrs_def rptrs_def nth_list_update split: list.split)


lemma r_drive_inv:
  assumes "port_inv s"
  shows "on_Inr (\<lambda>(s', g'). same_core s s' \<and> r_sig s' \<and> g' = g \<and> aw_ch s' = aw_ch s \<and> w_ch s' = w_ch s \<and> b_ch s' = b_ch s)
    (r_drive c (s, g))"
proof (cases "read_transactions s")
  case Nil
  then show ?thesis by (simp add: r_drive_def same_core_def r_sig_def)
next
  case (Cons p ps)
  then have "beat_ok (txs s ! p)" using assms by (simp add: port_inv_def read_inv_def)
  with Cons show ?thesis
    by (cases "put_words (host g) (tx_addr (txs s ! p)) (tx_size (txs s ! p) div 4) 0 (d_data (r_ch s))")
      (auto simp: r_drive_def same_core_def r_sig_def beat_ok_def shows_id_def wrapper_set_def Let_def)
qed

lemma b_drive_inv:
  fixes s :: mem_interface and g :: mem_globals
  assumes "port_inv s"
  defines "s' \<equiv> fst (b_drive (s, g))"
  shows "port_inv s' \<and> outstanding s' = outstanding s \<and> b_sig s' \<and> b_drive (s, g) = (s', g) \<and>
    txs s' = txs s \<and> read_transactions s' = read_transactions s \<and> num_in_flight_writes s' = num_in_flight_writes s \<and>
    aw_ch s' = aw_ch s \<and> w_ch s' = w_ch s \<and> r_ch s' = r_ch s"
proof -
  have sel: "txs s' = txs s" "write_transactions s' = write_transactions s" "ddr_write_q s' = ddr_write_q s"
    "in_flight_writes s' = in_flight_writes s" "num_in_flight_writes s' = num_in_flight_writes s"
    "ddr_read_q s' = ddr_read_q s" "read_transactions s' = read_transactions s" "in_flight_reads s' = in_flight_reads s"
    "aw_ch s' = aw_ch s" "w_ch s' = w_ch s" "r_ch s' = r_ch s"
    by (simp_all add: s'_def b_drive_def Let_def)
  have m: "mset (to_enqueue (b_ch s')) + mset (send_ids (b_ch s')) = mset (to_enqueue (b_ch s)) + mset (send_ids (b_ch s))"
    by (cases "send_ids (b_ch s)"; cases "to_enqueue (b_ch s)") (simp_all add: s'_def b_drive_def Let_def)
  have "waiting s' = waiting s" by (simp add: waiting_def sel)
  then have out: "outstanding s' = outstanding s" using m by (simp add: outstanding_def sel add.assoc)
  have "port_inv s'"
    using assms(1) by (simp add: port_inv_def ptr_inv_def wptrs_def rptrs_def read_inv_def write_inv_def out sel)
  moreover have "b_sig s'"
    by (cases "send_ids (b_ch s)"; cases "to_enqueue (b_ch s)")
      (simp_all add: s'_def b_drive_def Let_def b_sig_def shows_id_def wrapper_set_def)
  ultimately show ?thesis using out sel by (simp add: s'_def b_drive_def Let_def)
qed

text \<open>The ids a cycle accepts and answers, seen on the signals at its start.\<close>

definition accepted :: "mem_interface \<Rightarrow> u32 multiset" where
  "accepted s = (if addr_fire (aw_ch s) then {#ucast (wrapper_get (id_field (aw_ch s)))#} else {#})"

definition answered :: "mem_interface \<Rightarrow> u32 multiset" where
  "answered s = (if resp_fire (b_ch s) then {#hd (send_ids (b_ch s))#} else {#})"

lemma r_sig_cong:
  "r_sig s \<Longrightarrow> r_ch s' = r_ch s \<Longrightarrow> read_transactions s' = read_transactions s \<Longrightarrow>
   (\<And>p. p \<in> set (read_transactions s) \<Longrightarrow> txs s' ! p = txs s ! p) \<Longrightarrow> r_sig s'"
  by (simp add: r_sig_def Let_def)

lemma end_of_cycle:
  assumes "port_inv s" "b_sig s" "r_sig s"
  shows "on_Inr (\<lambda>(s', g'). port_inv s' \<and> sig_inv s' \<and> outstanding s' = outstanding s)
    (Inr (ready_drive (w_beat c (s, g))) :: mem_error + port_state)"
proof -
  obtain s1 g1 where w: "w_beat c (s, g) = (s1, g1)" by fastforce
  have s1: "s1 = (core_w_beat s)\<lparr>w_ch := w_ch s1\<rparr>" using w_beat_core [OF assms(1), of c g] w by simp
  have core: "same_core (core_w_beat s) s1" by (subst s1) (simp add: same_core_def)
  have inv: "port_inv s1" "outstanding s1 = outstanding s"
    using same_core_inv [OF core] core_w_beat_inv [OF assms(1)] by simp_all
  have sel: "r_ch s1 = r_ch s" "b_ch s1 = b_ch s" "read_transactions s1 = read_transactions s"
    "txs s1 = txs (core_w_beat s)"
    by (subst s1, simp)+
  have "r_sig s1" using assms(3) by (rule r_sig_cong) (simp_all add: sel core_w_beat_reads [OF assms(1)])
  moreover have "b_sig s1" using assms(2) by (simp add: b_sig_def sel)
  moreover obtain s2 where s2: "ready_drive (s1, g1) = (s2, g1)" by (simp add: ready_drive_def)
  have "same_core s1 s2" "r_ch s2 = r_ch s1" "b_ch s2 = b_ch s1" "aw_sig s2" "ar_sig s2"
    using s2 by (auto simp: ready_drive_def same_core_def aw_sig_def ar_sig_def setReady_def can_accept_read_def room_for_writes_def)
  moreover from this have "read_transactions s2 = read_transactions s1" "txs s2 = txs s1" by (simp_all add: same_core_def)
  ultimately have "sig_inv s2" by (simp add: sig_inv_def b_sig_def r_sig_def)
  then show ?thesis using same_core_inv [OF \<open>same_core s1 s2\<close>] inv w s2 by simp
qed

lemma port_update_inv:
  assumes "port_inv s" "aw_sig s" "b_sig s"
  shows "on_Inr (\<lambda>(s', g'). port_inv s' \<and> sig_inv s' \<and> answered s + outstanding s' = outstanding s + accepted s)
    (port_update c (s, g))"
proof -
  obtain s1 where s1: "b_handshake (s, g) = Inr (s1, g)" "port_inv s1" "outstanding s = answered s + outstanding s1"
    "num_in_flight_writes s1 \<le> num_in_flight_writes s" "aw_ch s1 = aw_ch s" "w_ch s1 = w_ch s"
    using b_handshake_inv [OF assms(1,3), of g] by (auto simp: answered_def)
  have rest: "on_Inr (\<lambda>(s', g'). port_inv s' \<and> sig_inv s' \<and> answered s + outstanding s' = outstanding s + accepted s)
      (andThen (aw_handshake c (b_drive (s2, g))) (\<lambda>p. Inr (ready_drive (w_beat c p))))"
    if s2: "same_core s1 s2" "r_sig s2" "aw_ch s2 = aw_ch s1" for s2
  proof -
    have i2: "port_inv s2" "outstanding s2 = outstanding s1" using same_core_inv [OF s2(1) s1(2)] by simp_all
    obtain s3 where s3: "b_drive (s2, g) = (s3, g)" "port_inv s3" "outstanding s3 = outstanding s2" "b_sig s3"
      "txs s3 = txs s2" "read_transactions s3 = read_transactions s2"
      "num_in_flight_writes s3 = num_in_flight_writes s2" "aw_ch s3 = aw_ch s2" "r_ch s3 = r_ch s2"
      using b_drive_inv [OF i2(1), of g] by blast
    have aw: "aw_sig s3"
      using assms(2) s1(4,5) s2(1,3) s3(7,8) by (auto simp: aw_sig_def same_core_def)
    have r3: "r_sig s3" using s2(2) by (rule r_sig_cong) (simp_all add: s3)
    have key: "on_Inr (\<lambda>(s', g'). port_inv s' \<and> sig_inv s' \<and> answered s + outstanding s' = outstanding s + accepted s)
        (Inr (ready_drive (w_beat c (s4, g))) :: mem_error + port_state)"
      if s4: "port_inv s4" "r_ch s4 = r_ch s3" "b_ch s4 = b_ch s3" "read_transactions s4 = read_transactions s3"
        "\<forall>p < length (txs s3). txs s4 ! p = txs s3 ! p"
        and o4: "outstanding s4 = outstanding s3
          + (if addr_fire (aw_ch s3) then {#ucast (wrapper_get (id_field (aw_ch s3)))#} else {#})" for s4
    proof -
      have "r_sig s4" using r3
        by (rule r_sig_cong) (use s3(2) in \<open>auto simp: s4 port_inv_def ptr_inv_def rptrs_def subset_iff\<close>)
      moreover have "b_sig s4" using s3(4) by (simp add: b_sig_def s4)
      moreover have "answered s + outstanding s4 = outstanding s + accepted s"
        using o4 s3(3,8) s2(3) s1(3,5) i2(2) by (simp add: accepted_def)
      ultimately show ?thesis by (intro on_Inr_mono [OF end_of_cycle [OF s4(1), of c g]]) auto
    qed
    show ?thesis
      unfolding s3(1)
      by (rule on_Inr_andThen_pair [OF aw_handshake_inv [OF s3(2) aw, of g c]])
        (elim conjE, hypsubst, rule key, assumption+)
  qed
  show ?thesis
    unfolding port_update_def s1(1) andThen_simps
    by (rule on_Inr_andThen_pair [OF r_drive_inv [OF s1(2), of g c]]) (elim conjE, hypsubst, rule rest, assumption+)
qed

section \<open>Whole cycles\<close>

lemma dram_callback_inv:
  assumes "port_inv s"
  shows "on_Inr (\<lambda>s'. port_inv s' \<and> grows s s' \<and> outstanding s' = outstanding s) (dram_callback c e s)"
proof (cases e)
  case (ReadDone a)
  show ?thesis
  proof (cases "\<exists>p ps. in_flight_reads s a = Some (p # ps)")
    case True
    then obtain p ps where "in_flight_reads s a = Some (p # ps)" by blast
    from read_callback_inv [OF assms this, of c] show ?thesis
      by (simp add: ReadDone) (auto elim!: on_Inr_mono simp: same_writes_outstanding)
  next
    case False
    then show ?thesis by (auto simp: ReadDone read_callback_def split: option.split list.split)
  qed
next
  case (WriteDone a)
  show ?thesis
  proof (cases "\<exists>p ps. in_flight_writes s a = Some (p # ps)")
    case True
    then obtain p ps where q: "in_flight_writes s a = Some (p # ps)" by blast
    show ?thesis
      using write_callback_inv [OF assms q] write_callback_grows [OF assms q]
      by (cases "write_callback a s") (simp_all add: WriteDone)
  next
    case False
    then show ?thesis by (auto simp: WriteDone write_callback_def split: option.split list.split)
  qed
qed

lemma dram_callbacks_inv:
  "port_inv s \<Longrightarrow> on_Inr (\<lambda>s'. port_inv s' \<and> grows s s' \<and> outstanding s' = outstanding s) (dram_callbacks c es s)"
proof (induction es arbitrary: s)
  case (Cons e es)
  show ?case
    by (simp, rule on_Inr_andThen [OF dram_callback_inv [OF Cons.prems, of c e]])
      (rule on_Inr_mono [OF Cons.IH], auto dest: grows_trans)
qed simp

lemma try_to_enqueue_ddr_inv:
  fixes s :: mem_interface and ar aw :: "u64 \<Rightarrow> bool" and c :: mem_config
  assumes "port_inv s"
  defines "s' \<equiv> fst (try_to_enqueue_ddr c ar aw s)"
  shows "port_inv s' \<and> grows s s' \<and> outstanding s' = outstanding s"
proof -
  define s1 where "s1 = fst (enqueue_ddr_read c ar s)"
  have s': "s' = fst (enqueue_ddr_write c aw s1)"
    by (simp add: s'_def s1_def try_to_enqueue_ddr_def split: prod.split)
  have 1: "port_inv s1" "same_writes s s1" using enqueue_ddr_read_inv [OF assms(1)] by (simp_all add: s1_def)
  have "grows s s'"
    unfolding s' by (rule grows_trans [OF _ enqueue_ddr_write_grows [OF 1(1)]])
      (simp add: s1_def enqueue_ddr_read_grows [OF assms(1)])
  then show ?thesis
    using enqueue_ddr_write_inv [OF 1(1), of c aw] same_writes_outstanding [OF 1(2)] by (simp add: s')
qed

lemma ddr_tick_inv:
  assumes "port_inv s"
  shows "on_Inr (\<lambda>s'. port_inv s' \<and> grows s s' \<and> outstanding s' = outstanding s) (ddr_tick c d s)"
  unfolding ddr_tick_def
  by (rule on_Inr_andThen [OF dram_callbacks_inv [OF assms]])
    (use try_to_enqueue_ddr_inv grows_trans in auto)

lemma grows_fires: "grows s s' \<Longrightarrow> accepted s' = accepted s \<and> answered s' = answered s"
  by (simp add: grows_def accepted_def answered_def resp_fire_def)

lemma over_ports_inv:
  assumes "\<And>s g. P s \<Longrightarrow> on_Inr (\<lambda>(s', g'). R s s') (f (s, g))"
  shows "list_all P ss \<Longrightarrow> on_Inr (\<lambda>(ss', g'). list_all2 R ss ss') (over_ports f ss g)"
proof (induction ss arbitrary: g)
  case (Cons s ss)
  show ?case
    by (simp, rule on_Inr_andThen_pair [OF assms [of s g]], use Cons.prems in simp, simp,
        rule on_Inr_andThen_pair [OF Cons.IH]) (use Cons.prems in simp_all)
qed simp

definition dram_rel :: "mem_interface \<Rightarrow> mem_interface \<Rightarrow> bool" where
  "dram_rel s s' \<longleftrightarrow> port_inv s' \<and> grows s s' \<and> outstanding s' = outstanding s"

lemma dram_rel_refl: "list_all port_inv ss \<Longrightarrow> list_all2 dram_rel ss ss"
  by (induction ss) (simp_all add: dram_rel_def)

lemma ddr_round_inv:
  "list_all port_inv ss \<Longrightarrow> on_Inr (list_all2 dram_rel ss) (ddr_round c ds ss)"
proof (induction c ds ss rule: ddr_round.induct)
  case (1 c d ds s ss)
  then show ?case
    by (simp, intro on_Inr_andThen [OF ddr_tick_inv [of s c d]], simp, intro on_Inr_andThen [OF "1.IH"])
      (simp_all add: dram_rel_def)
qed (simp_all add: dram_rel_refl)

lemma dram_rel_trans: "list_all2 dram_rel ss ss1 \<Longrightarrow> list_all2 dram_rel ss1 ss2 \<Longrightarrow> list_all2 dram_rel ss ss2"
  by (rule list_all2_trans [of dram_rel dram_rel dram_rel]) (auto simp: dram_rel_def intro: grows_trans)

lemma dram_rel_inv: "list_all2 dram_rel ss ss' \<Longrightarrow> list_all port_inv ss'"
  by (auto simp: list_all2_conv_all_nth list_all_length dram_rel_def)

lemma ddr_rounds_inv:
  "list_all port_inv ss \<Longrightarrow> on_Inr (list_all2 dram_rel ss) (ddr_rounds c rs ss)"
proof (induction rs arbitrary: ss)
  case (Cons r rs)
  show ?case
    by (simp, rule on_Inr_andThen [OF ddr_round_inv [OF Cons.prems]])
      (rule on_Inr_mono [OF Cons.IH [OF dram_rel_inv]], auto intro: dram_rel_trans)
qed (simp add: dram_rel_refl)

definition reads_rel :: "mem_interface \<Rightarrow> mem_interface \<Rightarrow> bool" where
  "reads_rel s s' \<longleftrightarrow> port_inv s' \<and> aw_sig s' \<and> b_sig s' \<and> outstanding s' = outstanding s \<and>
     accepted s' = accepted s \<and> answered s' = answered s"

lemma port_reads_inv:
  assumes "port_inv s \<and> sig_inv s"
  shows "on_Inr (\<lambda>(s', g'). reads_rel s s') (port_reads c (s, g))"
proof -
  obtain s1 g1 where s1: "r_handshake c (s, g) = Inr (s1, g1)" "port_inv s1" "same_writes s s1"
    "aw_ch s1 = aw_ch s" "ar_ch s1 = ar_ch s" "b_ch s1 = b_ch s" "ddr_read_q s1 = ddr_read_q s"
    using r_handshake_inv [of s c g] assms by (auto simp: sig_inv_def)
  have "ar_sig s1" using assms s1(5,7) by (simp add: sig_inv_def ar_sig_def)
  from ar_handshake_inv [OF s1(2) this, of g1 c] show ?thesis
    unfolding port_reads_def s1(1) andThen_simps
  proof (rule on_Inr_mono, clarify)
    fix s2
    assume s2: "port_inv s2" "same_writes s1 s2" "aw_ch s2 = aw_ch s1" "b_ch s2 = b_ch s1"
    have w: "same_writes s s2" using same_writes_trans [OF s1(3) s2(2)] .
    then show "reads_rel s s2"
      using s2 s1 assms same_writes_outstanding [OF w]
      by (simp add: reads_rel_def sig_inv_def aw_sig_def b_sig_def accepted_def answered_def same_writes_def)
  qed
qed

definition cycle_rel :: "mem_interface \<Rightarrow> mem_interface \<Rightarrow> bool" where
  "cycle_rel s s' \<longleftrightarrow> port_inv s' \<and> sig_inv s' \<and> answered s + outstanding s' = outstanding s + accepted s"

lemma tick_memory_inv:
  assumes "list_all (\<lambda>s. port_inv s \<and> sig_inv s) ss"
  shows "on_Inr (\<lambda>(ss', g'). list_all2 cycle_rel ss ss') (tick_memory c rs ss g)"
  unfolding tick_memory_def
proof (rule on_Inr_andThen)
  show "on_Inr (list_all2 dram_rel ss) (ddr_rounds c rs ss)"
    by (rule ddr_rounds_inv) (use assms in \<open>simp add: list_all_length\<close>)
next
  fix ss1
  assume d: "list_all2 dram_rel ss ss1"
  then have pre: "list_all (\<lambda>s. port_inv s \<and> sig_inv s) ss1"
    using assms grows_sig by (auto simp: list_all2_conv_all_nth list_all_length dram_rel_def)
  have "on_Inr (\<lambda>(ss2, g2). list_all2 reads_rel ss1 ss2) (over_ports (port_reads c) ss1 g)"
    by (rule over_ports_inv [OF _ pre]) (rule port_reads_inv)
  then show "on_Inr (\<lambda>(ss', g'). list_all2 cycle_rel ss ss')
      (andThen (over_ports (port_reads c) ss1 g) (\<lambda>(ss2, g2). over_ports (port_update c) ss2 g2))"
  proof (rule on_Inr_andThen_pair)
    fix ss2 g2
    assume r: "list_all2 reads_rel ss1 ss2"
    then have pre: "list_all (\<lambda>s. port_inv s \<and> aw_sig s \<and> b_sig s) ss2"
      by (auto simp: list_all2_conv_all_nth list_all_length reads_rel_def)
    have "on_Inr (\<lambda>(ss', g'). list_all2 cycle_rel ss2 ss') (over_ports (port_update c) ss2 g2)"
      by (rule over_ports_inv [OF _ pre]) (simp add: cycle_rel_def port_update_inv)
    then show "on_Inr (\<lambda>(ss', g'). list_all2 cycle_rel ss ss') (case (ss2, g2) of (ss2, g2) \<Rightarrow> over_ports (port_update c) ss2 g2)"
    proof (simp, elim on_Inr_mono, clarify)
      fix ss' g'
      assume u: "list_all2 cycle_rel ss2 ss'"
      show "list_all2 cycle_rel ss ss'"
      proof (rule list_all2_all_nthI)
        show "length ss = length ss'" using d r u by (simp add: list_all2_conv_all_nth)
        fix i assume "i < length ss"
        then have "dram_rel (ss ! i) (ss1 ! i)" "reads_rel (ss1 ! i) (ss2 ! i)" "cycle_rel (ss2 ! i) (ss' ! i)"
          using d r u by (simp_all add: list_all2_conv_all_nth)
        then show "cycle_rel (ss ! i) (ss' ! i)"
          using grows_fires [of "ss ! i" "ss1 ! i"] by (simp add: cycle_rel_def reads_rel_def dram_rel_def)
      qed
    qed
  qed
qed


section \<open>Runs\<close>

text \<open>
  A run alternates the hardware and the controller. With it go the ids of the writes accepted and
  answered at each port so far.
\<close>

type_synonym mem_run_state =
  "mem_interface list \<times> mem_globals \<times> (nat \<Rightarrow> u32 multiset) \<times> (nat \<Rightarrow> u32 multiset)"

fun mem_run ::
  "mem_config \<Rightarrow> ((nat \<Rightarrow> axi_master) \<times> dram_round list list) list \<Rightarrow> mem_run_state \<Rightarrow> mem_error + mem_run_state" where
  "mem_run c [] st = Inr st"
| "mem_run c ((ms, rs) # cs) (ss, g, acc, ans) =
     (let ss0 = map (\<lambda>i. drive (ms i) (ss ! i)) [0..<length ss]
      in andThen (tick_memory c rs ss0 g) (\<lambda>(ss', g').
           mem_run c cs (ss', g', \<lambda>i. acc i + accepted (ss0 ! i), \<lambda>i. ans i + answered (ss0 ! i))))"

text \<open>A port before the first cycle: nothing queued, nothing offered.\<close>

definition fresh_port :: "mem_interface \<Rightarrow> bool" where
  "fresh_port s \<longleftrightarrow> txs s = [] \<and> in_flight_reads s = Map.empty \<and> in_flight_writes s = Map.empty \<and>
     ddr_read_q s = [] \<and> ddr_write_q s = [] \<and> write_transactions s = [] \<and> read_transactions s = [] \<and>
     num_in_flight_writes s = 0 \<and> send_ids (b_ch s) = [] \<and> to_enqueue (b_ch s) = [] \<and>
     b_valid_field (b_ch s) = 0 \<and> d_valid (r_ch s) = 0"

lemma fresh_port_inv: "fresh_port s \<Longrightarrow> port_inv s \<and> sig_inv s \<and> outstanding s = {#}"
  by (simp add: fresh_port_def port_inv_def ptr_inv_def wptrs_def rptrs_def held_def write_inv_def read_inv_def
      outstanding_def waiting_def max_in_flight_writes_def sig_inv_def aw_sig_def ar_sig_def b_sig_def r_sig_def max_q_length_def)

lemma drive_inv:
  assumes "port_inv s" "sig_inv s"
  shows "port_inv (drive m s) \<and> sig_inv (drive m s) \<and> outstanding (drive m s) = outstanding s"
proof -
  have "same_core s (drive m s)" by (simp add: same_core_def drive_def)
  moreover have "sig_inv (drive m s)"
    using assms(2) by (simp add: sig_inv_def aw_sig_def ar_sig_def b_sig_def r_sig_def drive_def)
  ultimately show ?thesis using same_core_inv assms(1) by blast
qed

definition run_inv :: "mem_run_state \<Rightarrow> bool" where
  "run_inv = (\<lambda>(ss, g, acc, ans). \<forall>i < length ss. port_inv (ss ! i) \<and> sig_inv (ss ! i) \<and>
     acc i = outstanding (ss ! i) + ans i)"

lemma mem_run_inv: "run_inv st \<Longrightarrow> on_Inr run_inv (mem_run c cs st)"
proof (induction cs arbitrary: st)
  case (Cons msrs cs)
  obtain ms rs where msrs: "msrs = (ms, rs)" by (cases msrs)
  obtain ss g acc ans where st: "st = (ss, g, acc, ans)" by (cases st)
  note prems = Cons.prems [unfolded st]
  define ss0 where "ss0 = map (\<lambda>i. drive (ms i) (ss ! i)) [0..<length ss]"
  have pre: "list_all (\<lambda>s. port_inv s \<and> sig_inv s) ss0"
    using prems drive_inv by (auto simp: ss0_def list_all_length run_inv_def)
  have o0: "outstanding (ss0 ! i) = outstanding (ss ! i)" if "i < length ss" for i
    using that prems drive_inv by (auto simp: ss0_def run_inv_def)
  show ?case
    unfolding msrs st mem_run.simps Let_def ss0_def [symmetric]
  proof (rule on_Inr_andThen_pair [OF tick_memory_inv [OF pre, of c rs g]])
    fix ss' g'
    assume r: "list_all2 cycle_rel ss0 ss'"
    have l: "length ss' = length ss" "length ss0 = length ss" using r by (simp_all add: list_all2_conv_all_nth ss0_def)
    have "run_inv (ss', g', \<lambda>i. acc i + accepted (ss0 ! i), \<lambda>i. ans i + answered (ss0 ! i))"
    proof (clarsimp simp: run_inv_def l)
      fix i assume i: "i < length ss"
      then have "cycle_rel (ss0 ! i) (ss' ! i)" using r l by (simp add: list_all2_conv_all_nth)
      moreover have "acc i = outstanding (ss0 ! i) + ans i" using prems i o0 by (simp add: run_inv_def)
      ultimately show "port_inv (ss' ! i) \<and> sig_inv (ss' ! i) \<and>
          acc i + accepted (ss0 ! i) = outstanding (ss' ! i) + (ans i + answered (ss0 ! i))"
        by (simp add: cycle_rel_def) (metis add.assoc add.commute)
    qed
    then show "on_Inr run_inv (case (ss', g') of (ss', g') \<Rightarrow>
        mem_run c cs (ss', g', \<lambda>i. acc i + accepted (ss0 ! i), \<lambda>i. ans i + answered (ss0 ! i)))"
      using Cons.IH by simp
  qed
qed simp

lemma fresh_run_inv: "list_all fresh_port ss \<Longrightarrow> run_inv (ss, g, \<lambda>_. {#}, \<lambda>_. {#})"
  using fresh_port_inv by (auto simp: run_inv_def list_all_length)

end
