(* ===== verification/MemBurst.thy ===== *)
theory MemBurst
  imports MemPort
begin

text \<open>
  What the read call-back of the memory controller does with one burst: however the DRAM orders the
  accesses of the burst, its beats reach the read channel in order and complete.
\<close>

section \<open>Read data comes back in order\<close>

text \<open>The configurations \<^verbatim>\<open>mem_ctrl::init\<close> produces from a bus width the data bus is a multiple of.\<close>

definition mem_config_ok :: "mem_config \<Rightarrow> bool" where
  "mem_config_ok c \<longleftrightarrow> 0 < DDR_BUS_WIDTH_BYTES c \<and> 0 < TOTAL_BURST c \<and> 0 < axi_ddr_bus_multiplicity c \<and>
     data_bus_bytes c = axi_ddr_bus_multiplicity c * DDR_BUS_WIDTH_BYTES c \<and>
     DDR_ENQUEUE_SIZE_BYTES c = DDR_BUS_WIDTH_BYTES c * TOTAL_BURST c"

lemma mem_ctrl_init_ok:
  "mem_ctrl_init dbw found bw BL = Inr c \<Longrightarrow> 0 < BL \<Longrightarrow> bw div 8 dvd dbw div 8 \<Longrightarrow> mem_config_ok c"
  by (auto simp: mem_ctrl_init_def mem_config_ok_def Let_def dvd_div_eq_0_iff div_greater_zero_iff split: if_splits)

text \<open>The completions of one burst, one after the other, with the beats they release.\<close>

fun retrieve_all :: "mem_config \<Rightarrow> u64 list \<Rightarrow> memory_transaction \<Rightarrow> mem_error + (memory_transaction \<times> memory_transaction list)" where
  "retrieve_all c [] t = Inr (t, [])"
| "retrieve_all c (a # as) t =
     andThen (retrieve c a t) (\<lambda>(t1, bs). andThen (retrieve_all c as t1) (\<lambda>(t2, bs2). Inr (t2, bs @ bs2)))"

lemma parts_ready_eq:
  "0 < n \<Longrightarrow> start + n \<le> length got \<Longrightarrow> parts_ready got start n = Inr (\<forall>i < n. got ! (start + i))"
proof (induction got start n rule: parts_ready.induct)
  case (2 got start n)
  have "(\<forall>i < Suc n. got ! (start + i)) \<longleftrightarrow> got ! start \<and> (\<forall>i < n. got ! (Suc start + i))"
    by (simp add: All_less_Suc2)
  then show ?case using "2.IH" "2.prems" by (cases "n = 0") auto
qed simp

text \<open>The transaction \<open>t\<close> after its first \<open>m\<close> beats went out, with the parts \<open>got\<close> retrieved.\<close>

definition at_beat :: "memory_transaction \<Rightarrow> bool list \<Rightarrow> nat \<Rightarrow> nat \<Rightarrow> memory_transaction" where
  "at_beat t got loads m =
     t\<lparr>tx_addr := tx_addr t + of_nat (m * tx_size t), axi_bus_beats_progress := int m,
       dram_tx_load_progress := loads, ddr_bus_beats_retrieved := got\<rparr>"

definition beat_ready :: "mem_config \<Rightarrow> bool list \<Rightarrow> nat \<Rightarrow> bool" where
  "beat_ready c got k \<longleftrightarrow> (\<forall>i < axi_ddr_bus_multiplicity c. got ! (k * axi_ddr_bus_multiplicity c + i))"

lemma next_at_beat: "next_beat (at_beat t got ld m) = at_beat t got ld (Suc m)"
  by (simp add: next_beat_def at_beat_def algebra_simps)

lemma hasBeatReady_at_beat:
  assumes "mem_config_ok c" "m < axi_bus_beats_length c t" "length got = axi_bus_beats_length c t * axi_ddr_bus_multiplicity c"
  shows "dramsim_hasBeatReady c (at_beat t got ld m) = Inr (beat_ready c got m)"
proof -
  have "m * axi_ddr_bus_multiplicity c + axi_ddr_bus_multiplicity c \<le> length got"
    using assms(2,3) by (metis Suc_leI mult_le_mono1 mult_Suc add.commute)
  then show ?thesis
    using assms by (simp add: dramsim_hasBeatReady_def at_beat_def axi_bus_beats_length_def mem_config_ok_def
        parts_ready_eq beat_ready_def)
qed

lemma emit_beats_eq:
  assumes "mem_config_ok c" "length got = axi_bus_beats_length c t * axi_ddr_bus_multiplicity c"
    "m \<le> axi_bus_beats_length c t"
  shows "emit_beats c (axi_bus_beats_length c t - m) (at_beat t got ld m)
    = (let ks = takeWhile (beat_ready c got) [m..<axi_bus_beats_length c t]
       in Inr (at_beat t got ld (m + length ks), map (\<lambda>k. beat_of c (at_beat t got ld k)) ks))"
  using assms(3)
proof (induction "axi_bus_beats_length c t - m" arbitrary: m)
  case (Suc n)
  then have m: "m < axi_bus_beats_length c t" by simp
  from Suc.hyps(2) have "n = axi_bus_beats_length c t - Suc m" by simp
  with m have IH: "emit_beats c n (at_beat t got ld (Suc m))
    = (let ks = takeWhile (beat_ready c got) [Suc m..<axi_bus_beats_length c t]
       in Inr (at_beat t got ld (Suc m + length ks), map (\<lambda>k. beat_of c (at_beat t got ld k)) ks))"
    using Suc.hyps(1) [of "Suc m"] by simp
  have up: "[m..<axi_bus_beats_length c t] = m # [Suc m..<axi_bus_beats_length c t]" using m by (rule upt_conv_Cons)
  show ?case
    unfolding Suc.hyps(2) [symmetric] emit_beats.simps hasBeatReady_at_beat [OF assms(1) m assms(2)] next_at_beat IH up
    by (simp add: Let_def)
qed simp


text \<open>The parts of \<open>n\<close> accesses of \<open>b\<close> parts each that have arrived when the accesses \<open>D\<close> are complete.\<close>

definition arrived :: "nat \<Rightarrow> nat \<Rightarrow> nat set \<Rightarrow> bool list" where
  "arrived b n D = map (\<lambda>i. i div b \<in> D) [0..<n * b]"

lemma arrived_mark:
  assumes "0 < b" "j < n"
  shows "take (j * b) (arrived b n D) @ replicate b True @ drop (j * b + b) (arrived b n D) = arrived b n (insert j D)"
proof (rule nth_equalityI)
  have le: "j * b + b \<le> n * b" using assms(2) by (metis Suc_leI mult_le_mono1 mult_Suc add.commute)
  show "length (take (j * b) (arrived b n D) @ replicate b True @ drop (j * b + b) (arrived b n D)) = length (arrived b n (insert j D))"
    using le by (simp add: arrived_def)
  fix i
  assume "i < length (take (j * b) (arrived b n D) @ replicate b True @ drop (j * b + b) (arrived b n D))"
  then have i: "i < n * b" using le by (simp add: arrived_def)
  have d: "i div b = j \<longleftrightarrow> j * b \<le> i \<and> i < j * b + b"
    using assms(1) by (metis add.commute div_nat_eqI dividend_less_times_div less_Suc_eq_le mult.commute mult_Suc
        times_div_less_eq_dividend)
  have mn: "min (n * b) (j * b) = j * b" using le by simp
  consider "i < j * b" | "j * b \<le> i" "i < j * b + b" | "j * b + b \<le> i" by linarith
  then show "(take (j * b) (arrived b n D) @ replicate b True @ drop (j * b + b) (arrived b n D)) ! i = arrived b n (insert j D) ! i"
    using i le d mn by cases (simp_all add: arrived_def nth_append, linarith+)
qed

lemma arrived_base:
  assumes "x * e < 2 ^ 31" "0 < w" "e = w * b"
  shows "sint (ucast ((of_nat (x * e) :: u64)) :: 32 word) sdiv int w = int (x * b)"
proof -
  have "sint (ucast (of_nat y :: u64) :: 32 word) = int y" if "y < 2 ^ 31" for y
  proof -
    have "uint (ucast (of_nat y :: u64) :: 32 word) = int y"
      using that by (simp add: unsigned_ucast_eq unsigned_of_nat take_bit_int_eq_self take_bit_nat_eq_self)
    then show ?thesis using that by (simp add: sint_uint signed_take_bit_int_eq_self)
  qed
  from this [OF assms(1)] have "sint (ucast ((of_nat (x * e) :: u64)) :: 32 word) = int (x * e)" .
  then show ?thesis using assms(2,3) by (simp add: signed_divide_int_def sgn_if)
qed


text \<open>A full-width burst whose length is a whole number of DRAM accesses.\<close>

definition whole_burst :: "mem_config \<Rightarrow> nat \<Rightarrow> nat \<Rightarrow> bool" where
  "whole_burst c len n \<longleftrightarrow> 0 < n \<and> len * data_bus_bytes c = n * DDR_ENQUEUE_SIZE_BYTES c \<and>
     n * DDR_ENQUEUE_SIZE_BYTES c < 2 ^ 31"

lemma whole_burst_facts:
  assumes "mem_config_ok c" "whole_burst c len n"
    and t_def: "t = new_transaction c a (data_bus_bytes c) len 0 False i f False"
  shows "axi_bus_beats_length c t = len" "len * axi_ddr_bus_multiplicity c = n * TOTAL_BURST c"
    "t = at_beat t (arrived (TOTAL_BURST c) n {}) 0 0" "dram_tx_n_enqueues t = n"
proof -
  have B: "0 < data_bus_bytes c" "0 < DDR_ENQUEUE_SIZE_BYTES c" using assms(1) by (simp_all add: mem_config_ok_def)
  have "(len * axi_ddr_bus_multiplicity c) * DDR_BUS_WIDTH_BYTES c = (n * TOTAL_BURST c) * DDR_BUS_WIDTH_BYTES c"
    using assms(1,2) by (simp add: mem_config_ok_def whole_burst_def algebra_simps)
  then show l: "len * axi_ddr_bus_multiplicity c = n * TOTAL_BURST c" using assms(1) by (simp add: mem_config_ok_def)
  show "axi_bus_beats_length c t = len"
    using B by (simp add: axi_bus_beats_length_def t_def new_transaction_def Let_def)
  have n: "len * data_bus_bytes c div DDR_ENQUEUE_SIZE_BYTES c = n" using assms(2) B by (simp add: whole_burst_def)
  have "0 < n" using assms(2) by (simp add: whole_burst_def)
  with n show "t = at_beat t (arrived (TOTAL_BURST c) n {}) 0 0" "dram_tx_n_enqueues t = n"
    by (simp_all add: t_def new_transaction_def Let_def at_beat_def arrived_def map_replicate_const)
qed

lemma takeWhile_upt_mono:
  assumes "\<And>k. P k \<Longrightarrow> Q k"
  shows "takeWhile Q [0..<n] = takeWhile P [0..<n] @ takeWhile Q [length (takeWhile P [0..<n])..<n]"
proof -
  define m where "m = length (takeWhile P [0..<n])"
  have m: "m \<le> n" using length_takeWhile_le [of P "[0..<n]"] by (simp add: m_def)
  have tw: "takeWhile P [0..<n] = [0..<m]"
    using m by (metis m_def takeWhile_eq_take take_upt add_0 diff_zero le_add_diff_inverse length_upt)
  have "\<forall>k \<in> set [0..<m]. Q k" using assms tw by (metis set_takeWhileD)
  then have "takeWhile Q ([0..<m] @ [m..<n]) = [0..<m] @ takeWhile Q [m..<n]" by (intro takeWhile_append2) simp
  moreover have "[0..<n] = [0..<m] @ [m..<n]" using m by (metis upt_add_eq_append le0 le_add_diff_inverse)
  ultimately show ?thesis unfolding tw by (metis length_upt diff_zero)
qed


definition ready_beats :: "mem_config \<Rightarrow> nat \<Rightarrow> bool list \<Rightarrow> nat" where
  "ready_beats c len got = length (takeWhile (beat_ready c got) [0..<len])"

lemma beat_ready_mono:
  assumes "k < len" "len * axi_ddr_bus_multiplicity c = n * TOTAL_BURST c" "D \<subseteq> D'"
    "beat_ready c (arrived (TOTAL_BURST c) n D) k"
  shows "beat_ready c (arrived (TOTAL_BURST c) n D') k"
proof -
  have "k * axi_ddr_bus_multiplicity c + i < n * TOTAL_BURST c" if "i < axi_ddr_bus_multiplicity c" for i
  proof -
    have "Suc k * axi_ddr_bus_multiplicity c \<le> len * axi_ddr_bus_multiplicity c" using assms(1) by (simp only: mult_le_mono1 Suc_leI)
    then show ?thesis using that assms(2) by simp
  qed
  then show ?thesis using assms(3,4) by (auto simp: beat_ready_def arrived_def)
qed

lemma retrieve_step:
  assumes "mem_config_ok c" "whole_burst c len n" "j < n"
    and t: "axi_bus_beats_length c t = len" "len * axi_ddr_bus_multiplicity c = n * TOTAL_BURST c"
  defines "g \<equiv> arrived (TOTAL_BURST c) n"
  shows "\<exists>ld'. retrieve c (tx_fpga_addr t + of_nat (j * DDR_ENQUEUE_SIZE_BYTES c)) (at_beat t (g D) ld (ready_beats c len (g D)))
    = Inr (at_beat t (g (insert j D)) ld' (ready_beats c len (g (insert j D))),
           map (\<lambda>k. beat_of c (at_beat t [] 0 k)) [ready_beats c len (g D)..<ready_beats c len (g (insert j D))])"
proof -
  let ?m = "ready_beats c len (g D)" and ?m' = "ready_beats c len (g (insert j D))"
  have c: "0 < TOTAL_BURST c" "0 < DDR_BUS_WIDTH_BYTES c" "DDR_ENQUEUE_SIZE_BYTES c = DDR_BUS_WIDTH_BYTES c * TOTAL_BURST c"
    using assms(1) by (simp_all add: mem_config_ok_def)
  have "j * DDR_ENQUEUE_SIZE_BYTES c \<le> n * DDR_ENQUEUE_SIZE_BYTES c" using assms(3) by simp
  also have "\<dots> < 2 ^ 31" using assms(2) by (simp only: whole_burst_def)
  finally have "j * DDR_ENQUEUE_SIZE_BYTES c < 2 ^ 31" .
  note base = arrived_base [OF this c(2,3)]
  have le: "j * TOTAL_BURST c + TOTAL_BURST c \<le> n * TOTAL_BURST c"
    using assms(3) by (metis Suc_leI mult_le_mono1 mult_Suc add.commute)
  have gl: "length (g E) = n * TOTAL_BURST c" for E by (simp add: g_def arrived_def)
  have mark: "mark_retrieved c (tx_fpga_addr t + of_nat (j * DDR_ENQUEUE_SIZE_BYTES c)) (at_beat t (g D) ld ?m)
      = Inr (at_beat t (g (insert j D)) (ld + 1) ?m)"
  proof -
    have "tx_fpga_addr (at_beat t (g D) ld ?m) = tx_fpga_addr t" "ddr_bus_beats_retrieved (at_beat t (g D) ld ?m) = g D"
      by (simp_all add: at_beat_def)
    then show ?thesis
      unfolding mark_retrieved_def Let_def
      using base le c(1) gl arrived_mark [OF c(1) assms(3), of D, folded g_def]
      by (simp add: at_beat_def del: of_nat_mult)
  qed
  have mono: "beat_ready c (g D) k \<and> k < len \<Longrightarrow> beat_ready c (g (insert j D)) k" for k
    unfolding g_def using beat_ready_mono [OF _ t(2)] by blast
  have m: "?m \<le> len" "?m' \<le> len" unfolding ready_beats_def by (metis length_takeWhile_le length_upt diff_zero)+
  have tw: "takeWhile P [0..<len] = takeWhile (\<lambda>k. P k \<and> k < len) [0..<len]" for P
    by (rule takeWhile_cong) simp_all
  have split: "takeWhile (beat_ready c (g (insert j D))) [0..<len]
      = takeWhile (beat_ready c (g D)) [0..<len] @ takeWhile (beat_ready c (g (insert j D))) [?m..<len]"
    using takeWhile_upt_mono [of "\<lambda>k. beat_ready c (g D) k \<and> k < len" "beat_ready c (g (insert j D))" len] mono
    by (simp add: ready_beats_def flip: tw)
  define ks where "ks = takeWhile (beat_ready c (g (insert j D))) [?m..<len]"
  have len_ks: "?m + length ks = ?m'" using split by (simp add: ready_beats_def ks_def)
  have ks: "ks = [?m..<?m']"
    using len_ks m by (metis ks_def add_diff_cancel_left' takeWhile_eq_take take_upt le_add_diff_inverse)
  have beat: "beat_of c (at_beat t got ld k) = beat_of c (at_beat t [] 0 k)" for got ld k
    by (simp add: beat_of_def at_beat_def axi_bus_beats_length_def)
  have "nat (int (axi_bus_beats_length c (at_beat t (g (insert j D)) (ld + 1) ?m)) - axi_bus_beats_progress (at_beat t (g (insert j D)) (ld + 1) ?m)) = len - ?m"
    using t(1) by (simp add: at_beat_def axi_bus_beats_length_def)
  then have "retrieve c (tx_fpga_addr t + of_nat (j * DDR_ENQUEUE_SIZE_BYTES c)) (at_beat t (g D) ld ?m)
      = emit_beats c (axi_bus_beats_length c t - ?m) (at_beat t (g (insert j D)) (ld + 1) ?m)"
    unfolding retrieve_def mark andThen_simps t(1) by simp
  also have "\<dots> = Inr (at_beat t (g (insert j D)) (ld + 1) ?m', map (\<lambda>k. beat_of c (at_beat t [] 0 k)) [?m..<?m'])"
    by (subst emit_beats_eq [OF assms(1)])
      (simp_all only: gl t m(1) Let_def ks_def [symmetric] len_ks beat [of "g (insert j D)" "ld + 1"], simp only: ks)
  finally show ?thesis by blast
qed

lemma ready_beats_none: "mem_config_ok c \<Longrightarrow> 0 < len \<Longrightarrow> len * axi_ddr_bus_multiplicity c = n * TOTAL_BURST c \<Longrightarrow>
    ready_beats c len (arrived (TOTAL_BURST c) n {}) = 0"
proof -
  assume a: "mem_config_ok c" "0 < len" "len * axi_ddr_bus_multiplicity c = n * TOTAL_BURST c"
  then have "0 < axi_ddr_bus_multiplicity c" "0 < n * TOTAL_BURST c" by (metis mem_config_ok_def nat_0_less_mult_iff)+
  then have "\<not> beat_ready c (arrived (TOTAL_BURST c) n {}) 0" by (auto simp: beat_ready_def arrived_def intro!: exI [of _ 0])
  then show ?thesis using a(2) by (simp add: ready_beats_def upt_conv_Cons)
qed

lemma ready_beats_all:
  assumes "len * axi_ddr_bus_multiplicity c = n * TOTAL_BURST c" "{..<n} \<subseteq> D" "mem_config_ok c"
  shows "ready_beats c len (arrived (TOTAL_BURST c) n D) = len"
proof -
  have "beat_ready c (arrived (TOTAL_BURST c) n D) k" if "k < len" for k
    unfolding beat_ready_def
  proof (intro allI impI)
    fix i assume i: "i < axi_ddr_bus_multiplicity c"
    have "Suc k * axi_ddr_bus_multiplicity c \<le> n * TOTAL_BURST c" using that assms(1) by (metis Suc_leI mult_le_mono1)
    then have l: "k * axi_ddr_bus_multiplicity c + i < n * TOTAL_BURST c" using i by simp
    then have "(k * axi_ddr_bus_multiplicity c + i) div TOTAL_BURST c < n" by (simp add: less_mult_imp_div_less)
    then show "arrived (TOTAL_BURST c) n D ! (k * axi_ddr_bus_multiplicity c + i)" using l assms(2) by (auto simp: arrived_def)
  qed
  then have "takeWhile (beat_ready c (arrived (TOTAL_BURST c) n D)) [0..<len] = [0..<len]" by (simp add: takeWhile_eq_all_conv)
  then show ?thesis unfolding ready_beats_def by (simp only: length_upt diff_zero)
qed

lemma length_takeWhile_mono: "(\<And>k. P k \<Longrightarrow> Q k) \<Longrightarrow> length (takeWhile P xs) \<le> length (takeWhile Q xs)"
  by (induction xs) auto

lemma ready_beats_grow:
  assumes "len * axi_ddr_bus_multiplicity c = n * TOTAL_BURST c" "D \<subseteq> D'"
  shows "ready_beats c len (arrived (TOTAL_BURST c) n D) \<le> ready_beats c len (arrived (TOTAL_BURST c) n D')"
proof -
  let ?P = "\<lambda>D k. beat_ready c (arrived (TOTAL_BURST c) n D) k \<and> k < len"
  have tw: "takeWhile (beat_ready c (arrived (TOTAL_BURST c) n D)) [0..<len] = takeWhile (?P D) [0..<len]" for D
    by (rule takeWhile_cong) simp_all
  have "length (takeWhile (?P D) [0..<len]) \<le> length (takeWhile (?P D') [0..<len])"
    by (rule length_takeWhile_mono) (use beat_ready_mono [OF _ assms] in blast)
  then show ?thesis unfolding ready_beats_def tw .
qed

lemma retrieve_all_steps:
  assumes "mem_config_ok c" "whole_burst c len n" "axi_bus_beats_length c t = len"
    "len * axi_ddr_bus_multiplicity c = n * TOTAL_BURST c"
  shows "set js \<subseteq> {..<n} \<Longrightarrow>
    \<exists>ld'. retrieve_all c (map (\<lambda>j. tx_fpga_addr t + of_nat (j * DDR_ENQUEUE_SIZE_BYTES c)) js)
        (at_beat t (arrived (TOTAL_BURST c) n D) ld (ready_beats c len (arrived (TOTAL_BURST c) n D)))
      = Inr (at_beat t (arrived (TOTAL_BURST c) n (D \<union> set js)) ld' (ready_beats c len (arrived (TOTAL_BURST c) n (D \<union> set js))),
             map (\<lambda>k. beat_of c (at_beat t [] 0 k))
               [ready_beats c len (arrived (TOTAL_BURST c) n D)..<ready_beats c len (arrived (TOTAL_BURST c) n (D \<union> set js))])"
proof (induction js arbitrary: D ld)
  case (Cons j js)
  let ?r = "\<lambda>D. ready_beats c len (arrived (TOTAL_BURST c) n D)"
  have "j < n" "set js \<subseteq> {..<n}" using Cons.prems by simp_all
  obtain ld1 where one: "retrieve c (tx_fpga_addr t + of_nat (j * DDR_ENQUEUE_SIZE_BYTES c)) (at_beat t (arrived (TOTAL_BURST c) n D) ld (?r D))
      = Inr (at_beat t (arrived (TOTAL_BURST c) n (insert j D)) ld1 (?r (insert j D)), map (\<lambda>k. beat_of c (at_beat t [] 0 k)) [?r D..<?r (insert j D)])"
    using retrieve_step [OF assms(1,2) \<open>j < n\<close> assms(3,4)] by blast
  have mid: "?r D \<le> ?r (insert j D)" "?r (insert j D) \<le> ?r (insert j D \<union> set js)"
    by (rule ready_beats_grow [OF assms(4)], blast)+
  have "[?r D..<?r (insert j D)] @ [?r (insert j D)..<?r (insert j D \<union> set js)] = [?r D..<?r (insert j D \<union> set js)]"
    using mid by (metis upt_add_eq_append le_add_diff_inverse)
  then have cat: "map f [?r D..<?r (insert j D)] @ map f [?r (insert j D)..<?r (insert j D \<union> set js)] = map f [?r D..<?r (insert j D \<union> set js)]"
    for f :: "nat \<Rightarrow> memory_transaction" by (metis map_append)
  have un: "D \<union> set (j # js) = insert j D \<union> set js" by auto
  from Cons.IH [OF \<open>set js \<subseteq> {..<n}\<close>, of "insert j D" ld1] cat show ?case
    unfolding un by (auto simp: one simp del: of_nat_mult)
qed auto



definition ddr4_config :: mem_config where
  "ddr4_config = \<lparr>data_bus_bytes = 64, DDR_BUS_WIDTH_BYTES = 8, axi_ddr_bus_multiplicity = 8, TOTAL_BURST = 8,
     DDR_ENQUEUE_SIZE_BYTES = 64\<rparr>"

lemma ddr4_config_ok: "mem_config_ok ddr4_config" "mem_ctrl_init 512 True 64 8 = Inr ddr4_config"
  by (simp_all add: mem_config_ok_def ddr4_config_def mem_ctrl_init_def)


end
