(* ===== verification/MemSystem.thy ===== *)
theory MemSystem
  imports MemBurst
begin

text \<open>
  Properties of the simulated memory system as a whole: the order in which reads are issued, the bytes
  a write beat changes, the accounting of writes over any run of the simulation, and the run in which
  two reads with the same AXI id overtake each other.
\<close>

section \<open>Accesses are issued in order\<close>

text \<open>The accesses a transaction has still to issue, and those of all queued reads of one AXI id, oldest first.\<close>

definition left :: "mem_config \<Rightarrow> memory_transaction \<Rightarrow> u64 list" where
  "left c t = map (\<lambda>k. tx_fpga_addr t + of_nat (DDR_ENQUEUE_SIZE_BYTES c * k))
     [dram_tx_axi_enqueue_progress t..<dram_tx_n_enqueues t]"

definition todo :: "mem_config \<Rightarrow> mem_interface \<Rightarrow> u32 \<Rightarrow> u64 list" where
  "todo c s i = concat (map (\<lambda>p. left c (txs s ! p)) (filter (\<lambda>p. tx_id (txs s ! p) = i) (ddr_read_q s)))"

lemma left_issue: "\<not> dramsim_tx_finished t \<Longrightarrow> left c t = dimm_addr c t # left c (issue t)"
  by (simp add: left_def issue_def dimm_addr_def dramsim_tx_finished_def upt_conv_Cons)

lemma left_finished: "dramsim_tx_finished t \<Longrightarrow> left c t = []"
  by (simp add: left_def dramsim_tx_finished_def)

text \<open>What the scan finds: no older transaction in the queue has the same id.\<close>

lemma scan_reads_first:
  "scan_reads c acc ts old ps = Some p \<Longrightarrow>
   \<exists>xs ys. ps = xs @ p # ys \<and> (\<forall>q \<in> set old \<union> set xs. tx_id (ts ! q) \<noteq> tx_id (ts ! p)) \<and>
     acc (tx_fpga_addr (ts ! p)) \<and> acc (dimm_addr c (ts ! p))"
proof (induction ps arbitrary: old)
  case (Cons r ps)
  show ?case
  proof (cases "acc (tx_fpga_addr (ts ! r)) \<and> \<not> (\<exists>q \<in> set old. tx_id (ts ! q) = tx_id (ts ! r)) \<and> acc (dimm_addr c (ts ! r))")
    case True
    then show ?thesis using Cons.prems by (intro exI [of _ "[]"] exI [of _ ps]) auto
  next
    case False
    then have "scan_reads c acc ts (old @ [r]) ps = Some p" using Cons.prems by (auto split: if_splits)
    from Cons.IH [OF this] obtain xs ys where "ps = xs @ p # ys"
      "\<forall>q \<in> set (old @ [r]) \<union> set xs. tx_id (ts ! q) \<noteq> tx_id (ts ! p)" "acc (tx_fpga_addr (ts ! p))" "acc (dimm_addr c (ts ! p))"
      by blast
    then show ?thesis by (intro exI [of _ "r # xs"] exI [of _ ys]) auto
  qed
qed simp

text \<open>
  C35. Per AXI id the accesses of the queued reads are given to the DRAM in the order the bursts were
  accepted and, within a burst, in address order: one call issues at most one read access, it is the
  first of what its id has to do, and every other id's work is untouched.
\<close>

theorem reads_issued_in_order:
  assumes "port_inv s"
  shows "case enqueue_ddr_read c accept s of
      (s', None) \<Rightarrow> s' = s
    | (s', Some (p, a)) \<Rightarrow> accept a \<and> p \<in> set (ddr_read_q s) \<and>
        todo c s (tx_id (txs s ! p)) = a # todo c s' (tx_id (txs s ! p)) \<and>
        (\<forall>i. i \<noteq> tx_id (txs s ! p) \<longrightarrow> todo c s' i = todo c s i)"
proof (cases "scan_reads c accept (txs s) [] (ddr_read_q s)")
  case None
  then show ?thesis by (simp add: enqueue_ddr_read_def)
next
  case (Some p)
  let ?t = "txs s ! p" and ?a = "dimm_addr c (txs s ! p)"
  obtain xs ys where q: "ddr_read_q s = xs @ p # ys" and xs: "\<forall>r \<in> set xs. tx_id (txs s ! r) \<noteq> tx_id ?t"
    and acc: "accept ?a"
    using scan_reads_first [OF Some] by auto
  have i: "ptr_inv s" "read_inv s" using assms by (simp_all add: port_inv_def)
  have p: "p < length (txs s)" "p \<notin> set xs" "p \<notin> set ys" "\<not> dramsim_tx_finished ?t"
    using i by (auto simp: ptr_inv_def rptrs_def read_inv_def q)
  define ts where "ts = (txs s)[p := issue ?t]"
  have ts: "ts ! p = issue ?t" "\<And>r. r \<noteq> p \<Longrightarrow> ts ! r = txs s ! r" "\<And>r. tx_id (ts ! r) = tx_id (txs s ! r)"
    using p(1) by (auto simp: ts_def nth_list_update issue_def)
  define q' where "q' = (if dramsim_tx_finished (issue ?t) then xs @ ys else ddr_read_q s)"
  define s' where "s' = fst (enqueue_ddr_read c accept s)"
  have "txs s' = ts" "ddr_read_q s' = (if dramsim_tx_finished (issue ?t) then remove1 p (ddr_read_q s) else ddr_read_q s)"
    using p by (simp_all add: s'_def enqueue_ddr_read_def Some Let_def ts_def)
  then have s': "txs s' = ts" "ddr_read_q s' = q'" using p(2) by (simp_all add: q'_def q remove1_append)
  have same: "map (\<lambda>r. left c (ts ! r)) (filter P zs) = map (\<lambda>r. left c (txs s ! r)) (filter P zs)"
    if "p \<notin> set zs" for P zs using that ts(2) by (intro map_cong refl) (metis filter_is_subset subsetD)
  have rest: "left c (issue ?t) = [] \<or> \<not> dramsim_tx_finished (issue ?t)" using left_finished by blast
  have one: "todo c s (tx_id ?t) = ?a # todo c s' (tx_id ?t)"
    using xs p rest left_finished [of "issue ?t" c]
    by (simp add: todo_def s' ts q q'_def same left_issue [of ?t c])
  have other: "todo c s' i = todo c s i" if "i \<noteq> tx_id ?t" for i
    using that p by (simp add: todo_def s' ts q q'_def same)
  have "enqueue_ddr_read c accept s = (s', Some (p, ?a))"
    by (simp add: s'_def enqueue_ddr_read_def Some Let_def)
  then show ?thesis using acc q one other by simp
qed


section \<open>Data of a write beat\<close>

lemma of_nat_unat_id: "of_nat (unat x) = x" for x :: u64
  by simp

lemma write_lanes_append: "write_lanes strb data a (xs @ ys) g = write_lanes strb data a ys (write_lanes strb data a xs g)"
  by (simp add: write_lanes_def)

lemma write_lanes_host:
  "n \<le> 2 ^ 64 \<Longrightarrow> host (write_lanes strb data a [0..<n] g) x =
     (if unat (x - a) < n \<and> strb (unat (x - a)) then data ! unat (x - a) else host g x)"
proof (induction n)
  case (Suc n)
  have "x = a + of_nat n \<longleftrightarrow> unat (x - a) = n"
  proof -
    have "unat (of_nat n :: u64) = n" using Suc.prems by (simp add: unat_of_nat take_bit_eq_mod)
    then show ?thesis by (metis add_diff_cancel_left' diff_add_cancel add.commute of_nat_unat_id)
  qed
  moreover have "write_lanes strb data a [0..<Suc n] g = write_lanes strb data a [n] (write_lanes strb data a [0..<n] g)"
    by (simp add: write_lanes_append)
  ultimately show ?case
    using Suc by (auto simp: write_lanes_def less_Suc_eq)
qed (simp add: write_lanes_def)

lemma write_lanes_at_map: "at_map (write_lanes strb data a ks g) = at_map g"
  by (induction ks arbitrary: g) (simp_all add: write_lanes_def)


text \<open>
  C36. A write beat that completes its handshake changes exactly the bytes of the host memory whose
  strobe bit is set, at the current position of the oldest open write; and a beat that arrives while
  no write is open changes nothing: its data is lost.
\<close>

theorem write_beat_memory:
  assumes "data_fire (w_ch s)" "wrapper_ok (d_strb (w_ch s))" "data_bus_bytes c \<le> 8 * wr_len (d_strb (w_ch s))"
  shows "host (snd (w_beat c (s, g))) x =
    (case write_transactions s of
       [] \<Rightarrow> host g x
     | p # _ \<Rightarrow>
         (let off = unat (x - tx_addr (txs s ! p))
          in if off < data_bus_bytes c \<and> bit (wr_ptr (d_strb (w_ch s))) off then d_data (w_ch s) ! off else host g x))"
proof (cases "write_transactions s")
  case Nil
  then show ?thesis by (simp add: w_beat_def)
next
  case (Cons p ps)
  have "wr_len (d_strb (w_ch s)) \<le> 8" using assms(2) by (auto simp: wrapper_ok_def)
  then have n: "data_bus_bytes c \<le> 2 ^ 64" using assms(3) by simp
  let ?off = "unat (x - tx_addr (txs s ! p))"
  have "?off < data_bus_bytes c \<and> getStrb (w_ch s) ?off \<longleftrightarrow> ?off < data_bus_bytes c \<and> bit (wr_ptr (d_strb (w_ch s))) ?off"
    using getStrb_bit [OF assms(2), of ?off] assms(3) by auto
  then show ?thesis
    using assms(1) Cons
    by (cases "?off < data_bus_bytes c \<and> getStrb (w_ch s) ?off") (auto simp: w_beat_def Let_def write_lanes_host [OF n])
qed

definition wire :: "nat \<Rightarrow> u64 \<Rightarrow> get_set_wrapper" where
  "wire n v = \<lparr>wr_len = n, wr_ptr = v\<rparr>"

definition quiet_addr :: address_channel where
  "quiet_addr = \<lparr>ready_field = 0, valid_field = 0, id_field = wire 1 0, size_field = wire 1 0, burst_field = wire 1 1,
     addr_field = wire 8 0, len_field = wire 1 0\<rparr>"

definition quiet_data :: data_channel where
  "quiet_data = \<lparr>d_ready = 0, d_valid = 0, d_data = replicate 64 0, d_strb = wire 8 0, d_id = wire 1 0, d_last = 0\<rparr>"

definition idle_port :: mem_interface where
  "idle_port = \<lparr>txs = [], in_flight_reads = Map.empty, in_flight_writes = Map.empty, ddr_read_q = [], ddr_write_q = [],
     aw_ch = quiet_addr, ar_ch = quiet_addr, w_ch = quiet_data, r_ch = quiet_data,
     b_ch = \<lparr>b_ready_field = 0, b_valid_field = 0, b_id_field = wire 1 0, send_ids = [], to_enqueue = []\<rparr>,
     write_transactions = [], read_transactions = [], num_in_flight_writes = 0\<rparr>"

definition idle_master :: axi_master where
  "idle_master = \<lparr>m_aw = quiet_addr, m_ar = quiet_addr, m_w = quiet_data, m_r_ready = 1, m_b_ready = 1\<rparr>"

definition one_segment :: mem_globals where
  "one_segment = \<lparr>at_map = [\<lparr>fpga_addr = 0, mapping_length = 0x10000, cpu_addr = 0x7000\<rparr>], host = (\<lambda>_. 0), mem_transacted = 0\<rparr>"

definition open_write :: mem_interface where
  "open_write = idle_port\<lparr>txs := [new_transaction ddr4_config 0x7000 64 1 0 False 5 0 False], write_transactions := [0],
     w_ch := quiet_data\<lparr>d_ready := 1, d_valid := 1, d_data := replicate 64 0xAB, d_strb := wire 8 0x8\<rparr>\<rparr>"

theorem write_beat_memory_witness:
  "host (snd (w_beat ddr4_config (open_write, one_segment))) 0x7003 = 0xAB \<and>
   host (snd (w_beat ddr4_config (open_write, one_segment))) 0x7004 = 0"
proof -
  have f: "data_fire (w_ch open_write)" "wrapper_ok (d_strb (w_ch open_write))"
    "data_bus_bytes ddr4_config \<le> 8 * wr_len (d_strb (w_ch open_write))"
    "write_transactions open_write = [0]" "tx_addr (txs open_write ! 0) = 0x7000"
    "wr_ptr (d_strb (w_ch open_write)) = 8" "d_data (w_ch open_write) = replicate 64 0xAB" "data_bus_bytes ddr4_config = 64"
    "host one_segment = (\<lambda>_. 0)"
    by (simp_all add: open_write_def data_fire_def wrapper_ok_def wire_def ddr4_config_def one_segment_def
        new_transaction_def Let_def take_bit_eq_mod)
  have "bit (8 :: u64) 3" "\<not> bit (8 :: u64) 4" by (simp_all add: bit_iff_odd)
  then show ?thesis
    using write_beat_memory [OF f(1-3), of one_segment "0x7003"] write_beat_memory [OF f(1-3), of one_segment "0x7004"]
    by (simp add: f(4-9) Let_def)
qed


definition two_reads :: mem_interface where
  "two_reads = idle_port\<lparr>txs := [new_transaction ddr4_config 0x7000 64 1 0 False 5 0 False,
     new_transaction ddr4_config 0x8000 64 1 0 False 5 0x1000 False], ddr_read_q := [0, 1]\<rparr>"

theorem reads_issued_in_order_witness:
  "port_inv two_reads \<and> todo ddr4_config two_reads 5 = [0, 0x1000] \<and>
   todo ddr4_config (fst (enqueue_ddr_read ddr4_config (\<lambda>_. True) two_reads)) 5 = [0x1000]"
proof -
  have i: "port_inv two_reads"
    by (simp add: two_reads_def idle_port_def port_inv_def ptr_inv_def wptrs_def rptrs_def held_def write_inv_def read_inv_def
        outstanding_def waiting_def max_in_flight_writes_def max_q_length_def new_transaction_def Let_def dramsim_tx_finished_def ddr4_config_def)
  have "todo ddr4_config two_reads 5 = [0, 0x1000]" "snd (enqueue_ddr_read ddr4_config (\<lambda>_. True) two_reads) = Some (0, 0)"
    by code_simp+
  moreover from this reads_issued_in_order [OF i, of "\<lambda>_. True" ddr4_config]
  have "todo ddr4_config two_reads 5 = 0 # todo ddr4_config (fst (enqueue_ddr_read ddr4_config (\<lambda>_. True) two_reads)) 5"
    by (auto simp: two_reads_def new_transaction_def Let_def split: prod.splits)
  ultimately show ?thesis using i by simp
qed

section \<open>Runs of the memory system\<close>

text \<open>
  C9. From fresh ports, under any hardware and any DRAM, as long as the simulation runs: at every
  port the ids of the accepted writes are exactly the ids answered plus the ids still outstanding, so
  no write is answered twice, under a wrong id, or forgotten; the counter is the number of outstanding
  writes and never exceeds 32, the read queue never exceeds 40, and an offered answer is that of an
  outstanding write.
\<close>

theorem mem_writes_accounted:
  assumes "list_all fresh_port ss" "mem_run c cs (ss, g, \<lambda>_. {#}, \<lambda>_. {#}) = Inr (ss', g', acc, ans)" "i < length ss'"
  shows "acc i = outstanding (ss' ! i) + ans i \<and>
    num_in_flight_writes (ss' ! i) = int (size (outstanding (ss' ! i))) \<and> num_in_flight_writes (ss' ! i) \<le> 32 \<and>
    length (ddr_read_q (ss' ! i)) \<le> 40 \<and>
    (b_valid_field (b_ch (ss' ! i)) \<noteq> 0 \<longrightarrow> (\<exists>j. j \<in># outstanding (ss' ! i) \<and> shows_id (b_id_field (b_ch (ss' ! i))) j))"
proof -
  have "run_inv (ss', g', acc, ans)"
    using mem_run_inv [OF fresh_run_inv [OF assms(1)], of c cs g] assms(2) by simp
  then have r: "port_inv (ss' ! i)" "sig_inv (ss' ! i)" "acc i = outstanding (ss' ! i) + ans i"
    using assms(3) by (simp_all add: run_inv_def)
  have "\<exists>j. j \<in># outstanding (ss' ! i) \<and> shows_id (b_id_field (b_ch (ss' ! i))) j" if "b_valid_field (b_ch (ss' ! i)) \<noteq> 0"
    using r(2) that
    by (intro exI [of _ "hd (send_ids (b_ch (ss' ! i)))"]) (simp add: sig_inv_def b_sig_def outstanding_def)
  with r show ?thesis
    by (simp add: port_inv_def write_inv_def read_inv_def max_in_flight_writes_def max_q_length_def)
qed

definition write_master :: axi_master where
  "write_master = idle_master\<lparr>m_aw := quiet_addr\<lparr>valid_field := 1, id_field := wire 1 5, size_field := wire 1 6, addr_field := wire 8 0x40\<rparr>,
     m_w := quiet_data\<lparr>d_valid := 1, d_data := replicate 64 0xAB, d_strb := wire 8 0x8, d_last := 1\<rparr>\<rparr>"

definition eager_dram :: "dram_event list \<Rightarrow> dram_round list list" where
  "eager_dram es = [[\<lparr>completions = es, accepts_rd = \<lambda>_. True, accepts_wr = \<lambda>_. True\<rparr>]]"

definition write_run :: "((nat \<Rightarrow> axi_master) \<times> dram_round list list) list" where
  "write_run = [(\<lambda>_. idle_master, []), (\<lambda>_. write_master, []), (\<lambda>_. idle_master, eager_dram []),
     (\<lambda>_. idle_master, eager_dram [WriteDone 0x40]), (\<lambda>_. idle_master, []), (\<lambda>_. idle_master, [])]"

definition write_run_end :: "mem_error + mem_run_state" where
  "write_run_end = mem_run ddr4_config write_run ([idle_port], one_segment, \<lambda>_. {#}, \<lambda>_. {#})"

lemma write_run_end_eval:
  "case write_run_end of Inl _ \<Rightarrow> False
   | Inr (ss, g, acc, ans) \<Rightarrow> length ss = 1 \<and> host g 0x7043 = 0xAB \<and> acc 0 = {#5#} \<and> ans 0 = {#5#}"
  by code_simp


theorem mem_writes_accounted_witness:
  "\<exists>ss g acc ans. write_run_end = Inr (ss, g, acc, ans) \<and> length ss = 1 \<and> acc 0 = {#5#} \<and> ans 0 = {#5#} \<and>
     host g 0x7043 = 0xAB \<and> outstanding (ss ! 0) = {#} \<and> num_in_flight_writes (ss ! 0) = 0"
proof -
  obtain ss g acc ans where r: "write_run_end = Inr (ss, g, acc, ans)"
    and v: "length ss = 1" "host g 0x7043 = 0xAB" "acc 0 = {#5#}" "ans 0 = {#5#}"
    using write_run_end_eval by (auto split: sum.splits)
  have "list_all fresh_port [idle_port]" by (simp add: fresh_port_def idle_port_def quiet_data_def)
  from mem_writes_accounted [OF this r [unfolded write_run_end_def], of 0] v
  have "outstanding (ss ! 0) = {#}" "num_in_flight_writes (ss ! 0) = 0" by simp_all
  with r v show ?thesis by blast
qed

definition read_master :: "u64 \<Rightarrow> axi_master" where
  "read_master a = idle_master\<lparr>m_ar := quiet_addr\<lparr>valid_field := 1, id_field := wire 1 5, size_field := wire 1 6, addr_field := wire 8 a\<rparr>,
     m_r_ready := 0\<rparr>"

definition read_run :: "((nat \<Rightarrow> axi_master) \<times> dram_round list list) list" where
  "read_run = [(\<lambda>_. idle_master, []), (\<lambda>_. read_master 0, []), (\<lambda>_. read_master 0x1000, []),
     (\<lambda>_. idle_master, eager_dram []), (\<lambda>_. idle_master, eager_dram []),
     (\<lambda>_. idle_master, eager_dram [ReadDone 0x1000, ReadDone 0])]"

text \<open>
  The order in which accesses are issued does not order the answers: after two reads with the same
  id, a DRAM that completes the second one first puts its data first on the read channel, with the
  same id and marked last.
\<close>

theorem same_id_reads_overtake:
  "map_sum id (\<lambda>(ss, g, acc, ans). map (\<lambda>p. let t = txs (hd ss) ! p in (tx_id t, tx_addr t, can_be_last t)) (read_transactions (hd ss)))
     (mem_run ddr4_config read_run ([idle_port], one_segment, \<lambda>_. {#}, \<lambda>_. {#}))
   = Inr [(5, 0x8000, True), (5, 0x7000, True)]"
  by code_simp

end
