(* ===== verification/DramBank.thy ===== *)
theory DramBank
  imports Prelude "HOL-Library.AList_Mapping"
begin

text \<open>
  The DRAM simulator's basic data (\<^verbatim>\<open>runtime/DRAMsim3/include/dramsim3/common.h\<close>) and the state of one
  bank (\<^verbatim>\<open>bankstate.h\<close>, \<^verbatim>\<open>src/bankstate.cc\<close>): which command a bank needs next for a request, when
  it may be issued, and what it does to the bank. Every call of \<^verbatim>\<open>AbruptExit\<close> is an error value.
  Clock cycles are natural numbers; the sums that form them wrap at 64 bits. A vector that is read and
  written by index is a finite mapping, which holds the entries that were written; the others have
  their initial value.
\<close>

declare andThen_def [code_unfold]

section \<open>Addresses, commands, transactions\<close>

record address =
  ad_channel :: int
  ad_rank :: int
  ad_bankgroup :: int
  ad_bank :: int
  ad_row :: int
  ad_column :: int

definition mk_address :: "int \<Rightarrow> int \<Rightarrow> int \<Rightarrow> int \<Rightarrow> int \<Rightarrow> int \<Rightarrow> address" where
  "mk_address ch ra bg ba ro co =
     \<lparr>ad_channel = ch, ad_rank = ra, ad_bankgroup = bg, ad_bank = ba, ad_row = ro, ad_column = co\<rparr>"

definition no_address :: address where
  "no_address = mk_address (-1) (-1) (-1) (-1) (-1) (-1)"

datatype command_type =
    READ | READ_PRECHARGE | WRITE | WRITE_PRECHARGE | ACTIVATE | PRECHARGE
  | REFRESH_BANK | REFRESH | SREF_ENTER | SREF_EXIT | CommandType_SIZE

record command =
  cmd_type :: command_type
  cmd_addr :: address
  hex_addr :: u64

definition mk_command :: "command_type \<Rightarrow> address \<Rightarrow> u64 \<Rightarrow> command" where
  "mk_command t a h = \<lparr>cmd_type = t, cmd_addr = a, hex_addr = h\<rparr>"

definition no_command :: command where
  "no_command = mk_command CommandType_SIZE no_address 0"

definition IsValid :: "command \<Rightarrow> bool" where
  "IsValid c \<longleftrightarrow> cmd_type c \<noteq> CommandType_SIZE"

definition IsRefresh :: "command \<Rightarrow> bool" where
  "IsRefresh c \<longleftrightarrow> cmd_type c = REFRESH \<or> cmd_type c = REFRESH_BANK"

definition IsRead :: "command \<Rightarrow> bool" where
  "IsRead c \<longleftrightarrow> cmd_type c = READ \<or> cmd_type c = READ_PRECHARGE"

definition IsWrite :: "command \<Rightarrow> bool" where
  "IsWrite c \<longleftrightarrow> cmd_type c = WRITE \<or> cmd_type c = WRITE_PRECHARGE"

definition IsReadWrite :: "command \<Rightarrow> bool" where
  "IsReadWrite c \<longleftrightarrow> IsRead c \<or> IsWrite c"

definition IsRankCMD :: "command \<Rightarrow> bool" where
  "IsRankCMD c \<longleftrightarrow> cmd_type c = REFRESH \<or> cmd_type c = SREF_ENTER \<or> cmd_type c = SREF_EXIT"

abbreviation Rank :: "command \<Rightarrow> int" where "Rank c \<equiv> ad_rank (cmd_addr c)"
abbreviation Bankgroup :: "command \<Rightarrow> int" where "Bankgroup c \<equiv> ad_bankgroup (cmd_addr c)"
abbreviation Bank :: "command \<Rightarrow> int" where "Bank c \<equiv> ad_bank (cmd_addr c)"
abbreviation Row :: "command \<Rightarrow> int" where "Row c \<equiv> ad_row (cmd_addr c)"
abbreviation Column :: "command \<Rightarrow> int" where "Column c \<equiv> ad_column (cmd_addr c)"

lemmas command_kinds = IsValid_def IsRefresh_def IsRead_def IsWrite_def IsReadWrite_def IsRankCMD_def

record transaction =
  tr_addr :: u64
  added_cycle :: nat
  complete_cycle :: nat
  tr_is_write :: bool

definition mk_transaction :: "u64 \<Rightarrow> bool \<Rightarrow> transaction" where
  "mk_transaction a w = \<lparr>tr_addr = a, added_cycle = 0, complete_cycle = 0, tr_is_write = w\<rparr>"

datatype dram_error =
    AbruptExit_Ready | AbruptExit_Update | AbruptExit_Timing | AbruptExit_Refresh | AbruptExit_Config
  | BadBankIndex | BadQueueIndex | CannotFindCmd | NotInReadQueue | NotInWriteQueue
  | AssertAccept | DivZero | NoRefreshPending | UnknownMapping | UnrecognizedField

text \<open>\<^verbatim>\<open>clk + delay\<close> in \<^verbatim>\<open>uint64_t\<close>.\<close>

definition plus64 :: "nat \<Rightarrow> int \<Rightarrow> nat" where
  "plus64 clk d = nat ((int clk + d) mod 2 ^ 64)"

text \<open>The entry of a vector with the given initial value.\<close>

abbreviation entry :: "'v \<Rightarrow> ('k, 'v) mapping \<Rightarrow> 'k \<Rightarrow> 'v" where
  "entry \<equiv> Mapping.lookup_default"

lemma entry_update [simp]: "entry d (Mapping.update k v m) k' = (if k' = k then v else entry d m k')"
  by (simp add: lookup_default_update')

lemma entry_empty [simp]: "entry d Mapping.empty k = d"
  by (simp add: lookup_default_empty)

section \<open>A bank\<close>

datatype bank_st = OPEN | CLOSED | SREF | PD | State_SIZE

record bank_state =
  bk_state :: bank_st
  cmd_timing :: "(command_type, nat) mapping"
  open_row :: int
  row_hit_count :: int

definition new_bank :: bank_state where
  "new_bank = \<lparr>bk_state = CLOSED, cmd_timing = Mapping.empty, open_row = -1, row_hit_count = 0\<rparr>"

definition timing_of :: "bank_state \<Rightarrow> command_type \<Rightarrow> nat" where
  "timing_of b t = entry 0 (cmd_timing b) t"

definition IsRowOpen :: "bank_state \<Rightarrow> bool" where
  "IsRowOpen b \<longleftrightarrow> bk_state b = OPEN"

text \<open>The nested \<^verbatim>\<open>switch\<close> of \<^verbatim>\<open>GetReadyCommand\<close>: the command the bank needs next.\<close>

definition required_type :: "bank_state \<Rightarrow> command \<Rightarrow> dram_error + command_type" where
  "required_type b c =
     (case bk_state b of
        CLOSED \<Rightarrow>
          (if IsReadWrite c then Inr ACTIVATE
           else if cmd_type c = REFRESH \<or> cmd_type c = REFRESH_BANK \<or> cmd_type c = SREF_ENTER then Inr (cmd_type c)
           else Inl AbruptExit_Ready)
      | OPEN \<Rightarrow>
          (if IsReadWrite c then Inr (if Row c = open_row b then cmd_type c else PRECHARGE)
           else if cmd_type c = REFRESH \<or> cmd_type c = REFRESH_BANK \<or> cmd_type c = SREF_ENTER then Inr PRECHARGE
           else Inl AbruptExit_Ready)
      | SREF \<Rightarrow> (if IsReadWrite c then Inr SREF_EXIT else Inl AbruptExit_Ready)
      | PD \<Rightarrow> Inl AbruptExit_Ready
      | State_SIZE \<Rightarrow> Inl AbruptExit_Ready)"

definition bank_GetReadyCommand :: "bank_state \<Rightarrow> command \<Rightarrow> nat \<Rightarrow> dram_error + command" where
  "bank_GetReadyCommand b c clk =
     andThen (required_type b c) (\<lambda>t.
       Inr (if t \<noteq> CommandType_SIZE \<and> clk \<ge> timing_of b t then mk_command t (cmd_addr c) (hex_addr c) else no_command))"

definition bank_UpdateState :: "command \<Rightarrow> bank_state \<Rightarrow> dram_error + bank_state" where
  "bank_UpdateState c b =
     (case bk_state b of
        OPEN \<Rightarrow>
          (case cmd_type c of
             READ \<Rightarrow> Inr (b\<lparr>row_hit_count := row_hit_count b + 1\<rparr>)
           | WRITE \<Rightarrow> Inr (b\<lparr>row_hit_count := row_hit_count b + 1\<rparr>)
           | READ_PRECHARGE \<Rightarrow> Inr (b\<lparr>bk_state := CLOSED, open_row := -1, row_hit_count := 0\<rparr>)
           | WRITE_PRECHARGE \<Rightarrow> Inr (b\<lparr>bk_state := CLOSED, open_row := -1, row_hit_count := 0\<rparr>)
           | PRECHARGE \<Rightarrow> Inr (b\<lparr>bk_state := CLOSED, open_row := -1, row_hit_count := 0\<rparr>)
           | _ \<Rightarrow> Inl AbruptExit_Update)
      | CLOSED \<Rightarrow>
          (case cmd_type c of
             REFRESH \<Rightarrow> Inr b
           | REFRESH_BANK \<Rightarrow> Inr b
           | ACTIVATE \<Rightarrow> Inr (b\<lparr>bk_state := OPEN, open_row := Row c\<rparr>)
           | SREF_ENTER \<Rightarrow> Inr (b\<lparr>bk_state := SREF\<rparr>)
           | _ \<Rightarrow> Inl AbruptExit_Update)
      | SREF \<Rightarrow> (case cmd_type c of SREF_EXIT \<Rightarrow> Inr (b\<lparr>bk_state := CLOSED\<rparr>) | _ \<Rightarrow> Inl AbruptExit_Update)
      | _ \<Rightarrow> Inl AbruptExit_Update)"

definition bank_UpdateTiming :: "command_type \<Rightarrow> nat \<Rightarrow> bank_state \<Rightarrow> bank_state" where
  "bank_UpdateTiming t time b = b\<lparr>cmd_timing := Mapping.update t (max (timing_of b t) time) (cmd_timing b)\<rparr>"

section \<open>Facts\<close>

lemma no_command_simps [simp]: "\<not> IsValid no_command" "cmd_type no_command = CommandType_SIZE" "\<not> IsRefresh no_command"
  "\<not> IsReadWrite no_command"
  by (simp_all add: no_command_def mk_command_def command_kinds)

lemma mk_command_sel [simp]: "cmd_type (mk_command t a h) = t" "cmd_addr (mk_command t a h) = a" "hex_addr (mk_command t a h) = h"
  by (simp_all add: mk_command_def)

lemma plus64_exact: "0 \<le> d \<Longrightarrow> int clk + d < 2 ^ 64 \<Longrightarrow> plus64 clk d = clk + nat d"
  by (simp add: plus64_def nat_add_distrib)

text \<open>What the bank is ready for, it accepts: a ready command is the needed one, it is due, and performing it is legal.\<close>

lemma bank_ready_cases:
  assumes "bank_GetReadyCommand b c clk = Inr r" "IsValid r"
  shows "required_type b c = Inr (cmd_type r)" "timing_of b (cmd_type r) \<le> clk" "cmd_addr r = cmd_addr c" "hex_addr r = hex_addr c"
  using assms by (auto simp: bank_GetReadyCommand_def outcome_simps split: if_splits)

lemma bank_ready_legal:
  assumes "required_type b c = Inr (cmd_type r)" "cmd_addr r = cmd_addr c"
  shows "\<exists>b'. bank_UpdateState r b = Inr b'"
  using assms by (auto simp: required_type_def bank_UpdateState_def command_kinds split: bank_st.splits command_type.splits if_splits)

lemma bank_UpdateTiming_sel [simp]:
  "bk_state (bank_UpdateTiming t x b) = bk_state b" "open_row (bank_UpdateTiming t x b) = open_row b"
  "row_hit_count (bank_UpdateTiming t x b) = row_hit_count b"
  by (simp_all add: bank_UpdateTiming_def)

lemma bank_UpdateTiming_mono: "timing_of b t \<le> timing_of (bank_UpdateTiming u x b) t"
  by (simp add: bank_UpdateTiming_def timing_of_def)

lemma bank_UpdateState_timing: "bank_UpdateState c b = Inr b' \<Longrightarrow> timing_of b' = timing_of b"
  by (auto simp: fun_eq_iff timing_of_def bank_UpdateState_def split: bank_st.splits command_type.splits)

end
