(* ===== verification/DramConfig.thy ===== *)
theory DramConfig
  imports DramBank "HOL-Library.Signed_Division"
begin

text \<open>
  The configuration of the DRAM simulator (\<^verbatim>\<open>runtime/DRAMsim3/include/dramsim3/configuration.h\<close>,
  \<^verbatim>\<open>src/configuration.cc\<close>): the parameters and their defaults, the sizes derived from them, and the
  map from physical addresses to channel, rank, bank group, bank, row and column. The contents of
  the configuration file are an argument: what the reader finds under a section and a key. The
  power and thermal parameters, floating-point numbers that only feed statistics, are left out.
  Divisions of \<^verbatim>\<open>int\<close> truncate (\<open>sdiv\<close>); the parameters are taken not to overflow an \<^verbatim>\<open>int\<close>.
\<close>

section \<open>Parameters\<close>

datatype dram_protocol = DDR3 | DDR4 | GDDR5 | GDDR5X | GDDR6 | LPDDR | LPDDR3 | LPDDR4 | HBM | HBM2 | HMC

datatype refresh_policy_t = RANK_LEVEL_SIMULTANEOUS | RANK_LEVEL_STAGGERED | BANK_LEVEL_STAGGERED

record dram_config =
  protocol :: dram_protocol
  channel_size :: int
  channels :: int
  ranks :: int
  banks :: int
  bankgroups :: int
  banks_per_group :: int
  rows :: int
  columns :: int
  device_width :: int
  bus_width :: int
  devices_per_rank :: int
  BL :: int
  shift_bits :: nat
  ch_pos :: nat
  ra_pos :: nat
  bg_pos :: nat
  ba_pos :: nat
  ro_pos :: nat
  co_pos :: nat
  ch_mask :: u64
  ra_mask :: u64
  bg_mask :: u64
  ba_mask :: u64
  ro_mask :: u64
  co_mask :: u64
  burst_cycle :: int
  AL :: int
  CL :: int
  CWL :: int
  RL :: int
  WL :: int
  tCCD_L :: int
  tCCD_S :: int
  tRTRS :: int
  tRTP :: int
  tWTR_L :: int
  tWTR_S :: int
  tWR :: int
  tRP :: int
  tRRD_L :: int
  tRRD_S :: int
  tRAS :: int
  tRCD :: int
  tRFC :: int
  tRC :: int
  tCKESR :: int
  tXS :: int
  tRFCb :: int
  tREFI :: int
  tREFIb :: int
  tFAW :: int
  read_delay :: int
  write_delay :: int
  tPPD :: int
  t32AW :: int
  tRCDRD :: int
  tRCDWR :: int
  address_mapping :: string
  queue_structure :: string
  row_buf_policy :: string
  refresh_policy :: refresh_policy_t
  cmd_queue_size :: nat
  unified_queue :: bool
  trans_queue_size :: nat
  enable_self_refresh :: bool
  sref_threshold :: int
  enable_hbm_dual_cmd :: bool
  request_size_bytes :: int

definition IsGDDR :: "dram_config \<Rightarrow> bool" where
  "IsGDDR c \<longleftrightarrow> protocol c = GDDR5 \<or> protocol c = GDDR5X \<or> protocol c = GDDR6"

definition IsHBM :: "dram_config \<Rightarrow> bool" where
  "IsHBM c \<longleftrightarrow> protocol c = HBM \<or> protocol c = HBM2"

definition IsHMC :: "dram_config \<Rightarrow> bool" where
  "IsHMC c \<longleftrightarrow> protocol c = HMC"

text \<open>What the configuration file holds.\<close>

record ini_file =
  ini_int :: "string \<times> string \<Rightarrow> int option"
  ini_str :: "string \<times> string \<Rightarrow> string option"
  ini_bool :: "string \<times> string \<Rightarrow> bool option"

definition GetInteger :: "ini_file \<Rightarrow> string \<Rightarrow> string \<Rightarrow> int \<Rightarrow> int" where
  "GetInteger f sec opt d = (case ini_int f (sec, opt) of Some v \<Rightarrow> v | None \<Rightarrow> d)"

definition ini_Get :: "ini_file \<Rightarrow> string \<Rightarrow> string \<Rightarrow> string \<Rightarrow> string" where
  "ini_Get f sec opt d = (case ini_str f (sec, opt) of Some v \<Rightarrow> v | None \<Rightarrow> d)"

definition GetBoolean :: "ini_file \<Rightarrow> string \<Rightarrow> string \<Rightarrow> bool \<Rightarrow> bool" where
  "GetBoolean f sec opt d = (case ini_bool f (sec, opt) of Some v \<Rightarrow> v | None \<Rightarrow> d)"

definition GetDRAMProtocol :: "string \<Rightarrow> dram_error + dram_protocol" where
  "GetDRAMProtocol s =
     (case map_of [(''DDR3'', DDR3), (''DDR4'', DDR4), (''GDDR5'', GDDR5), (''GDDR5X'', GDDR5X), (''GDDR6'', GDDR6),
                   (''LPDDR'', LPDDR), (''LPDDR3'', LPDDR3), (''LPDDR4'', LPDDR4), (''HBM'', HBM), (''HBM2'', HBM2),
                   (''HMC'', HMC)] s of
        Some p \<Rightarrow> Inr p
      | None \<Rightarrow> Inl AbruptExit_Config)"

function LogBase2 :: "int \<Rightarrow> nat" where
  "LogBase2 p = (if p > 1 then LogBase2 (p div 2) + 1 else 0)"
  by pat_completeness auto
termination
  by (relation "measure nat") auto

declare LogBase2.simps [simp del]

section \<open>Initialisation\<close>

definition InitSystemParams :: "ini_file \<Rightarrow> dram_config \<Rightarrow> dram_error + dram_config" where
  "InitSystemParams f c =
     (let pol = ini_Get f ''system'' ''refresh_policy'' ''RANK_LEVEL_STAGGERED'';
          c1 = c\<lparr>channel_size := GetInteger f ''system'' ''channel_size'' 1024,
                 channels := GetInteger f ''system'' ''channels'' 1,
                 bus_width := GetInteger f ''system'' ''bus_width'' 64,
                 address_mapping := ini_Get f ''system'' ''address_mapping'' ''chrobabgraco'',
                 queue_structure := ini_Get f ''system'' ''queue_structure'' ''PER_BANK'',
                 row_buf_policy := ini_Get f ''system'' ''row_buf_policy'' ''OPEN_PAGE'',
                 cmd_queue_size := nat (GetInteger f ''system'' ''cmd_queue_size'' 16),
                 trans_queue_size := nat (GetInteger f ''system'' ''trans_queue_size'' 32),
                 unified_queue := GetBoolean f ''system'' ''unified_queue'' False,
                 enable_self_refresh := GetBoolean f ''system'' ''enable_self_refresh'' False,
                 sref_threshold := GetInteger f ''system'' ''sref_threshold'' 1000\<rparr>
      in if pol = ''RANK_LEVEL_SIMULTANEOUS'' then Inr (c1\<lparr>refresh_policy := RANK_LEVEL_SIMULTANEOUS\<rparr>)
         else if pol = ''RANK_LEVEL_STAGGERED'' then Inr (c1\<lparr>refresh_policy := RANK_LEVEL_STAGGERED\<rparr>)
         else if pol = ''BANK_LEVEL_STAGGERED'' then Inr (c1\<lparr>refresh_policy := BANK_LEVEL_STAGGERED\<rparr>)
         else Inl AbruptExit_Config)"

definition InitDRAMParams :: "ini_file \<Rightarrow> dram_config \<Rightarrow> dram_error + dram_config" where
  "InitDRAMParams f c =
     andThen (GetDRAMProtocol (ini_Get f ''dram_structure'' ''protocol'' ''DDR3'')) (\<lambda>p.
     (let bg0 = GetInteger f ''dram_structure'' ''bankgroups'' 2;
          bpg0 = GetInteger f ''dram_structure'' ''banks_per_group'' 2;
          en = GetBoolean f ''dram_structure'' ''bankgroup_enable'' True;
          bg = (if en then bg0 else 1);
          bpg = (if en then bpg0 else bpg0 * bg0);
          dw = GetInteger f ''dram_structure'' ''device_width'' 8;
          hmc = (p = HMC);
          bl0 = (if hmc then (GetInteger f ''hmc'' ''block_size'' 64 * 8) sdiv dw else GetInteger f ''dram_structure'' ''BL'' 8);
          c1 = c\<lparr>protocol := p, bankgroups := bg, banks_per_group := bpg, banks := bg * bpg,
                 rows := GetInteger f ''dram_structure'' ''rows'' 65536, device_width := dw\<rparr>;
          hbm = IsHBM c1;
          bc = (if bl0 = 0 then 0
                else if p = GDDR5 then bl0 sdiv 4 else if p = GDDR5X then bl0 sdiv 8 else if p = GDDR6 then bl0 sdiv 16
                else bl0 sdiv 2);
          bl = (if bl0 \<noteq> 0 then bl0 else if hbm then 4 else 8);
          co = GetInteger f ''dram_structure'' ''columns'' 1024
      in if hmc \<and> dw = 0 then Inl DivZero
         else Inr (c1\<lparr>BL := bl, burst_cycle := bc,
                      enable_hbm_dual_cmd := (GetBoolean f ''dram_structure'' ''hbm_dual_cmd'' True \<and> hbm),
                      columns := (if IsGDDR c1 then co * bl else if hbm then co * 2 else co)\<rparr>)))"

definition CalculateSize :: "dram_config \<Rightarrow> dram_error + dram_config" where
  "CalculateSize c =
     (if device_width c = 0 then Inl DivZero
      else let dpr = bus_width c sdiv device_width c;
               page_size = (columns c * device_width c) sdiv 8;
               megs_per_bank = (page_size * (rows c sdiv 1024)) sdiv 1024;
               megs_per_rank = megs_per_bank * banks c * dpr
           in if megs_per_rank > channel_size c
              then Inr (c\<lparr>devices_per_rank := dpr, ranks := 1, channel_size := megs_per_rank\<rparr>)
              else if megs_per_rank = 0 then Inl DivZero
              else let r = channel_size c sdiv megs_per_rank
                   in Inr (c\<lparr>devices_per_rank := dpr, ranks := r, channel_size := r * megs_per_rank\<rparr>))"

text \<open>
  \<^verbatim>\<open>SetAddressMapping\<close>. The mapping string lists the six fields from the most significant one; the
  loop takes them from the back and adds up their widths. Masks are made by shifting an \<^verbatim>\<open>int\<close>, which
  is undefined from 31 on.
\<close>

definition field_widths :: "dram_config \<Rightarrow> string \<Rightarrow> int option" where
  "field_widths c = map_of
     [(''ch'', int (LogBase2 (channels c))), (''ra'', int (LogBase2 (ranks c))), (''bg'', int (LogBase2 (bankgroups c))),
      (''ba'', int (LogBase2 (banks_per_group c))), (''ro'', int (LogBase2 (rows c))),
      (''co'', int (LogBase2 (columns c)) - int (LogBase2 (BL c)))]"

fun tokens :: "string \<Rightarrow> string list" where
  "tokens (a # b # s) = [a, b] # tokens s"
| "tokens _ = []"

fun place_fields :: "(string \<Rightarrow> int option) \<Rightarrow> string list \<Rightarrow> int \<Rightarrow> (string \<Rightarrow> int option) \<Rightarrow> dram_error + (string \<Rightarrow> int option)" where
  "place_fields w [] pos m = Inr m"
| "place_fields w (t # ts) pos m =
     (case w t of
        None \<Rightarrow> Inl UnrecognizedField
      | Some n \<Rightarrow> place_fields w ts (pos + n) (m(t \<mapsto> pos)))"

definition field_mask :: "(string \<Rightarrow> int option) \<Rightarrow> string \<Rightarrow> dram_error + u64" where
  "field_mask w t =
     (case w t of
        None \<Rightarrow> Inl UnknownMapping
      | Some n \<Rightarrow> if 0 \<le> n \<and> n < 31 then Inr (of_int (2 ^ nat n - 1)) else Inl UnknownMapping)"

definition field_at :: "(string \<Rightarrow> int option) \<Rightarrow> string \<Rightarrow> dram_error + nat" where
  "field_at m t = (case m t of None \<Rightarrow> Inl UnknownMapping | Some p \<Rightarrow> if 0 \<le> p then Inr (nat p) else Inl UnknownMapping)"

definition SetAddressMapping :: "dram_config \<Rightarrow> dram_error + dram_config" where
  "SetAddressMapping c =
     (let req = (bus_width c sdiv 8) * BL c;
          w = field_widths c
      in if length (address_mapping c) \<noteq> 12 then Inl AbruptExit_Config
         else andThen (place_fields w (rev (tokens (address_mapping c))) 0 Map.empty) (\<lambda>m.
           andThen (field_at m ''ch'') (\<lambda>pch. andThen (field_at m ''ra'') (\<lambda>pra. andThen (field_at m ''bg'') (\<lambda>pbg.
           andThen (field_at m ''ba'') (\<lambda>pba. andThen (field_at m ''ro'') (\<lambda>pro. andThen (field_at m ''co'') (\<lambda>pco.
           andThen (field_mask w ''ch'') (\<lambda>mch. andThen (field_mask w ''ra'') (\<lambda>mra. andThen (field_mask w ''bg'') (\<lambda>mbg.
           andThen (field_mask w ''ba'') (\<lambda>mba. andThen (field_mask w ''ro'') (\<lambda>mro. andThen (field_mask w ''co'') (\<lambda>mco.
             Inr (c\<lparr>request_size_bytes := req, shift_bits := LogBase2 req,
                    ch_pos := pch, ra_pos := pra, bg_pos := pbg, ba_pos := pba, ro_pos := pro, co_pos := pco,
                    ch_mask := mch, ra_mask := mra, bg_mask := mbg, ba_mask := mba, ro_mask := mro, co_mask := mco\<rparr>)))))))))))))))"

definition InitTimingParams :: "ini_file \<Rightarrow> dram_config \<Rightarrow> dram_config" where
  "InitTimingParams f c =
     (let t = GetInteger f ''timing'';
          c1 = c\<lparr>AL := t ''AL'' 0, CL := t ''CL'' 12, CWL := t ''CWL'' 12, tCCD_L := t ''tCCD_L'' 6, tCCD_S := t ''tCCD_S'' 4,
                 tRTRS := t ''tRTRS'' 2, tRTP := t ''tRTP'' 5, tWTR_L := t ''tWTR_L'' 5, tWTR_S := t ''tWTR_S'' 5,
                 tWR := t ''tWR'' 10, tRP := t ''tRP'' 10, tRRD_L := t ''tRRD_L'' 4, tRRD_S := t ''tRRD_S'' 4,
                 tRAS := t ''tRAS'' 24, tRCD := t ''tRCD'' 10, tRFC := t ''tRFC'' 74, tRC := t ''tRAS'' 24 + t ''tRP'' 10,
                 tCKESR := t ''tCKESR'' 12, tXS := t ''tXS'' 432, tRFCb := t ''tRFCb'' 20, tREFI := t ''tREFI'' 7800,
                 tREFIb := t ''tREFIb'' 1950, tFAW := t ''tFAW'' 50, tPPD := t ''tPPD'' 0, t32AW := t ''t32AW'' 330,
                 tRCDRD := t ''tRCDRD'' 24, tRCDWR := t ''tRCDWR'' 20\<rparr>;
          c2 = c1\<lparr>RL := AL c1 + CL c1, WL := AL c1 + CWL c1\<rparr>
      in c2\<lparr>read_delay := RL c2 + burst_cycle c2, write_delay := WL c2 + burst_cycle c2\<rparr>)"

definition make_config :: "ini_file \<Rightarrow> dram_config \<Rightarrow> dram_error + dram_config" where
  "make_config f c =
     andThen (InitSystemParams f c) (\<lambda>c. andThen (InitDRAMParams f c) (\<lambda>c. andThen (CalculateSize c) (\<lambda>c.
     andThen (SetAddressMapping c) (\<lambda>c. Inr (InitTimingParams f c)))))"

section \<open>Address mapping\<close>

definition decode_field :: "u64 \<Rightarrow> nat \<Rightarrow> u64 \<Rightarrow> int" where
  "decode_field a pos msk = uint (drop_bit pos a AND msk)"

definition AddressMapping :: "dram_config \<Rightarrow> u64 \<Rightarrow> address" where
  "AddressMapping c hex =
     (let a = drop_bit (shift_bits c) hex
      in mk_address (decode_field a (ch_pos c) (ch_mask c)) (decode_field a (ra_pos c) (ra_mask c))
           (decode_field a (bg_pos c) (bg_mask c)) (decode_field a (ba_pos c) (ba_mask c))
           (decode_field a (ro_pos c) (ro_mask c)) (decode_field a (co_pos c) (co_mask c)))"

definition GetChannel :: "dram_config \<Rightarrow> u64 \<Rightarrow> int" where
  "GetChannel c hex = decode_field (drop_bit (shift_bits c) hex) (ch_pos c) (ch_mask c)"

section \<open>The mapping loses nothing\<close>

definition field_names :: "string list" where
  "field_names = [''ch'', ''ra'', ''bg'', ''ba'', ''ro'', ''co'']"

lemma LogBase2_le: "0 < n \<Longrightarrow> 2 ^ LogBase2 n \<le> n"
proof (induction n rule: LogBase2.induct)
  case (1 p)
  show ?case
  proof (cases "p > 1")
    case True
    then have "2 ^ LogBase2 (p div 2) \<le> p div 2" using 1 by simp
    then have "2 ^ LogBase2 p \<le> 2 * (p div 2)" using True by (simp add: LogBase2.simps [of p])
    then show ?thesis by linarith
  next
    case False
    then show ?thesis using 1 by (simp add: LogBase2.simps [of p])
  qed
qed

lemma length_tokens: "length (tokens s) = length s div 2"
  by (induction s rule: tokens.induct) simp_all

lemma place_fields_keep: "place_fields w ts pos m = Inr m' \<Longrightarrow> t \<notin> set ts \<Longrightarrow> m' t = m t"
  by (induction ts arbitrary: pos m) (auto split: option.splits)

lemma place_fields_dom: "place_fields w ts pos m = Inr m' \<Longrightarrow> set ts \<subseteq> dom w \<and> dom m' = dom m \<union> set ts"
  by (induction ts arbitrary: pos m) (auto split: option.splits)

lemma place_fields_cover:
  assumes "place_fields w ts pos m = Inr m'" "distinct ts" "\<forall>t \<in> set ts. 0 \<le> the (w t)"
    "pos \<le> n" "n < pos + (\<Sum>t \<leftarrow> ts. the (w t))"
  shows "\<exists>t \<in> set ts. \<exists>p. m' t = Some p \<and> p \<le> n \<and> n < p + the (w t)"
  using assms
proof (induction ts arbitrary: pos m)
  case (Cons t ts)
  obtain k where k: "w t = Some k" "place_fields w ts (pos + k) (m(t \<mapsto> pos)) = Inr m'"
    using Cons.prems(1) by (auto split: option.splits)
  show ?case
  proof (cases "n < pos + k")
    case True
    have "m' t = Some pos" using place_fields_keep [OF k(2)] Cons.prems(2) by simp
    then show ?thesis using True k(1) Cons.prems(4) by auto
  next
    case False
    then show ?thesis using Cons.IH [OF k(2)] Cons.prems k(1) by auto
  qed
qed simp

text \<open>The field of an address that a mapping string names.\<close>

definition named_pos :: "dram_config \<Rightarrow> string \<Rightarrow> nat" where
  "named_pos c t = the (map_of (zip field_names [ch_pos c, ra_pos c, bg_pos c, ba_pos c, ro_pos c, co_pos c]) t)"

definition named_field :: "address \<Rightarrow> string \<Rightarrow> int" where
  "named_field a t = the (map_of (zip field_names [ad_channel a, ad_rank a, ad_bankgroup a, ad_bank a, ad_row a, ad_column a]) t)"

lemma field_names_ball: "(\<forall>t \<in> set field_names. P t) \<longleftrightarrow> P ''ch'' \<and> P ''ra'' \<and> P ''bg'' \<and> P ''ba'' \<and> P ''ro'' \<and> P ''co''"
  by (simp add: field_names_def)

lemma named_pos_eval:
  "named_pos c ''ch'' = ch_pos c" "named_pos c ''ra'' = ra_pos c" "named_pos c ''bg'' = bg_pos c"
  "named_pos c ''ba'' = ba_pos c" "named_pos c ''ro'' = ro_pos c" "named_pos c ''co'' = co_pos c"
  by (simp_all add: named_pos_def field_names_def)

lemma named_field_eval:
  "named_field a ''ch'' = ad_channel a" "named_field a ''ra'' = ad_rank a" "named_field a ''bg'' = ad_bankgroup a"
  "named_field a ''ba'' = ad_bank a" "named_field a ''ro'' = ad_row a" "named_field a ''co'' = ad_column a"
  by (simp_all add: named_field_def field_names_def)

lemma AddressMapping_sel:
  "ad_channel (AddressMapping c a) = decode_field (drop_bit (shift_bits c) a) (ch_pos c) (ch_mask c)"
  "ad_rank (AddressMapping c a) = decode_field (drop_bit (shift_bits c) a) (ra_pos c) (ra_mask c)"
  "ad_bankgroup (AddressMapping c a) = decode_field (drop_bit (shift_bits c) a) (bg_pos c) (bg_mask c)"
  "ad_bank (AddressMapping c a) = decode_field (drop_bit (shift_bits c) a) (ba_pos c) (ba_mask c)"
  "ad_row (AddressMapping c a) = decode_field (drop_bit (shift_bits c) a) (ro_pos c) (ro_mask c)"
  "ad_column (AddressMapping c a) = decode_field (drop_bit (shift_bits c) a) (co_pos c) (co_mask c)"
  by (simp_all add: AddressMapping_def Let_def mk_address_def)

definition mapped_bits :: "dram_config \<Rightarrow> nat" where
  "mapped_bits c = nat (\<Sum>t \<leftarrow> field_names. the (field_widths c t))"

lemma field_at_Inr: "field_at m t = Inr p \<longleftrightarrow> m t = Some (int p)"
  by (auto simp: field_at_def split: option.splits)

lemma field_mask_Inr: "field_mask w t = Inr k \<Longrightarrow> \<exists>n. w t = Some (int n) \<and> n < 31 \<and> k = mask n"
  by (auto simp: field_mask_def mask_eq_exp_minus_1 nonneg_int_cases split: option.splits if_splits)
     (metis nonneg_int_cases nat_int of_nat_less_iff of_nat_numeral)


lemma SetAddressMapping_Inr:
  assumes "SetAddressMapping c = Inr c'"
  obtains m where "place_fields (field_widths c) (rev (tokens (address_mapping c))) 0 Map.empty = Inr m"
    "length (address_mapping c) = 12"
    "\<And>t. t \<in> set field_names \<Longrightarrow> m t = Some (int (named_pos c' t))"
    "\<And>t. t \<in> set field_names \<Longrightarrow> \<exists>n. field_widths c t = Some (int n) \<and> n < 31"
    "\<And>t. t \<in> set field_names \<Longrightarrow> (\<forall>a. named_field (AddressMapping c' a) t =
       uint (take_bit (nat (the (field_widths c t))) (drop_bit (named_pos c' t) (drop_bit (shift_bits c') a))))"
proof -
  from assms obtain m where m: "place_fields (field_widths c) (rev (tokens (address_mapping c))) 0 Map.empty = Inr m"
    and l: "length (address_mapping c) = 12"
    and ats: "field_at m ''ch'' = Inr (ch_pos c')" "field_at m ''ra'' = Inr (ra_pos c')" "field_at m ''bg'' = Inr (bg_pos c')"
      "field_at m ''ba'' = Inr (ba_pos c')" "field_at m ''ro'' = Inr (ro_pos c')" "field_at m ''co'' = Inr (co_pos c')"
    and ms: "field_mask (field_widths c) ''ch'' = Inr (ch_mask c')" "field_mask (field_widths c) ''ra'' = Inr (ra_mask c')"
      "field_mask (field_widths c) ''bg'' = Inr (bg_mask c')" "field_mask (field_widths c) ''ba'' = Inr (ba_mask c')"
      "field_mask (field_widths c) ''ro'' = Inr (ro_mask c')" "field_mask (field_widths c) ''co'' = Inr (co_mask c')"
    by (auto simp: SetAddressMapping_def Let_def andThen_Inr_iff split: if_splits)
  have pos: "m t = Some (int (named_pos c' t))" if "t \<in> set field_names" for t
  proof -
    have "\<forall>t \<in> set field_names. m t = Some (int (named_pos c' t))"
      unfolding field_names_ball named_pos_eval using ats by (simp only: field_at_Inr)
    then show ?thesis using that by blast
  qed
  have mk: "\<exists>n. field_widths c t = Some (int n) \<and> n < 31" if "t \<in> set field_names" for t
  proof -
    have "\<forall>t \<in> set field_names. \<exists>n. field_widths c t = Some (int n) \<and> n < 31"
      unfolding field_names_ball using ms by (blast dest: field_mask_Inr)
    then show ?thesis using that by blast
  qed
  have fl: "decode_field a p k = uint (take_bit (nat (the (field_widths c t))) (drop_bit p a))"
    if "field_mask (field_widths c) t = Inr k" for a p k t
    using field_mask_Inr [OF that] by (auto simp: decode_field_def take_bit_eq_mask)
  have nf: "\<forall>t \<in> set field_names. named_field (AddressMapping c' a) t =
       uint (take_bit (nat (the (field_widths c t))) (drop_bit (named_pos c' t) (drop_bit (shift_bits c') a)))" for a
    unfolding field_names_ball named_pos_eval named_field_eval AddressMapping_sel
    by (intro conjI) (rule fl, rule ms)+
  have "\<forall>a. named_field (AddressMapping c' a) t =
       uint (take_bit (nat (the (field_widths c t))) (drop_bit (named_pos c' t) (drop_bit (shift_bits c') a)))"
    if "t \<in> set field_names" for t
    using nf that by blast
  from that [OF m l pos mk this] show thesis by blast
qed

lemma placed_fields:
  assumes "SetAddressMapping c = Inr c'"
  shows "\<exists>m. place_fields (field_widths c) (rev (tokens (address_mapping c))) 0 Map.empty = Inr m \<and>
      length (address_mapping c) = 12 \<and> (\<forall>t \<in> set field_names. m t = Some (int (named_pos c' t)))"
  by (rule SetAddressMapping_Inr [OF assms]) (intro exI conjI ballI)

lemma field_width:
  assumes "SetAddressMapping c = Inr c'" "t \<in> set field_names"
  shows "\<exists>n. field_widths c t = Some (int n) \<and> n < 31"
proof (rule SetAddressMapping_Inr [OF assms(1)])
  assume "\<And>t. t \<in> set field_names \<Longrightarrow> \<exists>n. field_widths c t = Some (int n) \<and> n < 31"
  from this [OF assms(2)] show ?thesis .
qed

lemma field_names_all:
  assumes "SetAddressMapping c = Inr c'"
  shows "distinct (tokens (address_mapping c)) \<and> set (tokens (address_mapping c)) = set field_names"
proof -
  obtain m where m: "place_fields (field_widths c) (rev (tokens (address_mapping c))) 0 Map.empty = Inr m"
      "length (address_mapping c) = 12" "\<forall>t \<in> set field_names. m t = Some (int (named_pos c' t))"
    using placed_fields [OF assms] by blast
  let ?ts = "tokens (address_mapping c)"
  have sub: "set field_names \<subseteq> set ?ts" using place_fields_dom [OF m(1)] m(3) by auto
  have n6: "card (set field_names) = 6" by (simp add: field_names_def)
  have l6: "length ?ts = 6" using m(2) by (simp add: length_tokens)
  have "6 \<le> card (set ?ts)" using card_mono [OF finite_set sub] unfolding n6 .
  moreover have "card (set ?ts) \<le> 6" using card_length [of ?ts] unfolding l6 .
  ultimately have c: "card (set ?ts) = 6" by linarith
  have "set field_names = set ?ts" by (rule card_subset_eq [OF finite_set sub]) (simp only: n6 c)
  moreover have "distinct ?ts" by (rule card_distinct) (simp only: c l6)
  ultimately show ?thesis by simp
qed

lemma tokens_fields:
  assumes "SetAddressMapping c = Inr c'"
  defines "ts \<equiv> rev (tokens (address_mapping c))"
  shows "distinct ts" "set ts = set field_names" "\<forall>t \<in> set ts. 0 \<le> the (field_widths c t)"
    "(\<Sum>t \<leftarrow> ts. the (field_widths c t)) = (\<Sum>t \<leftarrow> field_names. the (field_widths c t))"
proof -
  have w: "\<And>t. t \<in> set field_names \<Longrightarrow> \<exists>n. field_widths c t = Some (int n) \<and> n < 31"
    by (rule field_width [OF assms(1)])
  show ts: "distinct ts" "set ts = set field_names" using field_names_all [OF assms(1)] by (simp_all add: ts_def)
  show "\<forall>t \<in> set ts. 0 \<le> the (field_widths c t)" unfolding ts(2) using w by fastforce
  have "distinct field_names" by (simp add: field_names_def)
  then show "(\<Sum>t \<leftarrow> ts. the (field_widths c t)) = (\<Sum>t \<leftarrow> field_names. the (field_widths c t))"
    using ts by (simp only: sum_list_distinct_conv_sum_set)
qed

lemma mapped_bit_in_field:
  assumes "SetAddressMapping c = Inr c'" "n < mapped_bits c"
  shows "\<exists>t \<in> set field_names. named_pos c' t \<le> n \<and> n < named_pos c' t + nat (the (field_widths c t))"
proof -
  obtain m where m: "place_fields (field_widths c) (rev (tokens (address_mapping c))) 0 Map.empty = Inr m"
      "length (address_mapping c) = 12" "\<forall>t \<in> set field_names. m t = Some (int (named_pos c' t))"
    using placed_fields [OF assms(1)] by blast
  let ?ts = "rev (tokens (address_mapping c))"
  note ts = tokens_fields [OF assms(1)]
  have "int n < 0 + (\<Sum>t \<leftarrow> ?ts. the (field_widths c t))" using assms(2) unfolding ts(4) mapped_bits_def by simp
  from place_fields_cover [OF m(1) ts(1,3) _ this]
  obtain t p where "t \<in> set ?ts" "m t = Some p" "p \<le> int n" "int n < p + the (field_widths c t)" by auto
  then show ?thesis using m(3) ts(2) by (intro bexI [of _ t]) auto
qed

lemma mapped_field:
  assumes "SetAddressMapping c = Inr c'" "t \<in> set field_names"
  shows "named_field (AddressMapping c' a) t =
      uint (take_bit (nat (the (field_widths c t))) (drop_bit (named_pos c' t) (drop_bit (shift_bits c') a)))"
proof (rule SetAddressMapping_Inr [OF assms(1)])
  fix m assume "\<And>t. t \<in> set field_names \<Longrightarrow> (\<forall>a. named_field (AddressMapping c' a) t =
       uint (take_bit (nat (the (field_widths c t))) (drop_bit (named_pos c' t) (drop_bit (shift_bits c') a))))"
  from this [OF assms(2)] show ?thesis by simp
qed

lemma place_fields_within:
  assumes "place_fields w ts pos m = Inr m'" "distinct ts" "\<forall>t \<in> set ts. 0 \<le> the (w t)" "t \<in> set ts" "m' t = Some p"
  shows "p + the (w t) \<le> pos + (\<Sum>t \<leftarrow> ts. the (w t))"
  using assms
proof (induction ts arbitrary: pos m)
  case (Cons u ts)
  obtain k where k: "w u = Some k" "place_fields w ts (pos + k) (m(u \<mapsto> pos)) = Inr m'"
    using Cons.prems(1) by (auto split: option.splits)
  show ?case
  proof (cases "t = u")
    case True
    have "m' u = Some pos" using place_fields_keep [OF k(2)] Cons.prems(2) by simp
    moreover have "0 \<le> (\<Sum>t \<leftarrow> ts. the (w t))" using Cons.prems(3) by (induction ts) auto
    ultimately show ?thesis using True k(1) Cons.prems(5) by simp
  next
    case False
    then show ?thesis using Cons.IH [OF k(2)] Cons.prems k(1) by auto
  qed
qed simp

lemma address_named_eqI:
  assumes "\<And>t. t \<in> set field_names \<Longrightarrow> named_field a t = named_field b t"
  shows "(a :: address) = b"
proof -
  have "\<forall>t \<in> set field_names. named_field a t = named_field b t" using assms by blast
  then show ?thesis unfolding field_names_ball named_field_eval by simp
qed

lemma mapped_field_within:
  assumes "SetAddressMapping c = Inr c'" "t \<in> set field_names"
  shows "named_pos c' t + nat (the (field_widths c t)) \<le> mapped_bits c"
proof -
  obtain m where m: "place_fields (field_widths c) (rev (tokens (address_mapping c))) 0 Map.empty = Inr m"
      "length (address_mapping c) = 12" "\<forall>t \<in> set field_names. m t = Some (int (named_pos c' t))"
    using placed_fields [OF assms(1)] by blast
  let ?ts = "rev (tokens (address_mapping c))"
  note ts = tokens_fields [OF assms(1)]
  have "int (named_pos c' t) + the (field_widths c t) \<le> 0 + (\<Sum>t \<leftarrow> ?ts. the (field_widths c t))"
    by (rule place_fields_within [OF m(1) ts(1,3)]) (use assms(2) ts(2) m(3) in blast)+
  moreover obtain k where "the (field_widths c t) = int k" using field_width [OF assms] by auto
  ultimately show ?thesis unfolding ts(4) mapped_bits_def by simp
qed

lemma AddressMapping_eq_iff:
  assumes "SetAddressMapping c = Inr c'"
  shows "AddressMapping c' a = AddressMapping c' b \<longleftrightarrow>
      take_bit (mapped_bits c) (drop_bit (shift_bits c') a) = take_bit (mapped_bits c) (drop_bit (shift_bits c') b)"
    (is "_ \<longleftrightarrow> take_bit ?M ?a = take_bit ?M ?b")
proof
  assume eq: "AddressMapping c' a = AddressMapping c' b"
  show "take_bit ?M ?a = take_bit ?M ?b"
  proof (rule bit_word_eqI)
    fix n
    show "bit (take_bit ?M ?a) n = bit (take_bit ?M ?b) n"
    proof (cases "n < ?M")
      case True
      from mapped_bit_in_field [OF assms True] obtain t where t: "t \<in> set field_names" "named_pos c' t \<le> n"
        "n < named_pos c' t + nat (the (field_widths c t))" by blast
      let ?w = "nat (the (field_widths c t))" and ?p = "named_pos c' t"
      have "take_bit ?w (drop_bit ?p ?a) = take_bit ?w (drop_bit ?p ?b)"
        using mapped_field [OF assms t(1), of a] mapped_field [OF assms t(1), of b] unfolding eq by (metis word_uint_eq_iff)
      then have "bit (take_bit ?w (drop_bit ?p ?a)) (n - ?p) = bit (take_bit ?w (drop_bit ?p ?b)) (n - ?p)" by simp
      then show ?thesis using t(2,3) True by (simp add: bit_simps less_diff_conv2)
    qed (simp add: bit_simps)
  qed
next
  assume eq: "take_bit ?M ?a = take_bit ?M ?b"
  show "AddressMapping c' a = AddressMapping c' b"
  proof (rule address_named_eqI)
    fix t assume t: "t \<in> set field_names"
    let ?w = "nat (the (field_widths c t))" and ?p = "named_pos c' t"
    have le: "?p + ?w \<le> ?M" by (rule mapped_field_within [OF assms t])
    have "take_bit ?w (drop_bit ?p ?a) = take_bit ?w (drop_bit ?p ?b)"
    proof (rule bit_word_eqI)
      fix n
      have "bit (take_bit ?M ?a) (?p + n) = bit (take_bit ?M ?b) (?p + n)" using eq by simp
      then show "bit (take_bit ?w (drop_bit ?p ?a)) n = bit (take_bit ?w (drop_bit ?p ?b)) n"
        using le by (auto simp: bit_simps ac_simps)
    qed
    then show "named_field (AddressMapping c' a) t = named_field (AddressMapping c' b) t"
      using mapped_field [OF assms t, of a] mapped_field [OF assms t, of b] by simp
  qed
qed

text \<open>An address of the memory that the configuration describes.\<close>

definition address_in_range :: "dram_config \<Rightarrow> address \<Rightarrow> bool" where
  "address_in_range c a \<longleftrightarrow>
     0 \<le> ad_channel a \<and> ad_channel a < channels c \<and> 0 \<le> ad_rank a \<and> ad_rank a < ranks c \<and>
     0 \<le> ad_bankgroup a \<and> ad_bankgroup a < bankgroups c \<and> 0 \<le> ad_bank a \<and> ad_bank a < banks_per_group c \<and>
     0 \<le> ad_row a \<and> ad_row a < rows c \<and> 0 \<le> ad_column a \<and> ad_column a * 2 ^ LogBase2 (BL c) < columns c"

lemma mapped_field_bound:
  assumes "SetAddressMapping c = Inr c'" "t \<in> set field_names"
  shows "0 \<le> named_field (AddressMapping c' a) t \<and> named_field (AddressMapping c' a) t < 2 ^ nat (the (field_widths c t))"
  unfolding mapped_field [OF assms] by (simp add: unsigned_take_bit_eq)

lemma field_widths_eval:
  "field_widths c ''ch'' = Some (int (LogBase2 (channels c)))" "field_widths c ''ra'' = Some (int (LogBase2 (ranks c)))"
  "field_widths c ''bg'' = Some (int (LogBase2 (bankgroups c)))" "field_widths c ''ba'' = Some (int (LogBase2 (banks_per_group c)))"
  "field_widths c ''ro'' = Some (int (LogBase2 (rows c)))"
  "field_widths c ''co'' = Some (int (LogBase2 (columns c)) - int (LogBase2 (BL c)))"
  by (simp_all add: field_widths_def)

lemma AddressMapping_range:
  assumes c': "SetAddressMapping c = Inr c'"
    and pos: "0 < channels c" "0 < ranks c" "0 < bankgroups c" "0 < banks_per_group c" "0 < rows c" "0 < columns c"
  shows "address_in_range c (AddressMapping c' a)"
proof -
  let ?f = "named_field (AddressMapping c' a)"
  have b: "0 \<le> ?f t \<and> ?f t < n" if "t \<in> set field_names" "nat (the (field_widths c t)) = LogBase2 n" "0 < n" for t n
    using mapped_field_bound [OF c' that(1), of a] LogBase2_le [OF that(3)] unfolding that(2) by linarith
  have co: "''co'' \<in> set field_names" by (simp add: field_names_def)
  obtain k where k: "int (LogBase2 (columns c)) - int (LogBase2 (BL c)) = int k"
    using field_width [OF c' co] unfolding field_widths_eval by auto
  have "0 \<le> ?f ''co'' \<and> ?f ''co'' < 2 ^ k" using mapped_field_bound [OF c' co, of a] unfolding field_widths_eval by (simp add: k)
  moreover have "(2::int) ^ k * 2 ^ LogBase2 (BL c) \<le> columns c"
  proof -
    have "LogBase2 (columns c) = k + LogBase2 (BL c)" using k by linarith
    then show ?thesis using LogBase2_le [OF pos(6)] by (simp add: power_add)
  qed
  ultimately have col: "0 \<le> ?f ''co'' \<and> ?f ''co'' * 2 ^ LogBase2 (BL c) < columns c"
    by (meson mult_strict_right_mono order_less_le_trans zero_less_numeral zero_less_power)
  have fs: "''ch'' \<in> set field_names" "''ra'' \<in> set field_names" "''bg'' \<in> set field_names" "''ba'' \<in> set field_names"
    "''ro'' \<in> set field_names" by (simp_all add: field_names_def)
  show ?thesis
    using b [OF fs(1) _ pos(1)] b [OF fs(2) _ pos(2)] b [OF fs(3) _ pos(3)] b [OF fs(4) _ pos(4)] b [OF fs(5) _ pos(5)] col
    unfolding field_widths_eval named_field_eval address_in_range_def by simp
qed

text \<open>The configuration the runtime is built with (\<^verbatim>\<open>DDR4_8Gb_x16_3200.ini\<close>).\<close>

definition ddr4_ini :: ini_file where
  "ddr4_ini = \<lparr>
     ini_int = map_of [((''dram_structure'', ''bankgroups''), 2), ((''dram_structure'', ''banks_per_group''), 4),
       ((''dram_structure'', ''rows''), 65536), ((''dram_structure'', ''columns''), 1024),
       ((''dram_structure'', ''device_width''), 16), ((''dram_structure'', ''BL''), 8),
       ((''timing'', ''AL''), 0), ((''timing'', ''CL''), 22), ((''timing'', ''CWL''), 16), ((''timing'', ''tRCD''), 22),
       ((''timing'', ''tRP''), 22), ((''timing'', ''tRAS''), 52), ((''timing'', ''tRFC''), 560), ((''timing'', ''tREFI''), 12480),
       ((''timing'', ''tRRD_S''), 9), ((''timing'', ''tRRD_L''), 11), ((''timing'', ''tWTR_S''), 4), ((''timing'', ''tWTR_L''), 12),
       ((''timing'', ''tFAW''), 48), ((''timing'', ''tWR''), 24), ((''timing'', ''tRTP''), 12), ((''timing'', ''tCCD_S''), 4),
       ((''timing'', ''tCCD_L''), 8), ((''timing'', ''tCKESR''), 9), ((''timing'', ''tXS''), 576), ((''timing'', ''tRTRS''), 1),
       ((''system'', ''channel_size''), 8192), ((''system'', ''channels''), 1), ((''system'', ''bus_width''), 64),
       ((''system'', ''cmd_queue_size''), 8), ((''system'', ''trans_queue_size''), 32)],
     ini_str = map_of [((''dram_structure'', ''protocol''), ''DDR4''), ((''system'', ''address_mapping''), ''rochrababgco''),
       ((''system'', ''queue_structure''), ''PER_BANK''), ((''system'', ''refresh_policy''), ''RANK_LEVEL_STAGGERED''),
       ((''system'', ''row_buf_policy''), ''OPEN_PAGE'')],
     ini_bool = Map.empty\<rparr>"

definition blank_config :: dram_config where
  "blank_config = \<lparr>protocol = DDR3, channel_size = 0, channels = 0, ranks = 0, banks = 0, bankgroups = 0, banks_per_group = 0,
     rows = 0, columns = 0, device_width = 0, bus_width = 0, devices_per_rank = 0, BL = 0, shift_bits = 0,
     ch_pos = 0, ra_pos = 0, bg_pos = 0, ba_pos = 0, ro_pos = 0, co_pos = 0,
     ch_mask = 0, ra_mask = 0, bg_mask = 0, ba_mask = 0, ro_mask = 0, co_mask = 0,
     burst_cycle = 0, AL = 0, CL = 0, CWL = 0, RL = 0, WL = 0, tCCD_L = 0, tCCD_S = 0, tRTRS = 0, tRTP = 0, tWTR_L = 0,
     tWTR_S = 0, tWR = 0, tRP = 0, tRRD_L = 0, tRRD_S = 0, tRAS = 0, tRCD = 0, tRFC = 0, tRC = 0, tCKESR = 0, tXS = 0,
     tRFCb = 0, tREFI = 0, tREFIb = 0, tFAW = 0, read_delay = 0, write_delay = 0, tPPD = 0, t32AW = 0, tRCDRD = 0, tRCDWR = 0,
     address_mapping = [], queue_structure = [], row_buf_policy = [], refresh_policy = RANK_LEVEL_STAGGERED,
     cmd_queue_size = 0, unified_queue = False, trans_queue_size = 0, enable_self_refresh = False, sref_threshold = 0,
     enable_hbm_dual_cmd = False, request_size_bytes = 0\<rparr>"

definition ddr4_dram :: dram_config where
  "ddr4_dram = \<lparr>protocol = DDR4, channel_size = 8192, channels = 1, ranks = 2, banks = 8, bankgroups = 2, banks_per_group = 4,
     rows = 65536, columns = 1024, device_width = 16, bus_width = 64, devices_per_rank = 4, BL = 8, shift_bits = 6,
     ch_pos = 11, ra_pos = 10, bg_pos = 7, ba_pos = 8, ro_pos = 11, co_pos = 0,
     ch_mask = 0, ra_mask = 1, bg_mask = 1, ba_mask = 3, ro_mask = 65535, co_mask = 127,
     burst_cycle = 4, AL = 0, CL = 22, CWL = 16, RL = 22, WL = 16, tCCD_L = 8, tCCD_S = 4, tRTRS = 1, tRTP = 12, tWTR_L = 12,
     tWTR_S = 4, tWR = 24, tRP = 22, tRRD_L = 11, tRRD_S = 9, tRAS = 52, tRCD = 22, tRFC = 560, tRC = 74, tCKESR = 9, tXS = 576,
     tRFCb = 20, tREFI = 12480, tREFIb = 1950, tFAW = 48, read_delay = 26, write_delay = 20, tPPD = 0, t32AW = 330,
     tRCDRD = 24, tRCDWR = 20, address_mapping = ''rochrababgco'', queue_structure = ''PER_BANK'', row_buf_policy = ''OPEN_PAGE'',
     refresh_policy = RANK_LEVEL_STAGGERED, cmd_queue_size = 8, unified_queue = False, trans_queue_size = 32,
     enable_self_refresh = False, sref_threshold = 1000, enable_hbm_dual_cmd = False, request_size_bytes = 64\<rparr>"

lemma make_ddr4: "make_config ddr4_ini blank_config = Inr ddr4_dram"
  by code_simp

text \<open>
  C12. Whatever order the mapping string gives the six fields, every field of a mapped address is
  within the range the configuration gives it, and two addresses are sent to the same place exactly
  when they are in the same access-sized unit (up to the bits above the capacity): the map from units
  to places is one to one. The channel the memory system routes a request to is the mapped one.
\<close>

theorem address_mapping_exact:
  assumes "SetAddressMapping c = Inr c'"
    and "0 < channels c" "0 < ranks c" "0 < bankgroups c" "0 < banks_per_group c" "0 < rows c" "0 < columns c"
  shows "address_in_range c (AddressMapping c' a) \<and> GetChannel c' a = ad_channel (AddressMapping c' a) \<and>
    (AddressMapping c' a = AddressMapping c' b \<longleftrightarrow>
      take_bit (mapped_bits c) (drop_bit (shift_bits c') a) = take_bit (mapped_bits c) (drop_bit (shift_bits c') b))"
  using AddressMapping_range [OF assms] AddressMapping_eq_iff [OF assms(1)]
  by (simp only: GetChannel_def AddressMapping_sel)

theorem address_mapping_exact_witness:
  "address_in_range ddr4_dram (AddressMapping ddr4_dram 0x12340) \<and>
   AddressMapping ddr4_dram 0x12340 = AddressMapping ddr4_dram 0x1237F \<and>
   AddressMapping ddr4_dram 0x12340 \<noteq> AddressMapping ddr4_dram 0x12380"
proof -
  have "SetAddressMapping ddr4_dram = Inr ddr4_dram" by code_simp
  moreover have "0 < channels ddr4_dram" "0 < ranks ddr4_dram" "0 < bankgroups ddr4_dram" "0 < banks_per_group ddr4_dram"
    "0 < rows ddr4_dram" "0 < columns ddr4_dram"
    by (simp_all add: ddr4_dram_def)
  ultimately have ex: "address_in_range ddr4_dram (AddressMapping ddr4_dram 0x12340) \<and>
      GetChannel ddr4_dram 0x12340 = ad_channel (AddressMapping ddr4_dram 0x12340) \<and>
      (AddressMapping ddr4_dram 0x12340 = AddressMapping ddr4_dram b \<longleftrightarrow>
        take_bit (mapped_bits ddr4_dram) (drop_bit (shift_bits ddr4_dram) 0x12340) =
        take_bit (mapped_bits ddr4_dram) (drop_bit (shift_bits ddr4_dram) b))" for b
    by (rule address_mapping_exact)
  have "mapped_bits ddr4_dram = 27" "shift_bits ddr4_dram = 6" by code_simp+
  then show ?thesis using ex [of "0x1237F"] ex [of "0x12380"] by (simp add: take_bit_eq_mask mask_eq_exp_minus_1)
qed

end
