(* ===== verification/DramChannel.thy ===== *)
theory DramChannel
  imports DramConfig
begin

text \<open>
  The minimum delays between commands (\<^verbatim>\<open>src/timing.cc\<close>) and the state of a channel
  (\<^verbatim>\<open>channel_state.h\<close>, \<^verbatim>\<open>src/channel_state.cc\<close>): its banks, its pending refreshes and its
  activation windows. The nested vectors of the code are functions of their indices; an index out of
  range is an error value. A run of a channel is a sequence of commands that the channel declared
  ready, each performed at the clock it was ready at.
\<close>

section \<open>Delays\<close>

record delays =
  read_to_read_l :: int
  read_to_read_s :: int
  read_to_read_o :: int
  read_to_write :: int
  read_to_write_o :: int
  read_to_precharge :: int
  readp_to_act :: int
  write_to_read_l :: int
  write_to_read_s :: int
  write_to_read_o :: int
  write_to_write_l :: int
  write_to_write_s :: int
  write_to_write_o :: int
  write_to_precharge :: int
  precharge_to_activate :: int
  precharge_to_precharge :: int
  read_to_activate :: int
  write_to_activate :: int
  activate_to_activate :: int
  activate_to_activate_l :: int
  activate_to_activate_s :: int
  activate_to_precharge :: int
  activate_to_read :: int
  activate_to_write :: int
  activate_to_refresh :: int
  refresh_to_refresh :: int
  refresh_to_activate :: int
  refresh_to_activate_bank :: int
  self_refresh_entry_to_exit :: int
  self_refresh_exit :: int

definition timing_delays :: "dram_config \<Rightarrow> delays" where
  "timing_delays c = \<lparr>
     read_to_read_l = max (burst_cycle c) (if bankgroups c = 1 then tCCD_S c else tCCD_L c),
     read_to_read_s = max (burst_cycle c) (tCCD_S c),
     read_to_read_o = burst_cycle c + tRTRS c,
     read_to_write = RL c + burst_cycle c - WL c + tRTRS c,
     read_to_write_o = read_delay c + burst_cycle c + tRTRS c - write_delay c,
     read_to_precharge = AL c + tRTP c,
     readp_to_act = AL c + burst_cycle c + tRTP c + tRP c,
     write_to_read_l = write_delay c + (if bankgroups c = 1 then tWTR_S c else tWTR_L c),
     write_to_read_s = write_delay c + tWTR_S c,
     write_to_read_o = write_delay c + burst_cycle c + tRTRS c - read_delay c,
     write_to_write_l = max (burst_cycle c) (if bankgroups c = 1 then tCCD_S c else tCCD_L c),
     write_to_write_s = max (burst_cycle c) (tCCD_S c),
     write_to_write_o = burst_cycle c,
     write_to_precharge = WL c + burst_cycle c + tWR c,
     precharge_to_activate = tRP c,
     precharge_to_precharge = tPPD c,
     read_to_activate = (AL c + tRTP c) + tRP c,
     write_to_activate = (WL c + burst_cycle c + tWR c) + tRP c,
     activate_to_activate = tRC c,
     activate_to_activate_l = (if bankgroups c = 1 then tRRD_S c else tRRD_L c),
     activate_to_activate_s = tRRD_S c,
     activate_to_precharge = tRAS c,
     activate_to_read = (if IsGDDR c \<or> IsHBM c then tRCDRD c else tRCD c - AL c),
     activate_to_write = (if IsGDDR c \<or> IsHBM c then tRCDWR c else tRCD c - AL c),
     activate_to_refresh = tRC c,
     refresh_to_refresh = tREFI c,
     refresh_to_activate = tRFC c,
     refresh_to_activate_bank = tRFCb c,
     self_refresh_entry_to_exit = tCKESR c,
     self_refresh_exit = tXS c\<rparr>"

type_synonym delay_list = "(command_type \<times> int) list"

definition same_bank :: "dram_config \<Rightarrow> command_type \<Rightarrow> delay_list" where
  "same_bank c t =
     (let d = timing_delays c in
      case t of
        READ \<Rightarrow> [(READ, read_to_read_l d), (WRITE, read_to_write d), (READ_PRECHARGE, read_to_read_l d),
                 (WRITE_PRECHARGE, read_to_write d), (PRECHARGE, read_to_precharge d)]
      | WRITE \<Rightarrow> [(READ, write_to_read_l d), (WRITE, write_to_write_l d), (READ_PRECHARGE, write_to_read_l d),
                  (WRITE_PRECHARGE, write_to_write_l d), (PRECHARGE, write_to_precharge d)]
      | READ_PRECHARGE \<Rightarrow> [(ACTIVATE, readp_to_act d), (REFRESH, read_to_activate d), (REFRESH_BANK, read_to_activate d),
                           (SREF_ENTER, read_to_activate d)]
      | WRITE_PRECHARGE \<Rightarrow> [(ACTIVATE, write_to_activate d), (REFRESH, write_to_activate d),
                            (REFRESH_BANK, write_to_activate d), (SREF_ENTER, write_to_activate d)]
      | ACTIVATE \<Rightarrow> [(ACTIVATE, activate_to_activate d), (READ, activate_to_read d), (WRITE, activate_to_write d),
                     (READ_PRECHARGE, activate_to_read d), (WRITE_PRECHARGE, activate_to_write d),
                     (PRECHARGE, activate_to_precharge d)]
      | PRECHARGE \<Rightarrow> [(ACTIVATE, precharge_to_activate d), (REFRESH, precharge_to_activate d),
                      (REFRESH_BANK, precharge_to_activate d), (SREF_ENTER, precharge_to_activate d)]
      | _ \<Rightarrow> [])"

definition other_banks_same_bankgroup :: "dram_config \<Rightarrow> command_type \<Rightarrow> delay_list" where
  "other_banks_same_bankgroup c t =
     (let d = timing_delays c;
          after_read = [(READ, read_to_read_l d), (WRITE, read_to_write d), (READ_PRECHARGE, read_to_read_l d),
                        (WRITE_PRECHARGE, read_to_write d)];
          after_write = [(READ, write_to_read_l d), (WRITE, write_to_write_l d), (READ_PRECHARGE, write_to_read_l d),
                         (WRITE_PRECHARGE, write_to_write_l d)]
      in case t of
        READ \<Rightarrow> after_read
      | WRITE \<Rightarrow> after_write
      | READ_PRECHARGE \<Rightarrow> after_read
      | WRITE_PRECHARGE \<Rightarrow> after_write
      | ACTIVATE \<Rightarrow> [(ACTIVATE, activate_to_activate_l d), (REFRESH_BANK, activate_to_refresh d)]
      | PRECHARGE \<Rightarrow> (if IsGDDR c \<or> protocol c = LPDDR4 then [(PRECHARGE, precharge_to_precharge d)] else [])
      | REFRESH_BANK \<Rightarrow> [(ACTIVATE, refresh_to_activate d), (REFRESH_BANK, refresh_to_refresh d)]
      | _ \<Rightarrow> [])"

definition other_bankgroups_same_rank :: "dram_config \<Rightarrow> command_type \<Rightarrow> delay_list" where
  "other_bankgroups_same_rank c t =
     (let d = timing_delays c;
          after_read = [(READ, read_to_read_s d), (WRITE, read_to_write d), (READ_PRECHARGE, read_to_read_s d),
                        (WRITE_PRECHARGE, read_to_write d)];
          after_write = [(READ, write_to_read_s d), (WRITE, write_to_write_s d), (READ_PRECHARGE, write_to_read_s d),
                         (WRITE_PRECHARGE, write_to_write_s d)]
      in case t of
        READ \<Rightarrow> after_read
      | WRITE \<Rightarrow> after_write
      | READ_PRECHARGE \<Rightarrow> after_read
      | WRITE_PRECHARGE \<Rightarrow> after_write
      | ACTIVATE \<Rightarrow> [(ACTIVATE, activate_to_activate_s d), (REFRESH_BANK, activate_to_refresh d)]
      | PRECHARGE \<Rightarrow> (if IsGDDR c \<or> protocol c = LPDDR4 then [(PRECHARGE, precharge_to_precharge d)] else [])
      | REFRESH_BANK \<Rightarrow> [(ACTIVATE, refresh_to_activate d), (REFRESH_BANK, refresh_to_refresh d)]
      | _ \<Rightarrow> [])"

definition other_ranks :: "dram_config \<Rightarrow> command_type \<Rightarrow> delay_list" where
  "other_ranks c t =
     (let d = timing_delays c;
          after_read = [(READ, read_to_read_o d), (WRITE, read_to_write_o d), (READ_PRECHARGE, read_to_read_o d),
                        (WRITE_PRECHARGE, read_to_write_o d)];
          after_write = [(READ, write_to_read_o d), (WRITE, write_to_write_o d), (READ_PRECHARGE, write_to_read_o d),
                         (WRITE_PRECHARGE, write_to_write_o d)]
      in case t of
        READ \<Rightarrow> after_read
      | WRITE \<Rightarrow> after_write
      | READ_PRECHARGE \<Rightarrow> after_read
      | WRITE_PRECHARGE \<Rightarrow> after_write
      | _ \<Rightarrow> [])"

definition same_rank :: "dram_config \<Rightarrow> command_type \<Rightarrow> delay_list" where
  "same_rank c t =
     (let d = timing_delays c in
      case t of
        REFRESH_BANK \<Rightarrow> [(ACTIVATE, refresh_to_activate_bank d), (REFRESH, refresh_to_activate_bank d),
                         (REFRESH_BANK, refresh_to_activate_bank d), (SREF_ENTER, refresh_to_activate_bank d)]
      | REFRESH \<Rightarrow> [(ACTIVATE, refresh_to_activate d), (REFRESH, refresh_to_activate d), (SREF_ENTER, refresh_to_activate d)]
      | SREF_ENTER \<Rightarrow> [(SREF_EXIT, self_refresh_entry_to_exit d)]
      | SREF_EXIT \<Rightarrow> [(ACTIVATE, self_refresh_exit d), (REFRESH, self_refresh_exit d), (REFRESH_BANK, self_refresh_exit d),
                      (SREF_ENTER, self_refresh_exit d)]
      | _ \<Rightarrow> [])"

section \<open>Channel state\<close>

record channel_state =
  rank_idle_cycles :: "(int, int) mapping"
  rank_is_sref :: "(int, bool) mapping"
  bank_states :: "(int \<times> int \<times> int, bank_state) mapping"
  refresh_q :: "command list"
  four_aw :: "(int, nat list) mapping"
  thirty_two_aw :: "(int, nat list) mapping"

definition new_channel :: channel_state where
  "new_channel = \<lparr>rank_idle_cycles = Mapping.empty, rank_is_sref = Mapping.empty, bank_states = Mapping.empty, refresh_q = [],
     four_aw = Mapping.empty, thirty_two_aw = Mapping.empty\<rparr>"

definition bank_of :: "channel_state \<Rightarrow> int \<times> int \<times> int \<Rightarrow> bank_state" where
  "bank_of cs k = entry new_bank (bank_states cs) k"

definition rank_ok :: "dram_config \<Rightarrow> int \<Rightarrow> bool" where
  "rank_ok c r \<longleftrightarrow> 0 \<le> r \<and> r < ranks c"

definition bank_ok :: "dram_config \<Rightarrow> int \<Rightarrow> int \<Rightarrow> int \<Rightarrow> bool" where
  "bank_ok c r g b \<longleftrightarrow> rank_ok c r \<and> 0 \<le> g \<and> g < bankgroups c \<and> 0 \<le> b \<and> b < banks_per_group c"

text \<open>The banks of a rank in the order of the nested loops over bank groups and banks.\<close>

definition rank_banks :: "dram_config \<Rightarrow> (int \<times> int) list" where
  "rank_banks c = [(j, k). j \<leftarrow> [0..bankgroups c - 1], k \<leftarrow> [0..banks_per_group c - 1]]"

definition mod_bank :: "(bank_state \<Rightarrow> bank_state) \<Rightarrow> int \<times> int \<times> int \<Rightarrow> channel_state \<Rightarrow> channel_state" where
  "mod_bank f k cs = cs\<lparr>bank_states := Mapping.update k (f (bank_of cs k)) (bank_states cs)\<rparr>"

definition IsAllBankIdleInRank :: "dram_config \<Rightarrow> channel_state \<Rightarrow> int \<Rightarrow> bool" where
  "IsAllBankIdleInRank c cs r \<longleftrightarrow> list_all (\<lambda>(j, k). \<not> IsRowOpen (bank_of cs (r, j, k))) (rank_banks c)"

definition IsRWPendingOnRef :: "channel_state \<Rightarrow> command \<Rightarrow> bool" where
  "IsRWPendingOnRef cs cmd \<longleftrightarrow>
     (let b = bank_of cs (Rank cmd, Bankgroup cmd, Bank cmd)
      in IsRowOpen b \<and> row_hit_count b = 0 \<and> open_row b = Row cmd)"

fun erase_first :: "('a \<Rightarrow> bool) \<Rightarrow> 'a list \<Rightarrow> 'a list" where
  "erase_first p [] = []"
| "erase_first p (x # xs) = (if p x then xs else x # erase_first p xs)"

definition BankNeedRefresh :: "int \<Rightarrow> int \<Rightarrow> int \<Rightarrow> bool \<Rightarrow> channel_state \<Rightarrow> channel_state" where
  "BankNeedRefresh r g b need cs =
     (if need then cs\<lparr>refresh_q := refresh_q cs @ [mk_command REFRESH_BANK (mk_address (-1) r g b (-1) (-1)) (-1)]\<rparr>
      else cs\<lparr>refresh_q := erase_first (\<lambda>q. Rank q = r \<and> Bankgroup q = g \<and> Bank q = b) (refresh_q cs)\<rparr>)"

definition RankNeedRefresh :: "int \<Rightarrow> bool \<Rightarrow> channel_state \<Rightarrow> channel_state" where
  "RankNeedRefresh r need cs =
     (if need then cs\<lparr>refresh_q := refresh_q cs @ [mk_command REFRESH (mk_address (-1) r (-1) (-1) (-1) (-1)) (-1)]\<rparr>
      else cs\<lparr>refresh_q := erase_first (\<lambda>q. Rank q = r) (refresh_q cs)\<rparr>)"

definition IsFAWReady :: "channel_state \<Rightarrow> int \<Rightarrow> nat \<Rightarrow> bool" where
  "IsFAWReady cs r now \<longleftrightarrow>
     (case entry [] (four_aw cs) r of [] \<Rightarrow> True | t # _ \<Rightarrow> \<not> (now < t \<and> length (entry [] (four_aw cs) r) \<ge> 4))"

definition Is32AWReady :: "channel_state \<Rightarrow> int \<Rightarrow> nat \<Rightarrow> bool" where
  "Is32AWReady cs r now \<longleftrightarrow>
     (case entry [] (thirty_two_aw cs) r of [] \<Rightarrow> True | t # _ \<Rightarrow> \<not> (now < t \<and> length (entry [] (thirty_two_aw cs) r) \<ge> 32))"

definition ActivationWindowOk :: "dram_config \<Rightarrow> channel_state \<Rightarrow> int \<Rightarrow> nat \<Rightarrow> bool" where
  "ActivationWindowOk c cs r now \<longleftrightarrow>
     (if IsGDDR c then (if \<not> IsFAWReady cs r now then False else Is32AWReady cs r now) else IsFAWReady cs r now)"

text \<open>An activation window: a list of expiry times, of which one expired entry at most is dropped per activation.\<close>

definition slide_window :: "nat \<Rightarrow> int \<Rightarrow> nat list \<Rightarrow> nat list" where
  "slide_window now len w =
     (case w of [] \<Rightarrow> [] | t # ts \<Rightarrow> if now \<ge> t then ts else t # ts) @ [plus64 now len]"

definition UpdateActivationTimes :: "dram_config \<Rightarrow> int \<Rightarrow> nat \<Rightarrow> channel_state \<Rightarrow> channel_state" where
  "UpdateActivationTimes c r now cs =
     (let cs1 = cs\<lparr>four_aw := Mapping.update r (slide_window now (tFAW c) (entry [] (four_aw cs) r)) (four_aw cs)\<rparr>
      in if IsGDDR c then cs1\<lparr>thirty_two_aw := Mapping.update r (slide_window now (t32AW c) (entry [] (thirty_two_aw cs) r)) (thirty_two_aw cs)\<rparr>
         else cs1)"

text \<open>A rank command waits for all banks of the rank; a bank that has to be precharged first makes the command a precharge of it.\<close>

fun rank_ready :: "dram_config \<Rightarrow> channel_state \<Rightarrow> command \<Rightarrow> nat \<Rightarrow> (int \<times> int) list \<Rightarrow> int \<Rightarrow> command \<Rightarrow> dram_error + command" where
  "rank_ready c cs cmd clk [] num_ready ready_cmd = Inr (if num_ready = banks c then ready_cmd else no_command)"
| "rank_ready c cs cmd clk ((j, k) # l) num_ready ready_cmd =
     andThen (bank_GetReadyCommand (bank_of cs (Rank cmd, j, k)) cmd clk) (\<lambda>ready.
       if \<not> IsValid ready then rank_ready c cs cmd clk l num_ready ready
       else if cmd_type ready \<noteq> cmd_type cmd
       then Inr (ready\<lparr>cmd_addr := mk_address (-1) (Rank cmd) j k (-1) (-1)\<rparr>)
       else rank_ready c cs cmd clk l (num_ready + 1) ready)"

definition GetReadyCommand :: "dram_config \<Rightarrow> channel_state \<Rightarrow> command \<Rightarrow> nat \<Rightarrow> dram_error + command" where
  "GetReadyCommand c cs cmd clk =
     (if IsRankCMD cmd then
        (if \<not> rank_ok c (Rank cmd) then Inl BadBankIndex else rank_ready c cs cmd clk (rank_banks c) 0 no_command)
      else if \<not> bank_ok c (Rank cmd) (Bankgroup cmd) (Bank cmd) then Inl BadBankIndex
      else andThen (bank_GetReadyCommand (bank_of cs (Rank cmd, Bankgroup cmd, Bank cmd)) cmd clk) (\<lambda>ready.
        if \<not> IsValid ready then Inr no_command
        else if cmd_type ready = ACTIVATE \<and> \<not> ActivationWindowOk c cs (Rank ready) clk then Inr no_command
        else Inr ready))"

fun update_banks :: "command \<Rightarrow> (int \<times> int) list \<Rightarrow> channel_state \<Rightarrow> dram_error + channel_state" where
  "update_banks cmd [] cs = Inr cs"
| "update_banks cmd ((j, k) # l) cs =
     andThen (bank_UpdateState cmd (bank_of cs (Rank cmd, j, k))) (\<lambda>b.
       update_banks cmd l (mod_bank (\<lambda>_. b) (Rank cmd, j, k) cs))"

definition UpdateState :: "dram_config \<Rightarrow> command \<Rightarrow> channel_state \<Rightarrow> dram_error + channel_state" where
  "UpdateState c cmd cs =
     (if IsRankCMD cmd then
        (if \<not> rank_ok c (Rank cmd) then Inl BadBankIndex
         else andThen (update_banks cmd (rank_banks c) cs) (\<lambda>cs.
           Inr (if IsRefresh cmd then RankNeedRefresh (Rank cmd) False cs
                else if cmd_type cmd = SREF_ENTER then cs\<lparr>rank_is_sref := Mapping.update (Rank cmd) True (rank_is_sref cs)\<rparr>
                else if cmd_type cmd = SREF_EXIT then cs\<lparr>rank_is_sref := Mapping.update (Rank cmd) False (rank_is_sref cs)\<rparr>
                else cs)))
      else if \<not> bank_ok c (Rank cmd) (Bankgroup cmd) (Bank cmd) then Inl BadBankIndex
      else andThen (update_banks cmd [(Bankgroup cmd, Bank cmd)] cs) (\<lambda>cs.
        Inr (if IsRefresh cmd then BankNeedRefresh (Rank cmd) (Bankgroup cmd) (Bank cmd) False cs else cs)))"

text \<open>The inner loop over a delay list, for one bank.\<close>

definition bank_timings :: "delay_list \<Rightarrow> nat \<Rightarrow> bank_state \<Rightarrow> bank_state" where
  "bank_timings l clk b = fold (\<lambda>(t, d) b. bank_UpdateTiming t (plus64 clk d) b) l b"

definition UpdateSameBankTiming :: "address \<Rightarrow> delay_list \<Rightarrow> nat \<Rightarrow> channel_state \<Rightarrow> channel_state" where
  "UpdateSameBankTiming a l clk cs = mod_bank (bank_timings l clk) (ad_rank a, ad_bankgroup a, ad_bank a) cs"

definition UpdateOtherBanksSameBankgroupTiming :: "dram_config \<Rightarrow> address \<Rightarrow> delay_list \<Rightarrow> nat \<Rightarrow> channel_state \<Rightarrow> channel_state" where
  "UpdateOtherBanksSameBankgroupTiming c a l clk cs =
     fold (\<lambda>k cs. if k \<noteq> ad_bank a then mod_bank (bank_timings l clk) (ad_rank a, ad_bankgroup a, k) cs else cs)
       [0..banks_per_group c - 1] cs"

definition UpdateOtherBankgroupsSameRankTiming :: "dram_config \<Rightarrow> address \<Rightarrow> delay_list \<Rightarrow> nat \<Rightarrow> channel_state \<Rightarrow> channel_state" where
  "UpdateOtherBankgroupsSameRankTiming c a l clk cs =
     fold (\<lambda>(j, k) cs. if j \<noteq> ad_bankgroup a then mod_bank (bank_timings l clk) (ad_rank a, j, k) cs else cs) (rank_banks c) cs"

definition UpdateOtherRanksTiming :: "dram_config \<Rightarrow> address \<Rightarrow> delay_list \<Rightarrow> nat \<Rightarrow> channel_state \<Rightarrow> channel_state" where
  "UpdateOtherRanksTiming c a l clk cs =
     fold (\<lambda>i cs. if i \<noteq> ad_rank a then fold (\<lambda>(j, k). mod_bank (bank_timings l clk) (i, j, k)) (rank_banks c) cs else cs)
       [0..ranks c - 1] cs"

definition UpdateSameRankTiming :: "dram_config \<Rightarrow> address \<Rightarrow> delay_list \<Rightarrow> nat \<Rightarrow> channel_state \<Rightarrow> channel_state" where
  "UpdateSameRankTiming c a l clk cs = fold (\<lambda>(j, k). mod_bank (bank_timings l clk) (ad_rank a, j, k)) (rank_banks c) cs"

definition UpdateTiming :: "dram_config \<Rightarrow> command \<Rightarrow> nat \<Rightarrow> channel_state \<Rightarrow> dram_error + channel_state" where
  "UpdateTiming c cmd clk cs =
     (let t = cmd_type cmd; a = cmd_addr cmd in
      if t \<in> {ACTIVATE, READ, READ_PRECHARGE, WRITE, WRITE_PRECHARGE, PRECHARGE, REFRESH_BANK} then
        (let cs0 = (if t = ACTIVATE then UpdateActivationTimes c (ad_rank a) clk cs else cs);
             cs1 = UpdateSameBankTiming a (same_bank c t) clk cs0;
             cs2 = UpdateOtherBanksSameBankgroupTiming c a (other_banks_same_bankgroup c t) clk cs1;
             cs3 = UpdateOtherBankgroupsSameRankTiming c a (other_bankgroups_same_rank c t) clk cs2
         in Inr (UpdateOtherRanksTiming c a (other_ranks c t) clk cs3))
      else if t \<in> {REFRESH, SREF_ENTER, SREF_EXIT} then Inr (UpdateSameRankTiming c a (same_rank c t) clk cs)
      else Inl AbruptExit_Timing)"

definition UpdateTimingAndStates :: "dram_config \<Rightarrow> command \<Rightarrow> nat \<Rightarrow> channel_state \<Rightarrow> dram_error + channel_state" where
  "UpdateTimingAndStates c cmd clk cs = andThen (UpdateState c cmd cs) (\<lambda>cs. UpdateTiming c cmd clk cs)"

end
