(* ===== verification/DramRun.thy ===== *)
theory DramRun
  imports DramChannel
begin

text \<open>
  Runs of a DRAM channel: what the loops of the timing update do to each bank, what a ready command
  means for the banks it acts on, and the invariant of every run: delays, row protocol, activation
  windows.
\<close>

section \<open>Loops over banks\<close>

abbreviation key_ok :: "dram_config \<Rightarrow> int \<times> int \<times> int \<Rightarrow> bool" where
  "key_ok c k \<equiv> (case k of (r, g, b) \<Rightarrow> bank_ok c r g b)"

lemma bank_of_mod_bank: "bank_of (mod_bank f k cs) k' = (if k' = k then f (bank_of cs k) else bank_of cs k')"
  by (simp add: bank_of_def mod_bank_def)

lemma mod_bank_rest [simp]:
  "rank_idle_cycles (mod_bank f k cs) = rank_idle_cycles cs" "rank_is_sref (mod_bank f k cs) = rank_is_sref cs"
  "refresh_q (mod_bank f k cs) = refresh_q cs" "four_aw (mod_bank f k cs) = four_aw cs"
  "thirty_two_aw (mod_bank f k cs) = thirty_two_aw cs"
  by (simp_all add: mod_bank_def)

text \<open>The part of the state that a loop over banks leaves alone.\<close>

definition same_rest :: "channel_state \<Rightarrow> channel_state \<Rightarrow> bool" where
  "same_rest cs cs' \<longleftrightarrow> rank_idle_cycles cs' = rank_idle_cycles cs \<and> rank_is_sref cs' = rank_is_sref cs \<and>
     refresh_q cs' = refresh_q cs \<and> four_aw cs' = four_aw cs \<and> thirty_two_aw cs' = thirty_two_aw cs"

lemma same_rest_refl [simp]: "same_rest cs cs"
  by (simp add: same_rest_def)

lemma same_rest_trans: "same_rest a b \<Longrightarrow> same_rest b c \<Longrightarrow> same_rest a c"
  by (simp add: same_rest_def)

lemma same_rest_mod_bank [simp]: "same_rest cs (mod_bank f k cs)"
  by (simp add: same_rest_def)

lemma fold_mod_bank:
  "distinct ks \<Longrightarrow> bank_of (fold (mod_bank f) ks cs) k = (if k \<in> set ks then f (bank_of cs k) else bank_of cs k)"
  by (induction ks arbitrary: cs) (auto simp: bank_of_mod_bank)

lemma fold_mod_bank_rest: "same_rest cs (fold (mod_bank f) ks cs)"
  by (induction ks arbitrary: cs) (auto intro: same_rest_trans [OF same_rest_mod_bank])

lemma distinct_rank_banks: "distinct (rank_banks c)"
proof -
  have "rank_banks c = List.product [0..bankgroups c - 1] [0..banks_per_group c - 1]"
    by (simp add: rank_banks_def product_concat_map)
  then show ?thesis by (simp add: distinct_product)
qed

lemma set_rank_banks: "(j, k) \<in> set (rank_banks c) \<longleftrightarrow> 0 \<le> j \<and> j < bankgroups c \<and> 0 \<le> k \<and> k < banks_per_group c"
proof -
  have "rank_banks c = List.product [0..bankgroups c - 1] [0..banks_per_group c - 1]"
    by (simp add: rank_banks_def product_concat_map)
  then show ?thesis by auto
qed

lemma rank_banks_ok: "rank_ok c r \<Longrightarrow> (g, b) \<in> set (rank_banks c) \<longleftrightarrow> bank_ok c r g b"
  by (auto simp: set_rank_banks bank_ok_def)

lemma length_rank_banks: "0 \<le> bankgroups c \<Longrightarrow> 0 \<le> banks_per_group c \<Longrightarrow> int (length (rank_banks c)) = bankgroups c * banks_per_group c"
proof -
  assume "0 \<le> bankgroups c" "0 \<le> banks_per_group c"
  moreover have "rank_banks c = List.product [0..bankgroups c - 1] [0..banks_per_group c - 1]"
    by (simp add: rank_banks_def product_concat_map)
  ultimately show ?thesis by (simp add: length_product)
qed

section \<open>What the timing update does to each bank\<close>

text \<open>The delays a command imposes on a bank.\<close>

definition delays_to :: "dram_config \<Rightarrow> command \<Rightarrow> int \<times> int \<times> int \<Rightarrow> delay_list" where
  "delays_to c cmd k =
     (case k of (r, g, b) \<Rightarrow>
        if IsRankCMD cmd then (if r = Rank cmd then same_rank c (cmd_type cmd) else [])
        else if r \<noteq> Rank cmd then other_ranks c (cmd_type cmd)
        else if g \<noteq> Bankgroup cmd then other_bankgroups_same_rank c (cmd_type cmd)
        else if b \<noteq> Bank cmd then other_banks_same_bankgroup c (cmd_type cmd)
        else same_bank c (cmd_type cmd))"

lemma bank_timings_Nil [simp]: "bank_timings [] clk b = b"
  by (simp add: bank_timings_def)

lemma SameBank_keys: "UpdateSameBankTiming a l clk = fold (mod_bank (bank_timings l clk)) [(ad_rank a, ad_bankgroup a, ad_bank a)]"
  by (simp add: fun_eq_iff UpdateSameBankTiming_def)

lemma OtherBanks_keys: "UpdateOtherBanksSameBankgroupTiming c a l clk cs =
    fold (mod_bank (bank_timings l clk)) (map (\<lambda>k. (ad_rank a, ad_bankgroup a, k)) (filter (\<lambda>k. k \<noteq> ad_bank a) [0..banks_per_group c - 1])) cs"
proof -
  have "fold (\<lambda>k cs. if k \<noteq> ad_bank a then mod_bank f (ad_rank a, ad_bankgroup a, k) cs else cs) xs cs =
      fold (mod_bank f) (map (\<lambda>k. (ad_rank a, ad_bankgroup a, k)) (filter (\<lambda>k. k \<noteq> ad_bank a) xs)) cs" for f xs cs
    by (induction xs arbitrary: cs) auto
  then show ?thesis by (simp add: UpdateOtherBanksSameBankgroupTiming_def)
qed

lemma OtherBankgroups_keys: "UpdateOtherBankgroupsSameRankTiming c a l clk cs =
    fold (mod_bank (bank_timings l clk)) (map (\<lambda>(j, k). (ad_rank a, j, k)) (filter (\<lambda>(j, k). j \<noteq> ad_bankgroup a) (rank_banks c))) cs"
proof -
  have "fold (\<lambda>(j, k) cs. if j \<noteq> ad_bankgroup a then mod_bank f (ad_rank a, j, k) cs else cs) xs cs =
      fold (mod_bank f) (map (\<lambda>(j, k). (ad_rank a, j, k)) (filter (\<lambda>(j, k). j \<noteq> ad_bankgroup a) xs)) cs" for f xs cs
    by (induction xs arbitrary: cs) auto
  then show ?thesis by (simp add: UpdateOtherBankgroupsSameRankTiming_def)
qed

lemma SameRank_keys: "UpdateSameRankTiming c a l clk cs =
    fold (mod_bank (bank_timings l clk)) (map (\<lambda>(j, k). (ad_rank a, j, k)) (rank_banks c)) cs"
proof -
  have "fold (\<lambda>(j, k). mod_bank f (r, j, k)) xs cs = fold (mod_bank f) (map (\<lambda>(j, k). (r, j, k)) xs) cs" for f r xs cs
    by (induction xs arbitrary: cs) auto
  then show ?thesis by (simp add: UpdateSameRankTiming_def)
qed

lemma OtherRanks_keys: "UpdateOtherRanksTiming c a l clk cs =
    fold (mod_bank (bank_timings l clk)) [(i, j, k). i \<leftarrow> filter (\<lambda>i. i \<noteq> ad_rank a) [0..ranks c - 1], (j, k) \<leftarrow> rank_banks c] cs"
proof -
  have r: "fold (\<lambda>(j, k). mod_bank f (r, j, k)) xs cs = fold (mod_bank f) (map (\<lambda>(j, k). (r, j, k)) xs) cs" for f r xs cs
    by (induction xs arbitrary: cs) auto
  have "fold (\<lambda>i cs. if i \<noteq> ad_rank a then fold (\<lambda>(j, k). mod_bank f (i, j, k)) (rank_banks c) cs else cs) is cs =
      fold (mod_bank f) [(i, j, k). i \<leftarrow> filter (\<lambda>i. i \<noteq> ad_rank a) is, (j, k) \<leftarrow> rank_banks c] cs" for f "is" cs
    by (induction "is" arbitrary: cs) (auto simp: r)
  then show ?thesis by (simp add: UpdateOtherRanksTiming_def)
qed

lemma distinct_other_ranks:
  "distinct is \<Longrightarrow> distinct [(i, j, k). i \<leftarrow> is, (j, k) \<leftarrow> rank_banks c :: (int \<times> int) list]"
proof (induction "is")
  case (Cons i js)
  have "distinct (map (\<lambda>(j, k). (i, j, k)) (rank_banks c))" by (simp add: distinct_map distinct_rank_banks inj_on_def)
  then show ?case using Cons by auto
qed simp

text \<open>Each bank gets the delays of its own relation to the command, and nothing else changes.\<close>

lemma UpdateTiming_banks:
  assumes "UpdateTiming c cmd clk cs = Inr cs'" "key_ok c k"
  shows "bank_of cs' k = bank_timings (delays_to c cmd k) clk (bank_of cs k)"
proof -
  obtain r g b where k: "k = (r, g, b)" by (cases k)
  let ?t = "cmd_type cmd" and ?a = "cmd_addr cmd"
  show ?thesis
  proof (cases "IsRankCMD cmd")
    case True
    then have "cs' = UpdateSameRankTiming c ?a (same_rank c ?t) clk cs"
      using assms(1) by (auto simp: UpdateTiming_def Let_def command_kinds split: if_splits)
    moreover have "distinct (map (\<lambda>(j, k). (ad_rank ?a, j, k)) (rank_banks c))"
      by (simp add: distinct_map distinct_rank_banks inj_on_def)
    moreover have "k \<in> set (map (\<lambda>(j, k). (ad_rank ?a, j, k)) (rank_banks c)) \<longleftrightarrow> r = Rank cmd"
      using assms(2) k by (auto simp: bank_ok_def image_iff set_rank_banks)
    ultimately show ?thesis using True by (simp add: SameRank_keys fold_mod_bank delays_to_def k)
  next
    case False
    define cs0 where "cs0 = (if ?t = ACTIVATE then UpdateActivationTimes c (ad_rank ?a) clk cs else cs)"
    define cs1 where "cs1 = UpdateSameBankTiming ?a (same_bank c ?t) clk cs0"
    define cs2 where "cs2 = UpdateOtherBanksSameBankgroupTiming c ?a (other_banks_same_bankgroup c ?t) clk cs1"
    define cs3 where "cs3 = UpdateOtherBankgroupsSameRankTiming c ?a (other_bankgroups_same_rank c ?t) clk cs2"
    have cs': "cs' = UpdateOtherRanksTiming c ?a (other_ranks c ?t) clk cs3"
      using assms(1) False by (auto simp: UpdateTiming_def Let_def command_kinds cs0_def cs1_def cs2_def cs3_def split: if_splits)
    have 0: "bank_of cs0 k = bank_of cs k" by (auto simp: cs0_def UpdateActivationTimes_def Let_def bank_of_def k)
    have 1: "bank_of cs1 k = (if (r, g, b) = (Rank cmd, Bankgroup cmd, Bank cmd) then bank_timings (same_bank c ?t) clk (bank_of cs0 k) else bank_of cs0 k)"
      unfolding cs1_def SameBank_keys k by (subst fold_mod_bank) auto
    have 2: "bank_of cs2 k = (if r = Rank cmd \<and> g = Bankgroup cmd \<and> b \<noteq> Bank cmd
        then bank_timings (other_banks_same_bankgroup c ?t) clk (bank_of cs1 k) else bank_of cs1 k)"
      unfolding cs2_def OtherBanks_keys k
      by (subst fold_mod_bank) (use assms(2) k in \<open>auto simp: distinct_map inj_on_def bank_ok_def image_iff\<close>)
    have 3: "bank_of cs3 k = (if r = Rank cmd \<and> g \<noteq> Bankgroup cmd
        then bank_timings (other_bankgroups_same_rank c ?t) clk (bank_of cs2 k) else bank_of cs2 k)"
      unfolding cs3_def OtherBankgroups_keys k
      by (subst fold_mod_bank)
         (use assms(2) k in \<open>auto simp: distinct_map inj_on_def bank_ok_def image_iff distinct_rank_banks set_rank_banks\<close>)
    have 4: "bank_of cs' k = (if r \<noteq> Rank cmd then bank_timings (other_ranks c ?t) clk (bank_of cs3 k) else bank_of cs3 k)"
      unfolding cs' OtherRanks_keys k
      by (subst fold_mod_bank [OF distinct_other_ranks])
         (use assms(2) k in \<open>auto simp: bank_ok_def rank_ok_def image_iff set_rank_banks\<close>)
    show ?thesis unfolding 4 3 2 1 0 using False by (auto simp: delays_to_def k)
  qed
qed


lemma same_rest_fold: "same_rest cs (fold (mod_bank f) ks cs)"
  by (rule fold_mod_bank_rest)

lemma UpdateTiming_rest:
  assumes "UpdateTiming c cmd clk cs = Inr cs'"
  shows "same_rest (if cmd_type cmd = ACTIVATE then UpdateActivationTimes c (Rank cmd) clk cs else cs) cs'"
  using assms
  by (auto simp: UpdateTiming_def Let_def SameRank_keys SameBank_keys OtherBanks_keys OtherBankgroups_keys OtherRanks_keys
      split: if_splits intro: fold_mod_bank_rest intro!: same_rest_trans [OF _ fold_mod_bank_rest])

lemma bank_timings_sel [simp]:
  "bk_state (bank_timings l clk b) = bk_state b" "open_row (bank_timings l clk b) = open_row b"
  "row_hit_count (bank_timings l clk b) = row_hit_count b"
  unfolding bank_timings_def by (induction l arbitrary: b) auto

lemma bank_timings_mono: "timing_of b t \<le> timing_of (bank_timings l clk b) t"
proof (induction l arbitrary: b)
  case (Cons x l)
  show ?case
    using Cons [of "bank_UpdateTiming (fst x) (plus64 clk (snd x)) b"] bank_UpdateTiming_mono [of b t "fst x" "plus64 clk (snd x)"]
    by (simp add: bank_timings_def split_beta)
qed simp

lemma bank_timings_reach: "(t, d) \<in> set l \<Longrightarrow> plus64 clk d \<le> timing_of (bank_timings l clk b) t"
proof (induction l arbitrary: b)
  case (Cons x l)
  let ?b = "bank_UpdateTiming (fst x) (plus64 clk (snd x)) b"
  have eq: "bank_timings (x # l) clk b = bank_timings l clk ?b" by (simp add: bank_timings_def split_beta)
  show ?case
  proof (cases "x = (t, d)")
    case True
    then have "plus64 clk d \<le> timing_of ?b t" by (simp add: bank_UpdateTiming_def timing_of_def)
    then show ?thesis unfolding eq using bank_timings_mono order_trans by blast
  next
    case False
    then show ?thesis unfolding eq using Cons by auto
  qed
qed simp

lemma bank_timings_other: "t \<notin> fst ` set l \<Longrightarrow> timing_of (bank_timings l clk b) t = timing_of b t"
  unfolding bank_timings_def by (induction l arbitrary: b) (auto simp: bank_UpdateTiming_def timing_of_def)

section \<open>What the state update does to each bank\<close>

text \<open>The banks a command acts on.\<close>

definition targets :: "dram_config \<Rightarrow> command \<Rightarrow> int \<times> int \<times> int \<Rightarrow> bool" where
  "targets c cmd k \<longleftrightarrow> key_ok c k \<and> (if IsRankCMD cmd then fst k = Rank cmd else k = (Rank cmd, Bankgroup cmd, Bank cmd))"

text \<open>The address of a command names existing banks.\<close>

definition addressed :: "dram_config \<Rightarrow> command \<Rightarrow> bool" where
  "addressed c cmd \<longleftrightarrow> (if IsRankCMD cmd then rank_ok c (Rank cmd) else bank_ok c (Rank cmd) (Bankgroup cmd) (Bank cmd))"

lemma update_banks_Inr:
  assumes "update_banks cmd l cs = Inr cs'" "distinct l"
  shows "same_rest cs cs'" "\<And>jk. jk \<in> set l \<Longrightarrow> bank_UpdateState cmd (bank_of cs (Rank cmd, jk)) = Inr (bank_of cs' (Rank cmd, jk))"
    "\<And>r jk. \<not> (r = Rank cmd \<and> jk \<in> set l) \<Longrightarrow> bank_of cs' (r, jk) = bank_of cs (r, jk)"
proof -
  have "same_rest cs cs' \<and> (\<forall>jk \<in> set l. bank_UpdateState cmd (bank_of cs (Rank cmd, jk)) = Inr (bank_of cs' (Rank cmd, jk))) \<and>
      (\<forall>r jk. \<not> (r = Rank cmd \<and> jk \<in> set l) \<longrightarrow> bank_of cs' (r, jk) = bank_of cs (r, jk))"
    using assms
  proof (induction l arbitrary: cs)
    case (Cons x l)
    obtain j k where x: "x = (j, k)" by (cases x)
    obtain b where b: "bank_UpdateState cmd (bank_of cs (Rank cmd, j, k)) = Inr b"
      "update_banks cmd l (mod_bank (\<lambda>_. b) (Rank cmd, j, k) cs) = Inr cs'"
      using Cons.prems(1) x by (auto simp: andThen_Inr_iff)
    have nin: "(j, k) \<notin> set l" "distinct l" using Cons.prems(2) x by auto
    note IH = Cons.IH [OF b(2) nin(2)]
    have "same_rest cs cs'" using IH same_rest_trans [OF same_rest_mod_bank] by blast
    moreover have "bank_of cs' (Rank cmd, j, k) = b" using IH nin(1) by (auto simp: bank_of_mod_bank)
    moreover have "bank_UpdateState cmd (bank_of cs (Rank cmd, jk)) = Inr (bank_of cs' (Rank cmd, jk))" if "jk \<in> set l" for jk
    proof -
      have "jk \<noteq> (j, k)" using that nin(1) by blast
      then show ?thesis using IH [THEN conjunct2, THEN conjunct1, rule_format, OF that] by (simp add: bank_of_mod_bank)
    qed
    moreover have "bank_of cs' (r, jk) = bank_of cs (r, jk)" if "\<not> (r = Rank cmd \<and> jk \<in> set (x # l))" for r jk
      using IH that x by (cases jk) (auto simp: bank_of_mod_bank)
    ultimately show ?case using x b(1) by auto
  qed simp
  then show "same_rest cs cs'" "\<And>jk. jk \<in> set l \<Longrightarrow> bank_UpdateState cmd (bank_of cs (Rank cmd, jk)) = Inr (bank_of cs' (Rank cmd, jk))"
    "\<And>r jk. \<not> (r = Rank cmd \<and> jk \<in> set l) \<Longrightarrow> bank_of cs' (r, jk) = bank_of cs (r, jk)"
    by blast+
qed

lemma update_banks_ok:
  assumes "\<And>jk. jk \<in> set l \<Longrightarrow> \<exists>b. bank_UpdateState cmd (bank_of cs (Rank cmd, jk)) = Inr b" "distinct l"
  shows "\<exists>cs'. update_banks cmd l cs = Inr cs'"
  using assms
proof (induction l arbitrary: cs)
  case (Cons x l)
  obtain j k where x: "x = (j, k)" by (cases x)
  obtain b where b: "bank_UpdateState cmd (bank_of cs (Rank cmd, j, k)) = Inr b" using Cons.prems(1) [of "(j, k)"] x by auto
  have "\<exists>b'. bank_UpdateState cmd (bank_of (mod_bank (\<lambda>_. b) (Rank cmd, j, k) cs) (Rank cmd, jk)) = Inr b'" if "jk \<in> set l" for jk
    using Cons.prems that x by (auto simp: bank_of_mod_bank)
  from Cons.IH [OF this] obtain cs' where "update_banks cmd l (mod_bank (\<lambda>_. b) (Rank cmd, j, k) cs) = Inr cs'" using Cons.prems(2) by auto
  then show ?case using b x by auto
qed simp

text \<open>The banks a command acts on, as the list that the update walks over.\<close>

definition acted :: "dram_config \<Rightarrow> command \<Rightarrow> (int \<times> int) list" where
  "acted c cmd = (if IsRankCMD cmd then rank_banks c else [(Bankgroup cmd, Bank cmd)])"

lemma distinct_acted [simp]: "distinct (acted c cmd)"
  by (simp add: acted_def distinct_rank_banks)

lemma targets_acted: "addressed c cmd \<Longrightarrow> targets c cmd (r, jk) \<longleftrightarrow> r = Rank cmd \<and> jk \<in> set (acted c cmd)"
  by (cases jk) (auto simp: targets_def acted_def addressed_def rank_banks_ok bank_ok_def set_rank_banks)

definition settled :: "command \<Rightarrow> channel_state \<Rightarrow> channel_state" where
  "settled cmd cs =
     (if cmd_type cmd = REFRESH then RankNeedRefresh (Rank cmd) False cs
      else if cmd_type cmd = REFRESH_BANK then BankNeedRefresh (Rank cmd) (Bankgroup cmd) (Bank cmd) False cs
      else if cmd_type cmd = SREF_ENTER then cs\<lparr>rank_is_sref := Mapping.update (Rank cmd) True (rank_is_sref cs)\<rparr>
      else if cmd_type cmd = SREF_EXIT then cs\<lparr>rank_is_sref := Mapping.update (Rank cmd) False (rank_is_sref cs)\<rparr>
      else cs)"

lemma UpdateState_alt:
  "UpdateState c cmd cs =
     (if addressed c cmd then andThen (update_banks cmd (acted c cmd) cs) (\<lambda>cs. Inr (settled cmd cs)) else Inl BadBankIndex)"
  unfolding UpdateState_def addressed_def acted_def settled_def
  by (auto simp: command_kinds intro!: arg_cong [where f = "andThen _"])

lemma settled_sel [simp]:
  "bank_states (settled cmd cs) = bank_states cs" "rank_idle_cycles (settled cmd cs) = rank_idle_cycles cs"
  "four_aw (settled cmd cs) = four_aw cs" "thirty_two_aw (settled cmd cs) = thirty_two_aw cs"
  by (simp_all add: settled_def RankNeedRefresh_def BankNeedRefresh_def)

lemma settled_refresh_q: "set (refresh_q (settled cmd cs)) \<subseteq> set (refresh_q cs)"
proof -
  have "set (erase_first p xs) \<subseteq> set xs" for p and xs :: "command list"
    by (induction xs) auto
  then show ?thesis by (auto simp: settled_def RankNeedRefresh_def BankNeedRefresh_def)
qed

lemma UpdateState_Inr:
  assumes "UpdateState c cmd cs = Inr cs'"
  obtains cs1 where "update_banks cmd (acted c cmd) cs = Inr cs1" "addressed c cmd" "cs' = settled cmd cs1"
  using assms by (auto simp: UpdateState_alt andThen_Inr_iff split: if_splits)

lemma UpdateState_banks:
  assumes "UpdateState c cmd cs = Inr cs'"
  shows "targets c cmd k \<Longrightarrow> bank_UpdateState cmd (bank_of cs k) = Inr (bank_of cs' k)"
    "\<not> targets c cmd k \<Longrightarrow> bank_of cs' k = bank_of cs k"
proof -
  obtain cs1 where cs1: "update_banks cmd (acted c cmd) cs = Inr cs1" "addressed c cmd" "cs' = settled cmd cs1"
    using UpdateState_Inr [OF assms] .
  obtain r jk where k: "k = (r, jk)" by (cases k)
  have b: "bank_of cs' k = bank_of cs1 k" using cs1(3) by (simp add: bank_of_def)
  note u = update_banks_Inr [OF cs1(1) distinct_acted]
  show "targets c cmd k \<Longrightarrow> bank_UpdateState cmd (bank_of cs k) = Inr (bank_of cs' k)"
    using u(2) [of jk] unfolding b unfolding k targets_acted [OF cs1(2)] by simp
  show "\<not> targets c cmd k \<Longrightarrow> bank_of cs' k = bank_of cs k"
    using u(3) [of r jk] unfolding b unfolding k targets_acted [OF cs1(2)] by simp
qed

lemma UpdateState_ok:
  assumes "addressed c cmd" "\<And>k. targets c cmd k \<Longrightarrow> \<exists>b. bank_UpdateState cmd (bank_of cs k) = Inr b"
  shows "\<exists>cs'. UpdateState c cmd cs = Inr cs'"
proof -
  have "\<exists>b. bank_UpdateState cmd (bank_of cs (Rank cmd, jk)) = Inr b" if "jk \<in> set (acted c cmd)" for jk
    using assms(2) [of "(Rank cmd, jk)"] that by (simp add: targets_acted [OF assms(1)])
  from update_banks_ok [OF this distinct_acted] obtain cs1 where "update_banks cmd (acted c cmd) cs = Inr cs1" by blast
  then show ?thesis using assms(1) by (simp add: UpdateState_alt)
qed


section \<open>Ready commands\<close>

text \<open>A bank may be given a command: its delay has run out and the command is legal in its state.\<close>

definition due :: "bank_state \<Rightarrow> command \<Rightarrow> nat \<Rightarrow> bool" where
  "due b cmd clk \<longleftrightarrow> timing_of b (cmd_type cmd) \<le> clk \<and>
     (IsReadWrite cmd \<longrightarrow> bk_state b = OPEN \<and> open_row b = Row cmd) \<and>
     (cmd_type cmd = PRECHARGE \<longrightarrow> bk_state b = OPEN) \<and>
     (cmd_type cmd \<in> {ACTIVATE, REFRESH, REFRESH_BANK, SREF_ENTER} \<longrightarrow> bk_state b = CLOSED) \<and>
     (cmd_type cmd = SREF_EXIT \<longrightarrow> bk_state b = SREF)"

lemma due_legal: "due b cmd clk \<Longrightarrow> IsValid cmd \<Longrightarrow> \<exists>b'. bank_UpdateState cmd b = Inr b'"
  by (auto simp: due_def bank_UpdateState_def command_kinds split: bank_st.splits command_type.splits)

lemma bank_ready_due:
  assumes "bank_GetReadyCommand b req clk = Inr cmd" "IsValid cmd"
  shows "due b cmd clk"
  using bank_ready_cases [OF assms]
  by (auto simp: required_type_def due_def command_kinds split: bank_st.splits if_splits)

lemma due_cong: "due b cmd clk \<Longrightarrow> cmd_type cmd' = cmd_type cmd \<Longrightarrow> \<not> IsReadWrite cmd \<Longrightarrow> due b cmd' clk"
  by (auto simp: due_def command_kinds)

text \<open>What a rank command yields: the precharge of an open bank, or the command itself when every bank is due.\<close>

lemma rank_ready_cases:
  assumes "rank_ready c cs req clk l n acc = Inr cmd" "IsValid cmd" "n + int (length l) \<le> banks c"
    "IsValid acc \<longrightarrow> cmd_type acc = cmd_type req \<and> cmd_addr acc = cmd_addr req" "IsRankCMD req"
  shows "(n + int (length l) = banks c \<and> cmd_type cmd = cmd_type req \<and> cmd_addr cmd = cmd_addr req \<and>
      (\<forall>jk \<in> set l. due (bank_of cs (Rank req, jk)) cmd clk)) \<or>
    (\<exists>j k. (j, k) \<in> set l \<and> cmd_type cmd = PRECHARGE \<and> cmd_addr cmd = mk_address (-1) (Rank req) j k (-1) (-1) \<and>
       due (bank_of cs (Rank req, j, k)) cmd clk)"
  using assms
proof (induction l arbitrary: n acc)
  case Nil
  then show ?case by (auto split: if_splits)
next
  case (Cons x l)
  obtain j k where x: "x = (j, k)" by (cases x)
  obtain r where r: "bank_GetReadyCommand (bank_of cs (Rank req, j, k)) req clk = Inr r"
    "(if \<not> IsValid r then rank_ready c cs req clk l n r
       else if cmd_type r \<noteq> cmd_type req then Inr (r\<lparr>cmd_addr := mk_address (-1) (Rank req) j k (-1) (-1)\<rparr>)
       else rank_ready c cs req clk l (n + 1) r) = Inr cmd"
    using Cons.prems(1) x by (auto simp: andThen_Inr_iff)
  show ?case
  proof (cases "IsValid r")
    case False
    then show ?thesis using r(2) Cons.IH [of n r] Cons.prems(2,3,5) by auto
  next
    case True
    note rc = bank_ready_cases [OF r(1) True] and d = bank_ready_due [OF r(1) True]
    show ?thesis
    proof (cases "cmd_type r = cmd_type req")
      case eq: True
      then have "rank_ready c cs req clk l (n + 1) r = Inr cmd" using r(2) True by simp
      from Cons.IH [OF this Cons.prems(2) _ _ Cons.prems(5)] have IH: "(n + 1 + int (length l) = banks c \<and> cmd_type cmd = cmd_type req \<and>
          cmd_addr cmd = cmd_addr req \<and> (\<forall>jk \<in> set l. due (bank_of cs (Rank req, jk)) cmd clk)) \<or>
        (\<exists>j k. (j, k) \<in> set l \<and> cmd_type cmd = PRECHARGE \<and> cmd_addr cmd = mk_address (-1) (Rank req) j k (-1) (-1) \<and>
          due (bank_of cs (Rank req, j, k)) cmd clk)"
        using Cons.prems(3) eq rc(3) by auto
      have "due (bank_of cs (Rank req, j, k)) cmd clk" if "cmd_type cmd = cmd_type req"
        using due_cong [OF d] that eq Cons.prems(5) by (auto simp: command_kinds)
      then show ?thesis using IH x by auto
    next
      case False
      then have cmd: "cmd = r\<lparr>cmd_addr := mk_address (-1) (Rank req) j k (-1) (-1)\<rparr>" using r(2) True by simp
      have p: "cmd_type r = PRECHARGE"
        using rc(1) False Cons.prems(5) by (auto simp: required_type_def command_kinds split: bank_st.splits if_splits)
      have "due (bank_of cs (Rank req, j, k)) cmd clk" using due_cong [OF d, of cmd] p cmd by (simp add: command_kinds)
      then show ?thesis using cmd p x by auto
    qed
  qed
qed

text \<open>Self-refresh is entered and left by whole ranks: all banks of a rank are in it, or none is.\<close>

definition sref_uniform :: "dram_config \<Rightarrow> channel_state \<Rightarrow> bool" where
  "sref_uniform c cs \<longleftrightarrow> (\<forall>r k k'. key_ok c (r, k) \<and> key_ok c (r, k') \<longrightarrow>
     (bk_state (bank_of cs (r, k)) = SREF \<longleftrightarrow> bk_state (bank_of cs (r, k')) = SREF) \<and>
     timing_of (bank_of cs (r, k)) SREF_EXIT = timing_of (bank_of cs (r, k')) SREF_EXIT)"

text \<open>The number of banks is the one the geometry gives.\<close>

definition geometry_ok :: "dram_config \<Rightarrow> bool" where
  "geometry_ok c \<longleftrightarrow> 0 < ranks c \<and> 0 < bankgroups c \<and> 0 < banks_per_group c \<and> banks c = bankgroups c * banks_per_group c"

lemma ready_rank_cases:
  assumes "GetReadyCommand c cs req clk = Inr cmd" "IsValid cmd" "IsRankCMD req" "geometry_ok c"
  shows "rank_ok c (Rank req) \<and>
    (cmd_type cmd = cmd_type req \<and> cmd_addr cmd = cmd_addr req \<and> (\<forall>jk \<in> set (rank_banks c). due (bank_of cs (Rank req, jk)) cmd clk) \<or>
     (\<exists>j k. (j, k) \<in> set (rank_banks c) \<and> cmd_type cmd = PRECHARGE \<and> cmd_addr cmd = mk_address (-1) (Rank req) j k (-1) (-1) \<and>
        due (bank_of cs (Rank req, j, k)) cmd clk))"
proof -
  have r: "rank_ready c cs req clk (rank_banks c) 0 no_command = Inr cmd" "rank_ok c (Rank req)"
    using assms(1,3) by (auto simp: GetReadyCommand_def split: if_splits)
  have "int (length (rank_banks c)) = banks c" using assms(4) length_rank_banks by (simp add: geometry_ok_def)
  then have n: "0 + int (length (rank_banks c)) \<le> banks c" by simp
  show ?thesis using rank_ready_cases [OF r(1) assms(2) n _ assms(3)] r(2) by (simp; blast)
qed

lemma ready_bank_cases:
  assumes "GetReadyCommand c cs req clk = Inr cmd" "IsValid cmd" "\<not> IsRankCMD req"
  shows "key_ok c (Rank req, Bankgroup req, Bank req)" "cmd_addr cmd = cmd_addr req"
    "bank_GetReadyCommand (bank_of cs (Rank req, Bankgroup req, Bank req)) req clk = Inr cmd"
    "cmd_type cmd = ACTIVATE \<Longrightarrow> ActivationWindowOk c cs (Rank cmd) clk"
    "IsRankCMD cmd \<Longrightarrow> cmd_type cmd = SREF_EXIT"
proof -
  show r: "key_ok c (Rank req, Bankgroup req, Bank req)"
    "bank_GetReadyCommand (bank_of cs (Rank req, Bankgroup req, Bank req)) req clk = Inr cmd"
    "cmd_type cmd = ACTIVATE \<Longrightarrow> ActivationWindowOk c cs (Rank cmd) clk"
    using assms by (auto simp: GetReadyCommand_def andThen_Inr_iff split: if_splits)
  show "cmd_addr cmd = cmd_addr req" using bank_ready_cases [OF r(2) assms(2)] by simp
  show "IsRankCMD cmd \<Longrightarrow> cmd_type cmd = SREF_EXIT"
    using bank_ready_cases(1) [OF r(2) assms(2)] assms(3)
    by (auto simp: required_type_def command_kinds split: bank_st.splits if_splits)
qed

lemma due_uniform:
  assumes "sref_uniform c cs" "due (bank_of cs (r, jk)) cmd clk" "cmd_type cmd = SREF_EXIT" "key_ok c (r, jk)" "key_ok c (r, jk')"
  shows "due (bank_of cs (r, jk')) cmd clk"
proof -
  have "bk_state (bank_of cs (r, jk')) = SREF \<longleftrightarrow> bk_state (bank_of cs (r, jk)) = SREF"
    "timing_of (bank_of cs (r, jk')) SREF_EXIT = timing_of (bank_of cs (r, jk)) SREF_EXIT"
    using assms(1,4,5) unfolding sref_uniform_def by blast+
  then show ?thesis using assms(2,3) by (simp add: due_def command_kinds)
qed

lemma ready_due:
  assumes "GetReadyCommand c cs req clk = Inr cmd" "IsValid cmd" "sref_uniform c cs" "geometry_ok c"
  shows "addressed c cmd" "targets c cmd k \<Longrightarrow> due (bank_of cs k) cmd clk"
proof -
  have "addressed c cmd \<and> (\<forall>k. targets c cmd k \<longrightarrow> due (bank_of cs k) cmd clk)"
  proof (cases "IsRankCMD req")
    case True
    then show ?thesis using ready_rank_cases [OF assms(1,2) True assms(4)]
      by (auto simp: addressed_def targets_def IsRankCMD_def rank_banks_ok mk_address_def)
  next
    case False
    note r = ready_bank_cases [OF assms(1,2) False]
    note d = bank_ready_due [OF r(3) assms(2)]
    show ?thesis
    proof (cases "IsRankCMD cmd")
      case nr: False
      then show ?thesis using d r(1,2) by (auto simp: addressed_def targets_def)
    next
      case rk: True
      have "due (bank_of cs (Rank req, jk)) cmd clk" if "key_ok c (Rank req, jk)" for jk
        by (rule due_uniform [OF assms(3) d r(5) [OF rk] r(1) that])
      then show ?thesis using rk r(1,2) by (auto simp: addressed_def bank_ok_def targets_def)
    qed
  qed
  then show "addressed c cmd" "targets c cmd k \<Longrightarrow> due (bank_of cs k) cmd clk" by blast+
qed

lemma ready_activate:
  assumes "GetReadyCommand c cs req clk = Inr cmd" "cmd_type cmd = ACTIVATE" "geometry_ok c"
  shows "ActivationWindowOk c cs (Rank cmd) clk"
proof -
  have v: "IsValid cmd" using assms(2) by (simp add: IsValid_def)
  have "\<not> IsRankCMD req" using ready_rank_cases [OF assms(1) v _ assms(3)] assms(2) by (auto simp: IsRankCMD_def)
  from ready_bank_cases(4) [OF assms(1) v this assms(2)] show ?thesis .
qed


section \<open>Runs of a channel\<close>

text \<open>
  What the controller does with a channel: it asks for refreshes, counts idle cycles, and performs
  commands the channel declared ready, at clocks that do not decrease. The history has the newest
  command first.
\<close>

inductive channel_run :: "dram_config \<Rightarrow> channel_state \<Rightarrow> (nat \<times> command) list \<Rightarrow> bool" for c where
  run_start: "channel_run c new_channel []"
| run_rank_refresh: "channel_run c cs h \<Longrightarrow> rank_ok c r \<Longrightarrow> channel_run c (RankNeedRefresh r True cs) h"
| run_bank_refresh: "channel_run c cs h \<Longrightarrow> bank_ok c r g b \<Longrightarrow> channel_run c (BankNeedRefresh r g b True cs) h"
| run_idle: "channel_run c cs h \<Longrightarrow> channel_run c (cs\<lparr>rank_idle_cycles := f\<rparr>) h"
| run_issue: "channel_run c cs h \<Longrightarrow> \<forall>x \<in> set h. fst x \<le> clk \<Longrightarrow> GetReadyCommand c cs req clk = Inr cmd \<Longrightarrow> IsValid cmd \<Longrightarrow>
    UpdateTimingAndStates c cmd clk cs = Inr cs' \<Longrightarrow> channel_run c cs' ((clk, cmd) # h)"

text \<open>The row that a history leaves open in a bank, as the DRAM protocol defines it.\<close>

fun row_in :: "dram_config \<Rightarrow> (nat \<times> command) list \<Rightarrow> int \<times> int \<times> int \<Rightarrow> int option" where
  "row_in c [] k = None"
| "row_in c ((t, cmd) # h) k =
     (if targets c cmd k \<and> cmd_type cmd = ACTIVATE then Some (Row cmd)
      else if targets c cmd k \<and> cmd_type cmd \<in> {PRECHARGE, READ_PRECHARGE, WRITE_PRECHARGE} then None
      else row_in c h k)"

text \<open>The times of the activations of a rank, oldest first.\<close>

fun activations :: "(nat \<times> command) list \<Rightarrow> int \<Rightarrow> nat list" where
  "activations [] r = []"
| "activations ((t, cmd) # h) r = activations h r @ (if cmd_type cmd = ACTIVATE \<and> Rank cmd = r then [t] else [])"

text \<open>What a window knows of the activations: it holds the youngest ones, and those it has dropped have expired.\<close>

definition window_ok :: "nat \<Rightarrow> int \<Rightarrow> nat list \<Rightarrow> nat list \<Rightarrow> nat \<Rightarrow> bool" where
  "window_ok n len w acts now \<longleftrightarrow>
     (\<exists>k. w = map (\<lambda>t. plus64 t len) (drop k acts) \<and> k \<le> length acts \<and> length acts - k \<le> n \<and>
        (\<forall>i < k. plus64 (acts ! i) len \<le> now))"

definition spaced :: "nat \<Rightarrow> int \<Rightarrow> nat list \<Rightarrow> bool" where
  "spaced n len acts \<longleftrightarrow> (\<forall>i. i + n < length acts \<longrightarrow> plus64 (acts ! i) len \<le> acts ! (i + n))"

lemma window_ok_mono: "window_ok n len w acts now \<Longrightarrow> now \<le> now' \<Longrightarrow> window_ok n len w acts now'"
  unfolding window_ok_def by (elim exE conjE, intro exI conjI) (assumption | blast intro: order_trans)+

text \<open>One activation through the window check keeps the spacing.\<close>

lemma window_step:
  assumes "window_ok n len w acts now" "spaced n len acts" "now \<le> clk" "0 < n"
    and ready: "case w of [] \<Rightarrow> True | t # _ \<Rightarrow> \<not> (clk < t \<and> n \<le> length w)"
  shows "window_ok n len (slide_window clk len w) (acts @ [clk]) clk \<and> spaced n len (acts @ [clk])"
proof -
  obtain k where k: "w = map (\<lambda>t. plus64 t len) (drop k acts)" "k \<le> length acts" "length acts - k \<le> n"
    "\<forall>i < k. plus64 (acts ! i) len \<le> now" using assms(1) by (auto simp: window_ok_def)
  have lw: "length w = length acts - k" using k(1) by simp
  have hd: "w = plus64 (acts ! k) len # map (\<lambda>t. plus64 t len) (drop (Suc k) acts)" if "k < length acts"
    unfolding k(1) using that by (simp add: Cons_nth_drop_Suc [symmetric])
  show ?thesis
  proof (cases "k < length acts \<and> plus64 (acts ! k) len \<le> clk")
    case True
    then have "slide_window clk len w = map (\<lambda>t. plus64 t len) (drop (Suc k) (acts @ [clk]))"
      using hd by (simp add: slide_window_def)
    moreover have "\<forall>i < Suc k. plus64 ((acts @ [clk]) ! i) len \<le> clk"
      using True k(2,4) assms(3) by (auto simp: nth_append less_Suc_eq intro: order_trans)
    ultimately have w: "window_ok n len (slide_window clk len w) (acts @ [clk]) clk"
      unfolding window_ok_def using True k(3) by (intro exI [of _ "Suc k"]) auto
    have "plus64 (acts ! i) len \<le> clk" if "i + n = length acts" for i
    proof (cases "i < k")
      case False
      then have "i = k" using that k(2,3) by linarith
      then show ?thesis using True by simp
    qed (use k(4) assms(3) order_trans in blast)
    then have "spaced n len (acts @ [clk])" using assms(2,4) by (auto simp: spaced_def nth_append less_Suc_eq)
    with w show ?thesis by simp
  next
    case False
    have small: "length acts - k < n"
      using ready hd False assms(4) lw by (cases "k < length acts") (auto simp: not_le)
    have "slide_window clk len w = map (\<lambda>t. plus64 t len) (drop k (acts @ [clk]))"
      using False hd k(1,2) by (cases "k < length acts") (auto simp: slide_window_def)
    moreover have "\<forall>i < k. plus64 ((acts @ [clk]) ! i) len \<le> clk"
      using k(2,4) assms(3) by (auto simp: nth_append intro: order_trans)
    ultimately have w: "window_ok n len (slide_window clk len w) (acts @ [clk]) clk"
      unfolding window_ok_def using k(2) small by (intro exI [of _ k]) auto
    have "plus64 (acts ! i) len \<le> clk" if "i + n = length acts" for i
      using that small k(4) assms(3) order_trans by (metis add.commute less_diff_conv2 linorder_not_less nat_add_left_cancel_less k(2))
    then have "spaced n len (acts @ [clk])" using assms(2,4) by (auto simp: spaced_def nth_append less_Suc_eq)
    with w show ?thesis by simp
  qed
qed

section \<open>What one command changes\<close>

lemma issue_bank:
  assumes "UpdateTimingAndStates c cmd clk cs = Inr cs'" "key_ok c k"
  obtains b where "bank_of cs' k = bank_timings (delays_to c cmd k) clk b"
    "if targets c cmd k then bank_UpdateState cmd (bank_of cs k) = Inr b else b = bank_of cs k"
proof -
  obtain cs1 where cs1: "UpdateState c cmd cs = Inr cs1" "UpdateTiming c cmd clk cs1 = Inr cs'"
    using assms(1) by (auto simp: UpdateTimingAndStates_def andThen_Inr_iff)
  from UpdateTiming_banks [OF cs1(2) assms(2)] UpdateState_banks [OF cs1(1), of k] show thesis
    by (intro that [of "bank_of cs1 k"]) auto
qed

lemma issue_timing:
  assumes "UpdateTimingAndStates c cmd clk cs = Inr cs'" "key_ok c k"
  shows "timing_of (bank_of cs k) t \<le> timing_of (bank_of cs' k) t"
    "(t, d) \<in> set (delays_to c cmd k) \<Longrightarrow> plus64 clk d \<le> timing_of (bank_of cs' k) t"
proof -
  obtain b where b: "bank_of cs' k = bank_timings (delays_to c cmd k) clk b"
    "if targets c cmd k then bank_UpdateState cmd (bank_of cs k) = Inr b else b = bank_of cs k" using issue_bank [OF assms] .
  have "timing_of b = timing_of (bank_of cs k)" using b(2) bank_UpdateState_timing by (metis (full_types))
  then show "timing_of (bank_of cs k) t \<le> timing_of (bank_of cs' k) t" unfolding b(1) using bank_timings_mono by metis
  show "(t, d) \<in> set (delays_to c cmd k) \<Longrightarrow> plus64 clk d \<le> timing_of (bank_of cs' k) t"
    unfolding b(1) by (rule bank_timings_reach)
qed

lemma issue_open_row:
  assumes "UpdateTimingAndStates c cmd clk cs = Inr cs'" "key_ok c k" "targets c cmd k \<Longrightarrow> due (bank_of cs k) cmd clk"
  shows "(if bk_state (bank_of cs' k) = OPEN then Some (open_row (bank_of cs' k)) else None) =
    (if targets c cmd k \<and> cmd_type cmd = ACTIVATE then Some (Row cmd)
     else if targets c cmd k \<and> cmd_type cmd \<in> {PRECHARGE, READ_PRECHARGE, WRITE_PRECHARGE} then None
     else if bk_state (bank_of cs k) = OPEN then Some (open_row (bank_of cs k)) else None)"
proof -
  obtain b where b: "bank_of cs' k = bank_timings (delays_to c cmd k) clk b"
    "if targets c cmd k then bank_UpdateState cmd (bank_of cs k) = Inr b else b = bank_of cs k" using issue_bank [OF assms(1,2)] .
  show ?thesis
  proof (cases "targets c cmd k")
    case True
    then have "bank_UpdateState cmd (bank_of cs k) = Inr b" using b(2) by simp
    then show ?thesis using True unfolding b(1)
      by (auto simp: bank_UpdateState_def split: bank_st.splits command_type.splits)
  qed (use b in simp)
qed

lemma bank_UpdateState_sref:
  assumes "bank_UpdateState cmd b = Inr b'"
  shows "bk_state b' = SREF \<longleftrightarrow> cmd_type cmd = SREF_ENTER" "bk_state b = SREF \<longleftrightarrow> cmd_type cmd = SREF_EXIT"
  using assms by (cases "bk_state b"; cases "cmd_type cmd"; auto simp: bank_UpdateState_def)+

lemma issue_sref_state:
  assumes "UpdateTimingAndStates c cmd clk cs = Inr cs'" "key_ok c k"
  shows "bk_state (bank_of cs' k) = SREF \<longleftrightarrow>
    (if fst k = Rank cmd \<and> cmd_type cmd = SREF_ENTER then True else if fst k = Rank cmd \<and> cmd_type cmd = SREF_EXIT then False
     else bk_state (bank_of cs k) = SREF)"
proof -
  obtain b where b: "bank_of cs' k = bank_timings (delays_to c cmd k) clk b"
    "if targets c cmd k then bank_UpdateState cmd (bank_of cs k) = Inr b else b = bank_of cs k" using issue_bank [OF assms] .
  show ?thesis
  proof (cases "targets c cmd k")
    case True
    then have "bank_UpdateState cmd (bank_of cs k) = Inr b" using b(2) by simp
    note u = bank_UpdateState_sref [OF this]
    have "fst k = Rank cmd" using True by (auto simp: targets_def split: if_splits)
    then show ?thesis unfolding b(1) using u by auto
  next
    case False
    then have "\<not> (fst k = Rank cmd \<and> IsRankCMD cmd)" using assms(2) unfolding targets_def by presburger
    then have "\<not> (fst k = Rank cmd \<and> cmd_type cmd = SREF_ENTER)" "\<not> (fst k = Rank cmd \<and> cmd_type cmd = SREF_EXIT)"
      by (auto simp: IsRankCMD_def)
    then show ?thesis unfolding b(1) using b(2) False by auto
  qed
qed

lemma sref_exit_tables:
  shows "SREF_EXIT \<notin> fst ` set (same_bank c t)"
    and "SREF_EXIT \<notin> fst ` set (other_banks_same_bankgroup c t)"
    and "SREF_EXIT \<notin> fst ` set (other_bankgroups_same_rank c t)"
    and "SREF_EXIT \<notin> fst ` set (other_ranks c t)"
    and "t \<noteq> SREF_ENTER \<Longrightarrow> SREF_EXIT \<notin> fst ` set (same_rank c t)"
proof -
  show "SREF_EXIT \<notin> fst ` set (same_bank c t)" by (cases t) (simp_all add: same_bank_def Let_def)
  show "SREF_EXIT \<notin> fst ` set (other_banks_same_bankgroup c t)"
    by (cases t) (auto simp: other_banks_same_bankgroup_def Let_def)
  show "SREF_EXIT \<notin> fst ` set (other_bankgroups_same_rank c t)"
    by (cases t) (auto simp: other_bankgroups_same_rank_def Let_def)
  show "SREF_EXIT \<notin> fst ` set (other_ranks c t)" by (cases t) (simp_all add: other_ranks_def Let_def)
  show "t \<noteq> SREF_ENTER \<Longrightarrow> SREF_EXIT \<notin> fst ` set (same_rank c t)" by (cases t) (simp_all add: same_rank_def Let_def)
qed

lemma sref_exit_delays: "\<not> (cmd_type cmd = SREF_ENTER \<and> fst k = Rank cmd) \<Longrightarrow> SREF_EXIT \<notin> fst ` set (delays_to c cmd k)"
  using sref_exit_tables [where c = c and t = "cmd_type cmd"] by (cases k) (simp add: delays_to_def; blast)

lemma issue_sref_timing:
  assumes "UpdateTimingAndStates c cmd clk cs = Inr cs'" "key_ok c k"
  shows "timing_of (bank_of cs' k) SREF_EXIT =
    (if fst k = Rank cmd \<and> cmd_type cmd = SREF_ENTER then max (timing_of (bank_of cs k) SREF_EXIT) (plus64 clk (tCKESR c))
     else timing_of (bank_of cs k) SREF_EXIT)"
proof -
  obtain b where b: "bank_of cs' k = bank_timings (delays_to c cmd k) clk b"
    "if targets c cmd k then bank_UpdateState cmd (bank_of cs k) = Inr b else b = bank_of cs k" using issue_bank [OF assms] .
  have t: "timing_of b = timing_of (bank_of cs k)" using b(2) bank_UpdateState_timing by (metis (full_types))
  show ?thesis
  proof (cases "fst k = Rank cmd \<and> cmd_type cmd = SREF_ENTER")
    case True
    then have "delays_to c cmd k = [(SREF_EXIT, tCKESR c)]"
      by (cases k) (simp add: delays_to_def IsRankCMD_def same_rank_def timing_delays_def Let_def)
    then show ?thesis using True unfolding b(1) t [symmetric] by (simp add: bank_timings_def bank_UpdateTiming_def timing_of_def)
  next
    case False
    then have "SREF_EXIT \<notin> fst ` set (delays_to c cmd k)" by (intro sref_exit_delays) blast
    then show ?thesis using False unfolding b(1) t [symmetric] by (auto simp: bank_timings_other)
  qed
qed

lemma issue_sref_uniform:
  assumes "UpdateTimingAndStates c cmd clk cs = Inr cs'" "sref_uniform c cs"
  shows "sref_uniform c cs'"
  unfolding sref_uniform_def
proof (intro allI impI)
  fix r jk jk' assume ok: "key_ok c (r, jk) \<and> key_ok c (r, jk')"
  have "bk_state (bank_of cs (r, jk)) = SREF \<longleftrightarrow> bk_state (bank_of cs (r, jk')) = SREF"
    "timing_of (bank_of cs (r, jk)) SREF_EXIT = timing_of (bank_of cs (r, jk')) SREF_EXIT"
    using assms(2) ok unfolding sref_uniform_def by blast+
  then show "(bk_state (bank_of cs' (r, jk)) = SREF \<longleftrightarrow> bk_state (bank_of cs' (r, jk')) = SREF) \<and>
      timing_of (bank_of cs' (r, jk)) SREF_EXIT = timing_of (bank_of cs' (r, jk')) SREF_EXIT"
    unfolding issue_sref_state [OF assms(1) ok [THEN conjunct1]] issue_sref_state [OF assms(1) ok [THEN conjunct2]]
      issue_sref_timing [OF assms(1) ok [THEN conjunct1]] issue_sref_timing [OF assms(1) ok [THEN conjunct2]]
    by (simp only: fst_conv)
qed

lemma issue_windows:
  assumes "UpdateTimingAndStates c cmd clk cs = Inr cs'"
  shows "four_aw cs' = (if cmd_type cmd = ACTIVATE then Mapping.update (Rank cmd) (slide_window clk (tFAW c) (entry [] (four_aw cs) (Rank cmd))) (four_aw cs) else four_aw cs)"
    "thirty_two_aw cs' = (if cmd_type cmd = ACTIVATE \<and> IsGDDR c
      then Mapping.update (Rank cmd) (slide_window clk (t32AW c) (entry [] (thirty_two_aw cs) (Rank cmd))) (thirty_two_aw cs) else thirty_two_aw cs)"
proof -
  obtain cs1 where cs1: "UpdateState c cmd cs = Inr cs1" "UpdateTiming c cmd clk cs1 = Inr cs'"
    using assms(1) by (auto simp: UpdateTimingAndStates_def andThen_Inr_iff)
  obtain cs2 where cs2: "update_banks cmd (acted c cmd) cs = Inr cs2" "addressed c cmd" "cs1 = settled cmd cs2"
    using UpdateState_Inr [OF cs1(1)] .
  have "four_aw cs1 = four_aw cs" "thirty_two_aw cs1 = thirty_two_aw cs"
    using update_banks_Inr(1) [OF cs2(1) distinct_acted] cs2(3) by (simp_all add: same_rest_def)
  then show "four_aw cs' = (if cmd_type cmd = ACTIVATE then Mapping.update (Rank cmd) (slide_window clk (tFAW c) (entry [] (four_aw cs) (Rank cmd))) (four_aw cs) else four_aw cs)"
    "thirty_two_aw cs' = (if cmd_type cmd = ACTIVATE \<and> IsGDDR c
      then Mapping.update (Rank cmd) (slide_window clk (t32AW c) (entry [] (thirty_two_aw cs) (Rank cmd))) (thirty_two_aw cs) else thirty_two_aw cs)"
    using UpdateTiming_rest [OF cs1(2)] by (auto simp: same_rest_def UpdateActivationTimes_def Let_def split: if_splits)
qed


section \<open>The invariant of a run\<close>

definition open_row_of :: "channel_state \<Rightarrow> int \<times> int \<times> int \<Rightarrow> int option" where
  "open_row_of cs k = (if bk_state (bank_of cs k) = OPEN then Some (open_row (bank_of cs k)) else None)"

definition windows_inv :: "nat \<Rightarrow> int \<Rightarrow> (int, nat list) mapping \<Rightarrow> (nat \<times> command) list \<Rightarrow> bool" where
  "windows_inv n len w h \<longleftrightarrow> (\<forall>r. spaced n len (activations h r) \<and>
     (\<forall>now. (\<forall>x \<in> set h. fst x \<le> now) \<longrightarrow> window_ok n len (entry [] w r) (activations h r) now))"

definition run_inv :: "dram_config \<Rightarrow> channel_state \<Rightarrow> (nat \<times> command) list \<Rightarrow> bool" where
  "run_inv c cs h \<longleftrightarrow> sref_uniform c cs \<and>
     (\<forall>k. key_ok c k \<longrightarrow> row_in c h k = open_row_of cs k) \<and>
     (\<forall>t cmd k u d. (t, cmd) \<in> set h \<and> key_ok c k \<and> (u, d) \<in> set (delays_to c cmd k) \<longrightarrow> plus64 t d \<le> timing_of (bank_of cs k) u) \<and>
     windows_inv 4 (tFAW c) (four_aw cs) h \<and> (IsGDDR c \<longrightarrow> windows_inv 32 (t32AW c) (thirty_two_aw cs) h)"

lemma run_invD:
  assumes "run_inv c cs h"
  shows "sref_uniform c cs" "key_ok c k \<Longrightarrow> row_in c h k = open_row_of cs k"
    "(t, cmd) \<in> set h \<Longrightarrow> key_ok c k \<Longrightarrow> (u, d) \<in> set (delays_to c cmd k) \<Longrightarrow> plus64 t d \<le> timing_of (bank_of cs k) u"
    "windows_inv 4 (tFAW c) (four_aw cs) h" "IsGDDR c \<Longrightarrow> windows_inv 32 (t32AW c) (thirty_two_aw cs) h"
  using assms unfolding run_inv_def by blast+

lemma run_inv_cong:
  assumes "run_inv c cs h" "bank_states cs' = bank_states cs" "four_aw cs' = four_aw cs" "thirty_two_aw cs' = thirty_two_aw cs"
  shows "run_inv c cs' h"
proof -
  have b: "bank_of cs' = bank_of cs" using assms(2) by (simp add: bank_of_def fun_eq_iff)
  show ?thesis using assms(1) unfolding run_inv_def sref_uniform_def open_row_of_def assms(3,4) b .
qed

lemma run_inv_start: "run_inv c new_channel []"
  by (auto simp: run_inv_def sref_uniform_def open_row_of_def windows_inv_def spaced_def window_ok_def new_channel_def
      bank_of_def new_bank_def)

lemma windows_inv_issue:
  assumes "windows_inv n len w h" "0 < n" "\<forall>x \<in> set h. fst x \<le> clk"
    and "cmd_type cmd = ACTIVATE \<Longrightarrow> (case entry [] w (Rank cmd) of [] \<Rightarrow> True | t # _ \<Rightarrow> \<not> (clk < t \<and> n \<le> length (entry [] w (Rank cmd))))"
  shows "windows_inv n len (if cmd_type cmd = ACTIVATE then Mapping.update (Rank cmd) (slide_window clk len (entry [] w (Rank cmd))) w else w) ((clk, cmd) # h)"
  unfolding windows_inv_def
proof (intro allI conjI impI)
  fix r
  have old: "spaced n len (activations h r)" "\<And>now. (\<forall>x \<in> set h. fst x \<le> now) \<Longrightarrow> window_ok n len (entry [] w r) (activations h r) now"
    using assms(1) by (auto simp: windows_inv_def)
  have step: "window_ok n len (slide_window clk len (entry [] w r)) (activations h r @ [clk]) clk \<and> spaced n len (activations h r @ [clk])"
    if "cmd_type cmd = ACTIVATE" "Rank cmd = r"
    using window_step [OF old(2) [OF assms(3)] old(1) le_refl assms(2)] assms(4) [OF that(1)] unfolding that(2) by blast
  show "spaced n len (activations ((clk, cmd) # h) r)" using step old(1) by simp
  fix now assume now: "\<forall>x \<in> set ((clk, cmd) # h). fst x \<le> now"
  then have "clk \<le> now" "\<forall>x \<in> set h. fst x \<le> now" by auto
  then show "window_ok n len (entry [] (if cmd_type cmd = ACTIVATE then Mapping.update (Rank cmd) (slide_window clk len (entry [] w (Rank cmd))) w else w) r)
      (activations ((clk, cmd) # h) r) now"
    using step old(2) window_ok_mono [of n len _ _ clk now] by (cases "cmd_type cmd = ACTIVATE \<and> Rank cmd = r") auto
qed

lemma run_inv_issue:
  assumes inv: "run_inv c cs h" and late: "\<forall>x \<in> set h. fst x \<le> clk"
    and ready: "GetReadyCommand c cs req clk = Inr cmd" "IsValid cmd"
    and upd: "UpdateTimingAndStates c cmd clk cs = Inr cs'" and geo: "geometry_ok c"
  shows "run_inv c cs' ((clk, cmd) # h)"
proof -
  have sref: "sref_uniform c cs" using inv by (simp add: run_inv_def)
  note d = ready_due [OF ready sref geo]
  have "row_in c ((clk, cmd) # h) k = open_row_of cs' k" if "key_ok c k" for k
  proof -
    have "row_in c h k = open_row_of cs k" using run_invD(2) [OF inv that] .
    then show ?thesis using issue_open_row [OF upd that d(2)] by (simp add: open_row_of_def)
  qed
  moreover have "plus64 t dl \<le> timing_of (bank_of cs' k) u"
    if "(t, cmd') \<in> set ((clk, cmd) # h)" "key_ok c k" "(u, dl) \<in> set (delays_to c cmd' k)" for t cmd' k u dl
  proof (cases "(t, cmd') = (clk, cmd)")
    case True
    then show ?thesis using issue_timing(2) [OF upd that(2)] that(3) by simp
  next
    case False
    then have "plus64 t dl \<le> timing_of (bank_of cs k) u" using run_invD(3) [OF inv _ that(2,3)] that(1) by auto
    then show ?thesis using issue_timing(1) [OF upd that(2)] order_trans by blast
  qed
  moreover have act: "ActivationWindowOk c cs (Rank cmd) clk" if "cmd_type cmd = ACTIVATE"
    using ready_activate [OF ready(1) that geo] .
  have "windows_inv 4 (tFAW c) (four_aw cs') ((clk, cmd) # h)"
    unfolding issue_windows(1) [OF upd]
    by (rule windows_inv_issue) (use run_invD(4) [OF inv] late act in \<open>auto simp: ActivationWindowOk_def IsFAWReady_def split: if_splits\<close>)
  moreover have "windows_inv 32 (t32AW c) (thirty_two_aw cs') ((clk, cmd) # h)" if "IsGDDR c"
    using windows_inv_issue [of 32 "t32AW c" "thirty_two_aw cs" h clk cmd] run_invD(5) [OF inv that] late act that issue_windows(2) [OF upd]
    by (auto simp: ActivationWindowOk_def Is32AWReady_def split: if_splits)
  ultimately show ?thesis using issue_sref_uniform [OF upd sref] unfolding run_inv_def by blast
qed

lemma channel_run_inv: "channel_run c cs h \<Longrightarrow> geometry_ok c \<Longrightarrow> run_inv c cs h"
proof (induction rule: channel_run.induct)
  case run_start
  show ?case by (rule run_inv_start)
next
  case (run_rank_refresh cs h r)
  then show ?case by (auto intro!: run_inv_cong [of c cs] simp: RankNeedRefresh_def)
next
  case (run_bank_refresh cs h r g b)
  then show ?case by (auto intro!: run_inv_cong [of c cs] simp: BankNeedRefresh_def)
next
  case (run_idle cs h f)
  then show ?case by (auto intro!: run_inv_cong [of c cs])
next
  case (run_issue cs h clk req cmd cs')
  then show ?case using run_inv_issue by blast
qed

text \<open>Every command of the history was ready in the state that the commands before it led to.\<close>

lemma channel_run_split:
  assumes "channel_run c cs h" "h = h1 @ (t, cmd) # h2"
  shows "\<exists>cs0 req. channel_run c cs0 h2 \<and> (\<forall>x \<in> set h2. fst x \<le> t) \<and> GetReadyCommand c cs0 req t = Inr cmd \<and> IsValid cmd"
  using assms
proof (induction arbitrary: h1 rule: channel_run.induct)
  case (run_issue cs h clk req cmd' cs')
  show ?case
  proof (cases h1)
    case Nil
    then show ?thesis using run_issue by auto
  next
    case (Cons x h1')
    then show ?thesis using run_issue by auto
  qed
qed auto

text \<open>Performing a list of requests at given clocks; every one of them has to be ready.\<close>

fun play :: "dram_config \<Rightarrow> (nat \<times> command) list \<Rightarrow> channel_state \<Rightarrow> (nat \<times> command) list \<Rightarrow> (channel_state \<times> (nat \<times> command) list) option" where
  "play c [] cs h = Some (cs, h)"
| "play c ((clk, req) # l) cs h =
     (if list_all (\<lambda>x. fst x \<le> clk) h then
        (case GetReadyCommand c cs req clk of
           Inl _ \<Rightarrow> None
         | Inr cmd \<Rightarrow> if IsValid cmd then
             (case UpdateTimingAndStates c cmd clk cs of Inl _ \<Rightarrow> None | Inr cs' \<Rightarrow> play c l cs' ((clk, cmd) # h)) else None)
      else None)"

lemma play_run: "channel_run c cs h \<Longrightarrow> play c l cs h = Some (cs', h') \<Longrightarrow> channel_run c cs' h'"
proof (induction l arbitrary: cs h)
  case (Cons x l)
  obtain clk req where x: "x = (clk, req)" by (cases x)
  obtain cmd cs1 where s: "list_all (\<lambda>x. fst x \<le> clk) h" "GetReadyCommand c cs req clk = Inr cmd" "IsValid cmd"
    "UpdateTimingAndStates c cmd clk cs = Inr cs1" "play c l cs1 ((clk, cmd) # h) = Some (cs', h')"
    using Cons.prems(2) x by (auto split: sum.splits if_splits)
  have "channel_run c cs1 ((clk, cmd) # h)"
    by (rule run_issue [OF Cons.prems(1) _ s(2,3,4)]) (use s(1) in \<open>simp add: list_all_iff\<close>)
  then show ?case using Cons.IH s(5) by blast
qed simp

lemma played: "map_option snd (play c l new_channel []) = Some h \<Longrightarrow> \<exists>cs. channel_run c cs h"
  using play_run [OF run_start] by (auto simp del: play.simps) blast

text \<open>A one-bank memory with the delays of the DDR4 configuration, and a window that its activates run into.\<close>

definition rd :: "int \<Rightarrow> int \<Rightarrow> int \<Rightarrow> int \<Rightarrow> command" where
  "rd r g b row = mk_command READ (mk_address 0 r g b row 0) 0"

definition tiny_dram :: dram_config where
  "tiny_dram = ddr4_dram\<lparr>ranks := 1, bankgroups := 1, banks_per_group := 1, banks := 1, tFAW := 300\<rparr>"

definition act5 :: command where
  "act5 = mk_command ACTIVATE (mk_address 0 0 0 0 5 0) 0"



text \<open>
  C37. The commands of a run obey the row protocol of the banks: a read or write finds its own row open,
  a precharge finds some row open, an activate, a refresh and the entry into self-refresh find the
  bank closed, where what is open is what the commands so far have left open. And a command that is
  declared ready can be performed: the simulator does not abort on it.
\<close>

theorem row_protocol:
  assumes "channel_run c cs h" "geometry_ok c" "GetReadyCommand c cs req clk = Inr cmd" "IsValid cmd"
  shows "(\<exists>cs'. UpdateTimingAndStates c cmd clk cs = Inr cs') \<and>
    (\<forall>k. targets c cmd k \<longrightarrow>
      (IsReadWrite cmd \<longrightarrow> row_in c h k = Some (Row cmd)) \<and>
      (cmd_type cmd = PRECHARGE \<longrightarrow> row_in c h k \<noteq> None) \<and>
      (cmd_type cmd \<in> {ACTIVATE, REFRESH, REFRESH_BANK, SREF_ENTER} \<longrightarrow> row_in c h k = None))"
proof -
  have inv: "run_inv c cs h" using channel_run_inv [OF assms(1,2)] .
  then have sref: "sref_uniform c cs" by (simp add: run_inv_def)
  note d = ready_due [OF assms(3,4) sref assms(2)]
  have "\<exists>b. bank_UpdateState cmd (bank_of cs k) = Inr b" if "targets c cmd k" for k
    using due_legal [OF d(2) [OF that] assms(4)] .
  from UpdateState_ok [OF d(1) this] obtain cs1 where "UpdateState c cmd cs = Inr cs1" by blast
  moreover have "\<exists>cs'. UpdateTiming c cmd clk cs1 = Inr cs'"
    using assms(4) by (cases "cmd_type cmd") (auto simp: UpdateTiming_def Let_def IsValid_def)
  ultimately have "\<exists>cs'. UpdateTimingAndStates c cmd clk cs = Inr cs'" by (auto simp: UpdateTimingAndStates_def)
  moreover have "row_in c h k = open_row_of cs k" if "targets c cmd k" for k
    using run_invD(2) [OF inv] that by (simp add: targets_def)
  ultimately show ?thesis using d(2) by (auto simp: due_def open_row_of_def)
qed

theorem row_protocol_witness:
  "\<exists>cs. channel_run tiny_dram cs [(0, act5)] \<and> GetReadyCommand tiny_dram cs (rd 0 0 0 5) 22 = Inr (rd 0 0 0 5) \<and>
     (\<exists>cs'. UpdateTimingAndStates tiny_dram (rd 0 0 0 5) 22 cs = Inr cs') \<and> row_in tiny_dram [(0, act5)] (0, 0, 0) = Some (Row (rd 0 0 0 5))"
proof -
  have "case play tiny_dram [(0, rd 0 0 0 5)] new_channel [] of None \<Rightarrow> False
      | Some (cs, h) \<Rightarrow> h = [(0, act5)] \<and> GetReadyCommand tiny_dram cs (rd 0 0 0 5) 22 = Inr (rd 0 0 0 5)"
    by code_simp
  then obtain cs where p: "play tiny_dram [(0, rd 0 0 0 5)] new_channel [] = Some (cs, [(0, act5)])"
    and r: "GetReadyCommand tiny_dram cs (rd 0 0 0 5) 22 = Inr (rd 0 0 0 5)"
    by (auto simp del: play.simps split: option.splits)
  have run: "channel_run tiny_dram cs [(0, act5)]" by (rule play_run [OF run_start p])
  have g: "geometry_ok tiny_dram" "IsValid (rd 0 0 0 5)" "targets tiny_dram (rd 0 0 0 5) (0, 0, 0)" "IsReadWrite (rd 0 0 0 5)"
    by code_simp+
  from row_protocol [OF run g(1) r g(2)] show ?thesis using run r g(3,4) by blast
qed

text \<open>At most \<open>n\<close> activates in any window of the given length.\<close>

definition window_respected :: "nat \<Rightarrow> int \<Rightarrow> nat list \<Rightarrow> bool" where
  "window_respected n len acts \<longleftrightarrow>
     (\<forall>i < length acts - n. 0 \<le> len \<and> int (acts ! i) + len < 2 ^ 64 \<longrightarrow> acts ! i + nat len \<le> acts ! (i + n))"

lemma spaced_respected: "spaced n len acts \<Longrightarrow> window_respected n len acts"
  by (auto simp: spaced_def window_respected_def plus64_exact less_diff_conv)

text \<open>
  C38. At most four activates of a rank fall into any window of \<^verbatim>\<open>tFAW\<close> cycles: each activate comes at
  least \<^verbatim>\<open>tFAW\<close> after the fourth before it; on GDDR likewise for 32 activates and \<^verbatim>\<open>t32AW\<close>.
\<close>

theorem activation_windows:
  assumes "channel_run c cs h" "geometry_ok c"
  shows "window_respected 4 (tFAW c) (activations h r) \<and> (IsGDDR c \<longrightarrow> window_respected 32 (t32AW c) (activations h r))"
  using channel_run_inv [OF assms] by (auto simp: run_inv_def windows_inv_def intro: spaced_respected)

theorem activation_windows_witness:
  "\<exists>cs h. channel_run tiny_dram cs h \<and> activations h 0 = [0, 74, 148, 222, 300] \<and> 0 + nat (tFAW tiny_dram) \<le> activations h 0 ! (0 + 4)"
proof -
  let ?reqs = "concat (map (\<lambda>i. [(74 * i, rd 0 0 0 (int i)), (74 * i + 52, rd 0 0 0 (-1))]) [0..<4]) @ [(300, rd 0 0 0 7)]"
  have "case play tiny_dram ?reqs new_channel [] of None \<Rightarrow> False | Some (cs, h) \<Rightarrow> activations h 0 = [0, 74, 148, 222, 300]"
    by code_simp
  then obtain cs h where p: "play tiny_dram ?reqs new_channel [] = Some (cs, h)" and a: "activations h 0 = [0, 74, 148, 222, 300]"
    by (auto simp del: play.simps split: option.splits)
  have run: "channel_run tiny_dram cs h" by (rule play_run [OF run_start p])
  have g: "geometry_ok tiny_dram" "tFAW tiny_dram = 300" by code_simp+
  from activation_windows [OF run g(1), of 0] have "window_respected 4 (tFAW tiny_dram) (activations h 0)" by blast
  then have "0 + nat (tFAW tiny_dram) \<le> activations h 0 ! (0 + 4)" using a g(2) by (simp add: window_respected_def)
  with run a show ?thesis by blast
qed

end
