(* ===== verification/DramController.thy ===== *)
theory DramController
  imports DramRun
begin

text \<open>
  The command queues (\<^verbatim>\<open>src/command_queue.cc\<close>), the refresh counter (\<^verbatim>\<open>src/refresh.cc\<close>) and the memory
  controller of a channel (\<^verbatim>\<open>src/controller.cc\<close>). Statistics, which nothing reads back, are left out.
  A multimap is the list of its values in the order they were inserted, and \<^verbatim>\<open>find\<close> gives the first one
  with the key; \<^verbatim>\<open>capacity()\<close> of a reserved vector is the size it was reserved with.
\<close>

section \<open>Command queues\<close>

record command_queue =
  rank_q_empty :: "(int, bool) mapping"
  queues :: "command list list"
  ref_q_indices :: "int list"
  is_in_ref :: bool
  queue_idx :: nat
  q_clk :: nat

definition num_queues :: "dram_config \<Rightarrow> dram_error + nat" where
  "num_queues c =
     (if queue_structure c = ''PER_BANK'' then Inr (nat (banks c * ranks c))
      else if queue_structure c = ''PER_RANK'' then Inr (nat (ranks c))
      else Inl AbruptExit_Config)"

definition new_queue :: "dram_config \<Rightarrow> dram_error + command_queue" where
  "new_queue c = andThen (num_queues c) (\<lambda>n.
     Inr \<lparr>rank_q_empty = Mapping.empty, queues = replicate n [], ref_q_indices = [], is_in_ref = False, queue_idx = 0, q_clk = 0\<rparr>)"

definition GetQueueIndex :: "dram_config \<Rightarrow> int \<Rightarrow> int \<Rightarrow> int \<Rightarrow> int" where
  "GetQueueIndex c r g b = (if queue_structure c = ''PER_RANK'' then r else r * banks c + g * banks_per_group c + b)"

definition index_ok :: "command_queue \<Rightarrow> int \<Rightarrow> bool" where
  "index_ok q i \<longleftrightarrow> 0 \<le> i \<and> nat i < length (queues q)"

definition same_bank_as :: "command \<Rightarrow> command \<Rightarrow> bool" where
  "same_bank_as x y \<longleftrightarrow> Rank x = Rank y \<and> Bankgroup x = Bankgroup y \<and> Bank x = Bank y"

text \<open>\<^verbatim>\<open>ArbitratePrecharge\<close> and \<^verbatim>\<open>HasRWDependency\<close> get the queue split at the command they look at.\<close>

definition ArbitratePrecharge :: "channel_state \<Rightarrow> command list \<Rightarrow> command \<Rightarrow> command list \<Rightarrow> bool" where
  "ArbitratePrecharge cs before cmd after \<longleftrightarrow>
     (if list_ex (\<lambda>p. same_bank_as p cmd) before then False
      else let b = bank_of cs (Rank cmd, Bankgroup cmd, Bank cmd);
               pending_row_hits_exist = list_ex (\<lambda>p. Row p = open_row b \<and> same_bank_as p cmd) (cmd # after);
               rowhit_limit_reached = (row_hit_count b \<ge> 4)
           in \<not> pending_row_hits_exist \<or> rowhit_limit_reached)"

definition HasRWDependency :: "command list \<Rightarrow> command \<Rightarrow> bool" where
  "HasRWDependency before cmd \<longleftrightarrow>
     list_ex (\<lambda>p. IsRead p \<and> Row p = Row cmd \<and> Column p = Column cmd \<and> Bank p = Bank cmd \<and> Bankgroup p = Bankgroup cmd) before"

fun GetFirstReadyInQueue :: "dram_config \<Rightarrow> channel_state \<Rightarrow> nat \<Rightarrow> command list \<Rightarrow> command list \<Rightarrow> dram_error + command" where
  "GetFirstReadyInQueue c cs clk before [] = Inr no_command"
| "GetFirstReadyInQueue c cs clk before (x # after) =
     andThen (GetReadyCommand c cs x clk) (\<lambda>cmd.
       if \<not> IsValid cmd then GetFirstReadyInQueue c cs clk (before @ [x]) after
       else if cmd_type cmd = PRECHARGE \<and> \<not> ArbitratePrecharge cs before x after
       then GetFirstReadyInQueue c cs clk (before @ [x]) after
       else if IsWrite cmd \<and> HasRWDependency before x then GetFirstReadyInQueue c cs clk (before @ [x]) after
       else Inr cmd)"

definition EraseRWCommand :: "dram_config \<Rightarrow> command \<Rightarrow> command_queue \<Rightarrow> dram_error + command_queue" where
  "EraseRWCommand c cmd q =
     (let i = GetQueueIndex c (Rank cmd) (Bankgroup cmd) (Bank cmd);
          same = (\<lambda>x. hex_addr cmd = hex_addr x \<and> cmd_type cmd = cmd_type x)
      in if \<not> index_ok q i then Inl BadQueueIndex
         else if \<not> list_ex same (queues q ! nat i) then Inl CannotFindCmd
         else Inr (q\<lparr>queues := (queues q)[nat i := erase_first same (queues q ! nat i)]\<rparr>))"

definition GetNextQueue :: "command_queue \<Rightarrow> command_queue" where
  "GetNextQueue q = (let i = queue_idx q + 1 in q\<lparr>queue_idx := (if i = length (queues q) then 0 else i)\<rparr>)"

text \<open>The loop of \<^verbatim>\<open>GetCommandToIssue\<close>, with the number of queues still to be looked at.\<close>

fun issue_from :: "dram_config \<Rightarrow> channel_state \<Rightarrow> nat \<Rightarrow> command_queue \<Rightarrow> dram_error + (command \<times> command_queue)" where
  "issue_from c cs 0 q = Inr (no_command, q)"
| "issue_from c cs (Suc n) q =
     (let q1 = GetNextQueue q in
      if queue_idx q1 \<ge> length (queues q1) then Inl BadQueueIndex
      else if is_in_ref q1 \<and> int (queue_idx q1) \<in> set (ref_q_indices q1) then issue_from c cs n q1
      else andThen (GetFirstReadyInQueue c cs (q_clk q1) [] (queues q1 ! queue_idx q1)) (\<lambda>cmd.
        if IsValid cmd then (if IsReadWrite cmd then andThen (EraseRWCommand c cmd q1) (\<lambda>q2. Inr (cmd, q2)) else Inr (cmd, q1))
        else issue_from c cs n q1))"

definition GetCommandToIssue :: "dram_config \<Rightarrow> channel_state \<Rightarrow> command_queue \<Rightarrow> dram_error + (command \<times> command_queue)" where
  "GetCommandToIssue c cs q = issue_from c cs (length (queues q)) q"

definition GetRefQIndices :: "dram_config \<Rightarrow> command \<Rightarrow> command_queue \<Rightarrow> command_queue" where
  "GetRefQIndices c ref q =
     (if cmd_type ref = REFRESH then
        (if queue_structure c = ''PER_BANK''
         then q\<lparr>ref_q_indices := ref_q_indices q @ filter (\<lambda>i. i div banks c = Rank ref) (map int [0..<length (queues q)])\<rparr>
         else q\<lparr>ref_q_indices := ref_q_indices q @ [Rank ref]\<rparr>)
      else q\<lparr>ref_q_indices := ref_q_indices q @ [GetQueueIndex c (Rank ref) (Bankgroup ref) (Bank ref)]\<rparr>)"

definition FinishRefresh :: "dram_config \<Rightarrow> channel_state \<Rightarrow> command_queue \<Rightarrow> dram_error + (command \<times> command_queue)" where
  "FinishRefresh c cs q =
     (case refresh_q cs of
        [] \<Rightarrow> Inl NoRefreshPending
      | ref # _ \<Rightarrow>
          (let q1 = (if \<not> is_in_ref q then (GetRefQIndices c ref q)\<lparr>is_in_ref := True\<rparr> else q)
           in andThen (GetReadyCommand c cs ref (q_clk q1)) (\<lambda>cmd.
                Inr (cmd, if IsRefresh cmd then q1\<lparr>ref_q_indices := [], is_in_ref := False\<rparr> else q1))))"

definition WillAcceptCommand :: "dram_config \<Rightarrow> command_queue \<Rightarrow> int \<Rightarrow> int \<Rightarrow> int \<Rightarrow> dram_error + bool" where
  "WillAcceptCommand c q r g b =
     (let i = GetQueueIndex c r g b
      in if \<not> index_ok q i then Inl BadQueueIndex else Inr (length (queues q ! nat i) < cmd_queue_size c))"

definition QueueEmpty :: "command_queue \<Rightarrow> bool" where
  "QueueEmpty q \<longleftrightarrow> list_all (\<lambda>l. l = []) (queues q)"

definition QueueUsage :: "command_queue \<Rightarrow> nat" where
  "QueueUsage q = sum_list (map length (queues q))"

definition AddCommand :: "dram_config \<Rightarrow> command \<Rightarrow> command_queue \<Rightarrow> dram_error + (bool \<times> command_queue)" where
  "AddCommand c cmd q =
     (let i = GetQueueIndex c (Rank cmd) (Bankgroup cmd) (Bank cmd)
      in if \<not> index_ok q i then Inl BadQueueIndex
         else if length (queues q ! nat i) < cmd_queue_size c
         then Inr (True, q\<lparr>queues := (queues q)[nat i := queues q ! nat i @ [cmd]],
                          rank_q_empty := Mapping.update (Rank cmd) False (rank_q_empty q)\<rparr>)
         else Inr (False, q))"

section \<open>Refresh\<close>

record refresh_state =
  rf_clk :: nat
  next_rank :: int
  next_bg :: int
  next_bank :: int

definition new_refresh :: refresh_state where
  "new_refresh = \<lparr>rf_clk = 0, next_rank = 0, next_bg = 0, next_bank = 0\<rparr>"

definition refresh_interval :: "dram_config \<Rightarrow> dram_error + nat" where
  "refresh_interval c =
     (case refresh_policy c of
        RANK_LEVEL_SIMULTANEOUS \<Rightarrow> Inr (nat (tREFI c mod 2 ^ 64))
      | BANK_LEVEL_STAGGERED \<Rightarrow> Inr (nat (tREFIb c mod 2 ^ 64))
      | RANK_LEVEL_STAGGERED \<Rightarrow> if ranks c = 0 then Inl DivZero else Inr (nat (tREFI c sdiv ranks c mod 2 ^ 64)))"

definition IterateNext :: "dram_config \<Rightarrow> refresh_state \<Rightarrow> dram_error + refresh_state" where
  "IterateNext c rf =
     (case refresh_policy c of
        RANK_LEVEL_STAGGERED \<Rightarrow> Inr (rf\<lparr>next_rank := (next_rank rf + 1) mod ranks c\<rparr>)
      | BANK_LEVEL_STAGGERED \<Rightarrow>
          (let bg = (next_bg rf + 1) mod bankgroups c;
               ba = (if bg = 0 then (next_bank rf + 1) mod banks_per_group c else next_bank rf);
               ra = (if bg = 0 \<and> ba = 0 then (next_rank rf + 1) mod ranks c else next_rank rf)
           in Inr (rf\<lparr>next_bg := bg, next_bank := ba, next_rank := ra\<rparr>))
      | RANK_LEVEL_SIMULTANEOUS \<Rightarrow> Inl AbruptExit_Refresh)"

abbreviation is_sref :: "channel_state \<Rightarrow> int \<Rightarrow> bool" where
  "is_sref cs r \<equiv> entry False (rank_is_sref cs) r"

definition InsertRefresh :: "dram_config \<Rightarrow> refresh_state \<times> channel_state \<Rightarrow> dram_error + (refresh_state \<times> channel_state)" where
  "InsertRefresh c s =
     (case s of (rf, cs) \<Rightarrow>
        (case refresh_policy c of
           RANK_LEVEL_SIMULTANEOUS \<Rightarrow>
             Inr (rf, case find (\<lambda>i. \<not> is_sref cs i) [0..ranks c - 1] of None \<Rightarrow> cs | Some i \<Rightarrow> RankNeedRefresh i True cs)
         | RANK_LEVEL_STAGGERED \<Rightarrow>
             andThen (IterateNext c rf) (\<lambda>rf'.
               Inr (rf', if \<not> is_sref cs (next_rank rf) then RankNeedRefresh (next_rank rf) True cs else cs))
         | BANK_LEVEL_STAGGERED \<Rightarrow>
             andThen (IterateNext c rf) (\<lambda>rf'.
               Inr (rf', if \<not> is_sref cs (next_rank rf)
                         then BankNeedRefresh (next_rank rf) (next_bg rf) (next_bank rf) True cs else cs))))"

definition refresh_ClockTick :: "dram_config \<Rightarrow> refresh_state \<times> channel_state \<Rightarrow> dram_error + (refresh_state \<times> channel_state)" where
  "refresh_ClockTick c s =
     andThen (refresh_interval c) (\<lambda>n.
       if n = 0 then Inl DivZero
       else andThen (if rf_clk (fst s) mod n = 0 \<and> rf_clk (fst s) > 0 then InsertRefresh c s else Inr s) (\<lambda>s.
         Inr (fst s\<lparr>rf_clk := rf_clk (fst s) + 1\<rparr>, snd s)))"

section \<open>Controller\<close>

record controller =
  ct_clk :: nat
  chan :: channel_state
  cmd_queue :: command_queue
  refresher :: refresh_state
  unified_q :: "transaction list"
  read_queue :: "transaction list"
  write_buffer :: "transaction list"
  pending_rd :: "transaction list"
  pending_wr :: "transaction list"
  return_queue :: "transaction list"
  last_trans_clk :: nat
  write_draining :: int

definition new_controller :: "dram_config \<Rightarrow> dram_error + controller" where
  "new_controller c = andThen (new_queue c) (\<lambda>q.
     Inr \<lparr>ct_clk = 0, chan = new_channel, cmd_queue = q, refresher = new_refresh, unified_q = [], read_queue = [],
          write_buffer = [], pending_rd = [], pending_wr = [], return_queue = [], last_trans_clk = 0, write_draining = 0\<rparr>)"

text \<open>The first transaction that is done leaves the return queue.\<close>

definition ReturnDoneTrans :: "nat \<Rightarrow> controller \<Rightarrow> (u64 \<times> bool) option \<times> controller" where
  "ReturnDoneTrans clk ct =
     (case find (\<lambda>t. clk \<ge> complete_cycle t) (return_queue ct) of
        None \<Rightarrow> (None, ct)
      | Some t \<Rightarrow> (Some (tr_addr t, tr_is_write t),
                   ct\<lparr>return_queue := erase_first (\<lambda>t. clk \<ge> complete_cycle t) (return_queue ct)\<rparr>))"

definition ctl_WillAcceptTransaction :: "dram_config \<Rightarrow> controller \<Rightarrow> bool \<Rightarrow> bool" where
  "ctl_WillAcceptTransaction c ct is_write \<longleftrightarrow>
     (if unified_queue c then length (unified_q ct) < trans_queue_size c
      else if \<not> is_write then length (read_queue ct) < trans_queue_size c
      else length (write_buffer ct) < trans_queue_size c)"

abbreviation queued_at :: "u64 \<Rightarrow> transaction list \<Rightarrow> bool" where
  "queued_at a \<equiv> list_ex (\<lambda>t. tr_addr t = a)"

definition ctl_AddTransaction :: "dram_config \<Rightarrow> transaction \<Rightarrow> controller \<Rightarrow> controller" where
  "ctl_AddTransaction c tr ct0 =
     (let t = tr\<lparr>added_cycle := ct_clk ct0\<rparr>;
          ct = ct0\<lparr>last_trans_clk := ct_clk ct0\<rparr>;
          done_next = t\<lparr>complete_cycle := plus64 (ct_clk ct) 1\<rparr>
      in if tr_is_write t then
           (let ct1 = (if \<not> queued_at (tr_addr t) (pending_wr ct)
                       then (if unified_queue c then ct\<lparr>pending_wr := pending_wr ct @ [t], unified_q := unified_q ct @ [t]\<rparr>
                             else ct\<lparr>pending_wr := pending_wr ct @ [t], write_buffer := write_buffer ct @ [t]\<rparr>)
                       else ct)
            in ct1\<lparr>return_queue := return_queue ct1 @ [done_next]\<rparr>)
         else if queued_at (tr_addr t) (pending_wr ct) then ct\<lparr>return_queue := return_queue ct @ [done_next]\<rparr>
         else let ct1 = ct\<lparr>pending_rd := pending_rd ct @ [t]\<rparr>
              in if length (filter (\<lambda>x. tr_addr x = tr_addr t) (pending_rd ct1)) = 1
                 then (if unified_queue c then ct1\<lparr>unified_q := unified_q ct1 @ [t]\<rparr> else ct1\<lparr>read_queue := read_queue ct1 @ [t]\<rparr>)
                 else ct1)"

definition TransToCommand :: "dram_config \<Rightarrow> transaction \<Rightarrow> command" where
  "TransToCommand c t =
     mk_command (if row_buf_policy c \<noteq> ''CLOSE_PAGE'' then (if tr_is_write t then WRITE else READ)
                 else (if tr_is_write t then WRITE_PRECHARGE else READ_PRECHARGE))
       (AddressMapping c (tr_addr t)) (tr_addr t)"

text \<open>
  The loop of \<^verbatim>\<open>ScheduleTransaction\<close> over the chosen queue: what is left of it, the command queue, and the
  new \<^verbatim>\<open>write_draining_\<close>.
\<close>

fun schedule_loop :: "dram_config \<Rightarrow> transaction list \<Rightarrow> transaction list \<Rightarrow> command_queue \<Rightarrow> int \<Rightarrow>
    dram_error + (transaction list \<times> command_queue \<times> int)" where
  "schedule_loop c rds [] q wd = Inr ([], q, wd)"
| "schedule_loop c rds (t # ts) q wd =
     (let cmd = TransToCommand c t in
      andThen (WillAcceptCommand c q (Rank cmd) (Bankgroup cmd) (Bank cmd)) (\<lambda>ok.
        if ok then
          (if \<not> unified_queue c \<and> IsWrite cmd \<and> queued_at (tr_addr t) rds then Inr (t # ts, q, 0)
           else andThen (AddCommand c cmd q) (\<lambda>(_, q').
             Inr (ts, q', if \<not> unified_queue c \<and> IsWrite cmd then wd - 1 else wd)))
        else andThen (schedule_loop c rds ts q wd) (\<lambda>(ts', q', wd'). Inr (t # ts', q', wd'))))"

definition ScheduleTransaction :: "dram_config \<Rightarrow> controller \<Rightarrow> dram_error + controller" where
  "ScheduleTransaction c ct =
     (let wd = (if write_draining ct = 0 \<and> \<not> unified_queue c \<and>
                   (length (write_buffer ct) \<ge> trans_queue_size c \<or> length (write_buffer ct) > 8 \<and> QueueEmpty (cmd_queue ct))
                then int (length (write_buffer ct)) else write_draining ct)
      in if unified_queue c then
           andThen (schedule_loop c (pending_rd ct) (unified_q ct) (cmd_queue ct) wd) (\<lambda>(ts, q, wd).
             Inr (ct\<lparr>unified_q := ts, cmd_queue := q, write_draining := wd\<rparr>))
         else if wd > 0 then
           andThen (schedule_loop c (pending_rd ct) (write_buffer ct) (cmd_queue ct) wd) (\<lambda>(ts, q, wd).
             Inr (ct\<lparr>write_buffer := ts, cmd_queue := q, write_draining := wd\<rparr>))
         else
           andThen (schedule_loop c (pending_rd ct) (read_queue ct) (cmd_queue ct) wd) (\<lambda>(ts, q, wd).
             Inr (ct\<lparr>read_queue := ts, cmd_queue := q, write_draining := wd\<rparr>)))"

definition IssueCommand :: "dram_config \<Rightarrow> command \<Rightarrow> controller \<Rightarrow> dram_error + controller" where
  "IssueCommand c cmd ct =
     andThen
       (if IsRead cmd then
          (if \<not> queued_at (hex_addr cmd) (pending_rd ct) then Inl NotInReadQueue
           else Inr (ct\<lparr>return_queue := return_queue ct @
                          map (\<lambda>t. t\<lparr>complete_cycle := plus64 (ct_clk ct) (read_delay c)\<rparr>)
                            (filter (\<lambda>t. tr_addr t = hex_addr cmd) (pending_rd ct)),
                        pending_rd := filter (\<lambda>t. tr_addr t \<noteq> hex_addr cmd) (pending_rd ct)\<rparr>))
        else if IsWrite cmd then
          (if \<not> queued_at (hex_addr cmd) (pending_wr ct) then Inl NotInWriteQueue
           else Inr (ct\<lparr>pending_wr := erase_first (\<lambda>t. tr_addr t = hex_addr cmd) (pending_wr ct)\<rparr>))
        else Inr ct)
       (\<lambda>ct. andThen (UpdateTimingAndStates c cmd (ct_clk ct) (chan ct)) (\<lambda>cs. Inr (ct\<lparr>chan := cs\<rparr>)))"

text \<open>The parts of \<^verbatim>\<open>ClockTick\<close>: choosing and issuing commands, counting idle cycles, self-refresh.\<close>

definition choose_command :: "dram_config \<Rightarrow> controller \<Rightarrow> dram_error + (command \<times> controller)" where
  "choose_command c ct =
     andThen (if refresh_q (chan ct) \<noteq> [] then FinishRefresh c (chan ct) (cmd_queue ct) else Inr (no_command, cmd_queue ct)) (\<lambda>(cmd, q).
     andThen (if \<not> IsValid cmd then GetCommandToIssue c (chan ct) q else Inr (cmd, q)) (\<lambda>(cmd, q).
       Inr (cmd, ct\<lparr>cmd_queue := q\<rparr>)))"

definition issue_commands :: "dram_config \<Rightarrow> controller \<Rightarrow> dram_error + (bool \<times> controller)" where
  "issue_commands c ct =
     andThen (choose_command c ct) (\<lambda>(cmd, ct).
       if \<not> IsValid cmd then Inr (False, ct)
       else andThen (IssueCommand c cmd ct) (\<lambda>ct.
         if \<not> enable_hbm_dual_cmd c then Inr (True, ct)
         else andThen (GetCommandToIssue c (chan ct) (cmd_queue ct)) (\<lambda>(second_cmd, q).
           let ct = ct\<lparr>cmd_queue := q\<rparr> in
           if IsValid second_cmd \<and> IsReadWrite second_cmd \<noteq> IsReadWrite cmd
           then andThen (IssueCommand c second_cmd ct) (\<lambda>ct. Inr (True, ct))
           else Inr (True, ct))))"

definition count_idle :: "dram_config \<Rightarrow> channel_state \<Rightarrow> channel_state" where
  "count_idle c cs =
     fold (\<lambda>i cs.
         if is_sref cs i then cs
         else cs\<lparr>rank_idle_cycles := Mapping.update i
               (if IsAllBankIdleInRank c cs i then entry 0 (rank_idle_cycles cs) i + 1 else 0) (rank_idle_cycles cs)\<rparr>)
       [0..ranks c - 1] cs"

fun self_refresh :: "dram_config \<Rightarrow> int list \<Rightarrow> controller \<Rightarrow> dram_error + controller" where
  "self_refresh c [] ct = Inr ct"
| "self_refresh c (i # is) ct =
     (let q_empty = entry True (rank_q_empty (cmd_queue ct)) i;
          want = (if is_sref (chan ct) i then (if \<not> q_empty then Some SREF_EXIT else None)
                  else if q_empty \<and> entry 0 (rank_idle_cycles (chan ct)) i \<ge> sref_threshold c then Some SREF_ENTER else None)
      in case want of
           None \<Rightarrow> self_refresh c is ct
         | Some t \<Rightarrow>
             andThen (GetReadyCommand c (chan ct) (mk_command t (no_address\<lparr>ad_rank := i\<rparr>) (-1)) (ct_clk ct)) (\<lambda>cmd.
               if IsValid cmd then IssueCommand c cmd ct else self_refresh c is ct))"

definition ctl_ClockTick :: "dram_config \<Rightarrow> controller \<Rightarrow> dram_error + controller" where
  "ctl_ClockTick c ct =
     andThen (refresh_ClockTick c (refresher ct, chan ct)) (\<lambda>(rf, cs).
     andThen (issue_commands c (ct\<lparr>refresher := rf, chan := cs\<rparr>)) (\<lambda>(cmd_issued, ct).
     (let ct = ct\<lparr>chan := count_idle c (chan ct)\<rparr> in
      andThen (if enable_self_refresh c \<and> \<not> cmd_issued then self_refresh c [0..ranks c - 1] ct else Inr ct) (\<lambda>ct.
      andThen (ScheduleTransaction c ct) (\<lambda>ct.
        Inr (ct\<lparr>ct_clk := ct_clk ct + 1, cmd_queue := (cmd_queue ct)\<lparr>q_clk := q_clk (cmd_queue ct) + 1\<rparr>\<rparr>))))))"

end
