(* ===== verification/DramAccount.thy ===== *)
theory DramAccount
  imports DramController "HOL-Library.Multiset"
begin

text \<open>
  The memory controller keeps its books: for every pending transaction there is exactly one waiting
  transaction or queued command, every command it issues is one the channel is ready for, and so no
  cycle ends the simulation. What a client is owed changes only by its requests and by what is returned.
\<close>

section \<open>Configurations\<close>

text \<open>
  What the construction of a configuration provides and the controller relies on: addresses map into
  the geometry, there are queues, and the refresh interval is a number of cycles. Self-refresh and the
  second command of HBM are switched off, as they are for every DDR configuration by default.
\<close>

definition config_ok :: "dram_config \<Rightarrow> bool" where
  "config_ok c \<longleftrightarrow> geometry_ok c \<and> (\<forall>a. let p = AddressMapping c a in bank_ok c (ad_rank p) (ad_bankgroup p) (ad_bank p)) \<and>
     (queue_structure c = ''PER_BANK'' \<or> queue_structure c = ''PER_RANK'') \<and>
     (\<exists>n. refresh_interval c = Inr n \<and> 0 < n) \<and> \<not> enable_self_refresh c \<and> \<not> enable_hbm_dual_cmd c"

lemma config_okD:
  assumes "config_ok c"
  shows "geometry_ok c" "bank_ok c (ad_rank (AddressMapping c a)) (ad_bankgroup (AddressMapping c a)) (ad_bank (AddressMapping c a))"
    "queue_structure c = ''PER_BANK'' \<or> queue_structure c = ''PER_RANK''" "\<exists>n. refresh_interval c = Inr n \<and> 0 < n"
    "\<not> enable_self_refresh c" "\<not> enable_hbm_dual_cmd c"
  using assms by (simp_all add: config_ok_def Let_def)

section \<open>Channels that are awake\<close>

definition awake :: "dram_config \<Rightarrow> channel_state \<Rightarrow> bool" where
  "awake c cs \<longleftrightarrow> (\<forall>k. key_ok c k \<longrightarrow> bk_state (bank_of cs k) = OPEN \<or> bk_state (bank_of cs k) = CLOSED)"

text \<open>The requests a controller makes of its channel: column commands and refreshes, at existing banks.\<close>

definition request_ok :: "dram_config \<Rightarrow> command \<Rightarrow> bool" where
  "request_ok c x \<longleftrightarrow> (IsReadWrite x \<or> IsRefresh x) \<and> addressed c x"

lemma bank_ready_total:
  assumes "bk_state b = OPEN \<or> bk_state b = CLOSED" "IsReadWrite x \<or> IsRefresh x"
  shows "\<exists>cmd. bank_GetReadyCommand b x clk = Inr cmd"
  using assms by (auto simp: bank_GetReadyCommand_def required_type_def command_kinds)

lemma rank_ready_total:
  assumes "\<And>jk. jk \<in> set l \<Longrightarrow> \<exists>cmd. bank_GetReadyCommand (bank_of cs (Rank x, jk)) x clk = Inr cmd"
  shows "\<exists>cmd. rank_ready c cs x clk l n acc = Inr cmd"
  using assms
proof (induction l arbitrary: n acc)
  case (Cons jk l)
  obtain j k where jk: "jk = (j, k)" by (cases jk)
  obtain r where "bank_GetReadyCommand (bank_of cs (Rank x, j, k)) x clk = Inr r" using Cons.prems [of jk] jk by auto
  then show ?case using Cons.IH Cons.prems jk by auto
qed simp

lemma ready_total:
  assumes "awake c cs" "request_ok c x"
  shows "\<exists>cmd. GetReadyCommand c cs x clk = Inr cmd"
proof -
  have b: "\<exists>cmd. bank_GetReadyCommand (bank_of cs k) x clk = Inr cmd" if "key_ok c k" for k
    using assms that by (intro bank_ready_total) (auto simp: awake_def request_ok_def)
  show ?thesis
  proof (cases "IsRankCMD x")
    case True
    then have r: "rank_ok c (Rank x)" using assms(2) by (simp add: request_ok_def addressed_def)
    then have "\<exists>cmd. rank_ready c cs x clk (rank_banks c) 0 no_command = Inr cmd"
      by (intro rank_ready_total b) (auto simp: rank_banks_ok)
    then show ?thesis using True r by (simp add: GetReadyCommand_def)
  next
    case False
    then have k: "bank_ok c (Rank x) (Bankgroup x) (Bank x)" using assms(2) by (simp add: request_ok_def addressed_def)
    then show ?thesis using False b [of "(Rank x, Bankgroup x, Bank x)"] by (auto simp: GetReadyCommand_def)
  qed
qed

lemma required_awake:
  assumes "required_type b x = Inr t" "bk_state b = OPEN \<or> bk_state b = CLOSED"
  shows "t = cmd_type x \<or> t = ACTIVATE \<or> t = PRECHARGE"
  using assms by (elim disjE) (simp_all add: required_type_def split: if_splits)

text \<open>What an awake channel answers: a column command only to the same column command, and never self-refresh.\<close>

lemma ready_answer:
  assumes "GetReadyCommand c cs x clk = Inr cmd" "IsValid cmd" "awake c cs" "request_ok c x" "geometry_ok c"
  shows "IsReadWrite cmd \<Longrightarrow> cmd = x \<and> IsReadWrite x" "cmd_type cmd \<notin> {SREF_ENTER, SREF_EXIT}"
proof -
  have "(IsReadWrite cmd \<longrightarrow> cmd = x \<and> IsReadWrite x) \<and> cmd_type cmd \<notin> {SREF_ENTER, SREF_EXIT}"
  proof (cases "IsRankCMD x")
    case True
    then have "cmd_type x = REFRESH" using assms(4) by (auto simp: request_ok_def command_kinds)
    then show ?thesis using ready_rank_cases [OF assms(1,2) True assms(5)] by (auto simp: command_kinds)
  next
    case False
    note r = ready_bank_cases [OF assms(1,2) False]
    note b = bank_ready_cases [OF r(3) assms(2)]
    have st: "bk_state (bank_of cs (Rank x, Bankgroup x, Bank x)) = OPEN \<or> bk_state (bank_of cs (Rank x, Bankgroup x, Bank x)) = CLOSED"
      using assms(3) r(1) by (auto simp: awake_def)
    have t: "(IsReadWrite cmd \<longrightarrow> cmd_type cmd = cmd_type x \<and> IsReadWrite x) \<and> cmd_type cmd \<notin> {SREF_ENTER, SREF_EXIT}"
      using required_awake [OF b(1) st] assms(4) by (elim disjE) (auto simp: request_ok_def command_kinds)
    moreover have "cmd = x" if "cmd_type cmd = cmd_type x" using b(3,4) that by (cases cmd; cases x) simp
    ultimately show ?thesis by blast
  qed
  then show "IsReadWrite cmd \<Longrightarrow> cmd = x \<and> IsReadWrite x" "cmd_type cmd \<notin> {SREF_ENTER, SREF_EXIT}" by blast+
qed

text \<open>A ready command can be performed.\<close>

lemma ready_performs:
  assumes "GetReadyCommand c cs req clk = Inr cmd" "IsValid cmd" "sref_uniform c cs" "geometry_ok c"
  shows "\<exists>cs'. UpdateTimingAndStates c cmd clk cs = Inr cs'"
proof -
  note d = ready_due [OF assms]
  have "\<exists>b. bank_UpdateState cmd (bank_of cs k) = Inr b" if "targets c cmd k" for k
    using due_legal [OF d(2) [OF that] assms(2)] .
  from UpdateState_ok [OF d(1) this] obtain cs1 where "UpdateState c cmd cs = Inr cs1" by blast
  moreover have "\<exists>cs'. UpdateTiming c cmd clk cs1 = Inr cs'"
    using assms(2) by (cases "cmd_type cmd") (auto simp: UpdateTiming_def Let_def IsValid_def)
  ultimately show ?thesis by (auto simp: UpdateTimingAndStates_def)
qed

lemma awake_performs:
  assumes "UpdateTimingAndStates c cmd clk cs = Inr cs'" "awake c cs" "cmd_type cmd \<notin> {SREF_ENTER, SREF_EXIT}"
  shows "awake c cs'"
  unfolding awake_def
proof (intro allI impI)
  fix k assume k: "key_ok c k"
  obtain b where b: "bank_of cs' k = bank_timings (delays_to c cmd k) clk b"
    "if targets c cmd k then bank_UpdateState cmd (bank_of cs k) = Inr b else b = bank_of cs k" using issue_bank [OF assms(1) k] .
  have "bk_state (bank_of cs k) = OPEN \<or> bk_state (bank_of cs k) = CLOSED" using assms(2) k unfolding awake_def by blast
  moreover have "bk_state b = OPEN \<or> bk_state b = CLOSED" if "bank_UpdateState cmd (bank_of cs k) = Inr b"
    using that assms(3) by (cases "bk_state (bank_of cs k)"; cases "cmd_type cmd"; auto simp: bank_UpdateState_def)
  ultimately show "bk_state (bank_of cs' k) = OPEN \<or> bk_state (bank_of cs' k) = CLOSED"
    unfolding b(1) using b(2) by (cases "targets c cmd k") auto
qed

text \<open>The pending refreshes name existing ranks and banks, and commands only take away from them.\<close>

definition refreshes_ok :: "dram_config \<Rightarrow> channel_state \<Rightarrow> bool" where
  "refreshes_ok c cs \<longleftrightarrow> (\<forall>x \<in> set (refresh_q cs). IsRefresh x \<and> addressed c x)"

lemma performs_rest:
  assumes "UpdateTimingAndStates c cmd clk cs = Inr cs'"
  shows "set (refresh_q cs') \<subseteq> set (refresh_q cs)"
    "cmd_type cmd \<notin> {SREF_ENTER, SREF_EXIT} \<Longrightarrow> rank_is_sref cs' = rank_is_sref cs"
proof -
  obtain cs1 where cs1: "UpdateState c cmd cs = Inr cs1" "UpdateTiming c cmd clk cs1 = Inr cs'"
    using assms(1) by (auto simp: UpdateTimingAndStates_def andThen_Inr_iff)
  obtain cs2 where cs2: "update_banks cmd (acted c cmd) cs = Inr cs2" "addressed c cmd" "cs1 = settled cmd cs2"
    using UpdateState_Inr [OF cs1(1)] .
  have a: "refresh_q (UpdateActivationTimes c r clk x) = refresh_q x" "rank_is_sref (UpdateActivationTimes c r clk x) = rank_is_sref x" for r x
    by (simp_all add: UpdateActivationTimes_def Let_def)
  have b: "same_rest cs cs2" using update_banks_Inr(1) [OF cs2(1) distinct_acted] .
  have "refresh_q cs' = refresh_q cs1" "rank_is_sref cs' = rank_is_sref cs1"
    using UpdateTiming_rest [OF cs1(2)] a by (auto simp: same_rest_def split: if_splits)
  then show "set (refresh_q cs') \<subseteq> set (refresh_q cs)"
    "cmd_type cmd \<notin> {SREF_ENTER, SREF_EXIT} \<Longrightarrow> rank_is_sref cs' = rank_is_sref cs"
    using b settled_refresh_q [of cmd cs2] unfolding cs2(3)
    by (auto simp: same_rest_def settled_def RankNeedRefresh_def BankNeedRefresh_def)
qed

section \<open>Command queues\<close>

definition cmd_index :: "dram_config \<Rightarrow> command \<Rightarrow> int" where
  "cmd_index c x = GetQueueIndex c (Rank x) (Bankgroup x) (Bank x)"

text \<open>A command that a transaction was turned into, in the queue of its bank.\<close>

definition queued_ok :: "dram_config \<Rightarrow> command \<Rightarrow> bool" where
  "queued_ok c x \<longleftrightarrow> IsReadWrite x \<and> cmd_addr x = AddressMapping c (hex_addr x)"

definition queues_ok :: "dram_config \<Rightarrow> command list list \<Rightarrow> bool" where
  "queues_ok c qs \<longleftrightarrow> num_queues c = Inr (length qs) \<and>
     (\<forall>i < length qs. \<forall>x \<in> set (qs ! i). queued_ok c x \<and> cmd_index c x = int i)"

lemma bank_ok_index:
  assumes "config_ok c" "bank_ok c r g b" "num_queues c = Inr n"
  shows "0 \<le> GetQueueIndex c r g b" "nat (GetQueueIndex c r g b) < n"
proof -
  have geo: "0 < ranks c" "0 < bankgroups c" "0 < banks_per_group c" "banks c = bankgroups c * banks_per_group c"
    using config_okD(1) [OF assms(1)] by (simp_all add: geometry_ok_def)
  have rg: "0 \<le> r" "r < ranks c" "0 \<le> g" "g < bankgroups c" "0 \<le> b" "b < banks_per_group c"
    using assms(2) by (simp_all add: bank_ok_def rank_ok_def)
  have "g * banks_per_group c + b < banks c"
  proof -
    have "g * banks_per_group c + b < (g + 1) * banks_per_group c" using rg by (simp add: algebra_simps)
    also have "\<dots> \<le> bankgroups c * banks_per_group c" using rg geo by (intro mult_right_mono) auto
    finally show ?thesis using geo by simp
  qed
  moreover have "(r + 1) * banks c \<le> ranks c * banks c" using rg geo by (intro mult_right_mono) auto
  ultimately have i: "r * banks c + g * banks_per_group c + b < banks c * ranks c" by (simp add: algebra_simps)
  have p: "0 \<le> r * banks c + g * banks_per_group c + b" using rg geo by simp
  consider "queue_structure c = ''PER_BANK''" | "queue_structure c = ''PER_RANK''" using config_okD(3) [OF assms(1)] by blast
  then have "0 \<le> GetQueueIndex c r g b \<and> nat (GetQueueIndex c r g b) < n"
  proof cases
    case 1
    then show ?thesis using assms(3) i p by (auto simp: num_queues_def GetQueueIndex_def)
  next
    case 2
    then show ?thesis using assms(3) rg by (auto simp: num_queues_def GetQueueIndex_def)
  qed
  then show "0 \<le> GetQueueIndex c r g b" "nat (GetQueueIndex c r g b) < n" by blast+
qed

lemma queued_request: "config_ok c \<Longrightarrow> queued_ok c x \<Longrightarrow> request_ok c x"
  using config_okD(2) [of c "hex_addr x"] by (auto simp: queued_ok_def request_ok_def addressed_def command_kinds)

lemma erase_first_remove1:
  assumes "x \<in> set l" "\<And>y. y \<in> set l \<Longrightarrow> p y \<longleftrightarrow> y = x"
  shows "erase_first p l = remove1 x l"
  using assms by (induction l) auto

lemma EraseRWCommand_queued:
  assumes "queues_ok c (queues q)" "i < length (queues q)" "x \<in> set (queues q ! i)"
  shows "EraseRWCommand c x q = Inr (q\<lparr>queues := (queues q)[i := remove1 x (queues q ! i)]\<rparr>)"
proof -
  have ok: "queued_ok c y \<and> cmd_index c y = int i" if "y \<in> set (queues q ! i)" for y
    using assms that by (auto simp: queues_ok_def)
  have e: "hex_addr x = hex_addr y \<and> cmd_type x = cmd_type y \<longleftrightarrow> y = x" if "y \<in> set (queues q ! i)" for y
    using ok [OF that] ok [OF assms(3)] by (cases x; cases y) (auto simp: queued_ok_def)
  have "GetQueueIndex c (Rank x) (Bankgroup x) (Bank x) = int i" using ok [OF assms(3)] by (simp add: cmd_index_def)
  moreover have "list_ex (\<lambda>y. hex_addr x = hex_addr y \<and> cmd_type x = cmd_type y) (queues q ! i)"
    using assms(3) by (auto simp: list_ex_iff)
  ultimately show ?thesis using assms(2) erase_first_remove1 [OF assms(3) e]
    by (simp add: EraseRWCommand_def index_ok_def)
qed

lemma first_ready_spec:
  assumes "awake c cs" "\<And>x. x \<in> set l \<Longrightarrow> request_ok c x"
  shows "\<exists>cmd. GetFirstReadyInQueue c cs clk before l = Inr cmd \<and>
    (IsValid cmd \<longrightarrow> (\<exists>x \<in> set l. GetReadyCommand c cs x clk = Inr cmd))"
  using assms(2)
proof (induction l arbitrary: before)
  case (Cons x l)
  obtain cmd where r: "GetReadyCommand c cs x clk = Inr cmd" using ready_total [OF assms(1)] Cons.prems by force
  obtain cmd2 where "GetFirstReadyInQueue c cs clk (before @ [x]) l = Inr cmd2"
    "IsValid cmd2 \<longrightarrow> (\<exists>x \<in> set l. GetReadyCommand c cs x clk = Inr cmd2)" using Cons by fastforce
  then show ?case using r by auto
qed simp

text \<open>What the search over the queues gives: nothing, or a ready command; a column command is taken out of its queue.\<close>

lemma issue_from_spec:
  assumes "config_ok c" "awake c cs" "queues_ok c (queues q)" "queues q \<noteq> []" "queue_idx q < length (queues q)"
  shows "\<exists>cmd q'. issue_from c cs n q = Inr (cmd, q') \<and> queue_idx q' < length (queues q) \<and> q_clk q' = q_clk q \<and>
    (\<not> IsValid cmd \<and> queues q' = queues q \<or>
     (\<exists>i x. i < length (queues q) \<and> x \<in> set (queues q ! i) \<and> IsValid cmd \<and> GetReadyCommand c cs x (q_clk q) = Inr cmd \<and>
        (if IsReadWrite cmd then cmd = x \<and> queues q' = (queues q)[i := remove1 cmd (queues q ! i)] else queues q' = queues q)))"
  using assms(3-5)
proof (induction n arbitrary: q)
  case (Suc n)
  let ?q = "GetNextQueue q"
  have q1: "queues ?q = queues q" "q_clk ?q = q_clk q" "queue_idx ?q < length (queues q)"
    using Suc.prems by (auto simp: GetNextQueue_def Let_def)
  note IH = Suc.IH [of ?q, unfolded q1, OF Suc.prems(1,2) q1(3)]
  show ?case
  proof (cases "is_in_ref ?q \<and> int (queue_idx ?q) \<in> set (ref_q_indices ?q)")
    case True
    then show ?thesis using IH q1 by (auto simp: Let_def)
  next
    case False
    let ?l = "queues q ! queue_idx ?q"
    have req: "request_ok c x" if "x \<in> set ?l" for x
      using queued_request [OF assms(1)] Suc.prems(1) q1(3) that by (auto simp: queues_ok_def)
    obtain cmd where cmd: "GetFirstReadyInQueue c cs (q_clk q) [] ?l = Inr cmd"
      "IsValid cmd \<longrightarrow> (\<exists>x \<in> set ?l. GetReadyCommand c cs x (q_clk q) = Inr cmd)"
      using first_ready_spec [OF assms(2) req] by blast
    show ?thesis
    proof (cases "IsValid cmd")
      case v: True
      then obtain x where x: "x \<in> set ?l" "GetReadyCommand c cs x (q_clk q) = Inr cmd" using cmd(2) by blast
      note ans = ready_answer [OF x(2) v assms(2) req [OF x(1)] config_okD(1) [OF assms(1)]]
      show ?thesis
      proof (cases "IsReadWrite cmd")
        case rw: True
        then have "cmd = x" using ans(1) by blast
        then have "EraseRWCommand c cmd ?q = Inr (?q\<lparr>queues := (queues q)[queue_idx ?q := remove1 cmd ?l]\<rparr>)"
          using EraseRWCommand_queued [of c ?q "queue_idx ?q" cmd] Suc.prems(1) q1 x(1) by simp
        then show ?thesis using False cmd(1) v rw q1 x \<open>cmd = x\<close> by (auto simp: Let_def)
      next
        case nrw: False
        then show ?thesis using False cmd(1) v q1 x by (auto simp: Let_def)
      qed
    next
      case nv: False
      then show ?thesis using False cmd(1) IH q1 by (auto simp: Let_def)
    qed
  qed
qed auto

section \<open>The channel of a controller\<close>

definition chan_inv :: "dram_config \<Rightarrow> nat \<Rightarrow> channel_state \<Rightarrow> bool" where
  "chan_inv c clk cs \<longleftrightarrow> (\<exists>h. channel_run c cs h \<and> (\<forall>x \<in> set h. fst x \<le> clk)) \<and> awake c cs \<and> refreshes_ok c cs"

definition refresh_ok :: "dram_config \<Rightarrow> refresh_state \<Rightarrow> bool" where
  "refresh_ok c rf \<longleftrightarrow> bank_ok c (next_rank rf) (next_bg rf) (next_bank rf)"

lemma chan_inv_mono: "chan_inv c clk cs \<Longrightarrow> clk \<le> clk' \<Longrightarrow> chan_inv c clk' cs"
  by (auto simp: chan_inv_def intro: order_trans)

lemma chan_inv_start: "chan_inv c clk new_channel"
proof -
  have "channel_run c new_channel []" by (rule run_start)
  then show ?thesis by (auto simp: chan_inv_def awake_def refreshes_ok_def new_channel_def bank_of_def new_bank_def intro!: exI [of _ "[]"])
qed

lemma chan_issue:
  assumes "chan_inv c clk cs" "config_ok c" "GetReadyCommand c cs x clk = Inr cmd" "IsValid cmd" "request_ok c x"
  shows "\<exists>cs'. UpdateTimingAndStates c cmd clk cs = Inr cs' \<and> chan_inv c clk cs'"
proof -
  note geo = config_okD(1) [OF assms(2)]
  obtain h where h: "channel_run c cs h" "\<forall>x \<in> set h. fst x \<le> clk" and aw: "awake c cs" and rq: "refreshes_ok c cs"
    using assms(1) by (auto simp: chan_inv_def)
  have "sref_uniform c cs" using run_invD(1) [OF channel_run_inv [OF h(1) geo]] .
  then obtain cs' where cs': "UpdateTimingAndStates c cmd clk cs = Inr cs'" using ready_performs [OF assms(3,4) _ geo] by blast
  note ns = ready_answer(2) [OF assms(3,4) aw assms(5) geo]
  have "channel_run c cs' ((clk, cmd) # h)" by (rule run_issue [OF h assms(3,4) cs'])
  moreover have "awake c cs'" by (rule awake_performs [OF cs' aw ns])
  moreover have "refreshes_ok c cs'" using rq performs_rest(1) [OF cs'] by (auto simp: refreshes_ok_def)
  ultimately have "chan_inv c clk cs'" using h(2) unfolding chan_inv_def by (metis fst_conv order_refl set_ConsD)
  then show ?thesis using cs' by blast
qed

lemma chan_need_refresh:
  assumes "chan_inv c clk cs"
  shows "rank_ok c r \<Longrightarrow> chan_inv c clk (RankNeedRefresh r True cs)" "bank_ok c r g b \<Longrightarrow> chan_inv c clk (BankNeedRefresh r g b True cs)"
proof -
  obtain h where h: "channel_run c cs h" "\<forall>x \<in> set h. fst x \<le> clk" "awake c cs" "refreshes_ok c cs"
    using assms(1) by (auto simp: chan_inv_def)
  have "bank_of (RankNeedRefresh r True cs) = bank_of cs" "bank_of (BankNeedRefresh r g b True cs) = bank_of cs"
    by (simp_all add: bank_of_def RankNeedRefresh_def BankNeedRefresh_def fun_eq_iff)
  then have aw: "awake c (RankNeedRefresh r True cs)" "awake c (BankNeedRefresh r g b True cs)" using h(3) by (simp_all only: awake_def)
  show "chan_inv c clk (RankNeedRefresh r True cs)" if "rank_ok c r"
    unfolding chan_inv_def using run_rank_refresh [OF h(1) that] h(2,4) aw(1) that
    by (auto simp: refreshes_ok_def RankNeedRefresh_def addressed_def command_kinds mk_address_def)
  show "chan_inv c clk (BankNeedRefresh r g b True cs)" if "bank_ok c r g b"
    unfolding chan_inv_def using run_bank_refresh [OF h(1) that] h(2,4) aw(2) that
    by (auto simp: refreshes_ok_def BankNeedRefresh_def addressed_def command_kinds mk_address_def)
qed

lemma IterateNext_ok:
  assumes "geometry_ok c" "refresh_ok c rf" "refresh_policy c \<noteq> RANK_LEVEL_SIMULTANEOUS"
  shows "\<exists>rf'. IterateNext c rf = Inr rf' \<and> refresh_ok c rf' \<and> rf_clk rf' = rf_clk rf"
  using assms by (cases "refresh_policy c") (auto simp: IterateNext_def refresh_ok_def geometry_ok_def bank_ok_def rank_ok_def Let_def)

lemma InsertRefresh_ok:
  assumes "geometry_ok c" "refresh_ok c rf" "chan_inv c clk cs"
  shows "\<exists>rf' cs'. InsertRefresh c (rf, cs) = Inr (rf', cs') \<and> refresh_ok c rf' \<and> rf_clk rf' = rf_clk rf \<and> chan_inv c clk cs'"
proof (cases "refresh_policy c")
  case RANK_LEVEL_SIMULTANEOUS
  have "rank_ok c i" if "find (\<lambda>i. \<not> is_sref cs i) [0..ranks c - 1] = Some i" for i
    using that by (auto simp: find_Some_iff rank_ok_def)
  then show ?thesis using RANK_LEVEL_SIMULTANEOUS assms chan_need_refresh(1) [OF assms(3)]
    by (auto simp: InsertRefresh_def split: option.splits)
next
  case RANK_LEVEL_STAGGERED
  then show ?thesis using IterateNext_ok [OF assms(1,2)] assms(2,3) chan_need_refresh(1) [OF assms(3), of "next_rank rf"]
    by (auto simp: InsertRefresh_def refresh_ok_def bank_ok_def)
next
  case BANK_LEVEL_STAGGERED
  then show ?thesis using IterateNext_ok [OF assms(1,2)] assms(2,3)
      chan_need_refresh(2) [OF assms(3), of "next_rank rf" "next_bg rf" "next_bank rf"]
    by (auto simp: InsertRefresh_def refresh_ok_def)
qed

lemma refresh_ClockTick_ok:
  assumes "config_ok c" "refresh_ok c rf" "chan_inv c clk cs"
  shows "\<exists>rf' cs'. refresh_ClockTick c (rf, cs) = Inr (rf', cs') \<and> refresh_ok c rf' \<and> rf_clk rf' = rf_clk rf + 1 \<and> chan_inv c clk cs'"
proof -
  obtain n where n: "refresh_interval c = Inr n" "0 < n" using config_okD(4) [OF assms(1)] by blast
  obtain rf' cs' where i: "InsertRefresh c (rf, cs) = Inr (rf', cs')" "refresh_ok c rf'" "rf_clk rf' = rf_clk rf" "chan_inv c clk cs'"
    using InsertRefresh_ok [OF config_okD(1) [OF assms(1)] assms(2,3)] by blast
  then show ?thesis using n assms(2,3) by (auto simp: refresh_ClockTick_def refresh_ok_def)
qed

lemma count_idle_ok: "chan_inv c clk cs \<Longrightarrow> chan_inv c clk (count_idle c cs)"
proof -
  have "\<exists>f. fold (\<lambda>i cs. if is_sref cs i then cs
         else cs\<lparr>rank_idle_cycles := Mapping.update i
               (if IsAllBankIdleInRank c cs i then entry 0 (rank_idle_cycles cs) i + 1 else 0) (rank_idle_cycles cs)\<rparr>) l cs =
      cs\<lparr>rank_idle_cycles := f\<rparr>" for l cs
  proof (induction l arbitrary: cs)
    case Nil
    show ?case by (rule exI [of _ "rank_idle_cycles cs"]) simp
  next
    case (Cons i l)
    show ?case using Cons.IH [of cs] Cons.IH [of "cs\<lparr>rank_idle_cycles := _\<rparr>"] by simp
  qed
  then obtain f where f: "count_idle c cs = cs\<lparr>rank_idle_cycles := f\<rparr>" unfolding count_idle_def by blast
  assume a: "chan_inv c clk cs"
  then obtain h where h: "channel_run c cs h" "\<forall>x \<in> set h. fst x \<le> clk" by (auto simp: chan_inv_def)
  have "bank_of (cs\<lparr>rank_idle_cycles := f\<rparr>) = bank_of cs" by (simp add: bank_of_def fun_eq_iff)
  then show ?thesis using a h run_idle [OF h(1)] unfolding f chan_inv_def awake_def refreshes_ok_def by auto
qed

section \<open>Accounting for transactions\<close>

text \<open>
  A pending transaction is represented by one token: a waiting transaction or a queued command with its
  address and direction. Reads of one address share a token, as the code merges them.
\<close>

definition tr_key :: "transaction \<Rightarrow> u64 \<times> bool" where
  "tr_key t = (tr_addr t, tr_is_write t)"

definition command_key :: "command \<Rightarrow> u64 \<times> bool" where
  "command_key x = (hex_addr x, IsWrite x)"

definition tokens_of :: "controller \<Rightarrow> (u64 \<times> bool) multiset" where
  "tokens_of ct = mset (map tr_key (unified_q ct)) + mset (map tr_key (read_queue ct)) + mset (map tr_key (write_buffer ct)) +
     mset (map command_key (concat (queues (cmd_queue ct))))"

definition pending_keys :: "controller \<Rightarrow> (u64 \<times> bool) set" where
  "pending_keys ct = (\<lambda>t. (tr_addr t, False)) ` set (pending_rd ct) \<union> (\<lambda>t. (tr_addr t, True)) ` set (pending_wr ct)"

definition ctl_inv :: "dram_config \<Rightarrow> controller \<Rightarrow> bool" where
  "ctl_inv c ct \<longleftrightarrow> chan_inv c (ct_clk ct) (chan ct) \<and> refresh_ok c (refresher ct) \<and>
     queues_ok c (queues (cmd_queue ct)) \<and> queue_idx (cmd_queue ct) < length (queues (cmd_queue ct)) \<and> q_clk (cmd_queue ct) = ct_clk ct \<and>
     distinct (map tr_addr (pending_wr ct)) \<and> tokens_of ct = mset_set (pending_keys ct)"

text \<open>What the controller owes its client: the transactions in flight and those that are done but not returned.\<close>

definition owed :: "controller \<Rightarrow> (u64 \<times> bool) multiset" where
  "owed ct = mset (map tr_key (return_queue ct)) + mset (map tr_key (pending_rd ct))"

lemma finite_pending_keys [simp]: "finite (pending_keys ct)"
  by (simp add: pending_keys_def)

lemma queued_at_iff: "queued_at a l \<longleftrightarrow> a \<in> tr_addr ` set l"
  by (auto simp: list_ex_iff)

lemma pending_keys_iff:
  "(a, False) \<in> pending_keys ct \<longleftrightarrow> queued_at a (pending_rd ct)" "(a, True) \<in> pending_keys ct \<longleftrightarrow> queued_at a (pending_wr ct)"
  by (auto simp: pending_keys_def queued_at_iff)

lemma concat_update_remove:
  assumes "i < length qs" "x \<in> set (qs ! i)"
  shows "mset (concat (qs[i := remove1 x (qs ! i)])) + {#x#} = mset (concat qs)"
proof -
  have eq: "concat qs = concat (take i qs) @ qs ! i @ concat (drop (Suc i) qs)"
    using id_take_nth_drop [OF assms(1)] by (metis concat.simps(2) concat_append)
  have "concat (qs[i := remove1 x (qs ! i)]) = concat (take i qs) @ remove1 x (qs ! i) @ concat (drop (Suc i) qs)"
    using assms(1) by (simp add: upd_conv_take_nth_drop)
  then show ?thesis using assms(2) unfolding eq by simp
qed

lemma concat_update_append:
  assumes "i < length qs"
  shows "mset (concat (qs[i := qs ! i @ [x]])) = mset (concat qs) + {#x#}"
proof -
  have eq: "concat qs = concat (take i qs) @ qs ! i @ concat (drop (Suc i) qs)"
    using id_take_nth_drop [OF assms(1)] by (metis concat.simps(2) concat_append)
  have "concat (qs[i := qs ! i @ [x]]) = concat (take i qs) @ (qs ! i @ [x]) @ concat (drop (Suc i) qs)"
    using assms(1) by (simp add: upd_conv_take_nth_drop)
  then show ?thesis unfolding eq by simp
qed

section \<open>Adding and returning\<close>

lemma new_controller_inv:
  assumes "config_ok c"
  shows "\<exists>ct. new_controller c = Inr ct \<and> ctl_inv c ct \<and> owed ct = {#}"
proof -
  have geo: "0 < ranks c" "0 < banks c" using config_okD(1) [OF assms] by (auto simp: geometry_ok_def)
  obtain n where n: "num_queues c = Inr n" "0 < n" using config_okD(3) [OF assms] geo by (auto simp: num_queues_def)
  have "refresh_ok c new_refresh" using config_okD(1) [OF assms] by (auto simp: refresh_ok_def new_refresh_def geometry_ok_def bank_ok_def rank_ok_def)
  then show ?thesis using n chan_inv_start
    by (auto simp: new_controller_def new_queue_def ctl_inv_def queues_ok_def tokens_of_def pending_keys_def owed_def)
qed

lemma AddTransaction_inv:
  assumes "ctl_inv c ct"
  shows "ctl_inv c (ctl_AddTransaction c t ct)"
proof -
  have tok: "tokens_of ct = mset_set (pending_keys ct)" and dw: "distinct (map tr_addr (pending_wr ct))"
    using assms by (simp_all add: ctl_inv_def)
  let ?ct = "ctl_AddTransaction c t ct"
  have rest: "chan ?ct = chan ct" "ct_clk ?ct = ct_clk ct" "refresher ?ct = refresher ct" "cmd_queue ?ct = cmd_queue ct"
    by (simp_all add: ctl_AddTransaction_def Let_def)
  let ?new = "if tr_is_write t then \<not> queued_at (tr_addr t) (pending_wr ct)
    else \<not> queued_at (tr_addr t) (pending_wr ct) \<and> \<not> queued_at (tr_addr t) (pending_rd ct)"
  have one: "length (filter (\<lambda>x. tr_addr x = a) l @ [t]) = 1 \<longleftrightarrow> \<not> queued_at a l" for a l
    by (auto simp: filter_empty_conv list_ex_iff)
  have "tokens_of ?ct = tokens_of ct + (if ?new then {#tr_key t#} else {#})"
    using one [of "tr_addr t" "pending_rd ct"] by (auto simp: ctl_AddTransaction_def Let_def tokens_of_def tr_key_def)
  moreover have "pending_keys ?ct = (if ?new then insert (tr_key t) (pending_keys ct) else pending_keys ct)"
    by (auto simp: ctl_AddTransaction_def Let_def pending_keys_def tr_key_def queued_at_iff)
  moreover have "tr_key t \<notin> pending_keys ct" if ?new
    using that by (cases "tr_is_write t") (auto simp: tr_key_def pending_keys_iff)
  moreover have "distinct (map tr_addr (pending_wr ?ct))"
    using dw by (auto simp: ctl_AddTransaction_def Let_def queued_at_iff)
  ultimately show ?thesis using assms tok unfolding ctl_inv_def rest by auto
qed

lemma AddTransaction_owed: "owed (ctl_AddTransaction c t ct) = owed ct + {#tr_key t#}"
  by (auto simp: ctl_AddTransaction_def Let_def owed_def tr_key_def)

lemma ReturnDoneTrans_inv: "ctl_inv c ct \<Longrightarrow> ctl_inv c (snd (ReturnDoneTrans clk ct))"
  by (auto simp: ReturnDoneTrans_def ctl_inv_def tokens_of_def pending_keys_def split: option.splits)

lemma erase_found: "find p l = Some x \<Longrightarrow> mset (erase_first p l) + {#x#} = mset l"
  by (induction l) (auto split: if_splits)

lemma ReturnDoneTrans_owed:
  "owed ct = owed (snd (ReturnDoneTrans clk ct)) + (case fst (ReturnDoneTrans clk ct) of None \<Rightarrow> {#} | Some k \<Rightarrow> {#k#})"
proof (cases "find (\<lambda>t. clk \<ge> complete_cycle t) (return_queue ct)")
  case (Some t)
  have "mset (map tr_key (return_queue ct)) =
      mset (map tr_key (erase_first (\<lambda>t. clk \<ge> complete_cycle t) (return_queue ct))) + {#tr_key t#}"
    unfolding mset_map using erase_found [OF Some, symmetric] by simp
  then show ?thesis using Some by (simp add: ReturnDoneTrans_def owed_def tr_key_def)
qed (simp add: ReturnDoneTrans_def)

section \<open>A cycle of the controller\<close>

text \<open>The invariant while a chosen command is between its queue and the channel: its token is in hand.\<close>

definition inv_holding :: "dram_config \<Rightarrow> (u64 \<times> bool) multiset \<Rightarrow> controller \<Rightarrow> bool" where
  "inv_holding c hand ct \<longleftrightarrow> chan_inv c (ct_clk ct) (chan ct) \<and> refresh_ok c (refresher ct) \<and>
     queues_ok c (queues (cmd_queue ct)) \<and> queue_idx (cmd_queue ct) < length (queues (cmd_queue ct)) \<and> q_clk (cmd_queue ct) = ct_clk ct \<and>
     distinct (map tr_addr (pending_wr ct)) \<and> tokens_of ct + hand = mset_set (pending_keys ct)"

definition hand_of :: "command \<Rightarrow> (u64 \<times> bool) multiset" where
  "hand_of cmd = (if IsReadWrite cmd then {#command_key cmd#} else {#})"

definition ready_in :: "dram_config \<Rightarrow> controller \<Rightarrow> command \<Rightarrow> bool" where
  "ready_in c ct cmd \<longleftrightarrow> IsValid cmd \<and> (\<exists>x. request_ok c x \<and> GetReadyCommand c (chan ct) x (ct_clk ct) = Inr cmd)"

lemma inv_holding_nothing: "inv_holding c {#} ct = ctl_inv c ct"
  by (simp add: inv_holding_def ctl_inv_def)

lemma queues_ok_remove: "queues_ok c qs \<Longrightarrow> i < length qs \<Longrightarrow> queues_ok c (qs[i := remove1 x (qs ! i)])"
  unfolding queues_ok_def by (auto simp: nth_list_update dest: notin_set_remove1)

lemma GetCommandToIssue_inv:
  assumes "config_ok c" "ctl_inv c ct"
  shows "\<exists>cmd q. GetCommandToIssue c (chan ct) (cmd_queue ct) = Inr (cmd, q) \<and>
    (if IsValid cmd then inv_holding c (hand_of cmd) (ct\<lparr>cmd_queue := q\<rparr>) \<and> ready_in c ct cmd else ctl_inv c (ct\<lparr>cmd_queue := q\<rparr>))"
proof -
  let ?q = "cmd_queue ct"
  have inv: "chan_inv c (ct_clk ct) (chan ct)" "queues_ok c (queues ?q)" "queue_idx ?q < length (queues ?q)" "q_clk ?q = ct_clk ct"
    "tokens_of ct = mset_set (pending_keys ct)"
    using assms(2) by (auto simp: ctl_inv_def)
  have aw: "awake c (chan ct)" using inv(1) by (simp add: chan_inv_def)
  have ne: "queues ?q \<noteq> []" using inv(3) by auto
  obtain cmd q where i: "GetCommandToIssue c (chan ct) ?q = Inr (cmd, q)" "queue_idx q < length (queues ?q)" "q_clk q = q_clk ?q"
    "\<not> IsValid cmd \<and> queues q = queues ?q \<or>
     (\<exists>i x. i < length (queues ?q) \<and> x \<in> set (queues ?q ! i) \<and> IsValid cmd \<and> GetReadyCommand c (chan ct) x (q_clk ?q) = Inr cmd \<and>
        (if IsReadWrite cmd then cmd = x \<and> queues q = (queues ?q)[i := remove1 cmd (queues ?q ! i)] else queues q = queues ?q))"
    unfolding GetCommandToIssue_def using issue_from_spec [OF assms(1) aw inv(2) ne inv(3)] by blast
  show ?thesis
  proof (cases "queues q = queues ?q \<and> (IsValid cmd \<longrightarrow> \<not> IsReadWrite cmd)")
    case True
    then have "ctl_inv c (ct\<lparr>cmd_queue := q\<rparr>)"
      using assms(2) i(2,3) by (simp add: ctl_inv_def tokens_of_def pending_keys_def)
    moreover have "ready_in c ct cmd" if v: "IsValid cmd"
    proof -
      obtain j x where x: "j < length (queues ?q)" "x \<in> set (queues ?q ! j)" "GetReadyCommand c (chan ct) x (q_clk ?q) = Inr cmd"
        using i(4) v by blast
      have "queued_ok c x" using inv(2) x(1,2) by (auto simp: queues_ok_def)
      then show ?thesis using x(3) inv(4) v queued_request [OF assms(1)] by (auto simp: ready_in_def)
    qed
    ultimately show ?thesis using i(1) True by (auto simp: hand_of_def inv_holding_nothing)
  next
    case False
    then obtain j where j: "j < length (queues ?q)" "cmd \<in> set (queues ?q ! j)" "GetReadyCommand c (chan ct) cmd (q_clk ?q) = Inr cmd"
      "IsValid cmd" "IsReadWrite cmd" "queues q = (queues ?q)[j := remove1 cmd (queues ?q ! j)]"
      using i(4) by (auto split: if_splits)
    have "queued_ok c cmd" using inv(2) j(1,2) by (auto simp: queues_ok_def)
    then have r: "ready_in c ct cmd" using j(3,4) inv(4) queued_request [OF assms(1)] by (auto simp: ready_in_def)
    have "mset (map command_key (concat (queues q))) + {#command_key cmd#} = mset (map command_key (concat (queues ?q)))"
      unfolding j(6) mset_map using concat_update_remove [OF j(1,2), symmetric] by simp
    then have t: "tokens_of (ct\<lparr>cmd_queue := q\<rparr>) + {#command_key cmd#} = tokens_of ct" by (simp add: tokens_of_def)
    have "inv_holding c (hand_of cmd) (ct\<lparr>cmd_queue := q\<rparr>)"
      using assms(2) i(2,3) j(5,6) t queues_ok_remove [OF inv(2) j(1)]
      by (simp add: inv_holding_def ctl_inv_def hand_of_def pending_keys_def)
    then show ?thesis using i(1) j(4) r by auto
  qed
qed

lemma FinishRefresh_inv:
  assumes "config_ok c" "ctl_inv c ct" "refresh_q (chan ct) \<noteq> []"
  shows "\<exists>cmd q. FinishRefresh c (chan ct) (cmd_queue ct) = Inr (cmd, q) \<and> ctl_inv c (ct\<lparr>cmd_queue := q\<rparr>) \<and>
    (IsValid cmd \<longrightarrow> ready_in c ct cmd \<and> hand_of cmd = {#})"
proof -
  let ?q = "cmd_queue ct"
  obtain ref rs where ref: "refresh_q (chan ct) = ref # rs" using assms(3) by (cases "refresh_q (chan ct)") auto
  have ch: "chan_inv c (ct_clk ct) (chan ct)" and clk: "q_clk ?q = ct_clk ct" using assms(2) by (simp_all add: ctl_inv_def)
  have aw: "awake c (chan ct)" and rok: "IsRefresh ref \<and> addressed c ref"
    using ch ref by (simp_all add: chan_inv_def refreshes_ok_def)
  have req: "request_ok c ref" using rok by (simp add: request_ok_def)
  obtain cmd where cmd: "GetReadyCommand c (chan ct) ref (ct_clk ct) = Inr cmd" using ready_total [OF aw req] by blast
  have g: "q_clk (GetRefQIndices c ref ?q) = q_clk ?q" "queues (GetRefQIndices c ref ?q) = queues ?q" "queue_idx (GetRefQIndices c ref ?q) = queue_idx ?q"
    by (simp_all add: GetRefQIndices_def)
  define q1 where "q1 = (if \<not> is_in_ref ?q then (GetRefQIndices c ref ?q)\<lparr>is_in_ref := True\<rparr> else ?q)"
  define q where "q = (if IsRefresh cmd then q1\<lparr>ref_q_indices := [], is_in_ref := False\<rparr> else q1)"
  have q1: "queues q1 = queues ?q" "queue_idx q1 = queue_idx ?q" "q_clk q1 = q_clk ?q" using g by (simp_all add: q1_def)
  then have q: "queues q = queues ?q" "queue_idx q = queue_idx ?q" "q_clk q = q_clk ?q" by (simp_all add: q_def)
  have fin: "FinishRefresh c (chan ct) ?q = Inr (cmd, q)"
    using ref cmd clk q1(3) by (simp add: FinishRefresh_def Let_def q1_def [symmetric] q_def)
  have "ctl_inv c (ct\<lparr>cmd_queue := q\<rparr>)" using assms(2) q by (simp add: ctl_inv_def tokens_of_def pending_keys_def)
  moreover have "ready_in c ct cmd \<and> hand_of cmd = {#}" if "IsValid cmd"
  proof -
    have "\<not> IsReadWrite cmd" using ready_answer(1) [OF cmd that aw req config_okD(1) [OF assms(1)]] rok by (auto simp: command_kinds)
    then show ?thesis using cmd that req by (auto simp: ready_in_def hand_of_def)
  qed
  ultimately show ?thesis using fin by blast
qed

lemma choose_command_inv:
  assumes "config_ok c" "ctl_inv c ct"
  shows "\<exists>cmd ct'. choose_command c ct = Inr (cmd, ct') \<and> owed ct' = owed ct \<and>
    (if IsValid cmd then inv_holding c (hand_of cmd) ct' \<and> ready_in c ct' cmd else ctl_inv c ct')"
proof -
  have "\<exists>cmd q. (if refresh_q (chan ct) \<noteq> [] then FinishRefresh c (chan ct) (cmd_queue ct) else Inr (no_command, cmd_queue ct)) = Inr (cmd, q) \<and>
      ctl_inv c (ct\<lparr>cmd_queue := q\<rparr>) \<and> (IsValid cmd \<longrightarrow> ready_in c ct cmd \<and> hand_of cmd = {#})"
    using FinishRefresh_inv [OF assms] assms(2) by auto
  then obtain cmd q where s: "(if refresh_q (chan ct) \<noteq> [] then FinishRefresh c (chan ct) (cmd_queue ct) else Inr (no_command, cmd_queue ct)) = Inr (cmd, q)"
    "ctl_inv c (ct\<lparr>cmd_queue := q\<rparr>)" "IsValid cmd \<longrightarrow> ready_in c ct cmd \<and> hand_of cmd = {#}" by blast
  have o1: "owed (ct\<lparr>cmd_queue := q\<rparr>) = owed ct" for q by (simp add: owed_def)
  have r2: "chan (ct\<lparr>cmd_queue := q\<rparr>) = chan ct" "cmd_queue (ct\<lparr>cmd_queue := q\<rparr>) = q"
    "ct\<lparr>cmd_queue := q, cmd_queue := q'\<rparr> = ct\<lparr>cmd_queue := q'\<rparr>" for q q' by simp_all
  have r1: "ready_in c (ct\<lparr>cmd_queue := q\<rparr>) x = ready_in c ct x" for q x by (simp add: ready_in_def)
  show ?thesis
  proof (cases "IsValid cmd")
    case True
    then have "choose_command c ct = Inr (cmd, ct\<lparr>cmd_queue := q\<rparr>)" using s(1) by (simp add: choose_command_def)
    then show ?thesis using True s(2,3) o1 r1 by (auto simp: inv_holding_nothing)
  next
    case False
    obtain cmd2 q2 where g: "GetCommandToIssue c (chan ct) q = Inr (cmd2, q2)"
      "if IsValid cmd2 then inv_holding c (hand_of cmd2) (ct\<lparr>cmd_queue := q2\<rparr>) \<and> ready_in c ct cmd2 else ctl_inv c (ct\<lparr>cmd_queue := q2\<rparr>)"
      using GetCommandToIssue_inv [OF assms(1) s(2)] unfolding r1 r2 by blast
    then have "choose_command c ct = Inr (cmd2, ct\<lparr>cmd_queue := q2\<rparr>)" using s(1) False by (simp add: choose_command_def)
    then show ?thesis using g(2) o1 r1 by auto
  qed
qed

lemma erase_first_addr:
  assumes "distinct (map tr_addr l)"
  shows "tr_addr ` set (erase_first (\<lambda>t. tr_addr t = a) l) = tr_addr ` set l - {a} \<and> distinct (map tr_addr (erase_first (\<lambda>t. tr_addr t = a) l))"
proof -
  have e: "map tr_addr (erase_first (\<lambda>t. tr_addr t = a) l) = remove1 a (map tr_addr l)" by (induction l) auto
  have "set (map tr_addr (erase_first (\<lambda>t. tr_addr t = a) l)) = set (map tr_addr l) - {a}"
    unfolding e using assms by (rule set_remove1_eq)
  moreover have "distinct (map tr_addr (erase_first (\<lambda>t. tr_addr t = a) l))" unfolding e using assms by (rule distinct_remove1)
  ultimately show ?thesis by simp
qed

lemma mset_set_take: "finite A \<Longrightarrow> M + {#x#} = mset_set A \<Longrightarrow> x \<in> A \<and> M = mset_set (A - {x})"
proof -
  assume f: "finite A" and e: "M + {#x#} = mset_set A"
  then have x: "x \<in> A" by (metis elem_mset_set union_single_eq_member add_mset_add_single)
  then have "mset_set A = add_mset x (mset_set (A - {x}))" using f by (simp add: mset_set.remove)
  then show ?thesis using e x by simp
qed

text \<open>Issuing a chosen command succeeds, restores the accounting and loses nothing that is owed.\<close>

lemma IssueCommand_inv:
  assumes "config_ok c" "inv_holding c (hand_of cmd) ct" "ready_in c ct cmd"
  shows "\<exists>ct'. IssueCommand c cmd ct = Inr ct' \<and> ctl_inv c ct' \<and> owed ct' = owed ct"
proof -
  obtain x where x: "request_ok c x" "GetReadyCommand c (chan ct) x (ct_clk ct) = Inr cmd" "IsValid cmd"
    using assms(3) by (auto simp: ready_in_def)
  have inv: "chan_inv c (ct_clk ct) (chan ct)" "distinct (map tr_addr (pending_wr ct))" "tokens_of ct + hand_of cmd = mset_set (pending_keys ct)"
    using assms(2) by (simp_all add: inv_holding_def)
  obtain cs' where cs': "UpdateTimingAndStates c cmd (ct_clk ct) (chan ct) = Inr cs'" "chan_inv c (ct_clk ct) cs'"
    using chan_issue [OF inv(1) assms(1) x(2,3,1)] by blast
  have take: "command_key cmd \<in> pending_keys ct \<and> tokens_of ct = mset_set (pending_keys ct - {command_key cmd})" if "IsReadWrite cmd"
    using mset_set_take [of "pending_keys ct" "tokens_of ct" "command_key cmd"] inv(3) that by (simp add: hand_of_def)
  consider (rd) "IsRead cmd" | (wr) "IsWrite cmd" | (other) "\<not> IsRead cmd" "\<not> IsWrite cmd" by blast
  then show ?thesis
  proof cases
    case rd
    let ?ct = "ct\<lparr>return_queue := return_queue ct @ map (\<lambda>t. t\<lparr>complete_cycle := plus64 (ct_clk ct) (read_delay c)\<rparr>)
            (filter (\<lambda>t. tr_addr t = hex_addr cmd) (pending_rd ct)),
          pending_rd := filter (\<lambda>t. tr_addr t \<noteq> hex_addr cmd) (pending_rd ct), chan := cs'\<rparr>"
    have k: "command_key cmd = (hex_addr cmd, False)" and rw: "IsReadWrite cmd" using rd by (auto simp: command_key_def command_kinds)
    have "queued_at (hex_addr cmd) (pending_rd ct)" using take [OF rw] unfolding k pending_keys_iff by blast
    then have "IssueCommand c cmd ct = Inr ?ct" using rd cs'(1) by (simp add: IssueCommand_def)
    moreover have "pending_keys ?ct = pending_keys ct - {command_key cmd}" unfolding k by (auto simp: pending_keys_def)
    then have "ctl_inv c ?ct" using assms(2) take [OF rw] cs'(2) by (simp add: ctl_inv_def inv_holding_def tokens_of_def)
    moreover have "owed ?ct = owed ct"
    proof -
      have m1: "mset (map tr_key (map (\<lambda>t. t\<lparr>complete_cycle := m\<rparr>) l)) = mset (map tr_key l)" for m l
        by (induction l) (simp_all add: tr_key_def)
      have m2: "mset (map tr_key (filter P l)) + mset (map tr_key (filter (\<lambda>t. \<not> P t) l)) = mset (map tr_key l)" for P l
        by (induction l) auto
      let ?F = "filter (\<lambda>t. tr_addr t = hex_addr cmd) (pending_rd ct)"
      have "owed ?ct = mset (map tr_key (return_queue ct)) +
          mset (map tr_key (map (\<lambda>t. t\<lparr>complete_cycle := plus64 (ct_clk ct) (read_delay c)\<rparr>) ?F)) +
          mset (map tr_key (filter (\<lambda>t. tr_addr t \<noteq> hex_addr cmd) (pending_rd ct)))"
        by (simp add: owed_def del: map_map)
      then show ?thesis unfolding m1 add.assoc m2 owed_def .
    qed
    ultimately show ?thesis by blast
  next
    case wr
    let ?ct = "ct\<lparr>pending_wr := erase_first (\<lambda>t. tr_addr t = hex_addr cmd) (pending_wr ct), chan := cs'\<rparr>"
    have nr: "\<not> IsRead cmd" and k: "command_key cmd = (hex_addr cmd, True)" and rw: "IsReadWrite cmd"
      using wr by (auto simp: command_key_def command_kinds)
    have "queued_at (hex_addr cmd) (pending_wr ct)" using take [OF rw] unfolding k pending_keys_iff by blast
    then have "IssueCommand c cmd ct = Inr ?ct" using wr nr cs'(1) by (simp add: IssueCommand_def)
    moreover have "pending_keys ?ct = pending_keys ct - {command_key cmd}"
      using erase_first_addr [OF inv(2), of "hex_addr cmd"] unfolding k
      by (auto simp: pending_keys_def image_image [of "\<lambda>a. (a, True)" tr_addr, symmetric])
    then have "ctl_inv c ?ct" using assms(2) take [OF rw] cs'(2) erase_first_addr [OF inv(2)]
      by (simp add: ctl_inv_def inv_holding_def tokens_of_def)
    moreover have "owed ?ct = owed ct" by (simp add: owed_def)
    ultimately show ?thesis by blast
  next
    case other
    then have "hand_of cmd = {#}" by (simp add: hand_of_def IsReadWrite_def)
    then have "ctl_inv c (ct\<lparr>chan := cs'\<rparr>)" using assms(2) cs'(2)
      by (simp add: ctl_inv_def inv_holding_def tokens_of_def pending_keys_def)
    then show ?thesis using other cs'(1) by (auto simp: IssueCommand_def owed_def)
  qed
qed

lemma issue_commands_inv:
  assumes "config_ok c" "ctl_inv c ct"
  shows "\<exists>b ct'. issue_commands c ct = Inr (b, ct') \<and> ctl_inv c ct' \<and> owed ct' = owed ct"
proof -
  obtain cmd ct1 where s: "choose_command c ct = Inr (cmd, ct1)" "owed ct1 = owed ct"
    "if IsValid cmd then inv_holding c (hand_of cmd) ct1 \<and> ready_in c ct1 cmd else ctl_inv c ct1"
    using choose_command_inv [OF assms] by blast
  show ?thesis
  proof (cases "IsValid cmd")
    case True
    then show ?thesis using s IssueCommand_inv [OF assms(1), of cmd ct1] config_okD(6) [OF assms(1)] by (auto simp: issue_commands_def)
  next
    case False
    then show ?thesis using s by (auto simp: issue_commands_def)
  qed
qed

section \<open>Scheduling\<close>

lemma TransToCommand_queued: "queued_ok c (TransToCommand c t)" "command_key (TransToCommand c t) = tr_key t"
  by (auto simp: TransToCommand_def queued_ok_def command_key_def tr_key_def command_kinds)

lemma AddCommand_queued:
  assumes "config_ok c" "queues_ok c (queues q)" "queued_ok c x"
  obtains i where "i < length (queues q)" "cmd_index c x = int i"
    "WillAcceptCommand c q (Rank x) (Bankgroup x) (Bank x) = Inr (length (queues q ! i) < cmd_queue_size c)"
    "length (queues q ! i) < cmd_queue_size c \<longrightarrow>
      AddCommand c x q = Inr (True, q\<lparr>queues := (queues q)[i := queues q ! i @ [x]], rank_q_empty := Mapping.update (Rank x) False (rank_q_empty q)\<rparr>)"
proof -
  have "bank_ok c (Rank x) (Bankgroup x) (Bank x)" using config_okD(2) [OF assms(1), of "hex_addr x"] assms(3) by (simp add: queued_ok_def)
  moreover have "num_queues c = Inr (length (queues q))" using assms(2) by (simp add: queues_ok_def)
  ultimately have i: "0 \<le> cmd_index c x" "nat (cmd_index c x) < length (queues q)"
    using bank_ok_index [OF assms(1)] by (simp_all add: cmd_index_def)
  then show thesis by (intro that [of "nat (cmd_index c x)"])
    (simp_all add: WillAcceptCommand_def AddCommand_def index_ok_def cmd_index_def Let_def)
qed

text \<open>One transaction at most becomes a command; its token moves with it.\<close>

lemma schedule_loop_inv:
  assumes "config_ok c" "queues_ok c (queues q)"
  shows "\<exists>ts' q' wd'. schedule_loop c rds ts q wd = Inr (ts', q', wd') \<and> queues_ok c (queues q') \<and>
    length (queues q') = length (queues q) \<and> queue_idx q' = queue_idx q \<and> q_clk q' = q_clk q \<and>
    mset (map tr_key ts') + mset (map command_key (concat (queues q'))) = mset (map tr_key ts) + mset (map command_key (concat (queues q)))"
proof (induction ts arbitrary: wd)
  case Nil
  then show ?case using assms by simp
next
  case (Cons t ts)
  let ?x = "TransToCommand c t"
  obtain i where i: "i < length (queues q)" "cmd_index c ?x = int i"
    "WillAcceptCommand c q (Rank ?x) (Bankgroup ?x) (Bank ?x) = Inr (length (queues q ! i) < cmd_queue_size c)"
    "length (queues q ! i) < cmd_queue_size c \<longrightarrow>
      AddCommand c ?x q = Inr (True, q\<lparr>queues := (queues q)[i := queues q ! i @ [?x]], rank_q_empty := Mapping.update (Rank ?x) False (rank_q_empty q)\<rparr>)"
    using AddCommand_queued [OF assms TransToCommand_queued(1) [of c t]] .
  obtain ts' q' wd' where IH: "schedule_loop c rds ts q wd = Inr (ts', q', wd')" "queues_ok c (queues q')"
    "length (queues q') = length (queues q)" "queue_idx q' = queue_idx q" "q_clk q' = q_clk q"
    "mset (map tr_key ts') + mset (map command_key (concat (queues q'))) = mset (map tr_key ts) + mset (map command_key (concat (queues q)))"
    using Cons [of wd] by blast
  consider (full) "\<not> length (queues q ! i) < cmd_queue_size c"
    | (dep) "length (queues q ! i) < cmd_queue_size c" "\<not> unified_queue c \<and> IsWrite ?x \<and> queued_at (tr_addr t) rds"
    | (add) "length (queues q ! i) < cmd_queue_size c" "\<not> (\<not> unified_queue c \<and> IsWrite ?x \<and> queued_at (tr_addr t) rds)" by blast
  then show ?case
  proof cases
    case full
    then have "schedule_loop c rds (t # ts) q wd = Inr (t # ts', q', wd')" using i(3) IH(1) by simp
    then show ?thesis using IH by auto
  next
    case dep
    then have "schedule_loop c rds (t # ts) q wd = Inr (t # ts, q, 0)" using i(3) by simp
    then show ?thesis using assms(2) by auto
  next
    case add
    let ?q = "q\<lparr>queues := (queues q)[i := queues q ! i @ [?x]], rank_q_empty := Mapping.update (Rank ?x) False (rank_q_empty q)\<rparr>"
    have "schedule_loop c rds (t # ts) q wd = Inr (ts, ?q, if \<not> unified_queue c \<and> IsWrite ?x then wd - 1 else wd)"
      using add(2) i(3) i(4) [THEN mp, OF add(1)] add(1) by (auto simp: Let_def)
    moreover have "queues_ok c (queues ?q)"
      using assms(2) i(1,2) TransToCommand_queued(1) unfolding queues_ok_def by (auto simp: nth_list_update)
    moreover have "mset (map tr_key ts) + mset (map command_key (concat (queues ?q))) = mset (map tr_key (t # ts)) + mset (map command_key (concat (queues q)))"
      using concat_update_append [OF i(1), of ?x] TransToCommand_queued(2) by (simp add: mset_map del: mset_concat)
    ultimately show ?thesis by fastforce
  qed
qed

lemma ScheduleTransaction_inv:
  assumes "config_ok c" "ctl_inv c ct"
  shows "\<exists>ct'. ScheduleTransaction c ct = Inr ct' \<and> ctl_inv c ct' \<and> owed ct' = owed ct"
proof -
  have q: "queues_ok c (queues (cmd_queue ct))" using assms(2) by (simp add: ctl_inv_def)
  define wd where "wd = (if write_draining ct = 0 \<and> \<not> unified_queue c \<and>
      (length (write_buffer ct) \<ge> trans_queue_size c \<or> length (write_buffer ct) > 8 \<and> QueueEmpty (cmd_queue ct))
    then int (length (write_buffer ct)) else write_draining ct)"
  define l where "l = (if unified_queue c then unified_q ct else if wd > 0 then write_buffer ct else read_queue ct)"
  obtain ts q' wd' where s: "schedule_loop c (pending_rd ct) l (cmd_queue ct) wd = Inr (ts, q', wd')" "queues_ok c (queues q')"
    "length (queues q') = length (queues (cmd_queue ct))" "queue_idx q' = queue_idx (cmd_queue ct)" "q_clk q' = q_clk (cmd_queue ct)"
    "mset (map tr_key ts) + mset (map command_key (concat (queues q'))) = mset (map tr_key l) + mset (map command_key (concat (queues (cmd_queue ct))))"
    using schedule_loop_inv [OF assms(1) q] by blast
  define ct' where "ct' = (if unified_queue c then ct\<lparr>unified_q := ts, cmd_queue := q', write_draining := wd'\<rparr>
    else if wd > 0 then ct\<lparr>write_buffer := ts, cmd_queue := q', write_draining := wd'\<rparr>
    else ct\<lparr>read_queue := ts, cmd_queue := q', write_draining := wd'\<rparr>)"
  have "ScheduleTransaction c ct = Inr ct'"
    using s(1) unfolding ScheduleTransaction_def wd_def [symmetric] Let_def l_def ct'_def by auto
  moreover have "tokens_of ct' = tokens_of ct" using s(6) by (auto simp: tokens_of_def ct'_def l_def ac_simps split: if_splits)
  moreover have "pending_keys ct' = pending_keys ct" "pending_wr ct' = pending_wr ct" "chan ct' = chan ct" "refresher ct' = refresher ct"
    "ct_clk ct' = ct_clk ct" "cmd_queue ct' = q'" "owed ct' = owed ct"
    by (auto simp: ct'_def pending_keys_def owed_def)
  ultimately show ?thesis using assms(2) s(2-5) by (auto simp: ctl_inv_def)
qed

text \<open>A cycle: the simulator does not end, the invariant is kept, and what is owed stays the same.\<close>

lemma ctl_ClockTick_inv:
  assumes "config_ok c" "ctl_inv c ct"
  shows "\<exists>ct'. ctl_ClockTick c ct = Inr ct' \<and> ctl_inv c ct' \<and> owed ct' = owed ct"
proof -
  obtain rf cs where r: "refresh_ClockTick c (refresher ct, chan ct) = Inr (rf, cs)" "refresh_ok c rf" "chan_inv c (ct_clk ct) cs"
    using refresh_ClockTick_ok [OF assms(1)] assms(2) unfolding ctl_inv_def by blast
  let ?ct = "ct\<lparr>refresher := rf, chan := cs\<rparr>"
  have "ctl_inv c ?ct" using assms(2) r(2,3) by (simp add: ctl_inv_def tokens_of_def pending_keys_def)
  then obtain b ct1 where i: "issue_commands c ?ct = Inr (b, ct1)" "ctl_inv c ct1" "owed ct1 = owed ?ct"
    using issue_commands_inv [OF assms(1)] by blast
  let ?ct1 = "ct1\<lparr>chan := count_idle c (chan ct1)\<rparr>"
  have "ctl_inv c ?ct1" using i(2) count_idle_ok by (simp add: ctl_inv_def tokens_of_def pending_keys_def)
  then obtain ct2 where s: "ScheduleTransaction c ?ct1 = Inr ct2" "ctl_inv c ct2" "owed ct2 = owed ?ct1"
    using ScheduleTransaction_inv [OF assms(1)] by blast
  let ?ct2 = "ct2\<lparr>ct_clk := ct_clk ct2 + 1, cmd_queue := (cmd_queue ct2)\<lparr>q_clk := q_clk (cmd_queue ct2) + 1\<rparr>\<rparr>"
  have "ctl_ClockTick c ct = Inr ?ct2"
    using r(1) i(1) s(1) config_okD(5) [OF assms(1)] by (simp add: ctl_ClockTick_def Let_def)
  moreover have "ctl_inv c ?ct2"
    using s(2) chan_inv_mono [of c "ct_clk ct2" "chan ct2" "ct_clk ct2 + 1"] by (simp add: ctl_inv_def tokens_of_def pending_keys_def)
  moreover have "owed ?ct2 = owed ct" using s(3) i(3) by (simp add: owed_def)
  ultimately show ?thesis by blast
qed

end
