(* ===== verification/DramSystem.thy ===== *)
theory DramSystem
  imports DramAccount
begin

text \<open>
  The memory systems (\<^verbatim>\<open>src/dram_system.cc\<close>): one controller per channel behind the address map, and
  the idealised memory with a fixed latency. Both are memories in the sense of one interface: they
  take requests, and with every cycle call back some of the transactions they were given.
\<close>

section \<open>The system with one controller per channel\<close>

record dram_system =
  ctrls :: "controller list"
  sys_clk :: nat
  last_req_clk :: nat

definition new_system :: "dram_config \<Rightarrow> dram_error + dram_system" where
  "new_system c =
     (if IsHMC c then Inl AbruptExit_Config
      else andThen (new_controller c) (\<lambda>ct.
        Inr \<lparr>ctrls = replicate (nat (channels c)) ct, sys_clk = 0, last_req_clk = 0\<rparr>))"

definition channel_index :: "dram_config \<Rightarrow> dram_system \<Rightarrow> u64 \<Rightarrow> dram_error + nat" where
  "channel_index c s a =
     (let i = GetChannel c a in if 0 \<le> i \<and> nat i < length (ctrls s) then Inr (nat i) else Inl BadQueueIndex)"

definition sys_WillAcceptTransaction :: "dram_config \<Rightarrow> u64 \<Rightarrow> bool \<Rightarrow> dram_system \<Rightarrow> dram_error + bool" where
  "sys_WillAcceptTransaction c a w s =
     andThen (channel_index c s a) (\<lambda>i. Inr (ctl_WillAcceptTransaction c (ctrls s ! i) w))"

definition sys_AddTransaction :: "dram_config \<Rightarrow> u64 \<Rightarrow> bool \<Rightarrow> dram_system \<Rightarrow> dram_error + dram_system" where
  "sys_AddTransaction c a w s =
     andThen (channel_index c s a) (\<lambda>i.
       if \<not> ctl_WillAcceptTransaction c (ctrls s ! i) w then Inl AssertAccept
       else Inr (s\<lparr>ctrls := (ctrls s)[i := ctl_AddTransaction c (mk_transaction a w) (ctrls s ! i)], last_req_clk := sys_clk s\<rparr>))"

lemma erase_first_less: "find p l = Some t \<Longrightarrow> length (erase_first p l) < length l"
  by (induction l) (auto split: if_splits)

text \<open>The loop that calls back every transaction of a controller that is done.\<close>

function drain :: "nat \<Rightarrow> controller \<Rightarrow> (u64 \<times> bool) list \<times> controller" where
  "drain clk ct =
     (case ReturnDoneTrans clk ct of
        (None, ct') \<Rightarrow> ([], ct')
      | (Some k, ct') \<Rightarrow> (case drain clk ct' of (l, ct'') \<Rightarrow> (k # l, ct'')))"
  by pat_completeness auto
termination
  by (relation "measure (\<lambda>(clk, ct). length (return_queue ct))")
     (auto simp: ReturnDoneTrans_def erase_first_less split: option.splits)

declare drain.simps [simp del]

fun tick_all :: "dram_config \<Rightarrow> controller list \<Rightarrow> dram_error + controller list" where
  "tick_all c [] = Inr []"
| "tick_all c (ct # cts) = andThen (ctl_ClockTick c ct) (\<lambda>ct'. andThen (tick_all c cts) (\<lambda>cts'. Inr (ct' # cts')))"

definition sys_ClockTick :: "dram_config \<Rightarrow> dram_system \<Rightarrow> dram_error + ((u64 \<times> bool) list \<times> dram_system)" where
  "sys_ClockTick c s =
     (let ds = map (drain (sys_clk s)) (ctrls s)
      in andThen (tick_all c (map snd ds)) (\<lambda>cts.
           Inr (concat (map fst ds), s\<lparr>ctrls := cts, sys_clk := sys_clk s + 1\<rparr>)))"

section \<open>The ideal memory\<close>

record ideal_system =
  infinite_buffer_q :: "transaction list"
  latency :: int
  id_clk :: nat

definition new_ideal :: "int \<Rightarrow> ideal_system" where
  "new_ideal l = \<lparr>infinite_buffer_q = [], latency = l, id_clk = 0\<rparr>"

definition ideal_AddTransaction :: "u64 \<Rightarrow> bool \<Rightarrow> ideal_system \<Rightarrow> ideal_system" where
  "ideal_AddTransaction a w s =
     s\<lparr>infinite_buffer_q := infinite_buffer_q s @ [(mk_transaction a w)\<lparr>added_cycle := id_clk s\<rparr>]\<rparr>"

definition ideal_WillAcceptTransaction :: "u64 \<Rightarrow> bool \<Rightarrow> ideal_system \<Rightarrow> bool" where
  "ideal_WillAcceptTransaction a w s \<longleftrightarrow> True"

definition ideal_done :: "nat \<Rightarrow> int \<Rightarrow> transaction \<Rightarrow> bool" where
  "ideal_done clk lat t \<longleftrightarrow> (int clk - int (added_cycle t)) mod 2 ^ 64 \<ge> lat mod 2 ^ 64"

text \<open>The loop over the buffer. After an erase the iterator is already at the next element and is advanced once more.\<close>

fun ideal_scan :: "nat \<Rightarrow> int \<Rightarrow> transaction list \<Rightarrow> transaction list \<times> transaction list" where
  "ideal_scan clk lat [] = ([], [])"
| "ideal_scan clk lat (t # ts) =
     (if ideal_done clk lat t
      then (case ts of
              [] \<Rightarrow> ([t], [])
            | u # us \<Rightarrow> (case ideal_scan clk lat us of (cb, rest) \<Rightarrow> (t # cb, u # rest)))
      else (case ideal_scan clk lat ts of (cb, rest) \<Rightarrow> (cb, t # rest)))"

definition ideal_ClockTick :: "ideal_system \<Rightarrow> (u64 \<times> bool) list \<times> ideal_system" where
  "ideal_ClockTick s =
     (case ideal_scan (id_clk s) (latency s) (infinite_buffer_q s) of (cb, rest) \<Rightarrow>
        (map tr_key cb, s\<lparr>infinite_buffer_q := rest, id_clk := id_clk s + 1\<rparr>))"

section \<open>Memories\<close>

datatype mem_event = Request u64 bool | Cycle

text \<open>
  A client of a memory: it offers requests, which are added when the memory accepts them, and lets
  cycles pass; the run records what was accepted and what was called back.
\<close>

fun client_run :: "(u64 \<Rightarrow> bool \<Rightarrow> 's \<Rightarrow> 'e + bool) \<Rightarrow> (u64 \<Rightarrow> bool \<Rightarrow> 's \<Rightarrow> 'e + 's) \<Rightarrow> ('s \<Rightarrow> 'e + ((u64 \<times> bool) list \<times> 's)) \<Rightarrow>
    mem_event list \<Rightarrow> 's \<Rightarrow> 'e + ((u64 \<times> bool) list \<times> (u64 \<times> bool) list \<times> 's)" where
  "client_run accepts add tick [] s = Inr ([], [], s)"
| "client_run accepts add tick (Request a w # evs) s =
     andThen (accepts a w s) (\<lambda>ok.
       if ok then andThen (add a w s) (\<lambda>s'.
         andThen (client_run accepts add tick evs s') (\<lambda>(acc, cb, s''). Inr ((a, w) # acc, cb, s'')))
       else client_run accepts add tick evs s)"
| "client_run accepts add tick (Cycle # evs) s =
     andThen (tick s) (\<lambda>(l, s').
       andThen (client_run accepts add tick evs s') (\<lambda>(acc, cb, s''). Inr (acc, l @ cb, s'')))"

locale memory =
  fixes inv :: "'s \<Rightarrow> bool" and outstanding :: "'s \<Rightarrow> (u64 \<times> bool) multiset"
    and accepts :: "u64 \<Rightarrow> bool \<Rightarrow> 's \<Rightarrow> 'e + bool" and add :: "u64 \<Rightarrow> bool \<Rightarrow> 's \<Rightarrow> 'e + 's"
    and tick :: "'s \<Rightarrow> 'e + ((u64 \<times> bool) list \<times> 's)"
  assumes accepts_total: "inv s \<Longrightarrow> \<exists>ok. accepts a w s = Inr ok"
    and add_one: "inv s \<Longrightarrow> accepts a w s = Inr True \<Longrightarrow>
      \<exists>s'. add a w s = Inr s' \<and> inv s' \<and> outstanding s' = outstanding s + {#(a, w)#}"
    and tick_returns: "inv s \<Longrightarrow> \<exists>l s'. tick s = Inr (l, s') \<and> inv s' \<and> outstanding s = mset l + outstanding s'"
begin

lemma run_conserves:
  assumes "inv s"
  shows "\<exists>acc cb s'. client_run accepts add tick evs s = Inr (acc, cb, s') \<and> inv s' \<and>
    outstanding s + mset acc = mset cb + outstanding s'"
  using assms
proof (induction evs arbitrary: s)
  case (Cons e evs)
  show ?case
  proof (cases e)
    case (Request a w)
    obtain ok where ok: "accepts a w s = Inr ok" using accepts_total [OF Cons.prems] by blast
    show ?thesis
    proof (cases ok)
      case True
      obtain s1 where s1: "add a w s = Inr s1" "inv s1" "outstanding s1 = outstanding s + {#(a, w)#}"
        using add_one [OF Cons.prems, of a w] ok True by auto
      from Cons.IH [OF s1(2)] obtain acc cb s2 where "client_run accepts add tick evs s1 = Inr (acc, cb, s2)" "inv s2"
        "outstanding s1 + mset acc = mset cb + outstanding s2" by blast
      then show ?thesis using Request ok True s1 by auto
    next
      case False
      then show ?thesis using Cons.IH [OF Cons.prems] Request ok by simp
    qed
  next
    case Cycle
    obtain l s1 where s1: "tick s = Inr (l, s1)" "inv s1" "outstanding s = mset l + outstanding s1"
      using tick_returns [OF Cons.prems] by blast
    from Cons.IH [OF s1(2)] obtain acc cb s2 where "client_run accepts add tick evs s1 = Inr (acc, cb, s2)" and i2: "inv s2"
      and o2: "outstanding s1 + mset acc = mset cb + outstanding s2" by blast
    then have "client_run accepts add tick (e # evs) s = Inr (acc, l @ cb, s2)" using Cycle s1(1) by simp
    moreover have "outstanding s + mset acc = mset (l @ cb) + outstanding s2" unfolding s1(3) by (simp add: add.assoc o2)
    ultimately show ?thesis using i2 by blast
  qed
qed simp

end

section \<open>The systems are memories\<close>

definition system_ok :: "dram_config \<Rightarrow> bool" where
  "system_ok c \<longleftrightarrow> config_ok c \<and> \<not> IsHMC c \<and> (\<forall>a. 0 \<le> GetChannel c a \<and> GetChannel c a < channels c)"

definition sys_inv :: "dram_config \<Rightarrow> dram_system \<Rightarrow> bool" where
  "sys_inv c s \<longleftrightarrow> system_ok c \<and> length (ctrls s) = nat (channels c) \<and> (\<forall>ct \<in> set (ctrls s). ctl_inv c ct)"

definition sys_outstanding :: "dram_system \<Rightarrow> (u64 \<times> bool) multiset" where
  "sys_outstanding s = sum_list (map owed (ctrls s))"

lemma drain_spec: "owed ct = mset (fst (drain clk ct)) + owed (snd (drain clk ct)) \<and> (ctl_inv c ct \<longrightarrow> ctl_inv c (snd (drain clk ct)))"
proof (induction clk ct rule: drain.induct)
  case (1 clk ct)
  show ?case
  proof (cases "fst (ReturnDoneTrans clk ct)")
    case None
    then show ?thesis using ReturnDoneTrans_owed [of ct clk] ReturnDoneTrans_inv [of c ct clk]
      by (simp add: drain.simps [of clk ct] split_beta)
  next
    case (Some k)
    then have r: "ReturnDoneTrans clk ct = (Some k, snd (ReturnDoneTrans clk ct))" by (cases "ReturnDoneTrans clk ct") simp
    note IH = "1.IH" [OF r [symmetric] refl]
    have d: "drain clk ct = (k # fst (drain clk (snd (ReturnDoneTrans clk ct))), snd (drain clk (snd (ReturnDoneTrans clk ct))))"
      by (subst drain.simps, subst r) (simp add: split_beta)
    show ?thesis unfolding d using IH ReturnDoneTrans_owed [of ct clk] ReturnDoneTrans_inv [of c ct clk] Some by simp
  qed
qed

lemma tick_all_inv:
  assumes "config_ok c" "\<forall>ct \<in> set cts. ctl_inv c ct"
  shows "\<exists>cts'. tick_all c cts = Inr cts' \<and> length cts' = length cts \<and> (\<forall>ct \<in> set cts'. ctl_inv c ct) \<and>
    sum_list (map owed cts') = sum_list (map owed cts)"
  using assms(2)
proof (induction cts)
  case (Cons ct cts)
  obtain ct' where "ctl_ClockTick c ct = Inr ct'" "ctl_inv c ct'" "owed ct' = owed ct"
    using ctl_ClockTick_inv [OF assms(1)] Cons.prems by fastforce
  then show ?case using Cons by auto
qed simp

lemma sum_list_update_owed:
  "i < length l \<Longrightarrow> owed x = owed (l ! i) + m \<Longrightarrow> sum_list (map owed (l[i := x])) = sum_list (map owed l) + m"
proof (induction l arbitrary: i)
  case (Cons y l)
  then show ?case by (cases i) (auto simp: ac_simps)
qed simp

lemma drained: "sum_list (map owed cts) = mset (concat (map fst (map (drain clk) cts))) + sum_list (map owed (map snd (map (drain clk) cts)))"
proof (induction cts)
  case (Cons ct cts)
  then show ?case using drain_spec [of ct clk] by (simp add: ac_simps)
qed simp

interpretation jedec: memory "sys_inv c" sys_outstanding "sys_WillAcceptTransaction c" "sys_AddTransaction c" "sys_ClockTick c" for c
proof
  fix s a w
  assume inv: "sys_inv c s"
  let ?i = "nat (GetChannel c a)"
  have i: "channel_index c s a = Inr ?i" "?i < length (ctrls s)"
    using inv by (auto simp: channel_index_def sys_inv_def system_ok_def Let_def nat_less_eq_zless)
  show "\<exists>ok. sys_WillAcceptTransaction c a w s = Inr ok" using i(1) by (simp add: sys_WillAcceptTransaction_def)
  assume "sys_WillAcceptTransaction c a w s = Inr True"
  then have acc: "ctl_WillAcceptTransaction c (ctrls s ! ?i) w" using i(1) by (simp add: sys_WillAcceptTransaction_def)
  let ?s = "s\<lparr>ctrls := (ctrls s)[?i := ctl_AddTransaction c (mk_transaction a w) (ctrls s ! ?i)], last_req_clk := sys_clk s\<rparr>"
  have "sys_AddTransaction c a w s = Inr ?s" using i(1) acc by (simp add: sys_AddTransaction_def)
  moreover have "sys_inv c ?s"
  proof -
    have "ctl_inv c (ctl_AddTransaction c (mk_transaction a w) (ctrls s ! ?i))"
      using AddTransaction_inv inv i(2) by (simp add: sys_inv_def)
    then show ?thesis using inv by (auto simp: sys_inv_def dest: set_update_subset_insert [THEN subsetD])
  qed
  moreover have "sys_outstanding ?s = sys_outstanding s + {#(a, w)#}"
    using sum_list_update_owed [OF i(2) AddTransaction_owed] by (simp add: sys_outstanding_def tr_key_def mk_transaction_def)
  ultimately show "\<exists>s'. sys_AddTransaction c a w s = Inr s' \<and> sys_inv c s' \<and> sys_outstanding s' = sys_outstanding s + {#(a, w)#}"
    by blast
next
  fix s
  assume inv: "sys_inv c s"
  let ?ds = "map (drain (sys_clk s)) (ctrls s)"
  have "config_ok c" "\<forall>ct \<in> set (map snd ?ds). ctl_inv c ct" using inv drain_spec by (auto simp: sys_inv_def system_ok_def)
  then obtain cts where t: "tick_all c (map snd ?ds) = Inr cts" "length cts = length (map snd ?ds)" "\<forall>ct \<in> set cts. ctl_inv c ct"
    "sum_list (map owed cts) = sum_list (map owed (map snd ?ds))" using tick_all_inv by blast
  let ?s = "s\<lparr>ctrls := cts, sys_clk := sys_clk s + 1\<rparr>"
  have "sys_ClockTick c s = Inr (concat (map fst ?ds), ?s)" using t(1) by (simp add: sys_ClockTick_def Let_def del: map_map)
  moreover have "sys_inv c ?s" using inv t(2,3) by (simp add: sys_inv_def)
  moreover have "sys_outstanding s = mset (concat (map fst ?ds)) + sys_outstanding ?s"
    using drained [of "ctrls s" "sys_clk s"] t(4) unfolding sys_outstanding_def by simp
  ultimately show "\<exists>l s'. sys_ClockTick c s = Inr (l, s') \<and> sys_inv c s' \<and> sys_outstanding s = mset l + sys_outstanding s'" by blast
qed

lemma ideal_scan_mset: "mset ts = mset (fst (ideal_scan clk lat ts)) + mset (snd (ideal_scan clk lat ts))"
proof (induction clk lat ts rule: ideal_scan.induct)
  case (2 clk lat t ts)
  show ?case
  proof (cases "ideal_done clk lat t")
    case True
    then show ?thesis using "2.IH"(1) [OF True] by (cases ts) (simp_all add: split_beta)
  next
    case False
    then show ?thesis using "2.IH"(2) [OF False] by (simp add: split_beta)
  qed
qed simp

definition ideal_accepts :: "u64 \<Rightarrow> bool \<Rightarrow> ideal_system \<Rightarrow> dram_error + bool" where
  "ideal_accepts a w s = Inr (ideal_WillAcceptTransaction a w s)"

definition ideal_add :: "u64 \<Rightarrow> bool \<Rightarrow> ideal_system \<Rightarrow> dram_error + ideal_system" where
  "ideal_add a w s = Inr (ideal_AddTransaction a w s)"

definition ideal_tick :: "ideal_system \<Rightarrow> dram_error + ((u64 \<times> bool) list \<times> ideal_system)" where
  "ideal_tick s = Inr (ideal_ClockTick s)"

definition ideal_outstanding :: "ideal_system \<Rightarrow> (u64 \<times> bool) multiset" where
  "ideal_outstanding s = mset (map tr_key (infinite_buffer_q s))"

interpretation ideal: memory "\<lambda>_. True" ideal_outstanding ideal_accepts ideal_add ideal_tick
proof
  fix s :: ideal_system
  have "image_mset tr_key (mset (infinite_buffer_q s)) =
      image_mset tr_key (mset (fst (ideal_scan (id_clk s) (latency s) (infinite_buffer_q s)))) +
      image_mset tr_key (mset (snd (ideal_scan (id_clk s) (latency s) (infinite_buffer_q s))))"
    by (subst ideal_scan_mset [of "infinite_buffer_q s" "id_clk s" "latency s"]) simp
  then show "\<exists>l s'. ideal_tick s = Inr (l, s') \<and> True \<and> ideal_outstanding s = mset l + ideal_outstanding s'"
    by (auto simp: ideal_tick_def ideal_ClockTick_def ideal_outstanding_def split_beta)
qed (auto simp: ideal_accepts_def ideal_add_def ideal_WillAcceptTransaction_def ideal_AddTransaction_def ideal_outstanding_def tr_key_def mk_transaction_def)

lemma new_system_inv:
  assumes "system_ok c"
  shows "\<exists>s. new_system c = Inr s \<and> sys_inv c s \<and> sys_outstanding s = {#}"
proof -
  obtain ct where "new_controller c = Inr ct" "ctl_inv c ct" "owed ct = {#}"
    using new_controller_inv assms unfolding system_ok_def by blast
  moreover have "sum_list (replicate n {#}) = ({#} :: (u64 \<times> bool) multiset)" for n by (induction n) auto
  ultimately show ?thesis using assms by (auto simp: new_system_def sys_inv_def sys_outstanding_def system_ok_def)
qed

section \<open>Refreshes\<close>

text \<open>The refresh that comes n-th: ranks in turn, or banks with the bank group running fastest and the rank slowest.\<close>

definition nth_refresh :: "dram_config \<Rightarrow> nat \<Rightarrow> command" where
  "nth_refresh c n =
     (if refresh_policy c = RANK_LEVEL_STAGGERED
      then mk_command REFRESH (mk_address (-1) (int (n mod nat (ranks c))) (-1) (-1) (-1) (-1)) (-1)
      else mk_command REFRESH_BANK
        (mk_address (-1) (int (n div nat (bankgroups c) div nat (banks_per_group c) mod nat (ranks c)))
           (int (n mod nat (bankgroups c))) (int (n div nat (bankgroups c) mod nat (banks_per_group c))) (-1) (-1)) (-1))"

definition at_slot :: "dram_config \<Rightarrow> nat \<Rightarrow> refresh_state \<Rightarrow> bool" where
  "at_slot c n rf \<longleftrightarrow>
     (if refresh_policy c = RANK_LEVEL_STAGGERED then next_rank rf = int (n mod nat (ranks c))
      else next_bg rf = int (n mod nat (bankgroups c)) \<and> next_bank rf = int (n div nat (bankgroups c) mod nat (banks_per_group c)) \<and>
        next_rank rf = int (n div nat (bankgroups c) div nat (banks_per_group c) mod nat (ranks c)))"

lemma next_mod: "0 < m \<Longrightarrow> (int (n mod nat m) + 1) mod m = int (Suc n mod nat m)"
  by (metis mod_Suc_eq of_nat_Suc of_nat_mod add.commute int_nat_eq order_less_imp_le)

lemma IterateNext_slot:
  assumes "geometry_ok c" "refresh_policy c \<noteq> RANK_LEVEL_SIMULTANEOUS" "at_slot c n rf"
  shows "\<exists>rf'. IterateNext c rf = Inr rf' \<and> at_slot c (Suc n) rf' \<and> rf_clk rf' = rf_clk rf"
proof -
  have pos: "0 < ranks c" "0 < bankgroups c" "0 < banks_per_group c" using assms(1) by (simp_all add: geometry_ok_def)
  show ?thesis
  proof (cases "refresh_policy c")
    case RANK_LEVEL_STAGGERED
    then show ?thesis using assms(3) next_mod [OF pos(1)] by (auto simp: IterateNext_def at_slot_def)
  next
    case BANK_LEVEL_STAGGERED
    let ?G = "nat (bankgroups c)" and ?B = "nat (banks_per_group c)"
    have s: "next_bg rf = int (n mod ?G)" "next_bank rf = int (n div ?G mod ?B)" "next_rank rf = int (n div ?G div ?B mod nat (ranks c))"
      using assms(3) BANK_LEVEL_STAGGERED by (simp_all add: at_slot_def)
    have bg: "(next_bg rf + 1) mod bankgroups c = int (Suc n mod ?G)" unfolding s(1) by (rule next_mod [OF pos(2)])
    have q: "Suc n div ?G = (if Suc n mod ?G = 0 then Suc (n div ?G) else n div ?G)" using pos(2) by (simp add: div_Suc mod_Suc)
    have ba: "(if Suc n mod ?G = 0 then (next_bank rf + 1) mod banks_per_group c else next_bank rf) = int (Suc n div ?G mod ?B)"
      unfolding q s(2) using next_mod [OF pos(3), of "n div ?G"] by simp
    have qb: "Suc (n div ?G) div ?B = (if Suc (n div ?G) mod ?B = 0 then Suc (n div ?G div ?B) else n div ?G div ?B)"
      using pos(3) by (simp add: div_Suc mod_Suc)
    have ra: "(if Suc n mod ?G = 0 \<and> Suc n div ?G mod ?B = 0 then (next_rank rf + 1) mod ranks c else next_rank rf) =
        int (Suc n div ?G div ?B mod nat (ranks c))"
      unfolding s(3) using next_mod [OF pos(1), of "n div ?G div ?B"] by (simp add: q qb)
    have "IterateNext c rf = Inr (rf\<lparr>next_bg := int (Suc n mod ?G), next_bank := int (Suc n div ?G mod ?B),
        next_rank := int (Suc n div ?G div ?B mod nat (ranks c))\<rparr>)"
      using BANK_LEVEL_STAGGERED ra by (simp add: IterateNext_def Let_def bg ba of_nat_eq_0_iff)
    then show ?thesis using BANK_LEVEL_STAGGERED by (simp add: at_slot_def)
  qed (use assms(2) in simp)
qed

lemma InsertRefresh_slot:
  assumes "geometry_ok c" "refresh_policy c \<noteq> RANK_LEVEL_SIMULTANEOUS" "at_slot c n rf" "\<forall>r. \<not> is_sref cs r"
  shows "\<exists>rf'. InsertRefresh c (rf, cs) = Inr (rf', cs\<lparr>refresh_q := refresh_q cs @ [nth_refresh c n]\<rparr>) \<and> at_slot c (Suc n) rf' \<and> rf_clk rf' = rf_clk rf"
proof -
  obtain rf' where r: "IterateNext c rf = Inr rf'" "at_slot c (Suc n) rf'" "rf_clk rf' = rf_clk rf" using IterateNext_slot [OF assms(1-3)] by blast
  show ?thesis using r assms(2-4)
    by (cases "refresh_policy c") (auto simp: InsertRefresh_def RankNeedRefresh_def BankNeedRefresh_def nth_refresh_def at_slot_def)
qed

fun refresh_ticks :: "dram_config \<Rightarrow> nat \<Rightarrow> refresh_state \<times> channel_state \<Rightarrow> dram_error + (refresh_state \<times> channel_state)" where
  "refresh_ticks c 0 s = Inr s"
| "refresh_ticks c (Suc n) s = andThen (refresh_ticks c n s) (refresh_ClockTick c)"

lemma refresh_ticks_slot:
  assumes "geometry_ok c" "refresh_policy c \<noteq> RANK_LEVEL_SIMULTANEOUS" "refresh_interval c = Inr i" "0 < i" "\<forall>r. \<not> is_sref cs r"
  shows "\<exists>rf. refresh_ticks c n (new_refresh, cs) = Inr (rf, cs\<lparr>refresh_q := refresh_q cs @ map (nth_refresh c) [0..<(n - 1) div i]\<rparr>) \<and>
    rf_clk rf = n \<and> at_slot c ((n - 1) div i) rf"
proof (induction n)
  case 0
  then show ?case using assms(1) by (auto simp: new_refresh_def at_slot_def geometry_ok_def)
next
  case (Suc n)
  let ?m = "(n - 1) div i" and ?cs = "cs\<lparr>refresh_q := refresh_q cs @ map (nth_refresh c) [0..<(n - 1) div i]\<rparr>"
  obtain rf where rf: "refresh_ticks c n (new_refresh, cs) = Inr (rf, ?cs)" "rf_clk rf = n" "at_slot c ?m rf" using Suc by blast
  show ?case
  proof (cases "n mod i = 0 \<and> n > 0")
    case True
    have m: "n div i = Suc ?m" using True assms(4) div_Suc [of "n - 1" i] mod_Suc [of "n - 1" i] by (auto split: if_splits)
    have "\<forall>r. \<not> is_sref ?cs r" using assms(5) by simp
    then obtain rf' where "InsertRefresh c (rf, ?cs) = Inr (rf', ?cs\<lparr>refresh_q := refresh_q ?cs @ [nth_refresh c ?m]\<rparr>)" "at_slot c (Suc ?m) rf'"
      "rf_clk rf' = rf_clk rf" using InsertRefresh_slot [OF assms(1,2) rf(3)] by blast
    then show ?thesis using rf True assms(3,4) m by (auto simp: refresh_ClockTick_def at_slot_def)
  next
    case False
    have "n div i = ?m" using False assms(4) by (cases n) (auto simp: div_Suc mod_Suc split: if_splits)
    then show ?thesis using rf False assms(3,4) by (auto simp: refresh_ClockTick_def at_slot_def)
  qed
qed

section \<open>Properties\<close>

text \<open>A configuration whose address map was set up for it has all its addresses in range.\<close>

lemma mapped_config_ok:
  assumes "SetAddressMapping c = Inr c" "geometry_ok c" "0 < channels c" "0 < rows c" "0 < columns c"
    "queue_structure c = ''PER_BANK'' \<or> queue_structure c = ''PER_RANK''" "refresh_interval c = Inr n" "0 < n"
    "\<not> enable_self_refresh c" "\<not> enable_hbm_dual_cmd c"
  shows "config_ok c \<and> (\<forall>a. 0 \<le> GetChannel c a \<and> GetChannel c a < channels c)"
proof -
  have r: "address_in_range c (AddressMapping c a)" for a
    using assms(2-5) by (intro AddressMapping_range [OF assms(1)]) (auto simp: geometry_ok_def)
  have "config_ok c"
    using assms(2,6-10) r by (auto simp: config_ok_def address_in_range_def bank_ok_def rank_ok_def Let_def)
  moreover have "0 \<le> GetChannel c a \<and> GetChannel c a < channels c" for a
    using r [of a] by (simp add: address_in_range_def GetChannel_def AddressMapping_sel)
  ultimately show ?thesis by blast
qed

lemma mapped_system_ok:
  assumes "SetAddressMapping c = Inr c" "geometry_ok c" "0 < channels c" "0 < rows c" "0 < columns c"
    "queue_structure c = ''PER_BANK'' \<or> queue_structure c = ''PER_RANK''" "refresh_interval c = Inr n" "0 < n"
    "\<not> enable_self_refresh c" "\<not> enable_hbm_dual_cmd c" "\<not> IsHMC c"
  shows "system_ok c"
  using mapped_config_ok [OF assms(1-10)] assms(11) by (simp add: system_ok_def)

lemma ddr4_system_ok: "system_ok ddr4_dram"
  by (rule mapped_system_ok [where n = 6240]) code_simp+

text \<open>The DDR4 configuration cut down to one bank.\<close>

definition small_dram :: dram_config where
  "small_dram = ddr4_dram\<lparr>ranks := 1, bankgroups := 1, banks_per_group := 1, banks := 1, ra_mask := 0, bg_mask := 0, ba_mask := 0,
     ch_pos := 7, ra_pos := 7, ba_pos := 7, bg_pos := 7, ro_pos := 7\<rparr>"

lemma small_system_ok: "system_ok small_dram"
  by (rule mapped_system_ok [where n = 12480]) code_simp+



text \<open>
  C39. With the staggered policies the refreshes come in the order of a mixed-radix counter: after \<open>n\<close> cycles
  without a command, \<open>(n - 1) div i\<close> of them have been requested, \<open>i\<close> being the interval, and the
  \<open>k\<close>-th one is for the \<open>k\<close>-th rank in turn, or for the \<open>k\<close>-th bank with the bank group running fastest.
\<close>

theorem refresh_rotation:
  assumes "geometry_ok c" "refresh_policy c \<noteq> RANK_LEVEL_SIMULTANEOUS" "refresh_interval c = Inr i" "0 < i" "\<forall>r. \<not> is_sref cs r"
  shows "\<exists>rf. refresh_ticks c n (new_refresh, cs) =
    Inr (rf, cs\<lparr>refresh_q := refresh_q cs @ map (nth_refresh c) [0..<(n - 1) div i]\<rparr>)"
  using refresh_ticks_slot [OF assms] by blast

theorem refresh_rotation_witness:
  "\<exists>rf. refresh_ticks ddr4_dram 20000 (new_refresh, new_channel) =
     Inr (rf, new_channel\<lparr>refresh_q := [mk_command REFRESH (mk_address (-1) 0 (-1) (-1) (-1) (-1)) (-1),
       mk_command REFRESH (mk_address (-1) 1 (-1) (-1) (-1) (-1)) (-1), mk_command REFRESH (mk_address (-1) 0 (-1) (-1) (-1) (-1)) (-1)]\<rparr>)"
proof -
  have "geometry_ok ddr4_dram" "refresh_policy ddr4_dram \<noteq> RANK_LEVEL_SIMULTANEOUS" "refresh_interval ddr4_dram = Inr 6240" by code_simp+
  from refresh_rotation [OF this, of new_channel 20000]
  have "\<exists>rf. refresh_ticks ddr4_dram 20000 (new_refresh, new_channel) =
      Inr (rf, new_channel\<lparr>refresh_q := refresh_q new_channel @ map (nth_refresh ddr4_dram) [0..<(20000 - 1) div 6240]\<rparr>)"
    by (simp add: new_channel_def del: refresh_ticks.simps)
  moreover have "(20000 - 1) div 6240 = (3 :: nat)" by simp
  moreover have "refresh_q new_channel @ map (nth_refresh ddr4_dram) [0..<3] =
      [mk_command REFRESH (mk_address (-1) 0 (-1) (-1) (-1) (-1)) (-1), mk_command REFRESH (mk_address (-1) 1 (-1) (-1) (-1) (-1)) (-1),
       mk_command REFRESH (mk_address (-1) 0 (-1) (-1) (-1) (-1)) (-1)]"
    by code_simp
  ultimately show ?thesis by (simp only:)
qed

text \<open>
  A refresh of a single bank keeps the bank busy for no time at all: no delay of its own bank is
  raised, so that the next activate of that bank need not wait for \<^verbatim>\<open>tRFCb\<close>.
\<close>

theorem bank_refresh_takes_no_time:
  assumes "UpdateTimingAndStates c cmd clk cs = Inr cs'" "cmd_type cmd = REFRESH_BANK"
  shows "timing_of (bank_of cs' (Rank cmd, Bankgroup cmd, Bank cmd)) t = timing_of (bank_of cs (Rank cmd, Bankgroup cmd, Bank cmd)) t"
proof -
  let ?k = "(Rank cmd, Bankgroup cmd, Bank cmd)"
  obtain cs1 where "UpdateState c cmd cs = Inr cs1" using assms(1) by (auto simp: UpdateTimingAndStates_def andThen_Inr_iff)
  then have "addressed c cmd" using UpdateState_Inr by blast
  then have ok: "key_ok c ?k" using assms(2) by (simp add: addressed_def command_kinds)
  obtain b where b: "bank_of cs' ?k = bank_timings (delays_to c cmd ?k) clk b"
    "if targets c cmd ?k then bank_UpdateState cmd (bank_of cs ?k) = Inr b else b = bank_of cs ?k" using issue_bank [OF assms(1) ok] .
  have "delays_to c cmd ?k = []" using assms(2) by (simp add: delays_to_def same_bank_def command_kinds Let_def)
  moreover have "timing_of b = timing_of (bank_of cs ?k)" using b(2) bank_UpdateState_timing by (metis (full_types))
  ultimately show ?thesis using b(1) by simp
qed

theorem bank_refresh_takes_no_time_witness:
  "\<exists>cs'. UpdateTimingAndStates small_dram (mk_command REFRESH_BANK (mk_address (-1) 0 0 0 (-1) (-1)) (-1)) 100 new_channel = Inr cs' \<and>
     timing_of (bank_of cs' (0, 0, 0)) ACTIVATE = 0 \<and> tRFCb small_dram = 20"
proof -
  let ?cmd = "mk_command REFRESH_BANK (mk_address (-1) 0 0 0 (-1) (-1)) (-1)"
  have "on_Inr (\<lambda>_. True) (UpdateTimingAndStates small_dram ?cmd 100 new_channel) \<and> isl (UpdateTimingAndStates small_dram ?cmd 100 new_channel) = False"
    by code_simp
  then obtain cs' where u: "UpdateTimingAndStates small_dram ?cmd 100 new_channel = Inr cs'"
    by (cases "UpdateTimingAndStates small_dram ?cmd 100 new_channel") auto
  have "timing_of (bank_of cs' (Rank ?cmd, Bankgroup ?cmd, Bank ?cmd)) ACTIVATE = timing_of (bank_of new_channel (Rank ?cmd, Bankgroup ?cmd, Bank ?cmd)) ACTIVATE"
    by (rule bank_refresh_takes_no_time [OF u]) simp
  then have "timing_of (bank_of cs' (0, 0, 0)) ACTIVATE = 0" by (simp add: mk_address_def bank_of_def new_channel_def new_bank_def timing_of_def)
  moreover have "tRFCb small_dram = 20" by code_simp
  ultimately show ?thesis using u by blast
qed

end
