(* ===== verification/MemDram.thy ===== *)
theory MemDram
  imports MemSystem DramSystem
begin

text \<open>
  The simulated memory put together: every AXI port of \<^verbatim>\<open>runtime/src/core/tick.cc\<close> with the DRAM system
  it owns (\<^verbatim>\<open>init_dramsim3\<close> in \<^verbatim>\<open>mem_ctrl.cc\<close> creates one for each port). The DRAM calls back into the
  controller when an access completes, and the controller asks it for room and gives it accesses. What
  the controller relies on is the contract \<open>memory\<close>: each call-back answers one access given before. So
  the call-backs always find the access they complete, and a cycle of the simulation ends normally.
\<close>

section \<open>The composed cycle\<close>

text \<open>
  A cycle may end in the controller or in the DRAM. The operations of the DRAM are arguments here and
  are those of the system with one controller per channel below; asking it for room cannot fail there.
\<close>

datatype 'e sim_error = Controller mem_error | Dram 'e

definition in_controller :: "mem_error + 'a \<Rightarrow> 'e sim_error + 'a" where
  "in_controller = map_sum Controller id"

definition in_dram :: "'e + 'a \<Rightarrow> 'e sim_error + 'a" where
  "in_dram = map_sum Dram id"

definition completion :: "u64 \<times> bool \<Rightarrow> dram_event" where
  "completion = (\<lambda>(a, w). if w then WriteDone a else ReadDone a)"

definition has_room :: "(u64 \<Rightarrow> bool \<Rightarrow> 'd \<Rightarrow> 'e + bool) \<Rightarrow> bool \<Rightarrow> 'd \<Rightarrow> u64 \<Rightarrow> bool" where
  "has_room accepts w d a = (case accepts a w d of Inl _ \<Rightarrow> False | Inr ok \<Rightarrow> ok)"

definition give :: "(u64 \<Rightarrow> bool \<Rightarrow> 'd \<Rightarrow> 'e + 'd) \<Rightarrow> bool \<Rightarrow> (nat \<times> u64) option \<Rightarrow> 'd \<Rightarrow> 'e + 'd" where
  "give add w r d = (case r of None \<Rightarrow> Inr d | Some (p, a) \<Rightarrow> add a w d)"

text \<open>One DRAM cycle of a port: \<^verbatim>\<open>ClockTick\<close> with its call-backs, then \<^verbatim>\<open>try_to_enqueue_ddr\<close>.\<close>

definition port_dram_tick ::
  "(u64 \<Rightarrow> bool \<Rightarrow> 'd \<Rightarrow> 'e + bool) \<Rightarrow> (u64 \<Rightarrow> bool \<Rightarrow> 'd \<Rightarrow> 'e + 'd) \<Rightarrow> ('d \<Rightarrow> 'e + ((u64 \<times> bool) list \<times> 'd)) \<Rightarrow>
   mem_config \<Rightarrow> mem_interface \<times> 'd \<Rightarrow> 'e sim_error + (mem_interface \<times> 'd)" where
  "port_dram_tick accepts add tick c = (\<lambda>(s, d).
     andThen (in_dram (tick d)) (\<lambda>(l, d1).
     andThen (in_controller (dram_callbacks c (map completion l) s)) (\<lambda>s1.
     case enqueue_ddr_read c (has_room accepts False d1) s1 of (s2, r) \<Rightarrow>
     andThen (in_dram (give add False r d1)) (\<lambda>d2.
     case enqueue_ddr_write c (has_room accepts True d2) s2 of (s3, w) \<Rightarrow>
     andThen (in_dram (give add True w d2)) (\<lambda>d3. Inr (s3, d3))))))"

fun each_port :: "('a \<Rightarrow> 'e + 'a) \<Rightarrow> 'a list \<Rightarrow> 'e + 'a list" where
  "each_port f [] = Inr []"
| "each_port f (p # ps) = andThen (f p) (\<lambda>p'. andThen (each_port f ps) (\<lambda>ps'. Inr (p' # ps')))"

fun dram_cycles :: "('a \<Rightarrow> 'e + 'a) \<Rightarrow> nat \<Rightarrow> 'a list \<Rightarrow> 'e + 'a list" where
  "dram_cycles f 0 ps = Inr ps"
| "dram_cycles f (Suc n) ps = andThen (each_port f ps) (dram_cycles f n)"

text \<open>The memory half of \<^verbatim>\<open>tick_signals\<close>; \<open>n\<close> is the number of DRAM cycles in this clock cycle.\<close>

definition sim_tick ::
  "(mem_interface \<times> 'd \<Rightarrow> 'e sim_error + (mem_interface \<times> 'd)) \<Rightarrow> mem_config \<Rightarrow> nat \<Rightarrow>
   (mem_interface \<times> 'd) list \<Rightarrow> mem_globals \<Rightarrow> 'e sim_error + ((mem_interface \<times> 'd) list \<times> mem_globals)" where
  "sim_tick f c n ps g =
     andThen (dram_cycles f n ps) (\<lambda>ps1.
     andThen (in_controller (over_ports (port_reads c) (map fst ps1) g)) (\<lambda>(ss2, g2).
     andThen (in_controller (over_ports (port_update c) ss2 g2)) (\<lambda>(ss3, g3).
       Inr (zip ss3 (map snd ps1), g3))))"

definition jedec_port_tick ::
  "dram_config \<Rightarrow> mem_config \<Rightarrow> mem_interface \<times> dram_system \<Rightarrow> dram_error sim_error + (mem_interface \<times> dram_system)" where
  "jedec_port_tick dc c = port_dram_tick (sys_WillAcceptTransaction dc) (sys_AddTransaction dc) (sys_ClockTick dc) c"

section \<open>Operations that return\<close>

definition returns :: "('a \<Rightarrow> bool) \<Rightarrow> 'e + 'a \<Rightarrow> bool" where
  "returns P m \<longleftrightarrow> (\<exists>a. m = Inr a \<and> P a)"

lemma returns_simps [simp]: "returns P (Inr a) = P a" "\<not> returns P (Inl e)"
  by (simp_all add: returns_def)

lemma returns_andThen: "returns P m \<Longrightarrow> (\<And>a. P a \<Longrightarrow> returns Q (f a)) \<Longrightarrow> returns Q (andThen m f)"
  by (auto simp: returns_def)

lemma returns_andThen_pair:
  "returns (\<lambda>(a, b). P a b) m \<Longrightarrow> (\<And>a b. P a b \<Longrightarrow> returns Q (f (a, b))) \<Longrightarrow> returns Q (andThen m f)"
  by (auto simp: returns_def)

lemma returns_mono: "returns P m \<Longrightarrow> (\<And>a. P a \<Longrightarrow> Q a) \<Longrightarrow> returns Q m"
  by (auto simp: returns_def)

lemma returns_and: "returns P m \<Longrightarrow> on_Inr Q m \<Longrightarrow> returns (\<lambda>a. P a \<and> Q a) m"
  by (auto simp: returns_def)

lemma returns_lift [simp]: "returns P (in_controller m) = returns P m" "returns P (in_dram m') = returns P m'"
  by (cases m; cases m'; simp add: in_controller_def in_dram_def)+

section \<open>Bursts that fit their bookkeeping\<close>

text \<open>
  A read burst keeps one flag per part of its DRAM accesses. No part outside is looked at as long as the
  beats it is cut into have no more parts than that.
\<close>

definition burst_fits :: "mem_config \<Rightarrow> memory_transaction \<Rightarrow> bool" where
  "burst_fits c t \<longleftrightarrow> tx_size t \<le> data_bus_bytes c \<and>
     length (ddr_bus_beats_retrieved t) = dram_tx_n_enqueues t * TOTAL_BURST c \<and>
     dram_tx_n_enqueues t * DDR_ENQUEUE_SIZE_BYTES c < 2 ^ 31 \<and>
     axi_bus_beats_length c t * axi_ddr_bus_multiplicity c \<le> dram_tx_n_enqueues t * TOTAL_BURST c \<and>
     0 \<le> axi_bus_beats_progress t \<and> axi_bus_beats_progress t \<le> int (axi_bus_beats_length c t)"

text \<open>What the completion of an access of the burst leaves alone.\<close>

definition same_burst :: "memory_transaction \<Rightarrow> memory_transaction \<Rightarrow> bool" where
  "same_burst t t' \<longleftrightarrow> tx_size t' = tx_size t \<and> tx_fpga_addr t' = tx_fpga_addr t \<and> dram_tx_n_enqueues t' = dram_tx_n_enqueues t"

lemma same_burst_trans: "same_burst t t' \<Longrightarrow> same_burst t' t'' \<Longrightarrow> same_burst t t''"
  by (simp add: same_burst_def)

lemma hasBeatReady_returns:
  assumes "mem_config_ok c" "burst_fits c t"
  shows "returns (\<lambda>rdy. rdy \<longrightarrow> axi_bus_beats_progress t < int (axi_bus_beats_length c t)) (dramsim_hasBeatReady c t)"
proof (cases "axi_bus_beats_progress t = int (axi_bus_beats_length c t)")
  case True
  then show ?thesis by (simp add: dramsim_hasBeatReady_def)
next
  case False
  let ?m = "nat (axi_bus_beats_progress t)" and ?k = "axi_ddr_bus_multiplicity c"
  have m: "0 \<le> axi_bus_beats_progress t" "?m < axi_bus_beats_length c t" "axi_bus_beats_progress t < int (axi_bus_beats_length c t)"
    using assms(2) False by (auto simp: burst_fits_def)
  have "?m * ?k + ?k \<le> axi_bus_beats_length c t * ?k" using m(2) by (metis Suc_leI mult_le_mono1 mult_Suc add.commute)
  then have "?m * ?k + ?k \<le> length (ddr_bus_beats_retrieved t)" using assms(2) by (simp add: burst_fits_def)
  moreover have "0 < ?k" using assms(1) by (simp add: mem_config_ok_def)
  ultimately show ?thesis using False m by (simp add: dramsim_hasBeatReady_def parts_ready_eq)
qed

lemma emit_beats_returns:
  assumes "mem_config_ok c"
  shows "burst_fits c t \<Longrightarrow> returns (\<lambda>(t', bs). burst_fits c t' \<and> same_burst t t' \<and> (\<forall>b \<in> set bs. tx_size b \<le> data_bus_bytes c)) (emit_beats c n t)"
proof (induction n arbitrary: t)
  case (Suc n)
  show ?case unfolding emit_beats.simps
  proof (rule returns_andThen [OF hasBeatReady_returns [OF assms Suc.prems]])
    fix rdy
    assume "rdy \<longrightarrow> axi_bus_beats_progress t < int (axi_bus_beats_length c t)"
    then have "rdy \<Longrightarrow> burst_fits c (next_beat t)"
      using Suc.prems by (simp add: burst_fits_def next_beat_def axi_bus_beats_length_def)
    moreover have "same_burst t (next_beat t)" by (simp add: same_burst_def next_beat_def)
    moreover have "tx_size (beat_of c t) \<le> data_bus_bytes c"
      using Suc.prems by (simp add: beat_of_def new_transaction_def Let_def burst_fits_def)
    ultimately show "returns (\<lambda>(t', bs). burst_fits c t' \<and> same_burst t t' \<and> (\<forall>b \<in> set bs. tx_size b \<le> data_bus_bytes c))
        (if \<not> rdy then Inr (t, []) else andThen (emit_beats c n (next_beat t)) (\<lambda>(t', bs). Inr (t', beat_of c t # bs)))"
      using Suc by (auto simp: same_burst_def intro!: returns_andThen_pair [OF Suc.IH])
  qed
qed (simp add: same_burst_def)

lemma retrieve_returns:
  assumes "mem_config_ok c" "burst_fits c t" "k < dram_tx_n_enqueues t"
    "a = tx_fpga_addr t + of_nat (DDR_ENQUEUE_SIZE_BYTES c * k)"
  shows "returns (\<lambda>(t', bs). burst_fits c t' \<and> same_burst t t' \<and> (\<forall>b \<in> set bs. tx_size b \<le> data_bus_bytes c)) (retrieve c a t)"
proof -
  let ?e = "DDR_ENQUEUE_SIZE_BYTES c" and ?b = "TOTAL_BURST c"
  have c: "0 < DDR_BUS_WIDTH_BYTES c" "?e = DDR_BUS_WIDTH_BYTES c * ?b" using assms(1) by (simp_all add: mem_config_ok_def)
  have "k * ?e \<le> dram_tx_n_enqueues t * ?e" using assms(3) by simp
  also have "\<dots> < 2 ^ 31" using assms(2) by (simp only: burst_fits_def)
  finally have "k * ?e < 2 ^ 31" .
  from arrived_base [OF this c]
  have base: "sint (ucast (a - tx_fpga_addr t) :: 32 word) sdiv int (DDR_BUS_WIDTH_BYTES c) = int (k * ?b)"
    unfolding assms(4) by (simp add: mult.commute)
  have le: "k * ?b + ?b \<le> dram_tx_n_enqueues t * ?b" using assms(3) by (metis Suc_leI mult_le_mono1 mult_Suc add.commute)
  then have len: "k * ?b + ?b \<le> length (ddr_bus_beats_retrieved t)" using assms(2) by (simp add: burst_fits_def)
  define t1 where "t1 = t\<lparr>dram_tx_load_progress := dram_tx_load_progress t + 1, ddr_bus_beats_retrieved :=
    take (k * ?b) (ddr_bus_beats_retrieved t) @ replicate ?b True @ drop (k * ?b + ?b) (ddr_bus_beats_retrieved t)\<rparr>"
  have mark: "mark_retrieved c a t = Inr t1"
    unfolding mark_retrieved_def Let_def base nat_int t1_def using len by (simp add: not_less)
  have "burst_fits c t1"
    using assms(2) len by (simp add: burst_fits_def t1_def axi_bus_beats_length_def)
  moreover have "same_burst t t1" by (simp add: same_burst_def t1_def)
  ultimately show ?thesis
    unfolding retrieve_def mark andThen_simps
    by (intro returns_mono [OF emit_beats_returns [OF assms(1)]]) (auto dest: same_burst_trans)
qed

section \<open>Ports and the accesses in flight\<close>

definition access_of :: "mem_config \<Rightarrow> memory_transaction \<Rightarrow> u64 \<Rightarrow> bool" where
  "access_of c t a \<longleftrightarrow> (\<exists>k < dram_tx_n_enqueues t. a = tx_fpga_addr t + of_nat (DDR_ENQUEUE_SIZE_BYTES c * k))"

definition reads_fit :: "mem_config \<Rightarrow> mem_interface \<Rightarrow> bool" where
  "reads_fit c s \<longleftrightarrow>
     (\<forall>p \<in> set (ddr_read_q s) \<union> held (in_flight_reads s). burst_fits c (txs s ! p)) \<and>
     (\<forall>a q. in_flight_reads s a = Some q \<longrightarrow> (\<forall>p \<in> set q. access_of c (txs s ! p) a)) \<and>
     (\<forall>p \<in> set (read_transactions s). tx_size (txs s ! p) \<le> data_bus_bytes c) \<and>
     length (d_data (r_ch s)) = data_bus_bytes c"

text \<open>The accesses in flight are, address by address, what the DRAM has yet to call back.\<close>

definition queue_length :: "(u64 \<rightharpoonup> nat list) \<Rightarrow> u64 \<Rightarrow> nat" where
  "queue_length m a = (case m a of None \<Rightarrow> 0 | Some q \<Rightarrow> length q)"

definition linked :: "(u64 \<times> bool) multiset \<Rightarrow> mem_interface \<Rightarrow> bool" where
  "linked M s \<longleftrightarrow> (\<forall>a. count M (a, False) = queue_length (in_flight_reads s) a \<and> count M (a, True) = queue_length (in_flight_writes s) a)"

lemma queue_length_simps [simp]:
  "queue_length (m(a \<mapsto> q)) b = (if b = a then length q else queue_length m b)"
  "queue_length (push_in_flight a p m) b = queue_length m b + (if b = a then 1 else 0)"
  by (simp_all add: queue_length_def push_in_flight_def split: option.split)

lemma queue_length_Suc: "queue_length m a = Suc n \<Longrightarrow> \<exists>p ps. m a = Some (p # ps) \<and> length ps = n"
  by (auto simp: queue_length_def length_Suc_conv split: option.splits)

lemma in_held: "m a = Some q \<Longrightarrow> p \<in> set q \<Longrightarrow> p \<in> held m"
  by (auto simp: held_def)

lemma reads_fit_frame:
  assumes "reads_fit c s" "ddr_read_q s' = ddr_read_q s" "in_flight_reads s' = in_flight_reads s"
    "set (read_transactions s') \<subseteq> set (read_transactions s)" "length (d_data (r_ch s')) = length (d_data (r_ch s))"
    and tx: "\<And>p. p \<in> rptrs s' \<Longrightarrow> txs s' ! p = txs s ! p"
  shows "reads_fit c s'"
proof -
  have "txs s' ! p = txs s ! p" if "p \<in> set (ddr_read_q s') \<union> held (in_flight_reads s') \<union> set (read_transactions s')" for p
    using that tx by (simp add: rptrs_def)
  moreover from this have "access_of c (txs s' ! p) a" if "in_flight_reads s a = Some q" "p \<in> set q" for a q p
    using that in_held [of "in_flight_reads s" a q p] assms(1,3) by (simp add: reads_fit_def)
  ultimately show ?thesis unfolding reads_fit_def using assms(1-5) by (auto simp: reads_fit_def)
qed

lemma linkedD:
  "linked M s \<Longrightarrow> queue_length (in_flight_reads s) a = count M (a, False)"
  "linked M s \<Longrightarrow> queue_length (in_flight_writes s) a = count M (a, True)"
  by (simp_all add: linked_def)

lemma linked_frame: "linked M s \<Longrightarrow> in_flight_reads s' = in_flight_reads s \<Longrightarrow> in_flight_writes s' = in_flight_writes s \<Longrightarrow> linked M s'"
  by (simp add: linked_def)

subsection \<open>Call-backs\<close>

lemma read_callback_returns:
  assumes "mem_config_ok c" "port_inv s" "reads_fit c s" "linked (add_mset (a, False) M) s"
  shows "returns (\<lambda>s'. reads_fit c s' \<and> linked M s') (read_callback c a s)"
proof -
  have "queue_length (in_flight_reads s) a = Suc (count M (a, False))" using linkedD(1) [OF assms(4), of a] by simp
  then obtain p ps where q: "in_flight_reads s a = Some (p # ps)" and ps: "length ps = count M (a, False)"
    by (auto dest: queue_length_Suc)
  have h: "held (in_flight_reads s) = insert p (held ((in_flight_reads s)(a \<mapsto> ps)))" using held_pop q by blast
  have rp: "rptrs s \<subseteq> {..<length (txs s)}" "p \<notin> set (read_transactions s)"
    using assms(2) h by (auto simp: port_inv_def ptr_inv_def read_inv_def)
  have t: "burst_fits c (txs s ! p)" "access_of c (txs s ! p) a" using assms(3) q h by (auto simp: reads_fit_def)
  obtain k where k: "k < dram_tx_n_enqueues (txs s ! p)" "a = tx_fpga_addr (txs s ! p) + of_nat (DDR_ENQUEUE_SIZE_BYTES c * k)"
    using t(2) unfolding access_of_def by blast
  obtain t' bs where r: "retrieve c a (txs s ! p) = Inr (t', bs)" "burst_fits c t'" "same_burst (txs s ! p) t'"
    "\<forall>b \<in> set bs. tx_size b \<le> data_bus_bytes c"
    using retrieve_returns [OF assms(1) t(1) k] by (auto simp: returns_def)
  define s' where "s' = (fold enqueue_read bs (upd_tx p (\<lambda>_. t') s))\<lparr>in_flight_reads := (in_flight_reads s)(a \<mapsto> ps)\<rparr>"
  have s': "read_callback c a s = Inr s'" by (simp add: read_callback_def q r(1) s'_def)
  have sel: "txs s' = (txs s)[p := t'] @ bs" "ddr_read_q s' = ddr_read_q s" "in_flight_reads s' = (in_flight_reads s)(a \<mapsto> ps)"
    "in_flight_writes s' = in_flight_writes s" "r_ch s' = r_ch s"
    "read_transactions s' = read_transactions s @ [length (txs s)..<length (txs s) + length bs]"
    by (simp_all add: s'_def fold_enqueue_read)
  have tx: "txs s' ! x = (if x = p then t' else txs s ! x)" if "x \<in> rptrs s" for x
    using that rp(1) by (auto simp: sel nth_append)
  have acc: "access_of c (txs s' ! x) b = access_of c (txs s ! x) b" if "x \<in> rptrs s" for x b
    using tx [OF that] r(3) by (simp add: access_of_def same_burst_def)
  have fits: "burst_fits c (txs s' ! x)" if "x \<in> set (ddr_read_q s) \<union> held (in_flight_reads s)" for x
    using that tx [of x] r(2) assms(3) by (auto simp: reads_fit_def rptrs_def)
  have size: "tx_size (txs s' ! x) \<le> data_bus_bytes c" if "x \<in> set (read_transactions s')" for x
  proof (cases "x < length (txs s)")
    case True
    then have "x \<in> set (read_transactions s)" using that by (auto simp: sel)
    then show ?thesis using tx [of x] rp(2) assms(3) by (auto simp: reads_fit_def rptrs_def)
  next
    case False
    then show ?thesis using that r(4) rp(1) by (auto simp: sel nth_append rptrs_def)
  qed
  have "access_of c (txs s' ! x) b" if xs: "in_flight_reads s' b = Some xs" "x \<in> set xs" for b xs x
  proof -
    obtain ys where ys: "in_flight_reads s b = Some ys" "x \<in> set ys" using xs q by (auto simp: sel split: if_splits)
    then have "x \<in> rptrs s" by (auto simp: rptrs_def dest: in_held)
    then show ?thesis using acc assms(3) ys by (auto simp: reads_fit_def)
  qed
  then have "reads_fit c s'" unfolding reads_fit_def
    using fits size assms(3) h sel(2,3,5) by (auto simp: reads_fit_def)
  moreover have "linked M s'" using assms(4) ps by (auto simp: linked_def sel split: if_splits)
  ultimately show ?thesis by (simp add: s')
qed

lemma write_callback_returns:
  assumes "port_inv s" "reads_fit c s" "linked (add_mset (a, True) M) s"
  shows "returns (\<lambda>s'. reads_fit c s' \<and> linked M s') (write_callback a s)"
proof -
  have "queue_length (in_flight_writes s) a = Suc (count M (a, True))" using linkedD(2) [OF assms(3), of a] by simp
  then obtain p ps where q: "in_flight_writes s a = Some (p # ps)" and ps: "length ps = count M (a, True)"
    by (auto dest: queue_length_Suc)
  have "p \<in> wptrs s" using held_pop [of "in_flight_writes s" a p ps] q by auto
  then have p: "p < length (txs s)" "p \<notin> rptrs s" using assms(1) by (auto simp: port_inv_def ptr_inv_def)
  define s' where "s' = s\<lparr>txs := (txs s)[p := count_down (txs s ! p)],
        b_ch := (if axi_bus_beats_progress (txs s ! p) = 1
                 then (b_ch s)\<lparr>to_enqueue := to_enqueue (b_ch s) @ [tx_id (txs s ! p)]\<rparr> else b_ch s),
        in_flight_writes := (in_flight_writes s)(a \<mapsto> ps)\<rparr>"
  have "reads_fit c s'"
    by (rule reads_fit_frame [OF assms(2)]) (use p(2) in \<open>auto simp: s'_def rptrs_def nth_list_update_other\<close>)
  moreover have "linked M s'" using assms(3) ps by (auto simp: linked_def s'_def split: if_splits)
  ultimately show ?thesis using write_callback_eq [OF q p(1)] by (simp add: s'_def)
qed

lemma dram_callbacks_returns:
  assumes "mem_config_ok c"
  shows "port_inv s \<Longrightarrow> reads_fit c s \<Longrightarrow> linked (mset l + M) s \<Longrightarrow>
    returns (\<lambda>s'. reads_fit c s' \<and> linked M s') (dram_callbacks c (map completion l) s)"
proof (induction l arbitrary: s)
  case (Cons x l)
  obtain a w where x: "x = (a, w)" by (cases x)
  have "returns (\<lambda>s'. reads_fit c s' \<and> linked (mset l + M) s') (dram_callback c (completion x) s)"
    using read_callback_returns [OF assms Cons.prems(1,2)] write_callback_returns [OF Cons.prems(1,2)] Cons.prems(3)
    by (cases w) (simp_all add: x completion_def)
  from returns_and [OF this dram_callback_inv [OF Cons.prems(1)]]
  show ?case by (simp, elim returns_andThen) (simp add: Cons.IH)
qed simp

subsection \<open>Issuing\<close>

definition issued :: "bool \<Rightarrow> (nat \<times> u64) option \<Rightarrow> (u64 \<times> bool) multiset" where
  "issued w r = (case r of None \<Rightarrow> {#} | Some (p, a) \<Rightarrow> {#(a, w)#})"

lemma enqueue_ddr_read_fits:
  assumes "port_inv s" "reads_fit c s" "linked M s" "enqueue_ddr_read c acc s = (s', r)"
  shows "reads_fit c s' \<and> linked (M + issued False r) s' \<and> (\<forall>p a. r = Some (p, a) \<longrightarrow> acc a)"
proof (cases "scan_reads c acc (txs s) [] (ddr_read_q s)")
  case None
  then show ?thesis using assms by (auto simp: enqueue_ddr_read_def issued_def)
next
  case (Some p)
  let ?t = "txs s ! p"
  have pq: "p \<in> set (ddr_read_q s)" "acc (dimm_addr c ?t)"
    using scan_reads_first [OF Some] by auto
  have p: "p < length (txs s)" "p \<notin> set (read_transactions s)" "\<not> dramsim_tx_finished ?t"
    using assms(1) pq(1) by (auto simp: port_inv_def ptr_inv_def rptrs_def read_inv_def)
  have r: "r = Some (p, dimm_addr c ?t)" and s': "txs s' = (txs s)[p := issue ?t]"
    "set (ddr_read_q s') \<subseteq> set (ddr_read_q s)" "in_flight_reads s' = push_in_flight (dimm_addr c ?t) p (in_flight_reads s)"
    "in_flight_writes s' = in_flight_writes s" "read_transactions s' = read_transactions s" "r_ch s' = r_ch s"
    using assms(4) set_remove1_subset [of p "ddr_read_q s"] by (auto simp: enqueue_ddr_read_def Some Let_def split: if_splits)
  have tx: "txs s' ! x = (if x = p then issue ?t else txs s ! x)" for x using p(1) by (simp add: s')
  have new: "access_of c ?t (dimm_addr c ?t)" using p(3) unfolding access_of_def dimm_addr_def dramsim_tx_finished_def
    by (intro exI [of _ "dram_tx_axi_enqueue_progress ?t"]) simp
  have same: "burst_fits c (txs s' ! x) = burst_fits c (txs s ! x)" "access_of c (txs s' ! x) a = access_of c (txs s ! x) a"
    "tx_size (txs s' ! x) = tx_size (txs s ! x)" for x a
    by (simp_all add: tx issue_def burst_fits_def access_of_def axi_bus_beats_length_def)
  have "access_of c (txs s ! x) b" if "in_flight_reads s' b = Some q" "x \<in> set q" for b q x
    using that new assms(2) by (auto simp: s'(3) push_in_flight_def reads_fit_def split: if_splits option.splits)
  then have "reads_fit c s'" unfolding reads_fit_def same using assms(2) s'(2,5,6) pq(1)
    by (auto simp: reads_fit_def s'(3))
  moreover have "linked (M + issued False r) s'" using assms(3) by (auto simp: linked_def r issued_def s'(3,4))
  ultimately show ?thesis using pq(2) r by simp
qed

lemma enqueue_ddr_write_fits:
  assumes "port_inv s" "reads_fit c s" "linked M s" "enqueue_ddr_write c acc s = (s', r)"
  shows "reads_fit c s' \<and> linked (M + issued True r) s' \<and> (\<forall>p a. r = Some (p, a) \<longrightarrow> acc a)"
proof (cases "find (\<lambda>p. acc (dimm_addr c (txs s ! p))) (ddr_write_q s)")
  case None
  then show ?thesis using assms by (auto simp: enqueue_ddr_write_def issued_def)
next
  case (Some p)
  let ?t = "txs s ! p"
  have pq: "p \<in> set (ddr_write_q s)" "acc (dimm_addr c ?t)" using Some by (auto simp: find_Some_iff)
  have p: "p \<notin> rptrs s" using assms(1) pq(1) by (auto simp: port_inv_def ptr_inv_def)
  have r: "r = Some (p, dimm_addr c ?t)" and s': "txs s' = (txs s)[p := issue ?t]" "ddr_read_q s' = ddr_read_q s"
    "in_flight_reads s' = in_flight_reads s" "in_flight_writes s' = push_in_flight (dimm_addr c ?t) p (in_flight_writes s)"
    "read_transactions s' = read_transactions s" "r_ch s' = r_ch s"
    using assms(4) by (auto simp: enqueue_ddr_write_def Some Let_def split: if_splits)
  have "reads_fit c s'"
    by (rule reads_fit_frame [OF assms(2)]) (use p in \<open>auto simp: s' rptrs_def nth_list_update_other\<close>)
  moreover have "linked (M + issued True r) s'" using assms(3) by (auto simp: linked_def r issued_def s'(3,4))
  ultimately show ?thesis using pq(2) r by simp
qed

subsection \<open>A DRAM cycle\<close>

text \<open>Over any memory that keeps its contract.\<close>

definition coupled :: "('d \<Rightarrow> bool) \<Rightarrow> ('d \<Rightarrow> (u64 \<times> bool) multiset) \<Rightarrow> mem_config \<Rightarrow> mem_interface \<times> 'd \<Rightarrow> bool" where
  "coupled ok owes c = (\<lambda>(s, d). port_inv s \<and> reads_fit c s \<and> ok d \<and> linked (owes d) s)"

context memory
begin

lemma give_returns:
  assumes "inv d" "\<And>p a. r = Some (p, a) \<Longrightarrow> has_room accepts w d a"
  shows "returns (\<lambda>d'. inv d' \<and> outstanding d' = outstanding d + issued w r) (give add w r d)"
proof (cases r)
  case (Some x)
  obtain p a where x: "x = (p, a)" by (cases x)
  then have "accepts a w d = Inr True"
    using assms(2) Some by (auto simp: has_room_def split: sum.splits)
  from add_one [OF assms(1) this] show ?thesis using Some x by (auto simp: give_def issued_def returns_def)
qed (simp add: assms(1) give_def issued_def)

lemma port_dram_tick_returns:
  assumes "mem_config_ok c" "coupled inv outstanding c (s, d)"
  shows "returns (\<lambda>(s', d'). coupled inv outstanding c (s', d') \<and> dram_rel s s') (port_dram_tick accepts add tick c (s, d))"
proof -
  have a: "port_inv s" "reads_fit c s" "inv d" "linked (outstanding d) s" using assms(2) by (simp_all add: coupled_def)
  obtain l d1 where t: "tick d = Inr (l, d1)" "inv d1" "outstanding d = mset l + outstanding d1"
    using tick_returns [OF a(3)] by blast
  obtain s1 where s1: "dram_callbacks c (map completion l) s = Inr s1" "reads_fit c s1" "linked (outstanding d1) s1" "dram_rel s s1"
    using returns_and [OF dram_callbacks_returns [OF assms(1) a(1,2), of l "outstanding d1"] dram_callbacks_inv [OF a(1), of c "map completion l"]] a(4) t(3)
    by (auto simp: returns_def dram_rel_def)
  obtain s2 r where s2: "enqueue_ddr_read c (has_room accepts False d1) s1 = (s2, r)" by fastforce
  have p1: "port_inv s1" using s1(4) by (simp add: dram_rel_def)
  have rel2: "dram_rel s1 s2"
    using enqueue_ddr_read_inv [OF p1] enqueue_ddr_read_grows [OF p1] s2 same_writes_outstanding unfolding dram_rel_def by (metis fst_conv)
  note r2 = enqueue_ddr_read_fits [OF p1 s1(2,3) s2]
  obtain d2 where d2: "give add False r d1 = Inr d2" "inv d2" "outstanding d2 = outstanding d1 + issued False r"
    using give_returns [OF t(2), of r False] r2 by (auto simp: returns_def)
  obtain s3 w where s3: "enqueue_ddr_write c (has_room accepts True d2) s2 = (s3, w)" by fastforce
  have p2: "port_inv s2" using rel2 by (simp add: dram_rel_def)
  have rel3: "dram_rel s2 s3"
    using enqueue_ddr_write_inv [OF p2] enqueue_ddr_write_grows [OF p2] s3 unfolding dram_rel_def by (metis fst_conv)
  have l2: "linked (outstanding d2) s2" "reads_fit c s2" using r2 d2(3) by simp_all
  note r3 = enqueue_ddr_write_fits [OF p2 l2(2,1) s3]
  obtain d3 where d3: "give add True w d2 = Inr d3" "inv d3" "outstanding d3 = outstanding d2 + issued True w"
    using give_returns [OF d2(2), of w True] r3 by (auto simp: returns_def)
  have "coupled inv outstanding c (s3, d3)" using r3 rel3 d3 by (simp add: coupled_def dram_rel_def)
  moreover have "dram_rel s s3"
    using s1(4) rel2 rel3 grows_trans unfolding dram_rel_def by metis
  ultimately show ?thesis
    by (simp add: port_dram_tick_def t(1) s1(1) s2 d2(1) s3 d3(1) in_dram_def in_controller_def)
qed

end

section \<open>The channels of a port\<close>

text \<open>
  What the controller expects of the design: addresses that a host segment backs, and read bursts no wider
  than the data bus whose bytes are a whole number of DRAM accesses, or less than one.
\<close>

definition backed :: "address_translator \<Rightarrow> address_channel \<Rightarrow> bool" where
  "backed m ch = (case translate m (getAddr ch) of Inl _ \<Rightarrow> False | Inr ad \<Rightarrow> ad \<noteq> 0)"

definition read_size :: "address_channel \<Rightarrow> nat" where
  "read_size ch = (unat (wrapper_get (len_field ch)) + 1) * 2 ^ unat (wrapper_get (size_field ch))"

definition read_fits :: "mem_config \<Rightarrow> address_channel \<Rightarrow> bool" where
  "read_fits c ch \<longleftrightarrow> 2 ^ unat (wrapper_get (size_field ch)) \<le> data_bus_bytes c \<and>
     (DDR_ENQUEUE_SIZE_BYTES c dvd read_size ch \<or> read_size ch < DDR_ENQUEUE_SIZE_BYTES c) \<and>
     read_size ch < 2 ^ 31 \<and> DDR_ENQUEUE_SIZE_BYTES c < 2 ^ 31"

lemma requested_fits:
  assumes "mem_config_ok c" "read_fits c ch"
  shows "burst_fits c (requested c False ad ch)"
proof -
  let ?e = "DDR_ENQUEUE_SIZE_BYTES c" and ?w = "DDR_BUS_WIDTH_BYTES c" and ?m = "axi_ddr_bus_multiplicity c" and ?t = "requested c False ad ch"
  define n where "n = dram_tx_n_enqueues ?t"
  have c: "0 < ?w" "0 < TOTAL_BURST c" "data_bus_bytes c = ?m * ?w" "?e = ?w * TOTAL_BURST c" "0 < ?e"
    using assms(1) by (simp_all add: mem_config_ok_def)
  have n: "n = (if read_size ch div ?e = 0 then 1 else read_size ch div ?e)"
    by (simp add: n_def requested_def new_transaction_def Let_def read_size_def)
  have le: "read_size ch \<le> n * ?e" and lt: "n * ?e < 2 ^ 31"
    using assms(2) c(5) by (auto simp: n read_fits_def dvd_def div_eq_0_iff intro: le_less_trans [OF div_times_less_eq_dividend])
  have "(read_size ch div data_bus_bytes c * ?m) * ?w \<le> read_size ch" unfolding c(3) by (metis div_times_less_eq_dividend mult.assoc)
  also have "\<dots> \<le> (n * TOTAL_BURST c) * ?w" using le c(4) by (simp add: ac_simps)
  finally have "read_size ch div data_bus_bytes c * ?m \<le> n * TOTAL_BURST c" using c(1) by simp
  moreover have "axi_bus_beats_length c ?t = read_size ch div data_bus_bytes c"
    by (simp add: axi_bus_beats_length_def requested_def new_transaction_def Let_def read_size_def)
  moreover have "tx_size ?t \<le> data_bus_bytes c" "axi_bus_beats_progress ?t = 0"
    "length (ddr_bus_beats_retrieved ?t) = n * TOTAL_BURST c"
    using assms(2) by (simp_all add: requested_def new_transaction_def Let_def read_fits_def n_def)
  ultimately show ?thesis using lt by (simp add: burst_fits_def n_def)
qed

lemma reads_fit_queue: "reads_fit c s \<Longrightarrow> burst_fits c (txs s ! n) \<Longrightarrow> reads_fit c (s\<lparr>ddr_read_q := ddr_read_q s @ [n]\<rparr>)"
  by (auto simp: reads_fit_def)

text \<open>The channels do not touch the accesses in flight.\<close>

definition still :: "mem_interface \<Rightarrow> mem_interface \<Rightarrow> bool" where
  "still s s' \<longleftrightarrow> in_flight_reads s' = in_flight_reads s \<and> in_flight_writes s' = in_flight_writes s"

lemma still_linked: "still s s' \<Longrightarrow> linked M s \<Longrightarrow> linked M s'"
  by (simp add: still_def linked_def)

lemma still_trans: "still s s' \<Longrightarrow> still s' s'' \<Longrightarrow> still s s''"
  by (simp add: still_def)

lemma port_reads_returns:
  assumes "mem_config_ok c" "port_inv s" "sig_inv s" "reads_fit c s"
    and ar: "addr_fire (ar_ch s) \<Longrightarrow> backed (at_map g) (ar_ch s) \<and> read_fits c (ar_ch s)"
  shows "returns (\<lambda>(s', g'). reads_fit c s' \<and> still s s' \<and> aw_ch s' = aw_ch s \<and> at_map g' = at_map g) (port_reads c (s, g))"
proof -
  obtain s1 g1 where r: "r_handshake c (s, g) = Inr (s1, g1)" "port_inv s1" "ar_ch s1 = ar_ch s" "aw_ch s1 = aw_ch s"
    "at_map g1 = at_map g" "read_transactions s1 = (if data_fire (r_ch s) then tl (read_transactions s) else read_transactions s)"
    using r_handshake_inv [OF assms(2), of c g] assms(3) unfolding sig_inv_def by blast
  have s1: "reads_fit c s1 \<and> still s s1"
  proof (cases "data_fire (r_ch s)")
    case False
    then show ?thesis using r(1) assms(4) by (simp add: r_handshake_def still_def)
  next
    case True
    then obtain p ps where ps: "read_transactions s = p # ps" using r(1) by (auto simp: r_handshake_def split: list.splits)
    have p: "p \<notin> set ps" "p \<notin> set (ddr_read_q s)" "p \<notin> held (in_flight_reads s)"
      using assms(2) ps by (auto simp: port_inv_def read_inv_def)
    obtain f where "s1 = upd_tx p f s \<or> s1 = (upd_tx p f s)\<lparr>read_transactions := ps\<rparr>"
      using r(1) True ps by (auto simp: r_handshake_def Let_def split: if_splits)
    then have sel: "\<exists>t. txs s1 = (txs s)[p := t]" "ddr_read_q s1 = ddr_read_q s" "in_flight_reads s1 = in_flight_reads s"
      "in_flight_writes s1 = in_flight_writes s" "r_ch s1 = r_ch s"
      by auto
    have rt: "read_transactions s1 = ps" using r(6) True ps by simp
    have "txs s1 ! q = txs s ! q" if "q \<in> rptrs s1" for q using that p sel rt by (auto simp: rptrs_def nth_list_update_other)
    with reads_fit_frame [OF assms(4) sel(2,3)] show ?thesis using sel rt ps by (auto simp: still_def)
  qed
  show ?thesis
  proof (cases "addr_fire (ar_ch s)")
    case False
    then show ?thesis using s1 r by (simp add: port_reads_def ar_handshake_def)
  next
    case True
    then obtain ad where ad: "translate (at_map g) (getAddr (ar_ch s)) = Inr ad" "ad \<noteq> 0" "read_fits c (ar_ch s)"
      using ar by (auto simp: backed_def split: sum.splits)
    let ?t = "requested c False ad (ar_ch s)"
    let ?s = "s1\<lparr>txs := txs s1 @ [?t], ddr_read_q := ddr_read_q s1 @ [length (txs s1)]\<rparr>"
    have lt: "rptrs s1 \<subseteq> {..<length (txs s1)}" using r(2) by (auto simp: port_inv_def ptr_inv_def)
    have "reads_fit c (s1\<lparr>txs := txs s1 @ [?t]\<rparr>)"
      by (rule reads_fit_frame [of c s1]) (use s1 lt in \<open>auto simp: rptrs_def nth_append\<close>)
    from reads_fit_queue [OF this, of "length (txs s1)"] have "reads_fit c ?s"
      using requested_fits [OF assms(1) ad(3)] by simp
    then show ?thesis using s1 r True ad by (simp add: port_reads_def ar_handshake_def still_def)
  qed
qed

lemma data_set_words_length:
  "4 * n \<le> length bus \<Longrightarrow> length (fold (\<lambda>i. data_set_word (f i) i) [0..<n] bus) = length bus"
  by (induction n) (simp_all add: data_set_word_length)

lemma r_drive_returns:
  assumes "port_inv s" "reads_fit c s"
  shows "returns (\<lambda>(s', g'). reads_fit c s' \<and> still s s') (r_drive c (s, g))"
proof (cases "read_transactions s")
  case Nil
  then show ?thesis by (simp add: r_drive_def still_def) (rule reads_fit_frame [OF assms(2)], simp_all)
next
  case (Cons p ps)
  let ?t = "txs s ! p"
  have p: "axi_bus_beats_progress ?t = 0" "4 * (tx_size ?t div 4) \<le> length (d_data (r_ch s))"
    using assms Cons by (auto simp: port_inv_def read_inv_def beat_ok_def reads_fit_def intro: le_trans [OF times_div_less_eq_dividend])
  have "put_words (host g) (tx_addr ?t) (tx_size ?t div 4) 0 (d_data (r_ch s)) =
      Inr (fold (\<lambda>i. data_set_word (load_word (host g) (tx_addr ?t + of_nat (4 * i))) i) [0..<tx_size ?t div 4] (d_data (r_ch s)))"
    using p(2) by (simp add: put_words_def)
  then show ?thesis using p data_set_words_length [OF p(2)]
    by (auto simp: r_drive_def Cons Let_def still_def intro!: reads_fit_frame [OF assms(2)])
qed

lemma aw_handshake_returns:
  assumes "port_inv s" "reads_fit c s" "addr_fire (aw_ch s) \<Longrightarrow> backed (at_map g) (aw_ch s)"
  shows "returns (\<lambda>(s', g'). reads_fit c s' \<and> still s s') (aw_handshake c (s, g))"
proof (cases "addr_fire (aw_ch s)")
  case True
  then obtain ad where ad: "translate (at_map g) (getAddr (aw_ch s)) = Inr ad" "ad \<noteq> 0"
    using assms(3) by (auto simp: backed_def split: sum.splits)
  have "rptrs s \<subseteq> {..<length (txs s)}" using assms(1) by (auto simp: port_inv_def ptr_inv_def)
  then show ?thesis using True ad
    by (simp add: aw_handshake_def still_def) (rule reads_fit_frame [OF assms(2)], auto simp: rptrs_def nth_append)
qed (simp add: aw_handshake_def still_def assms(2))

lemma w_beat_fits:
  assumes "port_inv s" "reads_fit c s"
  shows "reads_fit c (fst (ready_drive (w_beat c (s, g)))) \<and> still s (fst (ready_drive (w_beat c (s, g)))) \<and>
    at_map (snd (ready_drive (w_beat c (s, g)))) = at_map g"
proof -
  obtain s1 g1 where w: "w_beat c (s, g) = (s1, g1)" by fastforce
  have s1: "s1 = (core_w_beat s)\<lparr>w_ch := w_ch s1\<rparr>" using w_beat_core [OF assms(1), of c g] w by simp
  have q: "in_flight_reads (core_w_beat s) = in_flight_reads s" "in_flight_writes (core_w_beat s) = in_flight_writes s"
    "ddr_read_q (core_w_beat s) = ddr_read_q s"
    by (simp_all add: core_w_beat_def split: list.split)
  have sel: "ddr_read_q s1 = ddr_read_q s" "in_flight_reads s1 = in_flight_reads s" "in_flight_writes s1 = in_flight_writes s"
    "read_transactions s1 = read_transactions s" "r_ch s1 = r_ch s" "txs s1 = txs (core_w_beat s)"
    by (subst s1, simp add: q)+
  have "txs (core_w_beat s) ! p = txs s ! p" if "p \<in> rptrs s" for p
    using that assms(1) by (auto simp: core_w_beat_def port_inv_def ptr_inv_def wptrs_def nth_list_update split: list.split)
  then have "reads_fit c s1" by (intro reads_fit_frame [OF assms(2)]) (auto simp: sel rptrs_def)
  moreover have "at_map g1 = at_map g"
    using w by (auto simp: w_beat_def Let_def write_lanes_at_map split: list.splits if_splits)
  moreover have "reads_fit c (fst (ready_drive (s1, g1)))" if "reads_fit c s1"
    by (rule reads_fit_frame [OF that]) (simp_all add: ready_drive_def rptrs_def)
  ultimately show ?thesis by (simp add: w still_def) (simp add: ready_drive_def sel)
qed

lemma port_update_returns:
  assumes "port_inv s" "aw_sig s" "b_sig s" "reads_fit c s" "addr_fire (aw_ch s) \<Longrightarrow> backed (at_map g) (aw_ch s)"
  shows "returns (\<lambda>(s', g'). reads_fit c s' \<and> still s s' \<and> at_map g' = at_map g) (port_update c (s, g))"
proof -
  obtain s1 where s1: "b_handshake (s, g) = Inr (s1, g)" "port_inv s1" "num_in_flight_writes s1 \<le> num_in_flight_writes s" "aw_ch s1 = aw_ch s"
    using b_handshake_inv [OF assms(1,3), of g] by blast
  have f1: "still s s1" using s1(1) by (auto simp: b_handshake_def still_def split: if_splits list.splits)
  have "reads_fit c s1" by (rule reads_fit_frame [OF assms(4)]) (use s1(1) in \<open>auto simp: b_handshake_def split: if_splits list.splits\<close>)
  then obtain s2 where s2: "r_drive c (s1, g) = Inr (s2, g)" "reads_fit c s2" "still s1 s2" "same_core s1 s2" "aw_ch s2 = aw_ch s1"
    using returns_and [OF r_drive_returns [OF s1(2)] r_drive_inv [OF s1(2), of g c]] by (auto simp: returns_def)
  have p2: "port_inv s2" using same_core_inv [OF s2(4) s1(2)] by simp
  obtain s3 where s3: "b_drive (s2, g) = (s3, g)" "port_inv s3" "aw_ch s3 = aw_ch s2" "num_in_flight_writes s3 = num_in_flight_writes s2"
    using b_drive_inv [OF p2, of g] by blast
  have f3: "still s2 s3" using s3(1) by (auto simp: b_drive_def Let_def still_def)
  have r3: "reads_fit c s3" by (rule reads_fit_frame [OF s2(2)]) (use s3(1) in \<open>auto simp: b_drive_def Let_def\<close>)
  have aw: "aw_sig s3" using assms(2) s1(3,4) s2(4,5) s3(3,4) by (auto simp: aw_sig_def same_core_def)
  have "addr_fire (aw_ch s3) \<Longrightarrow> backed (at_map g) (aw_ch s3)" using assms(5) s1(4) s2(5) s3(3) by simp
  then obtain s4 where s4: "aw_handshake c (s3, g) = Inr (s4, g)" "reads_fit c s4" "still s3 s4" "port_inv s4"
    using returns_and [OF aw_handshake_returns [OF s3(2) r3] aw_handshake_inv [OF s3(2) aw, of g c]] by (auto simp: returns_def)
  obtain s5 g5 where s5: "ready_drive (w_beat c (s4, g)) = (s5, g5)" by fastforce
  then have "reads_fit c s5" "still s4 s5" "at_map g5 = at_map g" using w_beat_fits [OF s4(4,2), of g] by simp_all
  then show ?thesis using f1 s2(3) f3 s4(3) by (simp add: port_update_def s1(1) s2(1) s3(1) s4(1) s5 still_def)
qed

section \<open>Whole cycles\<close>

lemma each_port_returns:
  assumes "\<And>p. P p \<Longrightarrow> returns (\<lambda>p'. P p' \<and> R p p') (f p)"
  shows "list_all P ps \<Longrightarrow> returns (\<lambda>ps'. list_all P ps' \<and> list_all2 R ps ps') (each_port f ps)"
proof (induction ps)
  case (Cons p ps)
  show ?case unfolding each_port.simps
    by (rule returns_andThen [OF assms [of p]], use Cons.prems in simp, rule returns_andThen [OF Cons.IH]) (use Cons.prems in simp_all)
qed simp

lemma dram_cycles_returns:
  assumes "\<And>p. P p \<Longrightarrow> returns (\<lambda>p'. P p' \<and> R p p') (f p)" "\<And>p. P p \<Longrightarrow> R p p"
    "\<And>p p' p''. R p p' \<Longrightarrow> R p' p'' \<Longrightarrow> R p p''"
  shows "list_all P ps \<Longrightarrow> returns (\<lambda>ps'. list_all P ps' \<and> list_all2 R ps ps') (dram_cycles f n ps)"
proof (induction n arbitrary: ps)
  case 0
  then show ?case using assms(2) by (auto simp: list_all_iff intro: list_all2_same [THEN iffD2])
next
  case (Suc n)
  show ?case unfolding dram_cycles.simps
    by (rule returns_andThen [OF each_port_returns [OF assms(1) Suc.prems]], assumption)
      (auto intro: returns_mono [OF Suc.IH] list_all2_trans [of R R R] assms(3))
qed

lemma over_ports_returns:
  assumes "\<And>s g. P s \<Longrightarrow> at_map g = m \<Longrightarrow> returns (\<lambda>(s', g'). R s s' \<and> at_map g' = at_map g) (f (s, g))"
  shows "list_all P ss \<Longrightarrow> at_map g = m \<Longrightarrow> returns (\<lambda>(ss', g'). list_all2 R ss ss' \<and> at_map g' = at_map g) (over_ports f ss g)"
proof (induction ss arbitrary: g)
  case (Cons s ss)
  show ?case unfolding over_ports.simps
    by (rule returns_andThen_pair [OF assms [of s g]], use Cons.prems in simp_all, elim conjE,
        rule returns_andThen_pair [OF Cons.IH]) (use Cons.prems in auto)
qed simp

text \<open>A port the hardware has driven: what it asks for can be served.\<close>

definition good_request :: "mem_config \<Rightarrow> address_translator \<Rightarrow> mem_interface \<Rightarrow> bool" where
  "good_request c m s \<longleftrightarrow> (addr_fire (ar_ch s) \<longrightarrow> backed m (ar_ch s) \<and> read_fits c (ar_ch s)) \<and> (addr_fire (aw_ch s) \<longrightarrow> backed m (aw_ch s))"

lemma list_all2_impI: "list_all2 R xs ys \<Longrightarrow> (\<And>x y. R x y \<Longrightarrow> P y) \<Longrightarrow> list_all P ys"
  by (auto simp: list_all2_conv_all_nth list_all_length)

lemma channels_return:
  assumes "mem_config_ok c" "list_all (\<lambda>s. port_inv s \<and> sig_inv s \<and> reads_fit c s \<and> good_request c (at_map g) s) ss"
  shows "returns (\<lambda>(ss', g'). list_all2 (\<lambda>s s'. reads_fit c s' \<and> still s s' \<and> cycle_rel s s') ss ss' \<and> at_map g' = at_map g)
    (andThen (over_ports (port_reads c) ss g) (\<lambda>(ss2, g2). over_ports (port_update c) ss2 g2))"
proof -
  let ?P = "\<lambda>s. port_inv s \<and> sig_inv s \<and> reads_fit c s \<and> good_request c (at_map g) s"
  let ?Q = "\<lambda>s. port_inv s \<and> aw_sig s \<and> b_sig s \<and> reads_fit c s \<and> (addr_fire (aw_ch s) \<longrightarrow> backed (at_map g) (aw_ch s))"
  let ?R1 = "\<lambda>s s'. ?Q s' \<and> still s s' \<and> reads_rel s s'"
  let ?R2 = "\<lambda>s s'. reads_fit c s' \<and> still s s' \<and> cycle_rel s s'"
  have one: "returns (\<lambda>(s', g'). ?R1 s s' \<and> at_map g' = at_map h) (port_reads c (s, h))" if "?P s" "at_map h = at_map g" for s h
    by (rule returns_mono [OF returns_and [OF port_reads_returns [of c s h] port_reads_inv [of s c h]]])
      (use assms(1) that in \<open>auto simp: good_request_def reads_rel_def\<close>)
  have two: "returns (\<lambda>(s', g'). ?R2 s s' \<and> at_map g' = at_map h) (port_update c (s, h))" if "?Q s" "at_map h = at_map g" for s h
    by (rule returns_mono [OF returns_and [OF port_update_returns [of s c h] port_update_inv [of s c h]]])
      (use that in \<open>auto simp: cycle_rel_def\<close>)
  have comb: "?R2 s s''" if "?R1 s s'" "?R2 s' s''" for s s' s''
    using that by (auto simp: reads_rel_def cycle_rel_def dest: still_trans)
  show ?thesis
  proof (rule returns_andThen_pair [OF over_ports_returns [of ?P "at_map g" ?R1, OF one assms(2) refl]])
    fix ss2 and g2 :: mem_globals
    assume a: "list_all2 ?R1 ss ss2 \<and> at_map g2 = at_map g"
    then have "list_all ?Q ss2" by (elim conjE list_all2_impI) blast
    then have "returns (\<lambda>(ss', g'). list_all2 ?R2 ss2 ss' \<and> at_map g' = at_map g2) (over_ports (port_update c) ss2 g2)"
      using over_ports_returns [of ?Q "at_map g" ?R2, OF two] a by blast
    then show "returns (\<lambda>(ss', g'). list_all2 ?R2 ss ss' \<and> at_map g' = at_map g) (case (ss2, g2) of (ss2, g2) \<Rightarrow> over_ports (port_update c) ss2 g2)"
      using a list_all2_trans [of ?R1 ?R2 ?R2, OF comb] by (auto elim!: returns_mono)
  qed assumption
qed

text \<open>A cycle of the composed simulation is one of the open model, for what the DRAM systems did.\<close>

lemma in_controller_Inr [simp]: "in_controller m = Inr a \<longleftrightarrow> m = Inr a"
  by (cases m) (simp_all add: in_controller_def)

lemma port_dram_tick_open:
  assumes "port_dram_tick accepts add tick c (s, d) = Inr (s', d')"
  shows "\<exists>r. ddr_tick c r s = Inr s'"
proof -
  obtain l d1 s1 d2 where t: "dram_callbacks c (map completion l) s = Inr s1"
    "fst (enqueue_ddr_write c (has_room accepts True d2) (fst (enqueue_ddr_read c (has_room accepts False d1) s1))) = s'"
    using assms by (auto simp: port_dram_tick_def andThen_Inr_iff split_beta)
  then have "ddr_tick c \<lparr>completions = map completion l, accepts_rd = has_room accepts False d1, accepts_wr = has_room accepts True d2\<rparr> s = Inr s'"
    by (auto simp: ddr_tick_def try_to_enqueue_ddr_def split_beta)
  then show ?thesis by blast
qed

lemma each_port_open:
  "each_port (port_dram_tick accepts add tick c) ps = Inr ps' \<Longrightarrow>
   \<exists>r. ddr_round c r (map fst ps) = Inr (map fst ps') \<and> length ps' = length ps"
proof (induction ps arbitrary: ps')
  case (Cons p ps)
  obtain s d where p: "p = (s, d)" by (cases p)
  obtain p' qs where q: "port_dram_tick accepts add tick c (s, d) = Inr p'" "each_port (port_dram_tick accepts add tick c) ps = Inr qs" "ps' = p' # qs"
    using Cons.prems p by (auto simp: andThen_Inr_iff)
  obtain r rs where "ddr_tick c r s = Inr (fst p')" "ddr_round c rs (map fst ps) = Inr (map fst qs)" "length qs = length ps"
    using Cons.IH [OF q(2)] port_dram_tick_open [of accepts add tick c s d "fst p'" "snd p'"] q(1) by auto
  then show ?case by (intro exI [of _ "r # rs"]) (simp add: p q(3))
qed (intro exI [of _ "[]"], simp)

lemma dram_cycles_open:
  "dram_cycles (port_dram_tick accepts add tick c) n ps = Inr ps' \<Longrightarrow>
   \<exists>rs. ddr_rounds c rs (map fst ps) = Inr (map fst ps') \<and> length ps' = length ps"
proof (induction n arbitrary: ps)
  case 0
  then show ?case by (intro exI [of _ "[]"]) simp
next
  case (Suc n)
  then obtain ps1 where "each_port (port_dram_tick accepts add tick c) ps = Inr ps1" "dram_cycles (port_dram_tick accepts add tick c) n ps1 = Inr ps'"
    by (auto simp: andThen_Inr_iff)
  then obtain r rs where "ddr_round c r (map fst ps) = Inr (map fst ps1)" "ddr_rounds c rs (map fst ps1) = Inr (map fst ps')" "length ps' = length ps"
    using each_port_open Suc.IH by metis
  then show ?case by (intro exI [of _ "r # rs"]) simp
qed

lemma over_ports_length: "over_ports f ss g = Inr (ss', g') \<Longrightarrow> length ss' = length ss"
  by (induction ss arbitrary: g ss' g') (auto simp: andThen_Inr_iff)

lemma sim_tick_open:
  assumes "sim_tick (port_dram_tick accepts add tick c) c n ps g = Inr (ps', g')"
  shows "\<exists>rounds. tick_memory c rounds (map fst ps) g = Inr (map fst ps', g')"
proof -
  obtain ps1 ss2 g2 ss3 where t: "dram_cycles (port_dram_tick accepts add tick c) n ps = Inr ps1"
    "over_ports (port_reads c) (map fst ps1) g = Inr (ss2, g2)" "over_ports (port_update c) ss2 g2 = Inr (ss3, g')" "ps' = zip ss3 (map snd ps1)"
    using assms by (auto simp: sim_tick_def andThen_Inr_iff split: prod.splits)
  obtain rs where "ddr_rounds c rs (map fst ps) = Inr (map fst ps1)" using dram_cycles_open [OF t(1)] by blast
  moreover have "map fst ps' = ss3" using over_ports_length [OF t(2)] over_ports_length [OF t(3)] t(4) by simp
  ultimately show ?thesis using t by (intro exI [of _ rs]) (simp add: tick_memory_def)
qed

lemma dram_then_cycle: "dram_rel s s1 \<Longrightarrow> cycle_rel s1 s2 \<Longrightarrow> cycle_rel s s2"
  using grows_fires [of s s1] by (simp add: dram_rel_def cycle_rel_def)

lemma dram_rel_request: "dram_rel s s' \<Longrightarrow> good_request c m s \<Longrightarrow> good_request c m s'"
  by (simp add: dram_rel_def good_request_def grows_def)

context memory
begin

lemma sim_tick_returns:
  assumes "mem_config_ok c" "list_all (\<lambda>p. coupled inv outstanding c p \<and> sig_inv (fst p) \<and> good_request c (at_map g) (fst p)) ps"
  shows "returns (\<lambda>(ps', g'). list_all2 (\<lambda>p p'. coupled inv outstanding c p' \<and> cycle_rel (fst p) (fst p')) ps ps' \<and> at_map g' = at_map g)
    (sim_tick (port_dram_tick accepts add tick c) c n ps g)"
proof -
  let ?P = "coupled inv outstanding c" and ?R = "\<lambda>p p'. dram_rel (fst p) (fst p')"
  have step: "returns (\<lambda>p'. ?P p' \<and> ?R p p') (port_dram_tick accepts add tick c p)" if "?P p" for p
    using port_dram_tick_returns [OF assms(1), of "fst p" "snd p"] that by (auto elim!: returns_mono)
  have refl: "?R p p" if "?P p" for p using that by (auto simp: coupled_def dram_rel_def)
  have trans: "?R p p''" if "?R p p'" "?R p' p''" for p p' p'' :: "mem_interface \<times> 's" using that grows_trans by (auto simp: dram_rel_def)
  have "list_all ?P ps" using assms(2) by (simp add: list_all_iff)
  then have "returns (\<lambda>ps'. list_all ?P ps' \<and> list_all2 ?R ps ps') (dram_cycles (port_dram_tick accepts add tick c) n ps)"
    by (rule dram_cycles_returns [where P = ?P and R = ?R, rotated -1]) (fact step | fact refl | erule (1) trans)+
  then obtain ps1
    where ps1: "dram_cycles (port_dram_tick accepts add tick c) n ps = Inr ps1" "list_all ?P ps1" "list_all2 ?R ps ps1"
    by (auto simp: returns_def)
  have len: "length ps1 = length ps" using ps1(3) by (simp add: list_all2_lengthD)
  have "list_all (\<lambda>s. port_inv s \<and> sig_inv s \<and> reads_fit c s \<and> good_request c (at_map g) s) (map fst ps1)"
    using assms(2) ps1(2,3) grows_sig dram_rel_request
    by (auto simp: list_all_length list_all2_conv_all_nth coupled_def split_beta dram_rel_def)
  from channels_return [OF assms(1) this] obtain ss3 g3 where
    ch: "andThen (over_ports (port_reads c) (map fst ps1) g) (\<lambda>(ss2, g2). over_ports (port_update c) ss2 g2) = Inr (ss3, g3)"
    "list_all2 (\<lambda>s s'. reads_fit c s' \<and> still s s' \<and> cycle_rel s s') (map fst ps1) ss3" "at_map g3 = at_map g"
    by (auto simp: returns_def)
  have l3: "length ss3 = length ps1" using list_all2_lengthD [OF ch(2)] by simp
  have res: "sim_tick (port_dram_tick accepts add tick c) c n ps g = Inr (zip ss3 (map snd ps1), g3)"
    using ch(1) by (auto simp: sim_tick_def ps1(1) andThen_Inr_iff in_controller_def)
  have "?P (ss3 ! i, snd (ps1 ! i)) \<and> cycle_rel (fst (ps ! i)) (ss3 ! i)" if "i < length ps" for i
  proof -
    have i: "dram_rel (fst (ps ! i)) (fst (ps1 ! i))" "?P (ps1 ! i)" "reads_fit c (ss3 ! i)" "still (fst (ps1 ! i)) (ss3 ! i)"
      "cycle_rel (fst (ps1 ! i)) (ss3 ! i)"
      using that ps1(2,3) ch(2) len by (simp_all add: list_all2_conv_all_nth list_all_length)
    then show ?thesis using dram_then_cycle still_linked by (auto simp: coupled_def split_beta cycle_rel_def)
  qed
  then show ?thesis unfolding res using len l3 ch(3) by (simp add: list_all2_conv_all_nth)
qed

end

section \<open>Runs\<close>

text \<open>
  A run: in every clock cycle the hardware drives the ports, and a number of DRAM cycles pass. It records
  at each port the ids of the accepted and of the answered writes.
\<close>

type_synonym 'd sim_state = "(mem_interface \<times> 'd) list \<times> mem_globals \<times> (nat \<Rightarrow> u32 multiset) \<times> (nat \<Rightarrow> u32 multiset)"

definition drive_ports :: "(nat \<Rightarrow> axi_master) \<Rightarrow> (mem_interface \<times> 'd) list \<Rightarrow> (mem_interface \<times> 'd) list" where
  "drive_ports ms ps = map (\<lambda>i. (drive (ms i) (fst (ps ! i)), snd (ps ! i))) [0..<length ps]"

fun sim_run ::
  "(mem_interface \<times> 'd \<Rightarrow> 'e sim_error + (mem_interface \<times> 'd)) \<Rightarrow> mem_config \<Rightarrow> ((nat \<Rightarrow> axi_master) \<times> nat) list \<Rightarrow>
   'd sim_state \<Rightarrow> 'e sim_error + 'd sim_state" where
  "sim_run f c [] st = Inr st"
| "sim_run f c ((ms, n) # cs) (ps, g, acc, ans) =
     (let ps0 = drive_ports ms ps
      in andThen (sim_tick f c n ps0 g) (\<lambda>(ps', g').
           sim_run f c cs (ps', g', \<lambda>i. acc i + accepted (fst (ps0 ! i)), \<lambda>i. ans i + answered (fst (ps0 ! i)))))"

declare sim_run.simps [simp del]

text \<open>A design that only asks for what the controller can serve.\<close>

definition good_master :: "mem_config \<Rightarrow> address_translator \<Rightarrow> axi_master \<Rightarrow> bool" where
  "good_master c m x \<longleftrightarrow> (valid_field (m_ar x) \<noteq> 0 \<longrightarrow> backed m (m_ar x) \<and> read_fits c (m_ar x)) \<and>
     (valid_field (m_aw x) \<noteq> 0 \<longrightarrow> backed m (m_aw x))"

lemma good_master_request: "good_master c m x \<Longrightarrow> good_request c m (drive x s)"
  by (simp add: good_master_def good_request_def drive_def addr_fire_def backed_def getAddr_def read_fits_def read_size_def)

lemma drive_reads_fit: "reads_fit c s \<Longrightarrow> reads_fit c (drive x s)" and drive_still: "still s (drive x s)"
  by (simp_all add: still_def drive_def) (erule reads_fit_frame, simp_all)

definition sim_inv ::
  "('d \<Rightarrow> bool) \<Rightarrow> ('d \<Rightarrow> (u64 \<times> bool) multiset) \<Rightarrow> mem_config \<Rightarrow> address_translator \<Rightarrow> 'd sim_state \<Rightarrow> bool" where
  "sim_inv ok owes c m = (\<lambda>(ps, g, acc, ans). at_map g = m \<and> (\<forall>i < length ps. coupled ok owes c (ps ! i) \<and> sig_inv (fst (ps ! i)) \<and>
     acc i = outstanding (fst (ps ! i)) + ans i))"

lemma drive_coupled:
  assumes "coupled ok owes c p" "sig_inv (fst p)"
  shows "coupled ok owes c (drive x (fst p), snd p) \<and> sig_inv (drive x (fst p)) \<and> outstanding (drive x (fst p)) = outstanding (fst p)"
  using assms drive_inv [of "fst p" x] drive_reads_fit still_linked [OF drive_still] by (auto simp: coupled_def split_beta)

context memory
begin

lemma sim_run_returns:
  assumes "mem_config_ok c"
  shows "sim_inv inv outstanding c m st \<Longrightarrow> \<forall>(ms, n) \<in> set cs. \<forall>i. good_master c m (ms i) \<Longrightarrow>
    returns (\<lambda>st'. sim_inv inv outstanding c m st' \<and> length (fst st') = length (fst st)) (sim_run (port_dram_tick accepts add tick c) c cs st)"
proof (induction cs arbitrary: st)
  case (Cons x cs)
  obtain ms n where x: "x = (ms, n)" by (cases x)
  obtain ps g acc ans where st: "st = (ps, g, acc, ans)" by (cases st)
  let ?ps = "drive_ports ms ps"
  have m: "at_map g = m" using Cons.prems(1) by (simp add: st sim_inv_def)
  have pre: "coupled inv outstanding c (?ps ! i) \<and> sig_inv (fst (?ps ! i)) \<and> good_request c m (fst (?ps ! i)) \<and>
      acc i = MemPort.outstanding (fst (?ps ! i)) + ans i" if "i < length ps" for i
    using Cons.prems that drive_coupled [of inv outstanding c "ps ! i" "ms i"] good_master_request
    by (auto simp: sim_inv_def st x drive_ports_def)
  have "list_all (\<lambda>p. coupled inv outstanding c p \<and> sig_inv (fst p) \<and> good_request c (at_map g) (fst p)) ?ps"
    using pre m by (simp add: list_all_length drive_ports_def)
  from sim_tick_returns [OF assms this, of n] obtain ps' g' where
    t: "sim_tick (port_dram_tick accepts add tick c) c n ?ps g = Inr (ps', g')" "at_map g' = at_map g"
    "list_all2 (\<lambda>p p'. coupled inv outstanding c p' \<and> cycle_rel (fst p) (fst p')) ?ps ps'"
    by (auto simp: returns_def)
  have len: "length ?ps = length ps" by (simp add: drive_ports_def)
  have "sim_inv inv outstanding c m (ps', g', \<lambda>i. acc i + accepted (fst (?ps ! i)), \<lambda>i. ans i + answered (fst (?ps ! i)))"
    using t(2,3) m pre len by (fastforce simp: sim_inv_def list_all2_conv_all_nth cycle_rel_def ac_simps)
  from Cons.IH [OF this] Cons.prems(2) t(1) show ?case
    using list_all2_lengthD [OF t(3)] len by (auto simp: st x sim_run.simps Let_def elim!: returns_mono)
qed (simp add: sim_run.simps)

end

section \<open>The simulated memory ends no simulation\<close>


definition read_master :: axi_master where
  "read_master = idle_master\<lparr>m_ar := quiet_addr\<lparr>valid_field := 1, id_field := wire 1 3, size_field := wire 1 6, addr_field := wire 8 0x80, len_field := wire 1 1\<rparr>\<rparr>"

definition sim_masters :: "((nat \<Rightarrow> axi_master) \<times> nat) list" where
  "sim_masters = [(\<lambda>_. idle_master, 1), (\<lambda>_. write_master, 2), (\<lambda>_. read_master, 1), (\<lambda>_. idle_master, 40)]"


text \<open>
  The condition on read bursts is needed: with DRAM accesses of 128 bytes, a burst of three beats of 64 bytes
  is given one access, and when it completes the controller looks for the third beat behind its flags.
\<close>

lemma odd_burst_out_of_range:
  "retrieve \<lparr>data_bus_bytes = 64, DDR_BUS_WIDTH_BYTES = 8, axi_ddr_bus_multiplicity = 8, TOTAL_BURST = 16, DDR_ENQUEUE_SIZE_BYTES = 128\<rparr> 0
     (new_transaction \<lparr>data_bus_bytes = 64, DDR_BUS_WIDTH_BYTES = 8, axi_ddr_bus_multiplicity = 8, TOTAL_BURST = 16, DDR_ENQUEUE_SIZE_BYTES = 128\<rparr>
       0x7000 64 3 0 False 5 0 False) = Inl IndexOutOfRange"
  by code_simp

end
