(* ===== verification/DmaEngine.thy ===== *)
theory DmaEngine
  imports DataServer MemTick
begin

text \<open>
  The DMA half of the simulation cycle (\<^verbatim>\<open>tick_signals\<close> in \<^verbatim>\<open>runtime/src/core/tick.cc\<close>, the part under
  \<^verbatim>\<open>BEETHOVEN_HAS_DMA\<close>): it carries out, over an AXI port of the simulated hardware, the transfers
  the data server posts in shared variables, and wakes the server when one is done. A cycle reads
  the signals the hardware drives (an input) and sets its own. A read transfer does not copy
  anything: it compares what the hardware returns with the host segment and ends the program at the
  first difference.
\<close>

section \<open>State\<close>

record dma_engine =
  eng_req :: dma_request
  eng_valid :: bool
  eng_in_progress :: bool
  eng_txprogress :: int
  eng_txlength :: int
  eng_id1 :: int
  eng_id2 :: int
  eng_wakeups :: nat
  dma_aw :: address_channel
  dma_ar :: address_channel
  dma_w :: data_channel
  dma_r :: data_channel
  dma_b :: response_channel

datatype dma_error = UnexpectedValue nat int

section \<open>One cycle\<close>

definition dma_clear :: "dma_engine \<Rightarrow> dma_engine" where
  "dma_clear e = e\<lparr>dma_aw := (dma_aw e)\<lparr>valid_field := 0\<rparr>, dma_ar := (dma_ar e)\<lparr>valid_field := 0\<rparr>,
     dma_b := (dma_b e)\<lparr>b_ready_field := 0\<rparr>, dma_w := (dma_w e)\<lparr>d_valid := 0\<rparr>, dma_r := (dma_r e)\<lparr>d_ready := 0\<rparr>\<rparr>"

text \<open>The address phase of a transfer of 64-byte beats; \<open>i\<close> is \<^verbatim>\<open>rand() % 16\<close>.\<close>

definition dma_address :: "nat \<Rightarrow> dma_request \<Rightarrow> address_channel \<Rightarrow> address_channel" where
  "dma_address i r ch = ch\<lparr>valid_field := 1, addr_field := wrapper_set (dma_fpga_addr r) (addr_field ch),
     id_field := wrapper_set (of_nat i) (id_field ch), size_field := wrapper_set 6 (size_field ch),
     len_field := wrapper_set (dma_len r div 64 - 1) (len_field ch), burst_field := wrapper_set 1 (burst_field ch)\<rparr>"

definition dma_start :: "nat \<Rightarrow> dma_engine \<Rightarrow> dma_engine" where
  "dma_start rnd e =
     (if eng_valid e \<and> \<not> eng_in_progress e then
        (let i = rnd mod 16; r = eng_req e;
             e1 = e\<lparr>eng_txprogress := 0, eng_txlength := sint (ucast (drop_bit 6 (dma_len r)) :: 32 word)\<rparr>
         in if dma_write r then
              (let e2 = e1\<lparr>dma_aw := dma_address i r (dma_aw e1), eng_id1 := int i\<rparr>
               in if addr_fire (dma_aw e2) then e2\<lparr>eng_in_progress := True\<rparr> else e2)
            else
              (let e2 = e1\<lparr>dma_ar := dma_address i r (dma_ar e1), eng_id2 := int i\<rparr>
               in if addr_fire (dma_ar e2) then e2\<lparr>eng_in_progress := True\<rparr> else e2))
      else e)"

definition dma_finish :: "dma_engine \<Rightarrow> dma_engine" where
  "dma_finish e = e\<lparr>eng_valid := False, eng_in_progress := False, eng_wakeups := eng_wakeups e + 1\<rparr>"

text \<open>The words of a write beat; \<open>wds\<close> is \<^verbatim>\<open>DATA_BUS_WIDTH / 32\<close>.\<close>

definition dma_beat_data :: "nat \<Rightarrow> (u64 \<Rightarrow> u8) \<Rightarrow> u64 \<Rightarrow> int \<Rightarrow> u8 list \<Rightarrow> u8 list" where
  "dma_beat_data wds m ptr k bus =
     fold (\<lambda>i. data_set_word (load_word m (ptr + of_int (4 * (int i + int wds * k)))) i) [0..<wds] bus"

definition dma_write_phase :: "nat \<Rightarrow> (u64 \<Rightarrow> u8) \<Rightarrow> dma_engine \<Rightarrow> dma_engine" where
  "dma_write_phase wds m e =
     (if eng_txprogress e < eng_txlength e then
        (let e1 = e\<lparr>dma_w := (dma_w e)\<lparr>d_valid := 1,
                       d_data := dma_beat_data wds m (dma_ptr (eng_req e)) (eng_txprogress e) (d_data (dma_w e)),
                       d_last := bool_byte (eng_txprogress e + 1 = eng_txlength e)\<rparr>\<rparr>
         in if d_ready (dma_w e1) \<noteq> 0 then e1\<lparr>eng_txprogress := eng_txprogress e1 + 1\<rparr> else e1)
      else
        (let e1 = e\<lparr>dma_b := (dma_b e)\<lparr>b_ready_field := 1\<rparr>\<rparr>
         in if resp_fire (dma_b e1) then dma_finish e1 else e1))"

text \<open>The first of the 64 bytes of a read beat that differs from the host segment.\<close>

definition dma_mismatch :: "(u64 \<Rightarrow> u8) \<Rightarrow> u64 \<Rightarrow> u8 list \<Rightarrow> nat option" where
  "dma_mismatch m src rval = find (\<lambda>i. rval ! i \<noteq> m (src + of_nat i)) [0..<64]"

definition dma_read_phase :: "(u64 \<Rightarrow> u8) \<Rightarrow> dma_engine \<Rightarrow> dma_error + dma_engine" where
  "dma_read_phase m e =
     (let e1 = e\<lparr>dma_r := (dma_r e)\<lparr>d_ready := 1\<rparr>\<rparr>
      in if data_fire (dma_r e1) then
           (case dma_mismatch m (dma_ptr (eng_req e1) + of_int (64 * eng_txprogress e1)) (d_data (dma_r e1)) of
              Some i \<Rightarrow> Inl (UnexpectedValue i (eng_txprogress e1))
            | None \<Rightarrow>
                (let e2 = e1\<lparr>eng_txprogress := eng_txprogress e1 + 1\<rparr>
                 in Inr (if eng_txprogress e2 = eng_txlength e2 then dma_finish e2 else e2)))
         else Inr e1)"

definition dma_tick :: "nat \<Rightarrow> (u64 \<Rightarrow> u8) \<Rightarrow> nat \<Rightarrow> dma_engine \<Rightarrow> dma_error + dma_engine" where
  "dma_tick wds m rnd e =
     (let e1 = dma_start rnd (dma_clear e)
      in if eng_in_progress e1 then
           (if dma_write (eng_req e1) then Inr (dma_write_phase wds m e1) else dma_read_phase m e1)
         else Inr e1)"

section \<open>The other side of the port\<close>

text \<open>What the hardware drives in a cycle, with the value of \<^verbatim>\<open>rand\<close> used in it.\<close>

record dma_input =
  in_aw_ready :: u8
  in_ar_ready :: u8
  in_w_ready :: u8
  in_r_valid :: u8
  in_r_data :: "u8 list"
  in_b_valid :: u8
  in_rand :: nat

definition dma_drive :: "dma_input \<Rightarrow> dma_engine \<Rightarrow> dma_engine" where
  "dma_drive i e = e\<lparr>dma_aw := (dma_aw e)\<lparr>ready_field := in_aw_ready i\<rparr>, dma_ar := (dma_ar e)\<lparr>ready_field := in_ar_ready i\<rparr>,
     dma_w := (dma_w e)\<lparr>d_ready := in_w_ready i\<rparr>, dma_r := (dma_r e)\<lparr>d_valid := in_r_valid i, d_data := in_r_data i\<rparr>,
     dma_b := (dma_b e)\<lparr>b_valid_field := in_b_valid i\<rparr>\<rparr>"

text \<open>Posting a transfer, the critical section of the data server's loop.\<close>

definition dma_post :: "dma_request \<Rightarrow> dma_engine \<Rightarrow> dma_engine" where
  "dma_post r e = e\<lparr>eng_req := r, eng_valid := True, eng_in_progress := False\<rparr>"

text \<open>
  What the hardware sees: the handshakes that complete with the signals a cycle leaves. A run
  collects the accepted addresses (with the burst length field) and the accepted write beats.
\<close>

record dma_seen =
  seen_aw :: "(u64 \<times> u64) list"
  seen_ar :: "(u64 \<times> u64) list"
  seen_w :: "(u8 list \<times> u8) list"

definition dma_observe :: "dma_engine \<Rightarrow> dma_seen \<Rightarrow> dma_seen" where
  "dma_observe e l = l\<lparr>
     seen_aw := seen_aw l @ (if addr_fire (dma_aw e) then [(wr_ptr (addr_field (dma_aw e)), wr_ptr (len_field (dma_aw e)))] else []),
     seen_ar := seen_ar l @ (if addr_fire (dma_ar e) then [(wr_ptr (addr_field (dma_ar e)), wr_ptr (len_field (dma_ar e)))] else []),
     seen_w := seen_w l @ (if data_fire (dma_w e) then [(d_data (dma_w e), d_last (dma_w e))] else [])\<rparr>"

fun dma_run ::
  "nat \<Rightarrow> (u64 \<Rightarrow> u8) \<Rightarrow> dma_input list \<Rightarrow> dma_engine \<times> dma_seen \<Rightarrow> dma_error + (dma_engine \<times> dma_seen)" where
  "dma_run wds m [] s = Inr s"
| "dma_run wds m (i # is) (e, l) =
     andThen (dma_tick wds m (in_rand i) (dma_drive i e)) (\<lambda>e'. dma_run wds m is (e', dma_observe e' l))"

section \<open>Words and beats\<close>

lemma load_bytes: "word_bytes (load_word m a) = map (\<lambda>k. m (a + of_nat k)) [0..<4]"
proof -
  have b: "ucast (drop_bit (8 * k) (load_word m a)) = m (a + of_nat k)" if "k < 4" for k
  proof (rule bit_word_eqI)
    fix n assume n: "n < LENGTH(8)"
    have "k = 0 \<or> k = 1 \<or> k = 2 \<or> k = 3" using that by auto
    then show "bit (ucast (drop_bit (8 * k) (load_word m a)) :: u8) n = bit (m (a + of_nat k)) n"
      using n by (auto simp: load_word_def bit_simps dest: bit_imp_le_length)
  qed
  show ?thesis unfolding word_bytes_def using b by (intro map_cong) auto
qed

lemma fold_set_words:
  "4 * n \<le> length bus \<Longrightarrow>
   fold (\<lambda>i. data_set_word (f i) i) [0..<n] bus = concat (map (\<lambda>i. word_bytes (f i)) [0..<n]) @ drop (4 * n) bus"
proof (induction n)
  case (Suc n)
  have "length (concat (map (\<lambda>i. word_bytes (f i)) [0..<n])) = 4 * n"
    by (induction n) (simp_all add: word_bytes_def)
  with Suc show ?case by (simp add: data_set_word_def add.commute)
qed simp

lemma concat_blocks:
  "concat (map (\<lambda>i. map (\<lambda>k. g (b * i + k)) [0..<b]) [0..<n]) = map g [0..<b * n]"
proof (induction n)
  case (Suc n)
  have "[0..<b * Suc n] = [0..<b * n] @ map (\<lambda>k. b * n + k) [0..<b]"
    using upt_add_eq_append [of 0 "b * n" b] by (simp add: map_add_upt add.commute)
  with Suc show ?case by simp
qed simp

text \<open>The bytes of a segment, and a beat of 64 of them.\<close>

definition segment_bytes :: "(u64 \<Rightarrow> u8) \<Rightarrow> u64 \<Rightarrow> nat \<Rightarrow> u8 list" where
  "segment_bytes m a n = map (\<lambda>j. m (a + of_nat j)) [0..<n]"

definition dma_beat :: "(u64 \<Rightarrow> u8) \<Rightarrow> u64 \<Rightarrow> nat \<Rightarrow> nat \<Rightarrow> u8 list \<times> u8" where
  "dma_beat m p n k = (segment_bytes m (p + of_nat (64 * k)) 64, bool_byte (n = Suc k))"

lemma dma_beat_data_bytes:
  assumes "length bus = 64"
  shows "dma_beat_data 16 m p (int k) bus = segment_bytes m (p + of_nat (64 * k)) 64"
proof -
  have a: "p + of_int (4 * (int i + int 16 * int k)) = p + of_nat (64 * k) + of_nat (4 * i)" for i
    by (simp add: algebra_simps)
  have "dma_beat_data 16 m p (int k) bus =
      concat (map (\<lambda>i. map (\<lambda>j. m (p + of_nat (64 * k) + of_nat (4 * i + j))) [0..<4]) [0..<16])"
    using assms unfolding dma_beat_data_def a
    by (subst fold_set_words) (simp_all add: load_bytes add.assoc)
  also have "\<dots> = segment_bytes m (p + of_nat (64 * k)) 64"
    using concat_blocks [of "\<lambda>j. m (p + of_nat (64 * k) + of_nat j)" 4 16] by (simp add: segment_bytes_def)
  finally show ?thesis .
qed

lemma segment_bytes_add: "segment_bytes m p (a + b) = segment_bytes m p a @ segment_bytes m (p + of_nat a) b"
proof -
  have "[0..<a + b] = [0..<a] @ map (\<lambda>k. a + k) [0..<b]"
    by (simp add: upt_add_eq_append [of 0 a b, simplified] map_add_upt add.commute)
  then show ?thesis by (simp add: segment_bytes_def add.assoc)
qed

lemma beats_bytes: "concat (map (fst \<circ> dma_beat m p n) [0..<k]) = segment_bytes m p (64 * k)"
proof (induction k)
  case (Suc k)
  then show ?case
    using segment_bytes_add [of m p "64 * k" 64] by (simp add: dma_beat_def add.commute)
qed (simp add: segment_bytes_def)

section \<open>Write transfers\<close>

text \<open>The widths of the port's signals, as the generated design has them.\<close>

definition engine_ok :: "dma_engine \<Rightarrow> bool" where
  "engine_ok e = (wr_len (addr_field (dma_aw e)) = 8 \<and> wr_len (len_field (dma_aw e)) = 1 \<and>
     wr_len (addr_field (dma_ar e)) = 8 \<and> wr_len (len_field (dma_ar e)) = 1 \<and> length (d_data (dma_w e)) = 64)"

text \<open>Where a posted write transfer of \<open>n\<close> beats stands, against what was seen before it.\<close>

definition write_phase :: "(u64 \<Rightarrow> u8) \<Rightarrow> dma_request \<Rightarrow> nat \<Rightarrow> nat \<Rightarrow> dma_seen \<Rightarrow> dma_engine \<times> dma_seen \<Rightarrow> bool" where
  "write_phase m r n w0 l0 = (\<lambda>(e, l). engine_ok e \<and> eng_req e = r \<and>
     (eng_valid e \<and> \<not> eng_in_progress e \<and> eng_wakeups e = w0 \<and> l = l0 \<or>
      (\<exists>k \<le> n. eng_valid e \<and> eng_in_progress e \<and> eng_wakeups e = w0 \<and>
         eng_txprogress e = int k \<and> eng_txlength e = int n \<and>
         l = l0\<lparr>seen_aw := seen_aw l0 @ [(dma_fpga_addr r, of_nat (n - 1))],
                seen_w := seen_w l0 @ map (dma_beat m (dma_ptr r) n) [0..<k]\<rparr>) \<or>
      (\<not> eng_valid e \<and> \<not> eng_in_progress e \<and> eng_wakeups e = w0 + 1 \<and>
         l = l0\<lparr>seen_aw := seen_aw l0 @ [(dma_fpga_addr r, of_nat (n - 1))],
                seen_w := seen_w l0 @ map (dma_beat m (dma_ptr r) n) [0..<n]\<rparr>)))"

lemmas dma_defs = dma_tick_def dma_drive_def dma_clear_def dma_start_def dma_address_def dma_write_phase_def
  dma_finish_def dma_observe_def addr_fire_def data_fire_def resp_fire_def Let_def

lemma dma_length:
  assumes "dma_len r = of_nat (64 * n)" "1 \<le> n" "n \<le> 256"
  shows "sint (ucast (drop_bit 6 (dma_len r)) :: 32 word) = int n"
    "take_bit 8 (dma_len r div 64 - 1) = of_nat (n - 1)" "dma_len r div 64 - 1 = of_nat (n - 1)"
proof -
  have un: "unat (dma_len r) = 64 * n" using assms(2,3) unfolding assms(1) unsigned_of_nat by (simp add: take_bit_nat_eq_self del: of_nat_mult)
  have div: "unat (dma_len r div 64) = n" by (simp add: unat_div un)
  then have "unat (drop_bit 6 (dma_len r)) = n" by (simp add: drop_bit_eq_div)
  then have "(ucast (drop_bit 6 (dma_len r)) :: 32 word) = of_nat n" by (metis of_nat_unat)
  then show "sint (ucast (drop_bit 6 (dma_len r)) :: 32 word) = int n"
    using assms by (simp add: signed_of_nat signed_take_bit_int_eq_self)
  from div have "dma_len r div 64 = of_nat n"
    using assms(2,3) by (simp add: word_unat_eq_iff unsigned_of_nat take_bit_nat_eq_self)
  then show minus: "dma_len r div 64 - 1 = of_nat (n - 1)" using assms(2,3) by (simp add: of_nat_diff)
  have "take_bit 8 (of_nat (n - 1) :: u64) = of_nat (n - 1)"
    using assms take_bit_of_nat [of 8 "n - 1", where ?'a = u64] by (simp add: take_bit_nat_eq_self del: of_nat_diff)
  then show "take_bit 8 (dma_len r div 64 - 1) = of_nat (n - 1)" unfolding minus .
qed


lemma write_phase_step:
  assumes inv: "write_phase m r n w0 l0 (e, l)"
    and r: "dma_write r" "dma_len r = of_nat (64 * n)" "1 \<le> n" "n \<le> 256"
  shows "\<exists>e'. dma_tick 16 m rnd (dma_drive i e) = Inr e' \<and> write_phase m r n w0 l0 (e', dma_observe e' l)"
proof -
  note len = dma_length [OF r(2-4)]
  have ok: "engine_ok e" and req: "eng_req e = r" using inv by (auto simp: write_phase_def)
  have len64: "length (d_data (dma_w e)) = 64" using ok by (simp add: engine_ok_def)
  have beat: "dma_beat_data 16 m (dma_ptr r) (int k) (d_data (dma_w e)) = segment_bytes m (dma_ptr r + of_nat (64 * k)) 64" for k
    by (rule dma_beat_data_bytes [OF len64])
  have full: "take_bit 64 x = x" for x :: u64 by (simp add: take_bit_word_eq_self)
  have beat64: "length (segment_bytes m a 64) = 64" for a by (simp add: segment_bytes_def)
  consider (wait) "eng_valid e" "\<not> eng_in_progress e" "eng_wakeups e = w0" "l = l0"
    | (go) k where "k \<le> n" "eng_valid e" "eng_in_progress e" "eng_wakeups e = w0"
        "eng_txprogress e = int k" "eng_txlength e = int n"
        "l = l0\<lparr>seen_aw := seen_aw l0 @ [(dma_fpga_addr r, of_nat (n - 1))],
                seen_w := seen_w l0 @ map (dma_beat m (dma_ptr r) n) [0..<k]\<rparr>"
    | (fin) "\<not> eng_valid e" "\<not> eng_in_progress e" "eng_wakeups e = w0 + 1"
        "l = l0\<lparr>seen_aw := seen_aw l0 @ [(dma_fpga_addr r, of_nat (n - 1))],
                seen_w := seen_w l0 @ map (dma_beat m (dma_ptr r) n) [0..<n]\<rparr>"
    using inv by (auto simp: write_phase_def)
  then show ?thesis
  proof cases
    case wait
    note facts = wait r len ok req beat [of 0, simplified] beat64 full
    show ?thesis
    proof (cases "in_aw_ready i = 0")
      case True
      with facts show ?thesis by (simp add: dma_defs write_phase_def engine_ok_def wrapper_set_def)
    next
      case aw: False
      show ?thesis
      proof (cases "in_w_ready i = 0")
        case True
        with aw facts show ?thesis by (simp add: dma_defs write_phase_def engine_ok_def wrapper_set_def)
      next
        case False
        with aw facts show ?thesis
          by (simp add: dma_defs write_phase_def engine_ok_def wrapper_set_def dma_beat_def exI [of _ 1])
      qed
    qed
  next
    case go
    note facts = go r ok req beat [of k, simplified] beat64
    show ?thesis
    proof (cases "k < n")
      case True
      show ?thesis
      proof (cases "in_w_ready i = 0")
        case w: True
        with True facts show ?thesis by (auto simp: dma_defs write_phase_def engine_ok_def intro: exI [of _ k])
      next
        case False
        have "int k + 1 = int n \<longleftrightarrow> n = Suc k" by auto
        with False True facts show ?thesis
          by (auto simp: dma_defs write_phase_def engine_ok_def dma_beat_def intro!: exI [of _ "Suc k"])
      qed
    next
      case False
      with go have "k = n" by simp
      with facts show ?thesis
        by (cases "in_b_valid i = 0") (simp_all add: dma_defs write_phase_def engine_ok_def)
    qed
  next
    case fin
    then show ?thesis
      using ok req by (auto simp: dma_defs write_phase_def engine_ok_def)
  qed
qed


lemma write_phase_run:
  assumes "write_phase m r n w0 l0 s" and r: "dma_write r" "dma_len r = of_nat (64 * n)" "1 \<le> n" "n \<le> 256"
  shows "\<exists>s'. dma_run 16 m is s = Inr s' \<and> write_phase m r n w0 l0 s'"
  using assms(1)
proof (induction "is" arbitrary: s)
  case (Cons i "is")
  obtain e l where s: "s = (e, l)" by (cases s)
  with write_phase_step [OF Cons.prems [unfolded s] r, of "in_rand i" i] Cons.IH show ?case by fastforce
qed simp

lemma write_phase_post:
  "engine_ok e \<Longrightarrow> write_phase m r n (eng_wakeups e) l (dma_post r e, l)"
  by (simp add: write_phase_def dma_post_def engine_ok_def)

text \<open>A device that accepts everything at once.\<close>

definition dma_willing :: "dma_input \<Rightarrow> bool" where
  "dma_willing i = (in_aw_ready i \<noteq> 0 \<and> in_w_ready i \<noteq> 0 \<and> in_b_valid i \<noteq> 0)"


definition dma_left :: "nat \<Rightarrow> dma_engine \<Rightarrow> nat" where
  "dma_left n e = (if \<not> eng_valid e then 0 else if eng_in_progress e then Suc (nat (int n - eng_txprogress e)) else Suc n)"

lemma willing_step:
  assumes inv: "write_phase m r n w0 l0 (e, l)" and i: "dma_willing i"
    and r: "dma_write r" "dma_len r = of_nat (64 * n)" "1 \<le> n" "n \<le> 256"
    and e': "dma_tick 16 m rnd (dma_drive i e) = Inr e'"
  shows "dma_left n e' \<le> dma_left n e - 1"
proof -
  note len = dma_length [OF r(2-4)]
  have req: "eng_req e = r" using inv by (simp add: write_phase_def)
  consider "eng_valid e" "\<not> eng_in_progress e" | k where "k \<le> n" "eng_valid e" "eng_in_progress e"
      "eng_txprogress e = int k" "eng_txlength e = int n" | "\<not> eng_valid e" "\<not> eng_in_progress e"
    using inv by (auto simp: write_phase_def)
  then show ?thesis
    by cases (use i e' r(1,3) len req in \<open>auto simp: dma_willing_def dma_left_def dma_defs split: if_splits\<close>)
qed

lemma willing_run:
  assumes "write_phase m r n w0 l0 s" "\<forall>i \<in> set is. dma_willing i"
    and r: "dma_write r" "dma_len r = of_nat (64 * n)" "1 \<le> n" "n \<le> 256"
    and "dma_run 16 m is s = Inr s'"
  shows "dma_left n (fst s') \<le> dma_left n (fst s) - length is"
  using assms(1,2,7)
proof (induction "is" arbitrary: s)
  case (Cons i "is")
  obtain e l where s: "s = (e, l)" by (cases s)
  obtain e' where e': "dma_tick 16 m (in_rand i) (dma_drive i e) = Inr e'"
    and inv: "write_phase m r n w0 l0 (e', dma_observe e' l)"
    using write_phase_step [OF Cons.prems(1) [unfolded s] r] by blast
  have "dma_left n (fst s') \<le> dma_left n e' - length is"
    using Cons.IH [OF inv] Cons.prems e' s by simp
  moreover have "dma_left n e' \<le> dma_left n e - 1"
    using willing_step [OF Cons.prems(1) [unfolded s] _ r e'] Cons.prems(2) by simp
  ultimately show ?case by (simp add: s)
qed simp

section \<open>Read transfers\<close>

text \<open>A posted read transfer of \<open>n\<close> beats of which \<open>k\<close> have arrived.\<close>

definition read_phase :: "dma_request \<Rightarrow> nat \<Rightarrow> nat \<Rightarrow> nat option \<Rightarrow> dma_engine \<Rightarrow> bool" where
  "read_phase r n w0 k e = (eng_req e = r \<and> (case k of
      None \<Rightarrow> eng_valid e \<and> \<not> eng_in_progress e \<and> eng_wakeups e = w0
    | Some k \<Rightarrow> if k < n
        then eng_valid e \<and> eng_in_progress e \<and> eng_wakeups e = w0 \<and> eng_txprogress e = int k \<and> eng_txlength e = int n
        else k = n \<and> \<not> eng_valid e \<and> \<not> eng_in_progress e \<and> eng_wakeups e = w0 + 1))"

text \<open>How the hardware's signals move it on, and when a beat is wrong.\<close>

definition read_next :: "nat \<Rightarrow> dma_input \<Rightarrow> nat option \<Rightarrow> nat option" where
  "read_next n i k = (case k of
      None \<Rightarrow> if in_ar_ready i = 0 then None else Some (if in_r_valid i = 0 then 0 else 1)
    | Some k \<Rightarrow> Some (if k < n \<and> in_r_valid i \<noteq> 0 then Suc k else k))"

definition beat_wrong :: "(u64 \<Rightarrow> u8) \<Rightarrow> dma_request \<Rightarrow> nat \<Rightarrow> dma_input \<Rightarrow> nat option \<Rightarrow> bool" where
  "beat_wrong m r n i k = ((case k of None \<Rightarrow> in_ar_ready i \<noteq> 0 | Some k \<Rightarrow> k < n) \<and> in_r_valid i \<noteq> 0 \<and>
     take 64 (in_r_data i) \<noteq> segment_bytes m (dma_ptr r + of_nat (64 * (case k of None \<Rightarrow> 0 | Some k \<Rightarrow> k))) 64)"

lemma mismatch_None:
  assumes "64 \<le> length d"
  shows "dma_mismatch m a d = None \<longleftrightarrow> take 64 d = segment_bytes m a 64"
  using assms by (auto simp: dma_mismatch_def find_None_iff segment_bytes_def list_eq_iff_nth_eq)

lemma read_phase_step:
  assumes inv: "read_phase r n w0 k e" and r: "\<not> dma_write r" "dma_len r = of_nat (64 * n)" "1 \<le> n" "n \<le> 256"
    and d: "64 \<le> length (in_r_data i)"
  shows "if beat_wrong m r n i k then \<exists>x. dma_tick 16 m rnd (dma_drive i e) = Inl x
    else \<exists>e'. dma_tick 16 m rnd (dma_drive i e) = Inr e' \<and> read_phase r n w0 (read_next n i k) e'"
proof -
  note len = dma_length [OF r(2-4)]
  have mis: "dma_mismatch m a (in_r_data i) = None \<longleftrightarrow> take 64 (in_r_data i) = segment_bytes m a 64" for a
    by (rule mismatch_None [OF d])
  have req: "eng_req e = r" using inv by (simp add: read_phase_def)
  show ?thesis
  proof (cases k)
    case None
    show ?thesis
      using inv req r(1,3) len None mis [of "dma_ptr r"]
      by (cases "in_ar_ready i = 0"; cases "in_r_valid i = 0"; cases "dma_mismatch m (dma_ptr r) (in_r_data i)")
         (auto simp: read_phase_def beat_wrong_def read_next_def dma_defs dma_read_phase_def)
  next
    case (Some j)
    show ?thesis
      using inv req r(1,3) Some mis [of "dma_ptr r + of_nat (64 * j)"]
      by (cases "in_r_valid i = 0"; cases "j < n"; cases "dma_mismatch m (dma_ptr r + of_nat (64 * j)) (in_r_data i)")
         (auto simp: read_phase_def beat_wrong_def read_next_def dma_defs dma_read_phase_def)
  qed
qed


section \<open>The server's loop and the engine\<close>

text \<open>
  The data server posts its transfers one after the other and sleeps until the engine wakes it; each
  comes with the cycles that pass meanwhile. The server may still be asleep at the end.
\<close>

datatype session_end = Failed dma_error | StillWaiting

fun dma_session ::
  "nat \<Rightarrow> (u64 \<Rightarrow> u8) \<Rightarrow> (dma_request \<times> dma_input list) list \<Rightarrow> dma_engine \<times> dma_seen \<Rightarrow> session_end + (dma_engine \<times> dma_seen)" where
  "dma_session wds m [] s = Inr s"
| "dma_session wds m ((r, is) # xs) (e, l) = (case dma_run wds m is (dma_post r e, l) of
      Inl x \<Rightarrow> Inl (Failed x)
    | Inr (e', l') \<Rightarrow> if eng_wakeups e' = eng_wakeups e then Inl StillWaiting else dma_session wds m xs (e', l'))"

lemma posted_write:
  assumes e: "engine_ok e" and r: "dma_write r" "dma_len r = of_nat (64 * n)" "1 \<le> n" "n \<le> 256"
  shows "\<exists>e' l'. dma_run 16 m is (dma_post r e, l) = Inr (e', l') \<and> engine_ok e' \<and>
    (eng_wakeups e' \<noteq> eng_wakeups e \<longrightarrow> eng_wakeups e' = eng_wakeups e + 1 \<and>
       l' = l\<lparr>seen_aw := seen_aw l @ [(dma_fpga_addr r, of_nat (n - 1))],
              seen_w := seen_w l @ map (dma_beat m (dma_ptr r) n) [0..<n]\<rparr>) \<and>
    ((\<forall>i \<in> set is. dma_willing i) \<and> n < length is \<longrightarrow> eng_wakeups e' \<noteq> eng_wakeups e)"
proof -
  let ?s = "(dma_post r e, l)"
  have start: "write_phase m r n (eng_wakeups e) l ?s" by (rule write_phase_post [OF e])
  obtain e' l' where run: "dma_run 16 m is ?s = Inr (e', l')" and inv: "write_phase m r n (eng_wakeups e) l (e', l')"
    using write_phase_run [OF start r] by fastforce
  have "\<not> eng_valid e'" if "\<forall>i \<in> set is. dma_willing i" "n < length is"
  proof -
    have "dma_left n (fst ?s) = Suc n" by (simp add: dma_left_def dma_post_def)
    with willing_run [OF start that(1) r run] that(2) have "dma_left n e' = 0" by simp
    then show ?thesis by (simp add: dma_left_def split: if_splits)
  qed
  then show ?thesis using run inv by (auto simp: write_phase_def)
qed

lemma request_beats:
  assumes "64 \<le> unat (dma_len r)" "unat (dma_len r) \<le> 64 * 63" "unat (dma_len r) mod 64 = 0"
  obtains n where "1 \<le> n" "n \<le> 256" "dma_len r = of_nat (64 * n)" "unat (dma_len r) = 64 * n"
proof
  let ?n = "unat (dma_len r) div 64"
  show un: "unat (dma_len r) = 64 * ?n" using assms(3) by auto
  show "dma_len r = of_nat (64 * ?n)" unfolding un [symmetric] by simp
qed (use assms in auto)

lemma session_copies:
  assumes "engine_ok e" "transfers True p q amt rs" "length iss = length rs"
  shows "case dma_session 16 m (zip rs iss) (e, l) of
      Inl x \<Rightarrow> x = StillWaiting \<and> \<not> (\<forall>(r, is) \<in> set (zip rs iss). unat (dma_len r) < 64 * length is \<and> (\<forall>i \<in> set is. dma_willing i))
    | Inr (e', l') \<Rightarrow> eng_wakeups e' = eng_wakeups e + length rs \<and>
        seen_aw l' = seen_aw l @ map (\<lambda>r. (dma_fpga_addr r, dma_len r div 64 - 1)) rs \<and>
        concat (map fst (seen_w l')) = concat (map fst (seen_w l)) @ segment_bytes m p amt"
  using assms
proof (induction rs arbitrary: iss e l p q amt)
  case Nil
  then show ?case by (simp add: segment_bytes_def)
next
  case (Cons r rs)
  obtain "is" iss' where iss: "iss = is # iss'" "length iss' = length rs" using Cons.prems(3) by (cases iss) auto
  have t: "dma_ptr r = p" "dma_fpga_addr r = q" "dma_write r" "unat (dma_len r) \<le> amt"
    "transfers True (p + dma_len r) (q + dma_len r) (amt - unat (dma_len r)) rs"
    "64 \<le> unat (dma_len r)" "unat (dma_len r) \<le> 64 * 63" "unat (dma_len r) mod 64 = 0"
    using Cons.prems(2) by simp_all
  obtain n where n: "1 \<le> n" "n \<le> 256" "dma_len r = of_nat (64 * n)" "unat (dma_len r) = 64 * n"
    using request_beats [OF t(6-8)] by blast
  obtain e' l' where X: "dma_run 16 m is (dma_post r e, l) = Inr (e', l') \<and> engine_ok e' \<and>
    (eng_wakeups e' \<noteq> eng_wakeups e \<longrightarrow> eng_wakeups e' = eng_wakeups e + 1 \<and>
       l' = l\<lparr>seen_aw := seen_aw l @ [(dma_fpga_addr r, of_nat (n - 1))],
              seen_w := seen_w l @ map (dma_beat m (dma_ptr r) n) [0..<n]\<rparr>) \<and>
    ((\<forall>i \<in> set is. dma_willing i) \<and> n < length is \<longrightarrow> eng_wakeups e' \<noteq> eng_wakeups e)"
    using posted_write [OF Cons.prems(1) t(3) n(3,1,2), of m "is" l] by blast
  then have run: "dma_run 16 m is (dma_post r e, l) = Inr (e', l')" and ok: "engine_ok e'" by blast+
  show ?case
  proof (cases "eng_wakeups e' = eng_wakeups e")
    case True
    then show ?thesis using X n(4) by (auto simp: iss)
  next
    case False
    note dl = dma_length(3) [OF n(3,1,2)]
    have bytes: "segment_bytes m p amt = segment_bytes m p (64 * n) @ segment_bytes m (p + dma_len r) (amt - unat (dma_len r))"
      using segment_bytes_add [of m p "64 * n" "amt - 64 * n"] t(4) n by simp
    show ?thesis
      using Cons.IH [OF ok t(5) iss(2), of l'] X False dl n(4)
      by (auto simp: iss bytes t(1) beats_bytes [of m p n n, unfolded comp_def] comp_def split: sum.splits)
  qed
qed


section \<open>Properties\<close>

text \<open>C7. Copying to the device in the simulation, server loop and engine together. When the
  device address translates and the length is a multiple of 64, the server posts a list of
  transfers that walks through the region without gap, and whatever the hardware's timing: the engine never fails; if the server is
  woken for each of them, the address channel carried exactly these transfers in order and the
  accepted write beats are the bytes of the host segment, complete, in order and once. With
  hardware that is always ready, one cycle more than a transfer has beats is enough.\<close>

theorem dma_copies_segment:
  assumes "translate (mappings s) faddr = Inr p" "unat len mod 64 = 0"
  shows "\<exists>rs. run_dma rnd True faddr len s = Inr (s\<lparr>dma_log := dma_log s @ rs\<rparr>) \<and> transfers True p faddr (unat len) rs \<and>
    (\<forall>iss e l. engine_ok e \<and> length iss = length rs \<longrightarrow>
      (case dma_session 16 (host_mem s) (zip rs iss) (e, l) of
         Inl x \<Rightarrow> x = StillWaiting \<and>
           \<not> (\<forall>(r, is) \<in> set (zip rs iss). unat (dma_len r) < 64 * length is \<and> (\<forall>i \<in> set is. dma_willing i))
       | Inr (e', l') \<Rightarrow> eng_wakeups e' = eng_wakeups e + length rs \<and>
           seen_aw l' = seen_aw l @ map (\<lambda>r. (dma_fpga_addr r, dma_len r div 64 - 1)) rs \<and>
           concat (map fst (seen_w l')) = concat (map fst (seen_w l)) @ segment_bytes (host_mem s) p (unat len)))"
proof -
  obtain rs where "dma_loop rnd 0 True (unat len) p faddr = (rs, None)" "transfers True p faddr (unat len) rs"
    using dma_loop_transfers [OF assms(2)] by blast
  then have "run_dma rnd True faddr len s = Inr (s\<lparr>dma_log := dma_log s @ rs\<rparr>)" "transfers True p faddr (unat len) rs"
    using assms(1) by (simp_all add: run_dma_def)
  with session_copies show ?thesis by blast
qed

definition idle_engine :: dma_engine where
  "idle_engine = (let w = (\<lambda>n. \<lparr>wr_len = n, wr_ptr = 0\<rparr>);
      a = \<lparr>ready_field = 0, valid_field = 0, id_field = w 1, size_field = w 1, burst_field = w 1, addr_field = w 8, len_field = w 1\<rparr>;
      d = \<lparr>d_ready = 0, d_valid = 0, d_data = replicate 64 0, d_strb = w 8, d_id = w 1, d_last = 0\<rparr>
    in \<lparr>eng_req = \<lparr>dma_ptr = 0, dma_fpga_addr = 0, dma_len = 0, dma_write = False\<rparr>, eng_valid = False, eng_in_progress = False,
        eng_txprogress = 0, eng_txlength = 0, eng_id1 = 0, eng_id2 = 0, eng_wakeups = 0, dma_aw = a, dma_ar = a, dma_w = d, dma_r = d,
        dma_b = \<lparr>b_ready_field = 0, b_valid_field = 0, b_id_field = w 1, send_ids = [], to_enqueue = []\<rparr>\<rparr>)"

definition unseen :: dma_seen where
  "unseen = \<lparr>seen_aw = [], seen_ar = [], seen_w = []\<rparr>"

definition ready_device :: dma_input where
  "ready_device = \<lparr>in_aw_ready = 1, in_ar_ready = 1, in_w_ready = 1, in_r_valid = 1, in_r_data = replicate 64 0,
     in_b_valid = 1, in_rand = 5\<rparr>"

theorem dma_copies_segment_witness:
  "let s = (data_server_start sim_dma 8388608 empty_file (\<lambda>a. ucast a) (\<lambda>_. 0))
             \<lparr>mappings := [\<lparr>fpga_addr = 0x1000, mapping_length = 0x1000, cpu_addr = 0x7000\<rparr>]\<rparr>
   in \<exists>rs. run_dma (\<lambda>i. 3) True 0x1040 640 s = Inr (s\<lparr>dma_log := dma_log s @ rs\<rparr>) \<and>
      (\<exists>e' l'. dma_session 16 (\<lambda>a. ucast a) (zip rs (replicate (length rs) (replicate 64 ready_device)))
           (idle_engine, \<lparr>seen_aw = [], seen_ar = [], seen_w = []\<rparr>) = Inr (e', l') \<and>
         concat (map fst (seen_w l')) = segment_bytes (\<lambda>a. ucast a) 0x7040 640)"
proof -
  let ?s = "(data_server_start sim_dma 8388608 empty_file (\<lambda>a. ucast a) (\<lambda>_. 0))
             \<lparr>mappings := [\<lparr>fpga_addr = 0x1000, mapping_length = 0x1000, cpu_addr = 0x7000\<rparr>]\<rparr>"
  have tr: "translate (mappings ?s) 0x1040 = Inr 0x7040" by (simp add: translate_def contains_addr_def)
  have hm: "host_mem ?s = (\<lambda>a. ucast a)" by (simp add: data_server_start_def)
  let ?X = "\<lambda>iss rs e l. (case dma_session 16 (host_mem ?s) (zip rs iss) (e, l) of
         Inl x \<Rightarrow> x = StillWaiting \<and>
           \<not> (\<forall>(r, is) \<in> set (zip rs iss). unat (dma_len r) < 64 * length is \<and> (\<forall>i \<in> set is. dma_willing i))
       | Inr (e', l') \<Rightarrow> eng_wakeups e' = eng_wakeups e + length rs \<and>
           seen_aw l' = seen_aw l @ map (\<lambda>r. (dma_fpga_addr r, dma_len r div 64 - 1)) rs \<and>
           concat (map fst (seen_w l')) = concat (map fst (seen_w l)) @ segment_bytes (host_mem ?s) 0x7040 (unat (640::u64)))"
  obtain rs where rs: "run_dma (\<lambda>i. 3) True 0x1040 640 ?s = Inr (?s\<lparr>dma_log := dma_log ?s @ rs\<rparr>)"
    and tr_rs: "transfers True 0x7040 0x1040 (unat (640 :: u64)) rs"
    and all: "\<And>iss e l. engine_ok e \<and> length iss = length rs \<Longrightarrow> ?X iss rs e l"
    using dma_copies_segment [OF tr, of 640 "\<lambda>i. 3"] by auto
  have small: "unat (dma_len r) < 64 * 64" if "r \<in> set rs" for r
  proof -
    have "transfers w p q n rs \<Longrightarrow> r \<in> set rs \<Longrightarrow> unat (dma_len r) < 64 * 64" for w p q n
      by (induction rs arbitrary: p q n) auto
    then show ?thesis using that tr_rs by blast
  qed
  have ok: "engine_ok idle_engine" by (simp add: idle_engine_def engine_ok_def Let_def)
  have "unat (dma_len r) < 64 * length is \<and> (\<forall>i \<in> set is. dma_willing i)"
    if "(r, is) \<in> set (zip rs (replicate (length rs) (replicate 64 ready_device)))" for r "is"
  proof -
    have "is = replicate 64 ready_device" using set_zip_rightD [OF that] by simp
    then show ?thesis using small [OF set_zip_leftD [OF that]] by (simp add: dma_willing_def ready_device_def)
  qed
  with all [OF conjI [OF ok length_replicate], of "replicate 64 ready_device" "\<lparr>seen_aw = [], seen_ar = [], seen_w = []\<rparr>"] rs hm
  show ?thesis unfolding Let_def by (auto split: sum.splits)
qed


text \<open>How a read transfer should go: beats are counted once the address was accepted, and the first
  beat that differs from the host segment ends it.\<close>

fun read_spec :: "(u64 \<Rightarrow> u8) \<Rightarrow> dma_request \<Rightarrow> nat \<Rightarrow> dma_input list \<Rightarrow> nat option \<Rightarrow> nat option option" where
  "read_spec m r n [] k = Some k"
| "read_spec m r n (i # is) k = (if beat_wrong m r n i k then None else read_spec m r n is (read_next n i k))"

lemma read_phase_run:
  assumes "read_phase r n w0 k e" "\<forall>i \<in> set is. 64 \<le> length (in_r_data i)"
    and r: "\<not> dma_write r" "dma_len r = of_nat (64 * n)" "1 \<le> n" "n \<le> 256"
  shows "case read_spec m r n is k of
      None \<Rightarrow> \<exists>x. dma_run 16 m is (e, l) = Inl x
    | Some k' \<Rightarrow> \<exists>e' l'. dma_run 16 m is (e, l) = Inr (e', l') \<and> read_phase r n w0 k' e'"
  using assms(1,2)
proof (induction "is" arbitrary: k e l)
  case (Cons i "is")
  note step = read_phase_step [OF Cons.prems(1) r, of i m "in_rand i"]
  show ?case
  proof (cases "beat_wrong m r n i k")
    case True
    then show ?thesis using step Cons.prems(2) by auto
  next
    case False
    then obtain e' where e': "dma_tick 16 m (in_rand i) (dma_drive i e) = Inr e'" "read_phase r n w0 (read_next n i k) e'"
      using step Cons.prems(2) by auto
    show ?thesis using Cons.IH [OF e'(2), of "dma_observe e' l"] Cons.prems(2) e'(1) False
      by (cases "read_spec m r n is (read_next n i k)") simp_all
  qed
qed simp

text \<open>C25. A read transfer under any timing of the hardware: the engine ends the program exactly
  when a beat it takes differs from the host segment at its place; otherwise it has counted exactly
  the beats delivered after the address was accepted, it wakes the server exactly when all have
  come, and then it is idle.\<close>

theorem dma_read_checks:
  assumes "\<not> dma_write r" "dma_len r = of_nat (64 * n)" "1 \<le> n" "n \<le> 256" "\<forall>i \<in> set is. 64 \<le> length (in_r_data i)"
  shows "case read_spec m r n is None of
      None \<Rightarrow> \<exists>x. dma_run 16 m is (dma_post r e, l) = Inl x
    | Some k \<Rightarrow> \<exists>e' l'. dma_run 16 m is (dma_post r e, l) = Inr (e', l') \<and>
        eng_wakeups e' = eng_wakeups e + (if k = Some n then 1 else 0) \<and> (eng_valid e' \<longleftrightarrow> k \<noteq> Some n)"
proof -
  have "read_phase r n (eng_wakeups e) None (dma_post r e)" by (simp add: read_phase_def dma_post_def)
  from read_phase_run [OF this assms(5,1-4), of m l] show ?thesis
    by (auto simp: read_phase_def split: option.splits if_splits)
qed

theorem dma_read_checks_witness:
  "let r = \<lparr>dma_ptr = 0x7000, dma_fpga_addr = 0x1000, dma_len = 128, dma_write = False\<rparr> in
   (\<exists>e' l'. dma_run 16 (\<lambda>_. 0) [ready_device, ready_device\<lparr>in_r_valid := 0\<rparr>, ready_device] (dma_post r idle_engine, unseen) = Inr (e', l') \<and>
      eng_wakeups e' = 1 \<and> \<not> eng_valid e') \<and>
   (\<exists>x. dma_run 16 (\<lambda>a. if a = 0x7041 then 1 else 0) [ready_device, ready_device] (dma_post r idle_engine, unseen) = Inl x)"
proof -
  let ?r = "\<lparr>dma_ptr = 0x7000, dma_fpga_addr = 0x1000, dma_len = 128, dma_write = False\<rparr>"
  have zero: "segment_bytes (\<lambda>_. 0) a 64 = replicate 64 0" for a
    by (simp add: segment_bytes_def map_replicate_const)
  have "read_spec (\<lambda>_. 0) ?r 2 [ready_device, ready_device\<lparr>in_r_valid := 0\<rparr>, ready_device] None = Some (Some 2)"
    by (simp add: ready_device_def beat_wrong_def read_next_def zero)
  moreover have "read_spec (\<lambda>a. if a = 0x7041 then 1 else 0) ?r 2 [ready_device, ready_device] None = None"
    by (simp add: ready_device_def beat_wrong_def read_next_def segment_bytes_def upt_rec)
  ultimately show ?thesis
    using dma_read_checks [of ?r 2 "[ready_device, ready_device\<lparr>in_r_valid := 0\<rparr>, ready_device]" "\<lambda>_. 0" idle_engine unseen]
      dma_read_checks [of ?r 2 "[ready_device, ready_device]" "\<lambda>a. if a = 0x7041 then 1 else 0" idle_engine unseen]
    by (simp add: ready_device_def idle_engine_def Let_def)
qed

end
