(* ===== verification/HmcPacket.thy ===== *)
theory HmcPacket
  imports DramSystem
begin

text \<open>
  The packets of the hybrid memory cube (\<^verbatim>\<open>runtime/DRAMsim3/include/dramsim3/hmc.h\<close> and the two
  constructors in \<^verbatim>\<open>src/hmc.cc\<close>): the request and response types, how many flits a packet has, and
  which response answers which request.
\<close>

section \<open>Types of requests and responses\<close>

datatype HMCReqType =
    RD0 | RD16 | RD32 | RD48 | RD64 | RD80 | RD96 | RD112 | RD128 | RD256 | WR0 | WR16 | WR32 | WR48 | WR64
    | WR80 | WR96 | WR112 | WR128 | WR256 | P_WR16 | P_WR32 | P_WR48 | P_WR64 | P_WR80 | P_WR96 | P_WR112
    | P_WR128 | P_WR256 | ADD8 | ADD16 | P_2ADD8 | P_ADD16 | ADDS8R | ADDS16R | INC8 | P_INC8 | XOR16 | OR16
    | NOR16 | AND16 | NAND16 | CASGT8 | CASGT16 | CASLT8 | CASLT16 | CASEQ8 | CASZERO16 | EQ8 | EQ16 | BWR
    | P_BWR | BWR8R | SWAP16 | Req_SIZE

datatype HMCRespType = NONE | RD_RS | WR_RS | ERR | Resp_SIZE

datatype hmc_error =
    Dram dram_error | AbruptExit_Packet | AbruptExit_BlockSize | AbruptExit_NotHMC | LengthError | BadSpeed
  | BadIndex | EmptyQueue | NoResponse | HmcDivZero | Diverges

text \<open>The position of a type in the enumeration, by which the code compares types.\<close>

fun req_code :: "HMCReqType \<Rightarrow> nat" where
  "req_code RD0 = 0" | "req_code RD16 = 1" | "req_code RD32 = 2" | "req_code RD48 = 3" | "req_code RD64 = 4"
| "req_code RD80 = 5" | "req_code RD96 = 6" | "req_code RD112 = 7" | "req_code RD128 = 8" | "req_code RD256 = 9"
| "req_code WR0 = 10" | "req_code WR16 = 11" | "req_code WR32 = 12" | "req_code WR48 = 13" | "req_code WR64 = 14"
| "req_code WR80 = 15" | "req_code WR96 = 16" | "req_code WR112 = 17" | "req_code WR128 = 18"
| "req_code WR256 = 19" | "req_code P_WR16 = 20" | "req_code P_WR32 = 21" | "req_code P_WR48 = 22"
| "req_code P_WR64 = 23" | "req_code P_WR80 = 24" | "req_code P_WR96 = 25" | "req_code P_WR112 = 26"
| "req_code P_WR128 = 27" | "req_code P_WR256 = 28" | "req_code ADD8 = 29" | "req_code ADD16 = 30"
| "req_code P_2ADD8 = 31" | "req_code P_ADD16 = 32" | "req_code ADDS8R = 33" | "req_code ADDS16R = 34"
| "req_code INC8 = 35" | "req_code P_INC8 = 36" | "req_code XOR16 = 37" | "req_code OR16 = 38"
| "req_code NOR16 = 39" | "req_code AND16 = 40" | "req_code NAND16 = 41" | "req_code CASGT8 = 42"
| "req_code CASGT16 = 43" | "req_code CASLT8 = 44" | "req_code CASLT16 = 45" | "req_code CASEQ8 = 46"
| "req_code CASZERO16 = 47" | "req_code EQ8 = 48" | "req_code EQ16 = 49" | "req_code BWR = 50"
| "req_code P_BWR = 51" | "req_code BWR8R = 52" | "req_code SWAP16 = 53" | "req_code Req_SIZE = 54"

definition req_types :: "HMCReqType list" where
  "req_types = [
     RD0, RD16, RD32, RD48, RD64, RD80, RD96, RD112, RD128, RD256, WR0, WR16, WR32, WR48, WR64, WR80, WR96
     , WR112, WR128, WR256, P_WR16, P_WR32, P_WR48, P_WR64, P_WR80, P_WR96, P_WR112, P_WR128, P_WR256, ADD8
     , ADD16, P_2ADD8, P_ADD16, ADDS8R, ADDS16R, INC8, P_INC8, XOR16, OR16, NOR16, AND16, NAND16, CASGT8
     , CASGT16, CASLT8, CASLT16, CASEQ8, CASZERO16, EQ8, EQ16, BWR, P_BWR, BWR8R, SWAP16, Req_SIZE]"

lemma req_types_code: "req_types ! req_code t = t"
  by (cases t) (simp_all add: req_types_def)

lemma req_code_inject: "req_code a = req_code b \<longleftrightarrow> a = b"
  by (metis req_types_code)

instantiation HMCReqType :: linorder
begin

definition less_eq_HMCReqType :: "HMCReqType \<Rightarrow> HMCReqType \<Rightarrow> bool" where
  "a \<le> b \<longleftrightarrow> req_code a \<le> req_code b"

definition less_HMCReqType :: "HMCReqType \<Rightarrow> HMCReqType \<Rightarrow> bool" where
  "a < b \<longleftrightarrow> req_code a < req_code b"

instance
  by standard (auto simp: less_eq_HMCReqType_def less_HMCReqType_def req_code_inject [symmetric])

end

section \<open>Requests\<close>

text \<open>\<^verbatim>\<open>flits\<close> of a request; types without an entry end the program.\<close>

fun req_flits :: "HMCReqType \<Rightarrow> hmc_error + int" where
  "req_flits RD0 = Inr 0" | "req_flits RD16 = Inr 1" | "req_flits RD32 = Inr 1" | "req_flits RD48 = Inr 1"
| "req_flits RD64 = Inr 1" | "req_flits RD80 = Inr 1" | "req_flits RD96 = Inr 1" | "req_flits RD112 = Inr 1"
| "req_flits RD128 = Inr 1" | "req_flits RD256 = Inr 1" | "req_flits WR0 = Inr 0" | "req_flits WR16 = Inr 2"
| "req_flits WR32 = Inr 3" | "req_flits WR48 = Inr 4" | "req_flits WR64 = Inr 5" | "req_flits WR80 = Inr 6"
| "req_flits WR96 = Inr 7" | "req_flits WR112 = Inr 8" | "req_flits WR128 = Inr 9" | "req_flits WR256 = Inr 17"
| "req_flits P_WR16 = Inr 2" | "req_flits P_WR32 = Inr 3" | "req_flits P_WR48 = Inr 4" | "req_flits P_WR64 = Inr 5"
| "req_flits P_WR80 = Inr 6" | "req_flits P_WR96 = Inr 7" | "req_flits P_WR112 = Inr 8"
| "req_flits P_WR128 = Inr 9" | "req_flits P_WR256 = Inr 17" | "req_flits ADD8 = Inr 2" | "req_flits ADD16 = Inr 2"
| "req_flits P_2ADD8 = Inr 2" | "req_flits P_ADD16 = Inr 2" | "req_flits ADDS8R = Inr 2"
| "req_flits ADDS16R = Inr 2" | "req_flits INC8 = Inr 1" | "req_flits P_INC8 = Inr 1" | "req_flits XOR16 = Inr 2"
| "req_flits OR16 = Inr 2" | "req_flits NOR16 = Inr 2" | "req_flits AND16 = Inr 2" | "req_flits NAND16 = Inr 2"
| "req_flits CASGT8 = Inr 2" | "req_flits CASGT16 = Inr 2" | "req_flits CASLT8 = Inr 2"
| "req_flits CASLT16 = Inr 2" | "req_flits CASEQ8 = Inr 2" | "req_flits CASZERO16 = Inr 2"
| "req_flits EQ8 = Inr 2" | "req_flits EQ16 = Inr 2" | "req_flits BWR = Inr 2" | "req_flits P_BWR = Inr 2"
| "req_flits BWR8R = Inr 2" | "req_flits SWAP16 = Inr 2" | "req_flits Req_SIZE = Inl AbruptExit_Packet"

record hmc_request =
  rq_type :: HMCReqType
  mem_operand :: u64
  rq_link :: nat
  rq_quad :: int
  rq_vault :: int
  rq_flits :: int
  rq_is_write :: bool
  rq_exit_time :: nat

definition mk_request :: "HMCReqType \<Rightarrow> u64 \<Rightarrow> int \<Rightarrow> hmc_error + hmc_request" where
  "mk_request t a vault = andThen (req_flits t) (\<lambda>f.
     Inr \<lparr>rq_type = t, mem_operand = a, rq_link = 0, rq_quad = vault smod 4, rq_vault = vault, rq_flits = f,
          rq_is_write = (t \<ge> WR0 \<and> t \<le> P_WR256), rq_exit_time = 0\<rparr>)"

section \<open>Responses\<close>

fun resp_kind :: "HMCReqType \<Rightarrow> hmc_error + (HMCRespType \<times> int)" where
  "resp_kind RD0 = Inr (RD_RS, 0)" | "resp_kind RD16 = Inr (RD_RS, 2)" | "resp_kind RD32 = Inr (RD_RS, 3)"
| "resp_kind RD48 = Inr (RD_RS, 4)" | "resp_kind RD64 = Inr (RD_RS, 5)" | "resp_kind RD80 = Inr (RD_RS, 6)"
| "resp_kind RD96 = Inr (RD_RS, 7)" | "resp_kind RD112 = Inr (RD_RS, 8)" | "resp_kind RD128 = Inr (RD_RS, 9)"
| "resp_kind RD256 = Inr (RD_RS, 17)" | "resp_kind WR0 = Inr (WR_RS, 0)" | "resp_kind WR16 = Inr (WR_RS, 1)"
| "resp_kind WR32 = Inr (WR_RS, 1)" | "resp_kind WR48 = Inr (WR_RS, 1)" | "resp_kind WR64 = Inr (WR_RS, 1)"
| "resp_kind WR80 = Inr (WR_RS, 1)" | "resp_kind WR96 = Inr (WR_RS, 1)" | "resp_kind WR112 = Inr (WR_RS, 1)"
| "resp_kind WR128 = Inr (WR_RS, 1)" | "resp_kind WR256 = Inr (WR_RS, 1)" | "resp_kind P_WR16 = Inr (NONE, 0)"
| "resp_kind P_WR32 = Inr (NONE, 0)" | "resp_kind P_WR48 = Inr (NONE, 0)" | "resp_kind P_WR64 = Inr (NONE, 0)"
| "resp_kind P_WR80 = Inr (NONE, 0)" | "resp_kind P_WR96 = Inr (NONE, 0)" | "resp_kind P_WR112 = Inr (NONE, 0)"
| "resp_kind P_WR128 = Inr (NONE, 0)" | "resp_kind P_WR256 = Inr (NONE, 0)" | "resp_kind ADD8 = Inr (WR_RS, 1)"
| "resp_kind ADD16 = Inr (WR_RS, 1)" | "resp_kind P_2ADD8 = Inr (NONE, 0)" | "resp_kind P_ADD16 = Inr (NONE, 0)"
| "resp_kind ADDS8R = Inr (RD_RS, 2)" | "resp_kind ADDS16R = Inr (RD_RS, 2)" | "resp_kind INC8 = Inr (WR_RS, 1)"
| "resp_kind P_INC8 = Inr (NONE, 0)" | "resp_kind XOR16 = Inr (RD_RS, 2)" | "resp_kind OR16 = Inr (RD_RS, 2)"
| "resp_kind NOR16 = Inr (RD_RS, 2)" | "resp_kind AND16 = Inr (RD_RS, 2)" | "resp_kind NAND16 = Inr (RD_RS, 2)"
| "resp_kind CASGT8 = Inr (RD_RS, 2)" | "resp_kind CASGT16 = Inr (RD_RS, 2)" | "resp_kind CASLT8 = Inr (RD_RS, 2)"
| "resp_kind CASLT16 = Inr (RD_RS, 2)" | "resp_kind CASEQ8 = Inr (RD_RS, 2)"
| "resp_kind CASZERO16 = Inr (RD_RS, 2)" | "resp_kind EQ8 = Inr (WR_RS, 1)" | "resp_kind EQ16 = Inr (WR_RS, 1)"
| "resp_kind BWR = Inr (WR_RS, 1)" | "resp_kind P_BWR = Inr (NONE, 0)" | "resp_kind BWR8R = Inr (RD_RS, 2)"
| "resp_kind SWAP16 = Inr (RD_RS, 2)" | "resp_kind Req_SIZE = Inl AbruptExit_Packet"

record hmc_response =
  resp_id :: u64
  rs_type :: HMCRespType
  rs_link :: nat
  rs_quad :: int
  rs_flits :: int
  rs_exit_time :: nat

definition mk_response :: "u64 \<Rightarrow> HMCReqType \<Rightarrow> nat \<Rightarrow> int \<Rightarrow> hmc_error + hmc_response" where
  "mk_response i t link quad = andThen (resp_kind t) (\<lambda>(k, f).
     Inr \<lparr>resp_id = i, rs_type = k, rs_link = link, rs_quad = quad, rs_flits = f, rs_exit_time = 0\<rparr>)"

end
