(* ===== verification/DramHmc.thy ===== *)
theory DramHmc
  imports HmcPacket
begin

text \<open>
  The hybrid memory cube (\<^verbatim>\<open>runtime/DRAMsim3/src/hmc.cc\<close>): requests enter by one of several links, cross
  to one of four quadrants and from there to a vault, a memory controller; the responses take the way
  back. Each hop is a bounded queue; a crossbar port is busy for the flits of the packet it carried, and
  among the waiting links or quadrants a round-robin scan with ages decides. A request is moved from
  queue to queue, so the queues hold the packets themselves; the multimap of waiting responses is the
  list of its values in the order they were inserted. Reading an empty queue, an index out of range and
  a missing response, which C++ leaves undefined, are errors. Picoseconds are natural numbers.
\<close>

section \<open>State\<close>

text \<open>The parameters of the section \<^verbatim>\<open>hmc\<close> of the configuration file.\<close>

record hmc_params =
  num_links :: int
  link_width :: int
  link_speed :: int
  block_size :: int
  xbar_queue_depth :: int

definition InitHMCParams :: "ini_file \<Rightarrow> hmc_params" where
  "InitHMCParams f = \<lparr>num_links = GetInteger f ''hmc'' ''num_links'' 4, link_width = GetInteger f ''hmc'' ''link_width'' 16,
     link_speed = GetInteger f ''hmc'' ''link_speed'' 15000, block_size = GetInteger f ''hmc'' ''block_size'' 64,
     xbar_queue_depth = GetInteger f ''hmc'' ''xbar_queue_depth'' 16\<rparr>"

record hmc_system =
  vaults :: "controller list"
  hm_clk :: nat
  hm_last_req_clk :: nat
  logic_clk :: nat
  ps_per_dram :: nat
  ps_per_logic :: nat
  logic_ps :: nat
  dram_ps :: nat
  next_link :: nat
  links :: nat
  queue_depth :: nat
  resp_lookup_table :: "hmc_response list"
  link_req_queues :: "hmc_request list list"
  link_resp_queues :: "hmc_response list list"
  quad_req_queues :: "hmc_request list list"
  quad_resp_queues :: "hmc_response list list"
  link_busy :: "int list"
  quad_busy :: "int list"
  link_age_counter :: "int list"
  quad_age_counter :: "int list"

text \<open>
  The clock ratio. The quotient of two doubles is truncated: for operands below \<open>2 ^ 53\<close> that is the
  integer quotient. A speed that is not positive makes the conversion to \<^verbatim>\<open>uint64_t\<close> undefined.
\<close>

definition SetClockRatio :: "hmc_params \<Rightarrow> hmc_error + (nat \<times> nat)" where
  "SetClockRatio h =
     (if link_width h = 0 then Inl HmcDivZero
      else let link_cycles_per_flit = 128 sdiv link_width h in
      if link_cycles_per_flit = 0 then Inl HmcDivZero
      else let logic_speed = link_speed h sdiv link_cycles_per_flit in
      if logic_speed \<le> 0 then Inl BadSpeed
      else Inr (800, min (nat (1000000 div logic_speed)) 800))"

definition from_dram :: "dram_error + 'a \<Rightarrow> hmc_error + 'a" where
  "from_dram m = (case m of Inl e \<Rightarrow> Inl (Dram e) | Inr a \<Rightarrow> Inr a)"

definition new_hmc :: "dram_config \<Rightarrow> hmc_params \<Rightarrow> hmc_error + hmc_system" where
  "new_hmc c h =
     (if \<not> IsHMC c then Inl AbruptExit_NotHMC
      else andThen (SetClockRatio h) (\<lambda>(pd, pl).
        andThen (from_dram (new_controller c)) (\<lambda>ct.
        if channels c < 0 \<or> num_links h < 0 then Inl LengthError
        else let l = nat (num_links h) in
        Inr \<lparr>vaults = replicate (nat (channels c)) ct, hm_clk = 0, hm_last_req_clk = 0, logic_clk = 0,
             ps_per_dram = pd, ps_per_logic = pl, logic_ps = 0, dram_ps = 0, next_link = 0, links = l,
             queue_depth = nat (xbar_queue_depth h mod 2 ^ 64), resp_lookup_table = [],
             link_req_queues = replicate l [], link_resp_queues = replicate l [],
             quad_req_queues = replicate 4 [], quad_resp_queues = replicate 4 [],
             link_busy = replicate l 0, quad_busy = replicate 4 0,
             link_age_counter = replicate l 0, quad_age_counter = replicate 4 0\<rparr>)))"

text \<open>\<open>v[i]\<close> of a vector, for an index computed as an \<^verbatim>\<open>int\<close>.\<close>

definition at_index :: "int \<Rightarrow> 'a list \<Rightarrow> hmc_error + nat" where
  "at_index i l = (if 0 \<le> i \<and> nat i < length l then Inr (nat i) else Inl BadIndex)"

section \<open>Accepting requests\<close>

definition IterateNextLink :: "hmc_system \<Rightarrow> hmc_error + hmc_system" where
  "IterateNextLink s =
     (if links s = 0 then Inl HmcDivZero else Inr (s\<lparr>next_link := (next_link s + 1) mod links s\<rparr>))"

definition hmc_WillAcceptTransaction :: "u64 \<Rightarrow> bool \<Rightarrow> hmc_system \<Rightarrow> hmc_error + bool" where
  "hmc_WillAcceptTransaction a w s = Inr (list_ex (\<lambda>q. length q < queue_depth s) (link_req_queues s))"

definition InsertReqToLink :: "hmc_request \<Rightarrow> nat \<Rightarrow> hmc_system \<Rightarrow> hmc_error + (bool \<times> hmc_system)" where
  "InsertReqToLink req link s =
     (if link \<ge> length (link_req_queues s) then Inl BadIndex
      else if length (link_req_queues s ! link) < queue_depth s then
        andThen (mk_response (mem_operand req) (rq_type req) link (rq_quad req)) (\<lambda>resp.
          Inr (True, s\<lparr>link_req_queues := (link_req_queues s)[link := link_req_queues s ! link @ [req\<lparr>rq_link := link\<rparr>]],
                       resp_lookup_table := resp_lookup_table s @ [resp],
                       link_age_counter := (link_age_counter s)[link := 1],
                       hm_last_req_clk := hm_clk s\<rparr>))
      else Inr (False, s))"

text \<open>
  The loop over the other links. It ends after at most as many turns as there are links, since
  \<open>next_link\<close> runs through all of them; the bound is the first argument.
\<close>

fun insert_loop :: "nat \<Rightarrow> nat \<Rightarrow> hmc_request \<Rightarrow> hmc_system \<Rightarrow> hmc_error + (bool \<times> hmc_system)" where
  "insert_loop n start_link req s =
     (if next_link s = start_link then Inr (False, s)
      else case n of
        0 \<Rightarrow> Inl Diverges
      | Suc n \<Rightarrow> andThen (InsertReqToLink req (next_link s) s) (\<lambda>(ok, s1). andThen (IterateNextLink s1) (\<lambda>s2.
          if ok then Inr (True, s2) else insert_loop n start_link req s2)))"

declare insert_loop.simps [simp del]

definition InsertHMCReq :: "hmc_request \<Rightarrow> hmc_system \<Rightarrow> hmc_error + (bool \<times> hmc_system)" where
  "InsertHMCReq req s =
     andThen (InsertReqToLink req (next_link s) s) (\<lambda>(ok, s1). andThen (IterateNextLink s1) (\<lambda>s2.
       if ok then Inr (True, s2) else insert_loop (links s2) (next_link s1) req s2))"

definition block_type :: "int \<Rightarrow> bool \<Rightarrow> hmc_error + HMCReqType" where
  "block_type n is_write =
     (if is_write then
        (if n = 0 then Inr WR0 else if n = 32 then Inr WR32 else if n = 64 then Inr WR64
         else if n = 128 then Inr WR128 else if n = 256 then Inr WR256 else Inl AbruptExit_BlockSize)
      else
        (if n = 0 then Inr RD0 else if n = 32 then Inr RD32 else if n = 64 then Inr RD64
         else if n = 128 then Inr RD128 else if n = 256 then Inr RD256 else Inl AbruptExit_BlockSize))"

definition hmc_AddTransaction :: "dram_config \<Rightarrow> hmc_params \<Rightarrow> u64 \<Rightarrow> bool \<Rightarrow> hmc_system \<Rightarrow> hmc_error + (bool \<times> hmc_system)" where
  "hmc_AddTransaction c h a w s =
     andThen (block_type (block_size h) w) (\<lambda>t.
     andThen (mk_request t a (GetChannel c a)) (\<lambda>req. InsertHMCReq req s))"

section \<open>Arbitration\<close>

text \<open>
  The scan that builds the order of arbitration. The age is compared with the position stored in the
  queue, not with the age at that position.
\<close>

fun age_insert :: "int \<Rightarrow> nat \<Rightarrow> nat list \<Rightarrow> nat list" where
  "age_insert age pos [] = [pos]"
| "age_insert age pos (x # xs) = (if age > int x then pos # x # xs else x # age_insert age pos xs)"

definition BuildAgeQueue :: "nat \<Rightarrow> int list \<Rightarrow> hmc_error + nat list" where
  "BuildAgeQueue clk age_counter =
     (let n = length age_counter in
      if n = 0 then Inl HmcDivZero
      else Inr (fold (\<lambda>i q. let pos = (i + clk mod n) mod n in
                 if age_counter ! pos > 0 then age_insert (age_counter ! pos) pos q else q) [0..<n] []))"

definition xbar_drain :: "int list \<Rightarrow> int list" where
  "xbar_drain busy = map (\<lambda>i. if i > 0 then i - 2 else i) busy"

section \<open>Requests on their way to the vaults\<close>

definition InsertReqToDRAM :: "dram_config \<Rightarrow> hmc_request \<Rightarrow> nat \<Rightarrow> hmc_system \<Rightarrow> hmc_system" where
  "InsertReqToDRAM c req v s =
     s\<lparr>vaults := (vaults s)[v := ctl_AddTransaction c (mk_transaction (mem_operand req) (rq_is_write req)) (vaults s ! v)]\<rparr>"

definition drain_quad :: "dram_config \<Rightarrow> nat \<Rightarrow> hmc_system \<Rightarrow> hmc_error + hmc_system" where
  "drain_quad c i s =
     (case quad_req_queues s ! i of
        [] \<Rightarrow> Inr s
      | req # rest \<Rightarrow>
          if length (quad_resp_queues s ! i) < queue_depth s \<and> rq_exit_time req \<le> logic_clk s then
            andThen (at_index (rq_vault req) (vaults s)) (\<lambda>v.
              if ctl_WillAcceptTransaction c (vaults s ! v) (rq_is_write req)
              then Inr ((InsertReqToDRAM c req v s)\<lparr>quad_req_queues := (quad_req_queues s)[i := rest]\<rparr>)
              else Inr s)
          else Inr s)"

definition move_request :: "nat \<Rightarrow> hmc_system \<Rightarrow> hmc_error + hmc_system" where
  "move_request src s =
     (case link_req_queues s ! src of
        [] \<Rightarrow> Inl EmptyQueue
      | req # rest \<Rightarrow>
          andThen (at_index (rq_quad req) (quad_req_queues s)) (\<lambda>dest.
            if length (quad_req_queues s ! dest) < queue_depth s \<and> quad_busy s ! dest \<le> 0 then
              Inr (s\<lparr>link_req_queues := (link_req_queues s)[src := rest],
                     quad_req_queues := (quad_req_queues s)[dest := quad_req_queues s ! dest @
                       [req\<lparr>rq_exit_time := logic_clk s + nat (rq_flits req)\<rparr>]],
                     quad_busy := (quad_busy s)[dest := rq_flits req],
                     link_age_counter := (link_age_counter s)[src := (if rest = [] then 0 else 1)]\<rparr>)
            else Inr (s\<lparr>link_age_counter := (link_age_counter s)[src := link_age_counter s ! src + 1]\<rparr>)))"

definition DrainRequests :: "dram_config \<Rightarrow> hmc_system \<Rightarrow> hmc_error + hmc_system" where
  "DrainRequests c s =
     andThen (run_all (drain_quad c) [0..<4] s) (\<lambda>s1.
       let s2 = s1\<lparr>quad_busy := xbar_drain (quad_busy s1)\<rparr> in
       andThen (BuildAgeQueue (logic_clk s2) (link_age_counter s2)) (\<lambda>order. run_all move_request order s2))"

section \<open>Responses on their way back\<close>

definition return_response :: "nat \<Rightarrow> hmc_system \<Rightarrow> (u64 \<times> bool) list \<times> hmc_system" where
  "return_response i s =
     (case link_resp_queues s ! i of
        [] \<Rightarrow> ([], s)
      | resp # rest \<Rightarrow>
          if rs_exit_time resp \<le> logic_clk s
          then ([(resp_id resp, rs_type resp \<noteq> RD_RS)], s\<lparr>link_resp_queues := (link_resp_queues s)[i := rest]\<rparr>)
          else ([], s))"

fun return_all :: "nat list \<Rightarrow> hmc_system \<Rightarrow> (u64 \<times> bool) list \<times> hmc_system" where
  "return_all [] s = ([], s)"
| "return_all (i # is) s = (case return_response i s of (cb, s1) \<Rightarrow> (case return_all is s1 of (cbs, s2) \<Rightarrow> (cb @ cbs, s2)))"

definition move_response :: "nat \<Rightarrow> hmc_system \<Rightarrow> hmc_error + hmc_system" where
  "move_response src s =
     (case quad_resp_queues s ! src of
        [] \<Rightarrow> Inl EmptyQueue
      | resp # rest \<Rightarrow>
          if rs_link resp \<ge> length (link_resp_queues s) then Inl BadIndex
          else let dest = rs_link resp in
          if length (link_resp_queues s ! dest) < queue_depth s \<and> link_busy s ! dest \<le> 0 then
            Inr (s\<lparr>quad_resp_queues := (quad_resp_queues s)[src := rest],
                   link_resp_queues := (link_resp_queues s)[dest := link_resp_queues s ! dest @
                     [resp\<lparr>rs_exit_time := logic_clk s + nat (rs_flits resp)\<rparr>]],
                   link_busy := (link_busy s)[dest := rs_flits resp],
                   quad_age_counter := (quad_age_counter s)[src := (if rest = [] then 0 else 1)]\<rparr>)
          else Inr (s\<lparr>quad_age_counter := (quad_age_counter s)[src := quad_age_counter s ! src + 1]\<rparr>))"

definition DrainResponses :: "hmc_system \<Rightarrow> hmc_error + ((u64 \<times> bool) list \<times> hmc_system)" where
  "DrainResponses s =
     (case return_all [0..<links s] s of (cb, s1) \<Rightarrow>
       let s2 = s1\<lparr>link_busy := xbar_drain (link_busy s1)\<rparr> in
       andThen (BuildAgeQueue (logic_clk s2) (quad_age_counter s2)) (\<lambda>order.
       andThen (run_all move_response order s2) (\<lambda>s3. Inr (cb, s3))))"

section \<open>Cycles\<close>

text \<open>A vault is done with an address: the first response waiting for it enters the crossbar.\<close>

definition VaultCallback :: "u64 \<Rightarrow> hmc_system \<Rightarrow> hmc_error + hmc_system" where
  "VaultCallback a s =
     (case find (\<lambda>r. resp_id r = a) (resp_lookup_table s) of
        None \<Rightarrow> Inl NoResponse
      | Some resp \<Rightarrow>
          andThen (at_index (rs_quad resp) (quad_resp_queues s)) (\<lambda>q.
            Inr (s\<lparr>resp_lookup_table := erase_first (\<lambda>r. resp_id r = a) (resp_lookup_table s),
                   quad_resp_queues := (quad_resp_queues s)[q := quad_resp_queues s ! q @ [resp]],
                   quad_age_counter := (quad_age_counter s)[q := 1]\<rparr>)))"

definition DRAMClockTick :: "dram_config \<Rightarrow> hmc_system \<Rightarrow> hmc_error + hmc_system" where
  "DRAMClockTick c s =
     (let ds = map (drain (hm_clk s)) (vaults s) in
      andThen (run_all VaultCallback (map fst (concat (map fst ds))) (s\<lparr>vaults := map snd ds\<rparr>)) (\<lambda>s1.
      andThen (from_dram (tick_all c (vaults s1))) (\<lambda>cts. Inr (s1\<lparr>vaults := cts, hm_clk := hm_clk s1 + 1\<rparr>))))"

definition logic_step :: "hmc_system \<Rightarrow> hmc_system" where
  "logic_step s = s\<lparr>logic_ps := logic_ps s + ps_per_logic s, logic_clk := logic_clk s + 1\<rparr>"


lemma andThen_cong [fundef_cong]:
  "m = m' \<Longrightarrow> (\<And>a. m' = Inr a \<Longrightarrow> f a = g a) \<Longrightarrow> andThen m f = andThen m' g"
  by (cases m') simp_all

definition timers :: "hmc_system \<Rightarrow> nat \<times> nat \<times> nat \<times> nat" where
  "timers s = (logic_ps s, dram_ps s, ps_per_logic s, ps_per_dram s)"

lemma run_all_frame:
  "(\<And>x s s'. step x s = Inr s' \<Longrightarrow> P s' = P s) \<Longrightarrow> run_all step xs s = Inr s' \<Longrightarrow> P s' = P s"
  by (induction xs arbitrary: s) (auto simp: andThen_Inr_iff)

lemma update_timers [simp]:
  "timers (s\<lparr>vaults := v\<rparr>) = timers s" "timers (s\<lparr>quad_req_queues := q\<rparr>) = timers s"
  "timers (s\<lparr>link_req_queues := l\<rparr>) = timers s" "timers (s\<lparr>quad_busy := b\<rparr>) = timers s"
  "timers (s\<lparr>link_age_counter := a\<rparr>) = timers s" "timers (s\<lparr>quad_resp_queues := r\<rparr>) = timers s"
  "timers (s\<lparr>link_resp_queues := t\<rparr>) = timers s" "timers (s\<lparr>link_busy := b\<rparr>) = timers s"
  "timers (s\<lparr>quad_age_counter := a\<rparr>) = timers s" "timers (s\<lparr>resp_lookup_table := x\<rparr>) = timers s"
  by (simp_all add: timers_def)

lemma drain_quad_timers: "on_Inr (\<lambda>s'. timers s' = timers s) (drain_quad c i s)"
  by (cases "quad_req_queues s ! i") (simp_all add: drain_quad_def InsertReqToDRAM_def at_index_def)

lemma move_request_timers: "on_Inr (\<lambda>s'. timers s' = timers s) (move_request i s)"
  by (cases "link_req_queues s ! i") (simp_all add: move_request_def at_index_def)

lemma move_response_timers: "on_Inr (\<lambda>s'. timers s' = timers s) (move_response i s)"
  by (cases "quad_resp_queues s ! i") (simp_all add: move_response_def Let_def)

lemmas move_timers = drain_quad_timers [THEN on_InrD] move_request_timers [THEN on_InrD] move_response_timers [THEN on_InrD]

lemma return_timers: "timers (snd (return_all is s)) = timers s"
proof (induction "is" arbitrary: s)
  case (Cons i "is")
  have "timers (snd (return_response i s)) = timers s"
    by (cases "link_resp_queues s ! i") (simp_all add: return_response_def)
  then show ?case using Cons by (simp add: split_beta)
qed simp

lemma DrainRequests_timers:
  assumes "DrainRequests c s = Inr s'"
  shows "timers s' = timers s"
proof -
  obtain s1 order where "run_all (drain_quad c) [0..<4] s = Inr s1"
    "run_all move_request order (s1\<lparr>quad_busy := xbar_drain (quad_busy s1)\<rparr>) = Inr s'"
    using assms by (auto simp: DrainRequests_def Let_def andThen_Inr_iff)
  then show ?thesis using run_all_frame [where P = timers, OF move_timers(1)] run_all_frame [where P = timers, OF move_timers(2)] by fastforce
qed

lemma DrainResponses_timers:
  assumes "DrainResponses s = Inr (cb, s')"
  shows "timers s' = timers s"
proof -
  obtain order where
    "run_all move_response order ((snd (return_all [0..<links s] s))\<lparr>link_busy := xbar_drain (link_busy (snd (return_all [0..<links s] s)))\<rparr>) = Inr s'"
    using assms by (auto simp: DrainResponses_def Let_def andThen_Inr_iff split_beta)
  then show ?thesis using return_timers run_all_frame [where P = timers, OF move_timers(3)] by fastforce
qed

text \<open>
  The logic cycles within one DRAM cycle. A logic cycle of no length would repeat for ever; that is the
  error \<open>Diverges\<close>.
\<close>

function logic_cycles :: "dram_config \<Rightarrow> hmc_system \<Rightarrow> hmc_error + ((u64 \<times> bool) list \<times> hmc_system)" where
  "logic_cycles c s =
     (if logic_ps s < dram_ps s + ps_per_dram s then
        if ps_per_logic s = 0 then Inl Diverges
        else andThen (DrainResponses s) (\<lambda>(cb, s1). andThen (DrainRequests c s1) (\<lambda>s2.
             andThen (logic_cycles c (logic_step s2)) (\<lambda>(cbs, s3). Inr (cb @ cbs, s3))))
      else Inr ([], s))"
  by pat_completeness auto
termination
  by (relation "measure (\<lambda>(c, s). dram_ps s + ps_per_dram s - logic_ps s)")
    (auto simp: logic_step_def timers_def dest!: DrainRequests_timers DrainResponses_timers)

declare logic_cycles.simps [simp del]

definition hmc_ClockTick :: "dram_config \<Rightarrow> hmc_system \<Rightarrow> hmc_error + ((u64 \<times> bool) list \<times> hmc_system)" where
  "hmc_ClockTick c s =
     andThen (if dram_ps s = logic_ps s
              then andThen (DrainResponses s) (\<lambda>(cb, s1). andThen (DRAMClockTick c s1) (\<lambda>s2.
                   andThen (DrainRequests c s2) (\<lambda>s3. Inr (cb, logic_step s3))))
              else andThen (DRAMClockTick c s) (\<lambda>s1. Inr ([], s1))) (\<lambda>(cb, s1).
     andThen (logic_cycles c s1) (\<lambda>(cbs, s2). Inr (cb @ cbs, s2\<lparr>dram_ps := dram_ps s2 + ps_per_dram s2\<rparr>)))"

end
