(* ===== verification/HmcRun.thy ===== *)
theory HmcRun
  imports DramHmc
begin

text \<open>
  What the hybrid memory cube keeps over any run: every request it has accepted is in exactly one of
  its queues or in a vault and has exactly one response waiting for it, the ages say which queues are
  occupied, and the queues keep within their depth. So the cube is a memory like the other systems.
\<close>

section \<open>Arbitration\<close>

lemma set_age_insert [simp]: "set (age_insert a p q) = insert p (set q)"
  by (induction q) auto

lemma distinct_age_insert: "p \<notin> set q \<Longrightarrow> distinct q \<Longrightarrow> distinct (age_insert a p q)"
  by (induction q) auto

text \<open>Every port with a positive age takes part exactly once, whatever the order.\<close>

lemma BuildAgeQueue_ok:
  assumes "ages \<noteq> []"
  shows "\<exists>q. BuildAgeQueue clk ages = Inr q \<and> distinct q \<and> set q = {i. i < length ages \<and> 0 < ages ! i}"
proof -
  let ?n = "length ages"
  let ?pos = "\<lambda>i. (i + clk mod ?n) mod ?n"
  let ?step = "\<lambda>i q. let pos = ?pos i in if ages ! pos > 0 then age_insert (ages ! pos) pos q else q"
  have inj: "inj_on ?pos {..<?n}"
  proof (rule inj_onI)
    fix i j assume ij: "i \<in> {..<?n}" "j \<in> {..<?n}" "?pos i = ?pos j"
    then have "int ?n dvd (int i - int j)" by (metis add_diff_cancel_right mod_eq_dvd_iff of_nat_add zmod_int)
    moreover have "\<bar>int i - int j\<bar> < int ?n" using ij(1,2) by auto
    ultimately show "i = j" using dvd_imp_le_int [of "int i - int j" "int ?n"] by fastforce
  qed
  have fold: "m \<le> ?n \<Longrightarrow> distinct (fold ?step [0..<m] []) \<and> set (fold ?step [0..<m] []) = {p \<in> ?pos ` {..<m}. 0 < ages ! p}" for m
  proof (induction m)
    case (Suc m)
    have "?pos m \<notin> ?pos ` {..<m}" using inj Suc.prems unfolding inj_on_def by fastforce
    then show ?case using Suc by (auto simp: Let_def lessThan_Suc distinct_age_insert)
  qed simp
  have "?pos ` {..<?n} \<subseteq> {..<?n}" using assms by auto
  then have "?pos ` {..<?n} = {..<?n}" using inj by (simp add: endo_inj_surj)
  then have "set (fold ?step [0..<?n] []) = {i. i < ?n \<and> 0 < ages ! i}" using fold [of ?n] by auto
  then show ?thesis using fold [of ?n] assms by (simp add: BuildAgeQueue_def Let_def)
qed

section \<open>The invariant\<close>

definition hmc_ok :: "dram_config \<Rightarrow> hmc_params \<Rightarrow> bool" where
  "hmc_ok c h \<longleftrightarrow> config_ok c \<and> IsHMC c \<and> (\<forall>a. 0 \<le> GetChannel c a \<and> GetChannel c a < channels c) \<and>
     0 < num_links h \<and> block_size h \<in> {0, 32, 64, 128, 256} \<and> (\<exists>pd pl. SetClockRatio h = Inr (pd, pl) \<and> 0 < pl)"

definition ages_ok :: "'a list list \<Rightarrow> int list \<Rightarrow> bool" where
  "ages_ok qs ages \<longleftrightarrow> length ages = length qs \<and> (\<forall>i < length qs. 0 < ages ! i \<longleftrightarrow> qs ! i \<noteq> [])"

definition within :: "nat \<Rightarrow> 'a list list \<Rightarrow> bool" where
  "within d qs \<longleftrightarrow> (\<forall>q \<in> set qs. length q \<le> d)"

definition request_wf :: "dram_config \<Rightarrow> hmc_request \<Rightarrow> bool" where
  "request_wf c r \<longleftrightarrow> 0 \<le> rq_quad r \<and> rq_quad r < 4 \<and> 0 \<le> rq_vault r \<and> rq_vault r < channels c"

definition response_wf :: "nat \<Rightarrow> hmc_response \<Rightarrow> bool" where
  "response_wf n r \<longleftrightarrow> 0 \<le> rs_quad r \<and> rs_quad r < 4 \<and> rs_link r < n"

definition packets :: "'a list list \<Rightarrow> 'a multiset" where
  "packets qs = mset (concat qs)"

text \<open>The addresses of requests inside, of those in the vaults, and the responses that are still to be returned.\<close>

definition inside_addresses :: "hmc_system \<Rightarrow> u64 multiset" where
  "inside_addresses s = image_mset mem_operand (packets (link_req_queues s)) + image_mset mem_operand (packets (quad_req_queues s)) +
     image_mset fst (sum_list (map owed (vaults s)))"

definition response_key :: "hmc_response \<Rightarrow> u64 \<times> bool" where
  "response_key r = (resp_id r, rs_type r \<noteq> RD_RS)"

definition hmc_outstanding :: "hmc_system \<Rightarrow> (u64 \<times> bool) multiset" where
  "hmc_outstanding s = image_mset response_key (mset (resp_lookup_table s)) + image_mset response_key (packets (quad_resp_queues s)) +
     image_mset response_key (packets (link_resp_queues s))"

text \<open>The invariant while the vaults have handed back the addresses \<open>D\<close> whose responses are not yet under way.\<close>

definition hmc_shape :: "dram_config \<Rightarrow> hmc_system \<Rightarrow> bool" where
  "hmc_shape c s \<longleftrightarrow> length (vaults s) = nat (channels c) \<and> 0 < links s \<and> next_link s < links s \<and>
     length (link_req_queues s) = links s \<and> length (link_resp_queues s) = links s \<and>
     length (quad_req_queues s) = 4 \<and> length (quad_resp_queues s) = 4 \<and> 0 < ps_per_logic s"

definition hmc_inv :: "dram_config \<Rightarrow> hmc_params \<Rightarrow> u64 multiset \<Rightarrow> hmc_system \<Rightarrow> bool" where
  "hmc_inv c h D s \<longleftrightarrow> hmc_ok c h \<and> hmc_shape c s \<and> (\<forall>ct \<in> set (vaults s). ctl_inv c ct) \<and>
     ages_ok (link_req_queues s) (link_age_counter s) \<and> ages_ok (quad_resp_queues s) (quad_age_counter s) \<and>
     within (queue_depth s) (link_req_queues s) \<and> within (queue_depth s) (quad_req_queues s) \<and> within (queue_depth s) (link_resp_queues s) \<and>
     (\<forall>r \<in># packets (link_req_queues s) + packets (quad_req_queues s). request_wf c r) \<and>
     (\<forall>r \<in># mset (resp_lookup_table s) + packets (quad_resp_queues s). response_wf (links s) r) \<and>
     image_mset resp_id (mset (resp_lookup_table s)) = inside_addresses s + D"

section \<open>Moving a packet\<close>

lemma packets_push: "i < length qs \<Longrightarrow> packets (qs[i := qs ! i @ [x]]) = add_mset x (packets qs)"
  by (simp add: packets_def concat_update_append)

lemma packets_pop: "i < length qs \<Longrightarrow> qs ! i = x # q \<Longrightarrow> packets qs = add_mset x (packets (qs[i := q]))"
  using concat_update_remove [of i qs x] by (simp add: packets_def)

lemma ages_update:
  "ages_ok qs ages \<Longrightarrow> i < length qs \<Longrightarrow> 0 < a \<longleftrightarrow> q \<noteq> [] \<Longrightarrow> ages_ok (qs[i := q]) (ages[i := a])"
  by (auto simp: ages_ok_def nth_list_update)

lemma ages_older: "ages_ok qs ages \<Longrightarrow> i < length qs \<Longrightarrow> qs ! i \<noteq> [] \<Longrightarrow> ages_ok qs (ages[i := ages ! i + 1])"
  by (auto simp: ages_ok_def nth_list_update intro: add_pos_pos)

lemma within_update: "within d qs \<Longrightarrow> length q \<le> d \<Longrightarrow> within d (qs[i := q])"
  by (auto simp: within_def dest: set_update_subset_insert [THEN subsetD])

lemma within_nth: "within d qs \<Longrightarrow> i < length qs \<Longrightarrow> length (qs ! i) \<le> d"
  by (simp add: within_def)

lemma at_index_ok: "0 \<le> i \<Longrightarrow> i < int (length l) \<Longrightarrow> at_index i l = Inr (nat i)"
  by (simp add: at_index_def nat_less_iff)


lemma hmc_invD:
  assumes "hmc_inv c h D s"
  shows "hmc_ok c h" "hmc_shape c s" "\<forall>ct \<in> set (vaults s). ctl_inv c ct"
    "ages_ok (link_req_queues s) (link_age_counter s)" "ages_ok (quad_resp_queues s) (quad_age_counter s)"
    "within (queue_depth s) (link_req_queues s)" "within (queue_depth s) (quad_req_queues s)" "within (queue_depth s) (link_resp_queues s)"
    "\<forall>r \<in># packets (link_req_queues s) + packets (quad_req_queues s). request_wf c r"
    "\<forall>r \<in># mset (resp_lookup_table s) + packets (quad_resp_queues s). response_wf (links s) r"
    "image_mset resp_id (mset (resp_lookup_table s)) = inside_addresses s + D"
  using assms unfolding hmc_inv_def by auto

lemma request_vault: "request_wf c r \<Longrightarrow> hmc_shape c s \<Longrightarrow> at_index (rq_vault r) (vaults s) = Inr (nat (rq_vault r)) \<and> nat (rq_vault r) < length (vaults s)"
  by (simp add: request_wf_def hmc_shape_def at_index_ok)

lemma request_quad: "request_wf c r \<Longrightarrow> hmc_shape c s \<Longrightarrow> at_index (rq_quad r) (quad_req_queues s) = Inr (nat (rq_quad r)) \<and> nat (rq_quad r) < length (quad_req_queues s)"
  by (simp add: request_wf_def hmc_shape_def at_index_ok nat_less_iff)

lemma response_quad: "response_wf n r \<Longrightarrow> hmc_shape c s \<Longrightarrow> at_index (rs_quad r) (quad_resp_queues s) = Inr (nat (rs_quad r)) \<and> nat (rs_quad r) < length (quad_resp_queues s)"
  by (simp add: response_wf_def hmc_shape_def at_index_ok nat_less_iff)

text \<open>What an internal step does: it succeeds and keeps the invariant and what is outstanding.\<close>

definition keeps :: "dram_config \<Rightarrow> hmc_params \<Rightarrow> u64 multiset \<Rightarrow> hmc_system \<Rightarrow> hmc_error + hmc_system \<Rightarrow> bool" where
  "keeps c h D s m \<longleftrightarrow> (\<exists>s'. m = Inr s' \<and> hmc_inv c h D s' \<and> hmc_outstanding s' = hmc_outstanding s)"

lemma keepsI: "hmc_inv c h D s' \<Longrightarrow> hmc_outstanding s' = hmc_outstanding s \<Longrightarrow> keeps c h D s (Inr s')"
  by (simp add: keeps_def)

lemma drain_quad_keeps:
  assumes inv: "hmc_inv c h D s" and i: "i < 4"
  shows "keeps c h D s (drain_quad c i s)"
proof (cases "quad_req_queues s ! i")
  case Nil
  then show ?thesis using inv by (simp add: drain_quad_def keepsI)
next
  case (Cons req rest)
  have len: "i < length (quad_req_queues s)" using hmc_invD(2) [OF inv] i by (simp add: hmc_shape_def)
  note pop = packets_pop [OF len Cons]
  have wf: "request_wf c req" using hmc_invD(9) [OF inv] pop by simp
  let ?v = "nat (rq_vault req)"
  let ?ct = "ctl_AddTransaction c (mk_transaction (mem_operand req) (rq_is_write req)) (vaults s ! ?v)"
  let ?s = "(InsertReqToDRAM c req ?v s)\<lparr>quad_req_queues := (quad_req_queues s)[i := rest]\<rparr>"
  note v = request_vault [OF wf hmc_invD(2) [OF inv]]
  have ct: "ctl_inv c ?ct" using hmc_invD(3) [OF inv] v by (simp add: AddTransaction_inv)
  have "inside_addresses ?s = inside_addresses s"
    using sum_list_update_owed [of ?v "vaults s", OF _ AddTransaction_owed] v pop
    by (simp add: inside_addresses_def InsertReqToDRAM_def tr_key_def mk_transaction_def)
  moreover have "length rest \<le> queue_depth s" using within_nth [OF hmc_invD(7) [OF inv] len] Cons by simp
  moreover have "\<forall>x \<in> set (vaults ?s). ctl_inv c x"
    using hmc_invD(3) [OF inv] ct by (auto simp: InsertReqToDRAM_def dest: set_update_subset_insert [THEN subsetD])
  ultimately have "hmc_inv c h D ?s"
    using hmc_invD [OF inv] pop by (simp add: hmc_inv_def hmc_shape_def InsertReqToDRAM_def within_update)
  moreover have "hmc_outstanding ?s = hmc_outstanding s" by (simp add: hmc_outstanding_def InsertReqToDRAM_def)
  ultimately show ?thesis using inv Cons v by (simp add: drain_quad_def keepsI)
qed

lemma move_request_keeps:
  assumes inv: "hmc_inv c h D s" and i: "i < links s" and ne: "link_req_queues s ! i \<noteq> []"
  shows "keeps c h D s (move_request i s)"
proof -
  obtain req rest where Cons: "link_req_queues s ! i = req # rest" using ne by (cases "link_req_queues s ! i") auto
  have len: "i < length (link_req_queues s)" using hmc_invD(2) [OF inv] i by (simp add: hmc_shape_def)
  note pop = packets_pop [OF len Cons]
  have wf: "request_wf c req" using hmc_invD(9) [OF inv] pop by simp
  note q = request_quad [OF wf hmc_invD(2) [OF inv]]
  let ?q = "nat (rq_quad req)" and ?r = "req\<lparr>rq_exit_time := logic_clk s + nat (rq_flits req)\<rparr>"
  let ?s = "s\<lparr>link_req_queues := (link_req_queues s)[i := rest],
              quad_req_queues := (quad_req_queues s)[?q := quad_req_queues s ! ?q @ [?r]],
              quad_busy := (quad_busy s)[?q := rq_flits req],
              link_age_counter := (link_age_counter s)[i := (if rest = [] then 0 else 1)]\<rparr>"
  let ?t = "s\<lparr>link_age_counter := (link_age_counter s)[i := link_age_counter s ! i + 1]\<rparr>"
  have room: "hmc_inv c h D ?s" if "length (quad_req_queues s ! ?q) < queue_depth s"
  proof -
    have "length rest \<le> queue_depth s" using within_nth [OF hmc_invD(6) [OF inv] len] Cons by simp
    moreover have "inside_addresses ?s = inside_addresses s" using q pop by (simp add: inside_addresses_def packets_push)
    moreover have "request_wf c ?r" using wf by (simp add: request_wf_def)
    moreover have "ages_ok ((link_req_queues s)[i := rest]) ((link_age_counter s)[i := (if rest = [] then 0 else 1)])"
      using ages_update [OF hmc_invD(4) [OF inv] len] by simp
    ultimately show ?thesis
      using hmc_invD [OF inv] pop q that by (simp add: hmc_inv_def hmc_shape_def within_update packets_push)
  qed
  have stall: "hmc_inv c h D ?t"
    using hmc_invD [OF inv] ages_older [OF hmc_invD(4) [OF inv] len ne] by (simp add: hmc_inv_def hmc_shape_def inside_addresses_def)
  have "hmc_outstanding ?s = hmc_outstanding s" "hmc_outstanding ?t = hmc_outstanding s" by (simp_all add: hmc_outstanding_def)
  then show ?thesis using room stall q by (simp add: move_request_def Cons keepsI del: hmc_system.update_convs)
qed


section \<open>Crossing the crossbars\<close>

lemma run_all_keeps:
  assumes step: "\<And>x s. hmc_inv c h D s \<Longrightarrow> may x s \<Longrightarrow> keeps c h D s (step x s)"
    and stable: "\<And>x y s s'. step x s = Inr s' \<Longrightarrow> x \<noteq> y \<Longrightarrow> may y s \<Longrightarrow> may y s'"
  shows "hmc_inv c h D s \<Longrightarrow> distinct xs \<Longrightarrow> \<forall>x \<in> set xs. may x s \<Longrightarrow> keeps c h D s (run_all step xs s)"
proof (induction xs arbitrary: s)
  case (Cons x xs)
  obtain s' where s': "step x s = Inr s'" "hmc_inv c h D s'" "hmc_outstanding s' = hmc_outstanding s"
    using step [OF Cons.prems(1), of x] Cons.prems(3) by (auto simp: keeps_def)
  moreover have "\<forall>y \<in> set xs. may y s'" using Cons.prems(2,3) stable [OF s'(1)] by (metis distinct.simps(2) list.set_intros(2))
  ultimately have "keeps c h D s' (run_all step xs s')" using Cons by simp
  then show ?case using s' by (simp add: keeps_def)
qed (simp add: keeps_def)

lemma move_request_frame:
  "on_Inr (\<lambda>s'. links s' = links s \<and> (\<forall>j. i \<noteq> j \<longrightarrow> link_req_queues s' ! j = link_req_queues s ! j)) (move_request i s)"
  by (cases "link_req_queues s ! i") (simp_all add: move_request_def at_index_def)

lemma move_response_frame:
  "on_Inr (\<lambda>s'. links s' = links s \<and> (\<forall>j. i \<noteq> j \<longrightarrow> quad_resp_queues s' ! j = quad_resp_queues s ! j)) (move_response i s)"
  by (cases "quad_resp_queues s ! i") (simp_all add: move_response_def Let_def)

lemma age_order:
  assumes "ages_ok qs ages" "qs \<noteq> []"
  shows "\<exists>order. BuildAgeQueue clk ages = Inr order \<and> distinct order \<and> (\<forall>i \<in> set order. i < length qs \<and> qs ! i \<noteq> [])"
proof -
  have "ages \<noteq> []" using assms by (auto simp: ages_ok_def)
  from BuildAgeQueue_ok [OF this, of clk] show ?thesis using assms by (auto simp: ages_ok_def)
qed

lemma busy_inv:
  "hmc_inv c h D s \<Longrightarrow> hmc_inv c h D (s\<lparr>quad_busy := b\<rparr>)" "hmc_inv c h D s \<Longrightarrow> hmc_inv c h D (s\<lparr>link_busy := b\<rparr>)"
  "hmc_outstanding (s\<lparr>quad_busy := b\<rparr>) = hmc_outstanding s" "hmc_outstanding (s\<lparr>link_busy := b\<rparr>) = hmc_outstanding s"
  by (simp_all add: hmc_inv_def hmc_shape_def inside_addresses_def hmc_outstanding_def)

lemma DrainRequests_keeps:
  assumes "hmc_inv c h D s"
  shows "keeps c h D s (DrainRequests c s)"
proof -
  have "keeps c h D s (run_all (drain_quad c) [0..<4] s)"
    using assms drain_quad_keeps by (intro run_all_keeps [where may = "\<lambda>i _. i < 4"]) simp_all
  then obtain s1 where s1: "run_all (drain_quad c) [0..<4] s = Inr s1" "hmc_inv c h D s1" "hmc_outstanding s1 = hmc_outstanding s"
    by (auto simp: keeps_def)
  let ?s = "s1\<lparr>quad_busy := xbar_drain (quad_busy s1)\<rparr>"
  have inv: "hmc_inv c h D ?s" using s1(2) by (rule busy_inv)
  have sh: "links ?s = length (link_req_queues ?s)" "link_req_queues ?s \<noteq> []"
    using hmc_invD(2) [OF inv] by (auto simp: hmc_shape_def)
  obtain order where order: "BuildAgeQueue (logic_clk ?s) (link_age_counter ?s) = Inr order" "distinct order"
    "\<forall>i \<in> set order. i < links ?s \<and> link_req_queues ?s ! i \<noteq> []"
    using age_order [OF hmc_invD(4) [OF inv] sh(2)] unfolding sh(1) by blast
  have "keeps c h D ?s (run_all move_request order ?s)"
    using move_request_frame [THEN on_InrD] move_request_keeps inv order(2,3)
    by (intro run_all_keeps [where may = "\<lambda>i s. i < links s \<and> link_req_queues s ! i \<noteq> []"]) auto
  then show ?thesis using s1 order(1) busy_inv(3) by (simp add: DrainRequests_def Let_def keeps_def)
qed

lemma move_response_keeps:
  assumes inv: "hmc_inv c h D s" and i: "i < 4" and ne: "quad_resp_queues s ! i \<noteq> []"
  shows "keeps c h D s (move_response i s)"
proof -
  obtain resp rest where Cons: "quad_resp_queues s ! i = resp # rest" using ne by (cases "quad_resp_queues s ! i") auto
  have len: "i < length (quad_resp_queues s)" and links: "length (link_resp_queues s) = links s"
    using hmc_invD(2) [OF inv] i by (simp_all add: hmc_shape_def)
  note pop = packets_pop [OF len Cons]
  have dest: "rs_link resp < length (link_resp_queues s)" using hmc_invD(10) [OF inv] pop links by (simp add: response_wf_def)
  let ?d = "rs_link resp" and ?r = "resp\<lparr>rs_exit_time := logic_clk s + nat (rs_flits resp)\<rparr>"
  let ?s = "s\<lparr>quad_resp_queues := (quad_resp_queues s)[i := rest],
              link_resp_queues := (link_resp_queues s)[?d := link_resp_queues s ! ?d @ [?r]],
              link_busy := (link_busy s)[?d := rs_flits resp],
              quad_age_counter := (quad_age_counter s)[i := (if rest = [] then 0 else 1)]\<rparr>"
  let ?t = "s\<lparr>quad_age_counter := (quad_age_counter s)[i := quad_age_counter s ! i + 1]\<rparr>"
  have room: "hmc_inv c h D ?s" if "length (link_resp_queues s ! ?d) < queue_depth s"
  proof -
    have "ages_ok ((quad_resp_queues s)[i := rest]) ((quad_age_counter s)[i := (if rest = [] then 0 else 1)])"
      using ages_update [OF hmc_invD(5) [OF inv] len] by simp
    then show ?thesis
      using hmc_invD [OF inv] pop that by (simp add: hmc_inv_def hmc_shape_def within_update inside_addresses_def)
  qed
  have stall: "hmc_inv c h D ?t"
    using hmc_invD [OF inv] ages_older [OF hmc_invD(5) [OF inv] len ne] by (simp add: hmc_inv_def hmc_shape_def inside_addresses_def)
  have "response_key ?r = response_key resp" by (simp add: response_key_def)
  then have "hmc_outstanding ?s = hmc_outstanding s" "hmc_outstanding ?t = hmc_outstanding s"
    using pop dest by (simp_all add: hmc_outstanding_def packets_push)
  then show ?thesis using room stall dest by (simp add: move_response_def Cons Let_def keepsI del: hmc_system.update_convs)
qed

lemma return_response_ok:
  assumes inv: "hmc_inv c h D s" and i: "i < links s"
  shows "hmc_inv c h D (snd (return_response i s)) \<and> links (snd (return_response i s)) = links s \<and>
    hmc_outstanding s = mset (fst (return_response i s)) + hmc_outstanding (snd (return_response i s))"
proof (cases "link_resp_queues s ! i")
  case (Cons resp rest)
  have len: "i < length (link_resp_queues s)" using hmc_invD(2) [OF inv] i by (simp add: hmc_shape_def)
  have "length rest \<le> queue_depth s" using within_nth [OF hmc_invD(8) [OF inv] len] Cons by simp
  then show ?thesis using hmc_invD [OF inv] inv packets_pop [OF len Cons] Cons
    by (simp add: return_response_def hmc_inv_def hmc_shape_def within_update inside_addresses_def hmc_outstanding_def response_key_def)
qed (use inv in \<open>simp add: return_response_def\<close>)

lemma return_all_ok:
  "hmc_inv c h D s \<Longrightarrow> \<forall>i \<in> set is. i < links s \<Longrightarrow>
    hmc_inv c h D (snd (return_all is s)) \<and> hmc_outstanding s = mset (fst (return_all is s)) + hmc_outstanding (snd (return_all is s))"
proof (induction "is" arbitrary: s)
  case (Cons i "is")
  note r = return_response_ok [OF Cons.prems(1), of i]
  then show ?case using Cons by (simp add: split_beta)
qed simp

lemma DrainResponses_ok:
  assumes "hmc_inv c h D s"
  shows "\<exists>cb s'. DrainResponses s = Inr (cb, s') \<and> hmc_inv c h D s' \<and> hmc_outstanding s = mset cb + hmc_outstanding s'"
proof -
  obtain cb s1 where r: "return_all [0..<links s] s = (cb, s1)" by fastforce
  then have s1: "hmc_inv c h D s1" "hmc_outstanding s = mset cb + hmc_outstanding s1"
    using return_all_ok [OF assms, of "[0..<links s]"] by auto
  let ?s = "s1\<lparr>link_busy := xbar_drain (link_busy s1)\<rparr>"
  have inv: "hmc_inv c h D ?s" using s1(1) by (rule busy_inv)
  have sh: "length (quad_resp_queues ?s) = 4" "quad_resp_queues ?s \<noteq> []"
    using hmc_invD(2) [OF inv] by (auto simp: hmc_shape_def)
  obtain order where order: "BuildAgeQueue (logic_clk ?s) (quad_age_counter ?s) = Inr order" "distinct order"
    "\<forall>i \<in> set order. i < 4 \<and> quad_resp_queues ?s ! i \<noteq> []"
    using age_order [OF hmc_invD(5) [OF inv] sh(2)] unfolding sh(1) by blast
  have "keeps c h D ?s (run_all move_response order ?s)"
    using move_response_frame [THEN on_InrD] move_response_keeps inv order(2,3)
    by (intro run_all_keeps [where may = "\<lambda>i s. i < 4 \<and> quad_resp_queues s ! i \<noteq> []"]) auto
  then show ?thesis using s1 order(1) r busy_inv(4) by (auto simp: DrainResponses_def Let_def keeps_def)
qed


section \<open>The vaults\<close>

lemma VaultCallback_keeps:
  assumes inv: "hmc_inv c h (add_mset a D) s"
  shows "keeps c h D s (VaultCallback a s)"
proof -
  have "a \<in># image_mset resp_id (mset (resp_lookup_table s))" using hmc_invD(11) [OF inv] by simp
  then obtain resp where f: "find (\<lambda>r. resp_id r = a) (resp_lookup_table s) = Some resp"
    by (cases "find (\<lambda>r. resp_id r = a) (resp_lookup_table s)") (auto simp: find_None_iff)
  then have id: "resp_id resp = a" and mem: "resp \<in> set (resp_lookup_table s)" by (auto simp: find_Some_iff)
  let ?t = "erase_first (\<lambda>r. resp_id r = a) (resp_lookup_table s)"
  have t: "mset (resp_lookup_table s) = add_mset resp (mset ?t)" using erase_found [OF f] by simp
  have wf: "response_wf (links s) resp" using hmc_invD(10) [OF inv] mem by simp
  note q = response_quad [OF wf hmc_invD(2) [OF inv]]
  let ?q = "nat (rs_quad resp)"
  let ?s = "s\<lparr>resp_lookup_table := ?t, quad_resp_queues := (quad_resp_queues s)[?q := quad_resp_queues s ! ?q @ [resp]],
              quad_age_counter := (quad_age_counter s)[?q := 1]\<rparr>"
  have ages: "ages_ok ((quad_resp_queues s)[?q := quad_resp_queues s ! ?q @ [resp]]) ((quad_age_counter s)[?q := 1])"
    using ages_update [OF hmc_invD(5) [OF inv]] q by simp
  have acc: "image_mset resp_id (mset ?t) = inside_addresses s + D" using hmc_invD(11) [OF inv] by (simp add: t id)
  have "\<forall>r \<in># mset ?t + packets ((quad_resp_queues s)[?q := quad_resp_queues s ! ?q @ [resp]]). response_wf (links s) r"
    using hmc_invD(10) [OF inv] wf q by (simp add: t packets_push)
  then have "hmc_inv c h D ?s"
    using hmc_invD [OF inv] ages acc by (simp add: hmc_inv_def hmc_shape_def inside_addresses_def)
  moreover have "hmc_outstanding ?s = hmc_outstanding s" using q by (simp add: hmc_outstanding_def packets_push t)
  ultimately show ?thesis using f q by (simp add: VaultCallback_def keepsI)
qed

lemma VaultCallbacks_keeps:
  "hmc_inv c h (mset as + D) s \<Longrightarrow> keeps c h D s (run_all VaultCallback as s)"
proof (induction as arbitrary: s)
  case (Cons a as)
  then have "keeps c h (mset as + D) s (VaultCallback a s)" by (intro VaultCallback_keeps) simp
  then obtain s' where s': "VaultCallback a s = Inr s'" "hmc_inv c h (mset as + D) s'" "hmc_outstanding s' = hmc_outstanding s"
    unfolding keeps_def by blast
  then show ?case using Cons.IH [OF s'(2)] by (simp add: keeps_def)
qed (simp add: keeps_def)

lemma DRAMClockTick_keeps:
  assumes inv: "hmc_inv c h D s"
  shows "keeps c h D s (DRAMClockTick c s)"
proof -
  let ?ds = "map (drain (hm_clk s)) (vaults s)"
  let ?as = "map fst (concat (map fst ?ds))" and ?s = "s\<lparr>vaults := map snd ?ds\<rparr>"
  have "inside_addresses s = mset ?as + inside_addresses ?s"
    using drained [of "vaults s" "hm_clk s"] by (simp add: inside_addresses_def del: map_map)
  moreover have "\<forall>ct \<in> set (map snd ?ds). ctl_inv c ct" using hmc_invD(3) [OF inv] drain_spec by auto
  ultimately have "hmc_inv c h (mset ?as + D) ?s"
    using hmc_invD [OF inv] by (simp add: hmc_inv_def hmc_shape_def ac_simps del: map_map)
  then obtain s1 where s1: "run_all VaultCallback ?as ?s = Inr s1" "hmc_inv c h D s1" "hmc_outstanding s1 = hmc_outstanding ?s"
    using VaultCallbacks_keeps unfolding keeps_def by blast
  obtain cts where t: "tick_all c (vaults s1) = Inr cts" "length cts = length (vaults s1)" "\<forall>ct \<in> set cts. ctl_inv c ct"
    "sum_list (map owed cts) = sum_list (map owed (vaults s1))"
    using tick_all_inv [of c "vaults s1"] hmc_invD(1,3) [OF s1(2)] unfolding hmc_ok_def by blast
  let ?t = "s1\<lparr>vaults := cts, hm_clk := hm_clk s1 + 1\<rparr>"
  have "hmc_inv c h D ?t" using hmc_invD [OF s1(2)] t by (simp add: hmc_inv_def hmc_shape_def inside_addresses_def)
  moreover have "hmc_outstanding ?t = hmc_outstanding s" using s1(3) by (simp add: hmc_outstanding_def)
  ultimately show ?thesis using s1(1) t(1) by (simp add: DRAMClockTick_def Let_def from_dram_def keepsI del: map_map)
qed

section \<open>Cycles\<close>

lemma logic_step_inv: "hmc_inv c h D s \<Longrightarrow> hmc_inv c h D (logic_step s)" "hmc_outstanding (logic_step s) = hmc_outstanding s"
  by (simp_all add: hmc_inv_def hmc_shape_def inside_addresses_def hmc_outstanding_def logic_step_def)

text \<open>One logic cycle, with the work \<open>f\<close> of the DRAM between the two halves.\<close>

lemma logic_cycle_ok:
  assumes "hmc_inv c h {#} s" "\<And>s1. hmc_inv c h {#} s1 \<Longrightarrow> keeps c h {#} s1 (f s1)"
  shows "\<exists>cb s'. andThen (DrainResponses s) (\<lambda>(cb, s1). andThen (f s1) (\<lambda>s2. andThen (DrainRequests c s2) (\<lambda>s3. Inr (cb, logic_step s3)))) =
    Inr (cb, s') \<and> hmc_inv c h {#} s' \<and> hmc_outstanding s = mset cb + hmc_outstanding s'"
proof -
  obtain cb s1 where s1: "DrainResponses s = Inr (cb, s1)" "hmc_inv c h {#} s1" "hmc_outstanding s = mset cb + hmc_outstanding s1"
    using DrainResponses_ok [OF assms(1)] by blast
  obtain s2 where s2: "f s1 = Inr s2" "hmc_inv c h {#} s2" "hmc_outstanding s2 = hmc_outstanding s1"
    using assms(2) [OF s1(2)] by (auto simp: keeps_def)
  obtain s3 where "DrainRequests c s2 = Inr s3" "hmc_inv c h {#} s3" "hmc_outstanding s3 = hmc_outstanding s2"
    using DrainRequests_keeps [OF s2(2)] by (auto simp: keeps_def)
  then show ?thesis using s1 s2 logic_step_inv by simp
qed

lemma logic_cycles_ok:
  "hmc_inv c h {#} s \<Longrightarrow>
    \<exists>cb s'. logic_cycles c s = Inr (cb, s') \<and> hmc_inv c h {#} s' \<and> hmc_outstanding s = mset cb + hmc_outstanding s'"
proof (induction c s rule: logic_cycles.induct)
  case (1 c s)
  show ?case
  proof (cases "logic_ps s < dram_ps s + ps_per_dram s")
    case True
    have pos: "ps_per_logic s \<noteq> 0" using hmc_invD(2) [OF "1.prems"] by (simp add: hmc_shape_def)
    obtain cb s1 where s1: "DrainResponses s = Inr (cb, s1)" "hmc_inv c h {#} s1" "hmc_outstanding s = mset cb + hmc_outstanding s1"
      using DrainResponses_ok [OF "1.prems"] by blast
    obtain s2 where s2: "DrainRequests c s1 = Inr s2" "hmc_inv c h {#} s2" "hmc_outstanding s2 = hmc_outstanding s1"
      using DrainRequests_keeps [OF s1(2)] by (auto simp: keeps_def)
    from "1.IH" [OF True pos s1(1) refl s2(1)] logic_step_inv(1) [OF s2(2)] s2 s1
    show ?thesis by (auto simp: logic_cycles.simps [of c s] True pos logic_step_inv(2))
  next
    case False
    then show ?thesis using 1 by (simp add: logic_cycles.simps [of c s])
  qed
qed

lemma hmc_ClockTick_ok:
  assumes "hmc_inv c h {#} s"
  shows "\<exists>cb s'. hmc_ClockTick c s = Inr (cb, s') \<and> hmc_inv c h {#} s' \<and> hmc_outstanding s = mset cb + hmc_outstanding s'"
proof -
  obtain cb s1 where s1: "(if dram_ps s = logic_ps s
      then andThen (DrainResponses s) (\<lambda>(cb, s1). andThen (DRAMClockTick c s1) (\<lambda>s2. andThen (DrainRequests c s2) (\<lambda>s3. Inr (cb, logic_step s3))))
      else andThen (DRAMClockTick c s) (\<lambda>s1. Inr ([], s1))) = Inr (cb, s1)"
    "hmc_inv c h {#} s1" "hmc_outstanding s = mset cb + hmc_outstanding s1"
    using logic_cycle_ok [OF assms DRAMClockTick_keeps] DRAMClockTick_keeps [OF assms] by (cases "dram_ps s = logic_ps s") (auto simp: keeps_def)
  obtain cbs s2 where s2: "logic_cycles c s1 = Inr (cbs, s2)" "hmc_inv c h {#} s2" "hmc_outstanding s1 = mset cbs + hmc_outstanding s2"
    using logic_cycles_ok [OF s1(2)] by blast
  let ?s = "s2\<lparr>dram_ps := dram_ps s2 + ps_per_dram s2\<rparr>"
  have "hmc_inv c h {#} ?s" "hmc_outstanding ?s = hmc_outstanding s2"
    using s2(2) by (simp_all add: hmc_inv_def hmc_shape_def inside_addresses_def hmc_outstanding_def)
  then show ?thesis unfolding hmc_ClockTick_def s1(1) using s2 s1(3) by simp
qed


section \<open>Accepting requests\<close>

text \<open>A request that \<open>AddTransaction\<close> makes, with the kind of response it will have.\<close>

definition made_by :: "dram_config \<Rightarrow> u64 \<Rightarrow> bool \<Rightarrow> hmc_request \<Rightarrow> bool" where
  "made_by c a w req \<longleftrightarrow> mem_operand req = a \<and> request_wf c req \<and> rq_is_write req = w \<and>
     (\<exists>k f. resp_kind (rq_type req) = Inr (k, f) \<and> (k \<noteq> RD_RS \<longleftrightarrow> w))"

lemma smod_quad: "0 \<le> v \<Longrightarrow> 0 \<le> v smod 4 \<and> v smod 4 < 4" for v :: int
  by (cases "v = 0") (simp_all add: signed_modulo_int_def)

lemma block_types:
  assumes "hmc_ok c h"
  shows "\<exists>t req. block_type (block_size h) w = Inr t \<and> mk_request t a (GetChannel c a) = Inr req \<and> made_by c a w req"
proof -
  have "0 \<le> GetChannel c a \<and> GetChannel c a < channels c" "block_size h \<in> {0, 32, 64, 128, 256}"
    using assms unfolding hmc_ok_def by blast+
  then show ?thesis using smod_quad [of "GetChannel c a"]
    by (cases w) (auto simp: block_type_def mk_request_def made_by_def request_wf_def less_eq_HMCReqType_def)
qed

definition grown :: "dram_config \<Rightarrow> hmc_params \<Rightarrow> u64 \<times> bool \<Rightarrow> hmc_system \<Rightarrow> hmc_error + (bool \<times> hmc_system) \<Rightarrow> bool" where
  "grown c h k s m \<longleftrightarrow> (\<exists>s'. m = Inr (True, s') \<and> hmc_inv c h {#} s' \<and> hmc_outstanding s' = add_mset k (hmc_outstanding s))"

lemma InsertReqToLink_room:
  assumes inv: "hmc_inv c h {#} s" and req: "made_by c a w req" and l: "l < links s"
    and room: "length (link_req_queues s ! l) < queue_depth s"
  shows "grown c h (a, w) s (InsertReqToLink req l s)"
proof -
  have len: "l < length (link_req_queues s)" using hmc_invD(2) [OF inv] l by (simp add: hmc_shape_def)
  obtain k f where k: "resp_kind (rq_type req) = Inr (k, f)" "k \<noteq> RD_RS \<longleftrightarrow> w" using req by (auto simp: made_by_def)
  let ?req = "req\<lparr>rq_link := l\<rparr>"
  let ?resp = "\<lparr>resp_id = mem_operand req, rs_type = k, rs_link = l, rs_quad = rq_quad req, rs_flits = f, rs_exit_time = 0\<rparr>"
  let ?s = "s\<lparr>link_req_queues := (link_req_queues s)[l := link_req_queues s ! l @ [?req]],
              resp_lookup_table := resp_lookup_table s @ [?resp], link_age_counter := (link_age_counter s)[l := 1],
              hm_last_req_clk := hm_clk s\<rparr>"
  have m: "InsertReqToLink req l s = Inr (True, ?s)"
    using len room k(1) by (simp add: InsertReqToLink_def mk_response_def)
  have "ages_ok ((link_req_queues s)[l := link_req_queues s ! l @ [?req]]) ((link_age_counter s)[l := 1])"
    using ages_update [OF hmc_invD(4) [OF inv] len] by simp
  moreover have "request_wf c ?req" "response_wf (links s) ?resp" using req l by (auto simp: made_by_def request_wf_def response_wf_def)
  ultimately have "hmc_inv c h {#} ?s"
    using hmc_invD [OF inv] room len by (simp add: hmc_inv_def hmc_shape_def within_update packets_push inside_addresses_def)
  moreover have "hmc_outstanding ?s = add_mset (a, w) (hmc_outstanding s)"
    using req k(2) by (simp add: hmc_outstanding_def response_key_def made_by_def)
  ultimately show ?thesis using m by (simp add: grown_def)
qed

lemma InsertReqToLink_full:
  "hmc_shape c s \<Longrightarrow> l < links s \<Longrightarrow> \<not> length (link_req_queues s ! l) < queue_depth s \<Longrightarrow> InsertReqToLink req l s = Inr (False, s)"
  by (simp add: InsertReqToLink_def hmc_shape_def)

lemma IterateNextLink_inv:
  assumes "hmc_inv c h D s"
  shows "\<exists>s'. IterateNextLink s = Inr s' \<and> s' = s\<lparr>next_link := (next_link s + 1) mod links s\<rparr> \<and> hmc_inv c h D s' \<and> hmc_outstanding s' = hmc_outstanding s"
  using assms by (simp add: IterateNextLink_def hmc_inv_def hmc_shape_def inside_addresses_def hmc_outstanding_def)

lemma grown_iterate:
  assumes "grown c h k s m"
  shows "grown c h k s (andThen m (\<lambda>(ok, s1). andThen (IterateNextLink s1) (\<lambda>s2. if ok then Inr (True, s2) else g ok s1 s2)))"
proof -
  obtain s' where s': "m = Inr (True, s')" "hmc_inv c h {#} s'" "hmc_outstanding s' = add_mset k (hmc_outstanding s)"
    using assms by (auto simp: grown_def)
  then show ?thesis using IterateNextLink_inv [OF s'(2)] by (auto simp: grown_def)
qed

lemma next_start: "start < n \<Longrightarrow> 0 < k \<Longrightarrow> k < n \<Longrightarrow> (start + k) mod n \<noteq> start" for n :: nat
  by (auto simp: mod_if dest: less_imp_add_positive)

lemma links_covered: "start < n \<Longrightarrow> l < n \<Longrightarrow> \<exists>j < n. l = (start + j) mod n" for n :: nat
  by (rule exI [of _ "(l + n - start) mod n"]) (simp add: mod_add_right_eq)

lemma insert_loop_ok:
  assumes req: "made_by c a w req" and start: "start < links s" and free: "\<exists>l < links s. length (link_req_queues s ! l) < queue_depth s"
  shows "hmc_inv c h {#} s \<Longrightarrow> 0 < k \<Longrightarrow> k \<le> links s \<Longrightarrow> next_link s = (start + k) mod links s \<Longrightarrow> links s - k \<le> n \<Longrightarrow>
    \<forall>j < k. \<not> length (link_req_queues s ! ((start + j) mod links s)) < queue_depth s \<Longrightarrow> grown c h (a, w) s (insert_loop n start req s)"
  using start free
proof (induction n arbitrary: s k)
  case 0
  obtain l where l: "l < links s" "length (link_req_queues s ! l) < queue_depth s" using "0.prems"(8) by blast
  have "k = links s" using "0.prems"(3,5) by simp
  then show ?case using links_covered [OF "0.prems"(7) l(1)] "0.prems"(6) l(2) by metis
next
  case (Suc n)
  have sh: "hmc_shape c s" using Suc.prems(1) by (rule hmc_invD)
  have nl: "next_link s < links s" using sh by (simp add: hmc_shape_def)
  show ?case
  proof (cases "k = links s")
    case True
    obtain l where l: "l < links s" "length (link_req_queues s ! l) < queue_depth s" using Suc.prems(8) by blast
    then show ?thesis using links_covered [OF Suc.prems(7) l(1)] Suc.prems(6) l(2) True by metis
  next
    case False
    then have ne: "next_link s \<noteq> start" using next_start Suc.prems by simp
    show ?thesis
    proof (cases "length (link_req_queues s ! next_link s) < queue_depth s")
      case True
      then show ?thesis using grown_iterate [OF InsertReqToLink_room [OF Suc.prems(1) req nl]]
        by (subst insert_loop.simps) (simp add: ne)
    next
      case full: False
      obtain s2 where s2: "IterateNextLink s = Inr s2" "s2 = s\<lparr>next_link := (next_link s + 1) mod links s\<rparr>" "hmc_inv c h {#} s2"
        "hmc_outstanding s2 = hmc_outstanding s" using IterateNextLink_inv [OF Suc.prems(1)] by blast
      have "grown c h (a, w) s2 (insert_loop n start req s2)"
      proof (rule Suc.IH [of _ "Suc k"])
        show "\<forall>j < Suc k. \<not> length (link_req_queues s2 ! ((start + j) mod links s2)) < queue_depth s2"
          using Suc.prems(4,6) full s2(2) by (auto simp: less_Suc_eq)
      qed (use Suc.prems s2 False in \<open>auto simp: mod_simps\<close>)
      then show ?thesis using s2 InsertReqToLink_full [OF sh nl full]
        by (subst insert_loop.simps) (simp add: ne grown_def)
    qed
  qed
qed


lemma InsertHMCReq_ok:
  assumes inv: "hmc_inv c h {#} s" and req: "made_by c a w req" and free: "list_ex (\<lambda>q. length q < queue_depth s) (link_req_queues s)"
  shows "grown c h (a, w) s (InsertHMCReq req s)"
proof (cases "length (link_req_queues s ! next_link s) < queue_depth s")
  case True
  have "next_link s < links s" using hmc_invD(2) [OF inv] by (simp add: hmc_shape_def)
  then show ?thesis unfolding InsertHMCReq_def by (rule grown_iterate [OF InsertReqToLink_room [OF inv req _ True]])
next
  case full: False
  have sh: "hmc_shape c s" "next_link s < links s" "length (link_req_queues s) = links s"
    using hmc_invD(2) [OF inv] by (simp_all add: hmc_shape_def)
  obtain s2 where s2: "IterateNextLink s = Inr s2" "s2 = s\<lparr>next_link := (next_link s + 1) mod links s\<rparr>" "hmc_inv c h {#} s2"
    "hmc_outstanding s2 = hmc_outstanding s" using IterateNextLink_inv [OF inv] by blast
  have "\<exists>l < links s. length (link_req_queues s ! l) < queue_depth s" using free sh(3) by (auto simp: list_ex_length)
  then have "grown c h (a, w) s2 (insert_loop (links s2) (next_link s) req s2)"
    using sh(2) full s2(2) by (intro insert_loop_ok [OF req _ _ s2(3), where k = 1]) simp_all
  then show ?thesis using s2 InsertReqToLink_full [OF sh(1,2) full] by (simp add: InsertHMCReq_def grown_def)
qed

text \<open>Adding for a client that ignores whether the request was taken.\<close>

definition hmc_add :: "dram_config \<Rightarrow> hmc_params \<Rightarrow> u64 \<Rightarrow> bool \<Rightarrow> hmc_system \<Rightarrow> hmc_error + hmc_system" where
  "hmc_add c h a w s = andThen (hmc_AddTransaction c h a w s) (\<lambda>(_, s'). Inr s')"

lemma hmc_AddTransaction_ok:
  assumes "hmc_inv c h {#} s" "hmc_WillAcceptTransaction a w s = Inr True"
  shows "grown c h (a, w) s (hmc_AddTransaction c h a w s)"
proof -
  obtain t req where "block_type (block_size h) w = Inr t" "mk_request t a (GetChannel c a) = Inr req" "made_by c a w req"
    using block_types hmc_invD(1) [OF assms(1)] by blast
  then show ?thesis using InsertHMCReq_ok [OF assms(1)] assms(2) by (simp add: hmc_AddTransaction_def hmc_WillAcceptTransaction_def)
qed

interpretation hmc: memory "hmc_inv c h {#}" hmc_outstanding hmc_WillAcceptTransaction "hmc_add c h" "hmc_ClockTick c" for c h
proof
  fix s a w
  assume inv: "hmc_inv c h {#} s"
  show "\<exists>ok. hmc_WillAcceptTransaction a w s = Inr ok" by (simp add: hmc_WillAcceptTransaction_def)
  assume "hmc_WillAcceptTransaction a w s = Inr True"
  from hmc_AddTransaction_ok [OF inv this]
  show "\<exists>s'. hmc_add c h a w s = Inr s' \<and> hmc_inv c h {#} s' \<and> hmc_outstanding s' = hmc_outstanding s + {#(a, w)#}"
    by (auto simp: grown_def hmc_add_def)
qed (rule hmc_ClockTick_ok)

lemma new_hmc_inv:
  assumes "hmc_ok c h"
  shows "\<exists>s. new_hmc c h = Inr s \<and> hmc_inv c h {#} s \<and> hmc_outstanding s = {#}"
proof -
  obtain pd pl where p: "SetClockRatio h = Inr (pd, pl)" "0 < pl" using assms unfolding hmc_ok_def by blast
  obtain ct where ct: "new_controller c = Inr ct" "ctl_inv c ct" "owed ct = {#}"
    using new_controller_inv assms unfolding hmc_ok_def by blast
  have ch: "0 < channels c" "IsHMC c" "0 < num_links h" using assms unfolding hmc_ok_def by (auto intro: order.strict_trans1)
  have [simp]: "sum_list (replicate n {#}) = ({#} :: (u64 \<times> bool) multiset)" "packets (replicate n []) = {#}" for n
    by (induction n) (auto simp: packets_def)
  show ?thesis using assms p ct ch
    by (simp add: new_hmc_def Let_def from_dram_def hmc_inv_def hmc_shape_def hmc_outstanding_def inside_addresses_def ages_ok_def within_def)
qed

section \<open>Properties\<close>


text \<open>A cube with one link and one vault with one bank; its packets have no flits.\<close>

definition small_hmc :: dram_config where
  "small_hmc = small_dram\<lparr>protocol := HMC\<rparr>"

definition small_hmc_params :: hmc_params where
  "small_hmc_params = \<lparr>num_links = 1, link_width = 16, link_speed = 15000, block_size = 0, xbar_queue_depth = 4\<rparr>"

lemma small_hmc_ok: "hmc_ok small_hmc small_hmc_params"
proof -
  have "config_ok small_hmc \<and> (\<forall>a. 0 \<le> GetChannel small_hmc a \<and> GetChannel small_hmc a < channels small_hmc)"
    by (rule mapped_config_ok [where n = 12480]) code_simp+
  moreover have "IsHMC small_hmc" "SetClockRatio small_hmc_params = Inr (800, 533)" by code_simp+
  ultimately show ?thesis by (simp add: hmc_ok_def) (simp add: small_hmc_params_def)
qed


abbreviation small_hmc_run :: "mem_event list \<Rightarrow> hmc_system \<Rightarrow> hmc_error + ((u64 \<times> bool) list \<times> (u64 \<times> bool) list \<times> hmc_system)" where
  "small_hmc_run \<equiv> client_run hmc_WillAcceptTransaction (hmc_add small_hmc small_hmc_params) (hmc_ClockTick small_hmc)"

text \<open>
  A read and a write of one address, in this order. The vault is done with the write first, and since
  responses are looked up by address alone, the read is answered: its call-back comes while the read is
  still pending in the vault.
\<close>

lemma read_answered_early:
  "\<exists>s s'. new_hmc small_hmc small_hmc_params = Inr s \<and>
     small_hmc_run [Request 0x1000 False, Request 0x1000 True, Cycle, Cycle, Cycle, Cycle] s =
       Inr ([(0x1000, False), (0x1000, True)], [(0x1000, False)], s') \<and>
     map tr_key (pending_rd (hd (vaults s'))) = [(0x1000, False)]"
proof -
  let ?run = "small_hmc_run [Request 0x1000 False, Request 0x1000 True, Cycle, Cycle, Cycle, Cycle]"
  have "case andThen (new_hmc small_hmc small_hmc_params) ?run of
      Inl _ \<Rightarrow> False
    | Inr (acc, cb, s') \<Rightarrow> acc = [(0x1000, False), (0x1000, True)] \<and> cb = [(0x1000, False)] \<and>
        map tr_key (pending_rd (hd (vaults s'))) = [(0x1000, False)]"
    by code_simp
  then show ?thesis by (auto simp: andThen_def simp del: client_run.simps split: sum.splits)
qed


text \<open>
  The order of arbitration is not by age: of four ports with ages 9, 1, 1 and 5 the oldest comes last,
  since an age is compared with port numbers.
\<close>

lemma oldest_port_last: "BuildAgeQueue 0 [9, 1, 1, 5] = Inr [3, 1, 2, 0]"
  by code_simp

end
