(* ===== verification/DramCpu.thy ===== *)
theory DramCpu
  imports HmcRun
begin

text \<open>
  The front of the DRAM simulator (\<^verbatim>\<open>runtime/DRAMsim3/src/memory_system.cc\<close>), which chooses between the
  two kinds of memory, and its request generators (\<^verbatim>\<open>src/cpu.cc\<close>): random requests, a streaming
  addition of arrays, and a trace. A generator is written over the operations of any memory; the
  random number generator is a sequence of words, a trace the list of its records.
\<close>

section \<open>Memory systems\<close>

datatype memory_system = Jedec dram_system | Cube hmc_system

definition new_memory_system :: "dram_config \<Rightarrow> hmc_params \<Rightarrow> hmc_error + memory_system" where
  "new_memory_system c h =
     (if IsHMC c then andThen (new_hmc c h) (\<lambda>s. Inr (Cube s)) else andThen (from_dram (new_system c)) (\<lambda>s. Inr (Jedec s)))"

fun ms_ClockTick :: "dram_config \<Rightarrow> memory_system \<Rightarrow> hmc_error + ((u64 \<times> bool) list \<times> memory_system)" where
  "ms_ClockTick c (Jedec s) = andThen (from_dram (sys_ClockTick c s)) (\<lambda>(cb, s'). Inr (cb, Jedec s'))"
| "ms_ClockTick c (Cube s) = andThen (hmc_ClockTick c s) (\<lambda>(cb, s'). Inr (cb, Cube s'))"

fun ms_WillAcceptTransaction :: "dram_config \<Rightarrow> u64 \<Rightarrow> bool \<Rightarrow> memory_system \<Rightarrow> hmc_error + bool" where
  "ms_WillAcceptTransaction c a w (Jedec s) = from_dram (sys_WillAcceptTransaction c a w s)"
| "ms_WillAcceptTransaction c a w (Cube s) = hmc_WillAcceptTransaction a w s"

fun ms_AddTransaction :: "dram_config \<Rightarrow> hmc_params \<Rightarrow> u64 \<Rightarrow> bool \<Rightarrow> memory_system \<Rightarrow> hmc_error + (bool \<times> memory_system)" where
  "ms_AddTransaction c h a w (Jedec s) = andThen (from_dram (sys_AddTransaction c a w s)) (\<lambda>s'. Inr (True, Jedec s'))"
| "ms_AddTransaction c h a w (Cube s) = andThen (hmc_AddTransaction c h a w s) (\<lambda>(ok, s'). Inr (ok, Cube s'))"

text \<open>The generators ignore the result of \<^verbatim>\<open>AddTransaction\<close>.\<close>

definition ms_add :: "dram_config \<Rightarrow> hmc_params \<Rightarrow> u64 \<Rightarrow> bool \<Rightarrow> memory_system \<Rightarrow> hmc_error + memory_system" where
  "ms_add c h a w s = andThen (ms_AddTransaction c h a w s) (\<lambda>(_, s'). Inr s')"

lemma ms_add_simps:
  "ms_add c h a w (Jedec s) = andThen (from_dram (sys_AddTransaction c a w s)) (\<lambda>s'. Inr (Jedec s'))"
  "ms_add c h a w (Cube u) = andThen (hmc_add c h a w u) (\<lambda>s'. Inr (Cube s'))"
  by (auto simp: ms_add_def hmc_add_def andThen_def split: sum.splits)

fun ms_inv :: "dram_config \<Rightarrow> hmc_params \<Rightarrow> memory_system \<Rightarrow> bool" where
  "ms_inv c h (Jedec s) = sys_inv c s"
| "ms_inv c h (Cube s) = hmc_inv c h {#} s"

fun ms_outstanding :: "memory_system \<Rightarrow> (u64 \<times> bool) multiset" where
  "ms_outstanding (Jedec s) = sys_outstanding s"
| "ms_outstanding (Cube s) = hmc_outstanding s"

lemma from_dram_simps [simp]: "from_dram (Inr a) = Inr a" "from_dram (Inl e) = Inl (Dram e)"
  by (simp_all add: from_dram_def)

lemma from_dram_Inr [simp]: "from_dram m = Inr a \<longleftrightarrow> m = Inr a"
  by (cases m) simp_all

interpretation ms: memory "ms_inv c h" ms_outstanding "ms_WillAcceptTransaction c" "ms_add c h" "ms_ClockTick c" for c h
proof
  fix s :: memory_system and a w
  assume inv: "ms_inv c h s"
  show "\<exists>ok. ms_WillAcceptTransaction c a w s = Inr ok"
    using inv jedec.accepts_total hmc.accepts_total by (cases s) fastforce+
  assume acc: "ms_WillAcceptTransaction c a w s = Inr True"
  show "\<exists>s'. ms_add c h a w s = Inr s' \<and> ms_inv c h s' \<and> ms_outstanding s' = ms_outstanding s + {#(a, w)#}"
    using inv acc jedec.add_one [of c _ a w] hmc.add_one [of c h _ a w] by (cases s) (fastforce simp: ms_add_simps)+
next
  fix s assume inv: "ms_inv c h s"
  show "\<exists>l s'. ms_ClockTick c s = Inr (l, s') \<and> ms_inv c h s' \<and> ms_outstanding s = mset l + ms_outstanding s'"
    using inv jedec.tick_returns [of c] hmc.tick_returns [of c h] by (cases s) fastforce+
qed

definition ms_config_ok :: "dram_config \<Rightarrow> hmc_params \<Rightarrow> bool" where
  "ms_config_ok c h \<longleftrightarrow> (if IsHMC c then hmc_ok c h else system_ok c)"

lemma new_memory_system_inv:
  assumes "ms_config_ok c h"
  shows "\<exists>s. new_memory_system c h = Inr s \<and> ms_inv c h s \<and> ms_outstanding s = {#}"
  using assms new_hmc_inv [of c h] new_system_inv [of c]
  by (cases "IsHMC c") (auto simp: ms_config_ok_def new_memory_system_def)

section \<open>Generators\<close>

text \<open>What a generator needs of a memory: the three operations. A turn also tells what was accepted and called back.\<close>

type_synonym requests = "(u64 \<times> bool) list"

definition offer ::
  "(u64 \<Rightarrow> bool \<Rightarrow> 's \<Rightarrow> 'e + bool) \<Rightarrow> (u64 \<Rightarrow> bool \<Rightarrow> 's \<Rightarrow> 'e + 's) \<Rightarrow> u64 \<Rightarrow> bool \<Rightarrow> 's \<Rightarrow> 'e + (bool \<times> 's)" where
  "offer accepts add a w s = andThen (accepts a w s) (\<lambda>ok. if ok then andThen (add a w s) (\<lambda>s'. Inr (True, s')) else Inr (False, s))"

record random_cpu =
  last_addr :: u64
  last_write :: bool
  r_get_next :: bool
  gen_pos :: nat

definition random_next :: "(nat \<Rightarrow> u64) \<Rightarrow> random_cpu \<Rightarrow> random_cpu" where
  "random_next gen p =
     (if r_get_next p
      then p\<lparr>last_addr := gen (gen_pos p), last_write := (gen (gen_pos p + 1) mod 3 = 0), gen_pos := gen_pos p + 2\<rparr> else p)"

definition random_ClockTick ::
  "(u64 \<Rightarrow> bool \<Rightarrow> 's \<Rightarrow> 'e + bool) \<Rightarrow> (u64 \<Rightarrow> bool \<Rightarrow> 's \<Rightarrow> 'e + 's) \<Rightarrow> ('s \<Rightarrow> 'e + (requests \<times> 's)) \<Rightarrow>
   (nat \<Rightarrow> u64) \<Rightarrow> random_cpu \<times> 's \<Rightarrow> 'e + (requests \<times> requests \<times> random_cpu \<times> 's)" where
  "random_ClockTick accepts add tick gen ps =
     andThen (tick (snd ps)) (\<lambda>(cb, s1).
       let p = random_next gen (fst ps) in
       andThen (offer accepts add (last_addr p) (last_write p) s1) (\<lambda>(ok, s2).
         Inr (if ok then [(last_addr p, last_write p)] else [], cb, p\<lparr>r_get_next := ok\<rparr>, s2)))"

record stream_cpu =
  addr_a :: u64
  addr_b :: u64
  addr_c :: u64
  st_offset :: u64
  inserted_a :: bool
  inserted_b :: bool
  inserted_c :: bool
  st_gen_pos :: nat
  st_clk :: nat

definition array_size :: u64 where "array_size = 2097152"
definition stride :: u64 where "stride = 64"

definition stream_arrays :: "(nat \<Rightarrow> u64) \<Rightarrow> stream_cpu \<Rightarrow> stream_cpu" where
  "stream_arrays gen p =
     (if st_offset p \<ge> array_size \<or> st_clk p = 0
      then p\<lparr>addr_a := gen (st_gen_pos p), addr_b := gen (st_gen_pos p + 1), addr_c := gen (st_gen_pos p + 2),
             st_offset := 0, st_gen_pos := st_gen_pos p + 3\<rparr> else p)"

definition offer_unless ::
  "(u64 \<Rightarrow> bool \<Rightarrow> 's \<Rightarrow> 'e + bool) \<Rightarrow> (u64 \<Rightarrow> bool \<Rightarrow> 's \<Rightarrow> 'e + 's) \<Rightarrow> bool \<Rightarrow> u64 \<Rightarrow> bool \<Rightarrow> 's \<Rightarrow> 'e + (bool \<times> 's)" where
  "offer_unless accepts add inserted a w s = (if inserted then Inr (False, s) else offer accepts add a w s)"

definition stream_advance :: "stream_cpu \<Rightarrow> stream_cpu" where
  "stream_advance p =
     (if inserted_a p \<and> inserted_b p \<and> inserted_c p
      then p\<lparr>st_offset := st_offset p + stride, inserted_a := False, inserted_b := False, inserted_c := False\<rparr> else p)"

definition stream_ClockTick ::
  "(u64 \<Rightarrow> bool \<Rightarrow> 's \<Rightarrow> 'e + bool) \<Rightarrow> (u64 \<Rightarrow> bool \<Rightarrow> 's \<Rightarrow> 'e + 's) \<Rightarrow> ('s \<Rightarrow> 'e + (requests \<times> 's)) \<Rightarrow>
   (nat \<Rightarrow> u64) \<Rightarrow> stream_cpu \<times> 's \<Rightarrow> 'e + (requests \<times> requests \<times> stream_cpu \<times> 's)" where
  "stream_ClockTick accepts add tick gen ps =
     andThen (tick (snd ps)) (\<lambda>(cb, s1).
       let p = stream_arrays gen (fst ps);
           a = addr_a p + st_offset p; b = addr_b p + st_offset p; c = addr_c p + st_offset p in
       andThen (offer_unless accepts add (inserted_a p) a False s1) (\<lambda>(oka, s2).
       andThen (offer_unless accepts add (inserted_b p) b False s2) (\<lambda>(okb, s3).
       andThen (offer_unless accepts add (inserted_c p) c True s3) (\<lambda>(okc, s4).
         let q = stream_advance (p\<lparr>inserted_a := inserted_a p \<or> oka, inserted_b := inserted_b p \<or> okb, inserted_c := inserted_c p \<or> okc\<rparr>)
         in Inr ((if oka then [(a, False)] else []) @ (if okb then [(b, False)] else []) @ (if okc then [(c, True)] else []),
                 cb, q\<lparr>st_clk := st_clk q + 1\<rparr>, s4)))))"

text \<open>
  A trace file: the records not yet read, whether text (a line end) follows the last one, and the end
  mark. Reading a record from a stream at its end sets the mark and leaves the address and the cycle
  as they are; the operation is the empty string, so the record becomes a read.
\<close>

record trace_cpu =
  records :: "transaction list"
  line_end :: bool
  at_eof :: bool
  tr_current :: transaction
  t_get_next :: bool
  t_clk :: nat

definition read_record :: "trace_cpu \<Rightarrow> trace_cpu" where
  "read_record p =
     (case records p of
        [] \<Rightarrow> p\<lparr>at_eof := True, tr_current := (tr_current p)\<lparr>tr_is_write := False\<rparr>\<rparr>
      | t # ts \<Rightarrow> p\<lparr>records := ts, tr_current := t, at_eof := (ts = [] \<and> \<not> line_end p)\<rparr>)"

definition trace_next :: "trace_cpu \<Rightarrow> trace_cpu" where
  "trace_next p = (if t_get_next p then (read_record p)\<lparr>t_get_next := False\<rparr> else p)"

definition trace_ClockTick ::
  "(u64 \<Rightarrow> bool \<Rightarrow> 's \<Rightarrow> 'e + bool) \<Rightarrow> (u64 \<Rightarrow> bool \<Rightarrow> 's \<Rightarrow> 'e + 's) \<Rightarrow> ('s \<Rightarrow> 'e + (requests \<times> 's)) \<Rightarrow>
   trace_cpu \<times> 's \<Rightarrow> 'e + (requests \<times> requests \<times> trace_cpu \<times> 's)" where
  "trace_ClockTick accepts add tick ps =
     andThen (tick (snd ps)) (\<lambda>(cb, s1).
       let p0 = fst ps; done = (\<lambda>acc p s. Inr (acc, cb, p\<lparr>t_clk := t_clk p + 1\<rparr>, s)) in
       if at_eof p0 then done [] p0 s1
       else let p = trace_next p0; t = tr_current p in
            if added_cycle t \<le> t_clk p then
              andThen (offer accepts add (tr_addr t) (tr_is_write t) s1) (\<lambda>(ok, s2).
                done (if ok then [(tr_addr t, tr_is_write t)] else []) (p\<lparr>t_get_next := ok\<rparr>) s2)
            else done [] p s1)"

text \<open>Turns of a generator, with all that was accepted and called back.\<close>

fun cpu_run :: "('p \<times> 's \<Rightarrow> 'e + (requests \<times> requests \<times> 'p \<times> 's)) \<Rightarrow> nat \<Rightarrow> 'p \<times> 's \<Rightarrow> 'e + (requests \<times> requests \<times> 'p \<times> 's)" where
  "cpu_run turn 0 ps = Inr ([], [], ps)"
| "cpu_run turn (Suc n) ps = andThen (cpu_run turn n ps) (\<lambda>(acc, cb, ps'). andThen (turn ps') (\<lambda>(acc', cb', ps'').
     Inr (acc @ acc', cb @ cb', ps'')))"


section \<open>Generators on any memory\<close>

context memory
begin

lemma offer_ok:
  assumes "inv s"
  shows "\<exists>ok s'. offer accepts add a w s = Inr (ok, s') \<and> inv s' \<and> outstanding s' = outstanding s + mset (if ok then [(a, w)] else [])"
proof -
  obtain ok where "accepts a w s = Inr ok" using accepts_total [OF assms] by blast
  then show ?thesis using add_one [OF assms, of a w] assms by (cases ok) (auto simp: offer_def)
qed

lemma offer_unless_ok:
  assumes "inv s"
  shows "\<exists>ok s'. offer_unless accepts add i a w s = Inr (ok, s') \<and> inv s' \<and> (i \<longrightarrow> \<not> ok) \<and>
    outstanding s' = outstanding s + mset (if ok then [(a, w)] else [])"
  using offer_ok [OF assms, of a w] assms by (cases i) (auto simp: offer_unless_def)

text \<open>
  Runs of a generator: if each of its turns succeeds, balances what it adds and gets back, and takes
  the property \<open>R\<close> of the requests so far and its state to the next, then so does every run.
\<close>

lemma cpu_run_ok:
  assumes turn: "\<And>acc p s. inv s \<Longrightarrow> R acc p \<Longrightarrow> \<exists>acc' cb p' s'. turn (p, s) = Inr (acc', cb, p', s') \<and> inv s' \<and>
      outstanding s + mset acc' = mset cb + outstanding s' \<and> R (acc @ acc') p'"
    and start: "inv s" "R [] p"
  shows "\<exists>acc cb p' s'. cpu_run turn n (p, s) = Inr (acc, cb, p', s') \<and> inv s' \<and>
    outstanding s + mset acc = mset cb + outstanding s' \<and> R acc p'"
proof (induction n)
  case (Suc n)
  then obtain acc cb p' s' where n: "cpu_run turn n (p, s) = Inr (acc, cb, p', s')" "inv s'"
    "outstanding s + mset acc = mset cb + outstanding s'" "R acc p'" by blast
  obtain acc' cb' p'' s'' where t: "turn (p', s') = Inr (acc', cb', p'', s'')" "inv s''"
    "outstanding s' + mset acc' = mset cb' + outstanding s''" "R (acc @ acc') p''" using turn [OF n(2,4)] by blast
  have "outstanding s + mset (acc @ acc') = mset cb + (outstanding s' + mset acc')"
    by (simp add: n(3) flip: add.assoc)
  then have "outstanding s + mset (acc @ acc') = mset (cb @ cb') + outstanding s''" by (simp add: t(3) add.assoc)
  moreover have "cpu_run turn (Suc n) (p, s) = Inr (acc @ acc', cb @ cb', p'', s'')" using n(1) t(1) by simp
  ultimately show ?case using t(2,4) by blast
qed (use start in simp)

end

section \<open>What the generators request\<close>

text \<open>The i-th request of the random generator.\<close>

definition random_request :: "(nat \<Rightarrow> u64) \<Rightarrow> nat \<Rightarrow> u64 \<times> bool" where
  "random_request gen i = (gen (2 * i), gen (2 * i + 1) mod 3 = 0)"

definition random_state :: "(nat \<Rightarrow> u64) \<Rightarrow> requests \<Rightarrow> random_cpu \<Rightarrow> bool" where
  "random_state gen acc p \<longleftrightarrow> acc = map (random_request gen) [0..<length acc] \<and>
     (if r_get_next p then gen_pos p = 2 * length acc
      else gen_pos p = 2 * length acc + 2 \<and> (last_addr p, last_write p) = random_request gen (length acc))"

lemma random_next_state:
  "random_state gen acc p \<Longrightarrow> (last_addr (random_next gen p), last_write (random_next gen p)) = random_request gen (length acc) \<and>
     gen_pos (random_next gen p) = 2 * length acc + 2"
  by (auto simp: random_state_def random_next_def random_request_def split: if_splits)

text \<open>The j-th element of the streaming addition: 32768 elements to a set of three arrays.\<close>

definition element :: "(nat \<Rightarrow> u64) \<Rightarrow> nat \<Rightarrow> (u64 \<times> bool) multiset" where
  "element gen j =
     (let r = 3 * (j div 32768); off = of_nat (64 * (j mod 32768))
      in {#(gen r + off, False), (gen (r + 1) + off, False), (gen (r + 2) + off, True)#})"

definition element_part :: "stream_cpu \<Rightarrow> (u64 \<times> bool) multiset" where
  "element_part p = mset ((if inserted_a p then [(addr_a p + st_offset p, False)] else []) @
     (if inserted_b p then [(addr_b p + st_offset p, False)] else []) @ (if inserted_c p then [(addr_c p + st_offset p, True)] else []))"

lemma element_part_clk [simp]: "element_part (p\<lparr>st_clk := t\<rparr>) = element_part p"
  by (simp add: element_part_def)

text \<open>After \<open>32768 r + m\<close> complete elements.\<close>

definition stream_at :: "(nat \<Rightarrow> u64) \<Rightarrow> nat \<Rightarrow> nat \<Rightarrow> requests \<Rightarrow> stream_cpu \<Rightarrow> bool" where
  "stream_at gen r m acc p \<longleftrightarrow> m \<le> 32768 \<and> st_offset p = of_nat (64 * m) \<and> st_gen_pos p = 3 * (r + 1) \<and>
     addr_a p = gen (3 * r) \<and> addr_b p = gen (3 * r + 1) \<and> addr_c p = gen (3 * r + 2) \<and>
     \<not> (inserted_a p \<and> inserted_b p \<and> inserted_c p) \<and> (m = 32768 \<longrightarrow> \<not> inserted_a p \<and> \<not> inserted_b p \<and> \<not> inserted_c p) \<and>
     mset acc = (\<Sum>j<32768 * r + m. element gen j) + element_part p"

definition stream_fresh :: "requests \<Rightarrow> stream_cpu \<Rightarrow> bool" where
  "stream_fresh acc p \<longleftrightarrow> acc = [] \<and> st_clk p = 0 \<and> st_gen_pos p = 0 \<and> \<not> inserted_a p \<and> \<not> inserted_b p \<and> \<not> inserted_c p"

definition stream_state :: "(nat \<Rightarrow> u64) \<Rightarrow> requests \<Rightarrow> stream_cpu \<Rightarrow> bool" where
  "stream_state gen acc p \<longleftrightarrow> stream_fresh acc p \<or> 0 < st_clk p \<and> (\<exists>r m. stream_at gen r m acc p)"

lemma offset_limit:
  assumes "m \<le> 32768"
  shows "of_nat (64 * m) \<ge> array_size \<longleftrightarrow> m = 32768"
proof -
  have "unat (of_nat (64 * m) :: u64) = 64 * m" using assms by (simp add: unat_of_nat del: of_nat_mult)
  then show ?thesis using assms by (auto simp: array_size_def word_le_nat_alt simp del: of_nat_mult)
qed

text \<open>Before the requests of a turn: the generator stands at an element that is not complete.\<close>

lemma stream_arrays_at:
  assumes "stream_state gen acc p"
  shows "\<exists>r m. m < 32768 \<and> stream_at gen r m acc (stream_arrays gen p) \<and>
    st_clk (stream_arrays gen p) = st_clk p"
proof (cases "stream_fresh acc p")
  case True
  then show ?thesis
    by (intro exI [of _ 0]) (simp add: stream_fresh_def stream_arrays_def stream_at_def element_part_def)
next
  case False
  then obtain r m where m: "0 < st_clk p" "stream_at gen r m acc p" using assms by (auto simp: stream_state_def)
  then have le: "m \<le> 32768" and off: "st_offset p = of_nat (64 * m)" by (simp_all add: stream_at_def)
  show ?thesis
  proof (cases "m = 32768")
    case True
    then have "st_offset p \<ge> array_size" using off offset_limit [OF le] by simp
    then have "stream_at gen (Suc r) 0 acc (stream_arrays gen p) \<and> st_clk (stream_arrays gen p) = st_clk p"
      using m True by (simp add: stream_at_def stream_arrays_def element_part_def algebra_simps)
    then show ?thesis by (intro exI [of _ "Suc r"] exI [of _ 0]) simp
  next
    case False
    then have "stream_arrays gen p = p" using m off offset_limit [OF le] by (simp add: stream_arrays_def)
    moreover have "m < 32768" using False le by simp
    ultimately show ?thesis using m(2) by auto
  qed
qed


text \<open>One turn adds to the element, and moves on when it is complete.\<close>

lemma stream_turn:
  assumes at: "stream_at gen r m acc p" and m: "m < 32768"
    and ok: "inserted_a p \<longrightarrow> \<not> oka" "inserted_b p \<longrightarrow> \<not> okb" "inserted_c p \<longrightarrow> \<not> okc"
    and q: "q = stream_advance (p\<lparr>inserted_a := inserted_a p \<or> oka, inserted_b := inserted_b p \<or> okb, inserted_c := inserted_c p \<or> okc\<rparr>)"
    and new: "new = (if oka then [(addr_a p + st_offset p, False)] else []) @ (if okb then [(addr_b p + st_offset p, False)] else []) @
      (if okc then [(addr_c p + st_offset p, True)] else [])"
  shows "\<exists>r m. stream_at gen r m (acc @ new) (q\<lparr>st_clk := t\<rparr>)"
proof -
  let ?p = "p\<lparr>inserted_a := inserted_a p \<or> oka, inserted_b := inserted_b p \<or> okb, inserted_c := inserted_c p \<or> okc\<rparr>"
  have part: "element_part ?p = element_part p + mset new" using ok by (auto simp: element_part_def new)
  have el: "element gen (32768 * r + m) = {#(addr_a p + st_offset p, False), (addr_b p + st_offset p, False), (addr_c p + st_offset p, True)#}"
    using at m by (simp add: element_def stream_at_def Let_def)
  show ?thesis
  proof (cases "inserted_a ?p \<and> inserted_b ?p \<and> inserted_c ?p")
    case True
    have full: "element_part ?p = element gen (32768 * r + m)" using True by (simp add: element_part_def el)
    have "stream_at gen r (Suc m) (acc @ new) (q\<lparr>st_clk := t\<rparr>)"
      using at m True part full unfolding q stream_advance_def
      by (simp add: stream_at_def stride_def algebra_simps) (simp add: element_part_def)
    then show ?thesis by blast
  next
    case False
    then have "q = ?p" unfolding q stream_advance_def by (rule if_not_P)
    moreover have "element_part (?p\<lparr>st_clk := t\<rparr>) = element_part p + mset new" unfolding element_part_clk by (rule part)
    ultimately have "stream_at gen r m (acc @ new) (q\<lparr>st_clk := t\<rparr>)"
      using at m False by (simp add: stream_at_def add.assoc)
    then show ?thesis by blast
  qed
qed

context memory
begin

lemma random_turn:
  assumes "inv s" "random_state gen acc p"
  shows "\<exists>acc' cb p' s'. random_ClockTick accepts add tick gen (p, s) = Inr (acc', cb, p', s') \<and> inv s' \<and>
    outstanding s + mset acc' = mset cb + outstanding s' \<and> random_state gen (acc @ acc') p'"
proof -
  obtain cb s1 where s1: "tick s = Inr (cb, s1)" "inv s1" "outstanding s = mset cb + outstanding s1" using tick_returns [OF assms(1)] by blast
  let ?p = "random_next gen p"
  obtain ok s2 where s2: "offer accepts add (last_addr ?p) (last_write ?p) s1 = Inr (ok, s2)" "inv s2"
    "outstanding s2 = outstanding s1 + mset (if ok then [(last_addr ?p, last_write ?p)] else [])" using offer_ok [OF s1(2)] by blast
  have "random_state gen (acc @ (if ok then [(last_addr ?p, last_write ?p)] else [])) (?p\<lparr>r_get_next := ok\<rparr>)"
    using random_next_state [OF assms(2)] assms(2) by (auto simp: random_state_def)
  then show ?thesis using s1 s2 by (simp add: random_ClockTick_def Let_def)
qed

lemma stream_cpu_turn:
  assumes "inv s" "stream_state gen acc p"
  shows "\<exists>acc' cb p' s'. stream_ClockTick accepts add tick gen (p, s) = Inr (acc', cb, p', s') \<and> inv s' \<and>
    outstanding s + mset acc' = mset cb + outstanding s' \<and> stream_state gen (acc @ acc') p'"
proof -
  obtain cb s1 where s1: "tick s = Inr (cb, s1)" "inv s1" "outstanding s = mset cb + outstanding s1" using tick_returns [OF assms(1)] by blast
  let ?p = "stream_arrays gen p"
  let ?a = "addr_a ?p + st_offset ?p" and ?b = "addr_b ?p + st_offset ?p" and ?c = "addr_c ?p + st_offset ?p"
  obtain oka s2 where s2: "offer_unless accepts add (inserted_a ?p) ?a False s1 = Inr (oka, s2)" "inv s2" "inserted_a ?p \<longrightarrow> \<not> oka"
    "outstanding s2 = outstanding s1 + mset (if oka then [(?a, False)] else [])" using offer_unless_ok [OF s1(2)] by blast
  obtain okb s3 where s3: "offer_unless accepts add (inserted_b ?p) ?b False s2 = Inr (okb, s3)" "inv s3" "inserted_b ?p \<longrightarrow> \<not> okb"
    "outstanding s3 = outstanding s2 + mset (if okb then [(?b, False)] else [])" using offer_unless_ok [OF s2(2)] by blast
  obtain okc s4 where s4: "offer_unless accepts add (inserted_c ?p) ?c True s3 = Inr (okc, s4)" "inv s4" "inserted_c ?p \<longrightarrow> \<not> okc"
    "outstanding s4 = outstanding s3 + mset (if okc then [(?c, True)] else [])" using offer_unless_ok [OF s3(2)] by blast
  obtain r m where m: "m < 32768" "stream_at gen r m acc ?p" "st_clk ?p = st_clk p" using stream_arrays_at [OF assms(2)] by blast
  let ?new = "(if oka then [(?a, False)] else []) @ (if okb then [(?b, False)] else []) @ (if okc then [(?c, True)] else [])"
  let ?q = "stream_advance (?p\<lparr>inserted_a := inserted_a ?p \<or> oka, inserted_b := inserted_b ?p \<or> okb, inserted_c := inserted_c ?p \<or> okc\<rparr>)"
  have "stream_state gen (acc @ ?new) (?q\<lparr>st_clk := st_clk ?q + 1\<rparr>)"
    using stream_turn [OF m(2,1) s2(3) s3(3) s4(3) refl refl] by (auto simp: stream_state_def)
  moreover have "outstanding s + mset ?new = mset cb + outstanding s4" using s1(3) s2(4) s3(4) s4(4) by (simp add: ac_simps)
  ultimately show ?thesis using s1(1) s2(1) s3(1) s4(1,2) by (simp add: stream_ClockTick_def Let_def)
qed

end

section \<open>Traces\<close>

text \<open>
  Where a reader of the records \<open>all\<close> stands: it has read \<open>seen\<close> of them and issued all of these or all
  but the last, or it is at the end of the file.
\<close>

definition reading :: "transaction list \<Rightarrow> requests \<Rightarrow> trace_cpu \<Rightarrow> bool" where
  "reading all acc p \<longleftrightarrow> (\<exists>seen. all = seen @ records p \<and> (seen \<noteq> [] \<longrightarrow> tr_current p = last seen) \<and>
     (if t_get_next p then acc = map tr_key seen else seen \<noteq> [] \<and> acc = map tr_key (butlast seen)))"

definition finished :: "transaction list \<Rightarrow> requests \<Rightarrow> trace_cpu \<Rightarrow> bool" where
  "finished all acc p \<longleftrightarrow>
     (if line_end p then acc = map tr_key all \<or> acc = map tr_key all @ [(tr_addr (last all), False)]
      else acc = map tr_key (butlast all) \<or> acc = map tr_key all)"

definition trace_state :: "bool \<Rightarrow> transaction list \<Rightarrow> requests \<Rightarrow> trace_cpu \<Rightarrow> bool" where
  "trace_state e all acc p \<longleftrightarrow> all \<noteq> [] \<and> line_end p = e \<and> (if at_eof p then finished all acc p else reading all acc p \<and> (e \<or> records p \<noteq> []))"

text \<open>The record a turn offers, and what becomes of the state when it is accepted or not.\<close>

lemma trace_next_state:
  assumes "trace_state e all acc p" "\<not> at_eof p"
  defines "q \<equiv> trace_next p"
  shows "trace_state e all acc (q\<lparr>t_get_next := False\<rparr>) \<and> trace_state e all (acc @ [tr_key (tr_current q)]) (q\<lparr>t_get_next := True\<rparr>) \<and>
    \<not> t_get_next q"
proof -
  obtain seen where seen: "all = seen @ records p" "seen \<noteq> [] \<longrightarrow> tr_current p = last seen" "all \<noteq> []" "line_end p = e"
    "if t_get_next p then acc = map tr_key seen else seen \<noteq> [] \<and> acc = map tr_key (butlast seen)" "e \<or> records p \<noteq> []"
    using assms(1,2) by (auto simp: trace_state_def reading_def)
  have last: "map tr_key (butlast xs) @ [tr_key (last xs)] = map tr_key xs" if "xs \<noteq> []" for xs
    using that by (metis append_butlast_last_id list.simps(8,9) map_append)
  show ?thesis
  proof (cases "t_get_next p")
    case False
    then have "q = p" by (simp add: q_def trace_next_def)
    then show ?thesis using assms(2) seen last [of seen] False by (simp add: trace_state_def reading_def)
  next
    case True
    show ?thesis
    proof (cases "records p")
      case Nil
      then have "tr_key (tr_current q) = (tr_addr (last all), False)" "at_eof q" "line_end q = e" "\<not> t_get_next q"
        using True seen by (simp_all add: q_def trace_next_def read_record_def tr_key_def)
      then show ?thesis using True seen Nil by (simp add: trace_state_def finished_def)
    next
      case (Cons t ts)
      then have q: "records q = ts" "tr_current q = t" "at_eof q = (ts = [] \<and> \<not> e)" "line_end q = e" "\<not> t_get_next q"
        using True seen by (simp_all add: q_def trace_next_def read_record_def)
      have acc: "acc = map tr_key seen" using seen(5) True by simp
      show ?thesis
      proof (cases "ts = [] \<and> \<not> e")
        case True
        then show ?thesis using q acc seen(1,3) Cons by (simp add: trace_state_def finished_def butlast_append)
      next
        case False
        then have "reading all acc (q\<lparr>t_get_next := False\<rparr>)" "reading all (acc @ [tr_key t]) (q\<lparr>t_get_next := True\<rparr>)"
          using q acc seen(1) Cons by (auto simp: reading_def intro!: exI [of _ "seen @ [t]"])
        then show ?thesis using q False seen(3) by (auto simp: trace_state_def)
      qed
    qed
  qed
qed

lemma trace_clk [simp]: "trace_state e all acc (p\<lparr>t_clk := t\<rparr>) = trace_state e all acc p"
  by (simp add: trace_state_def finished_def reading_def)

context memory
begin

lemma trace_turn:
  assumes "inv s" "trace_state e all acc p"
  shows "\<exists>acc' cb p' s'. trace_ClockTick accepts add tick (p, s) = Inr (acc', cb, p', s') \<and> inv s' \<and>
    outstanding s + mset acc' = mset cb + outstanding s' \<and> trace_state e all (acc @ acc') p'"
proof -
  obtain cb s1 where s1: "tick s = Inr (cb, s1)" "inv s1" "outstanding s = mset cb + outstanding s1" using tick_returns [OF assms(1)] by blast
  show ?thesis
  proof (cases "at_eof p")
    case True
    then show ?thesis using s1 assms(2) by (simp add: trace_ClockTick_def)
  next
    case False
    let ?p = "trace_next p" and ?t = "tr_current (trace_next p)"
    note st = trace_next_state [OF assms(2) False]
    have p: "?p\<lparr>t_get_next := False\<rparr> = ?p" using st by simp
    have turn: "trace_ClockTick accepts add tick (p, s) =
        (if added_cycle ?t \<le> t_clk ?p then
           andThen (offer accepts add (tr_addr ?t) (tr_is_write ?t) s1) (\<lambda>(ok, s2).
             Inr (if ok then [(tr_addr ?t, tr_is_write ?t)] else [], cb, ?p\<lparr>t_get_next := ok, t_clk := t_clk ?p + 1\<rparr>, s2))
         else Inr ([], cb, ?p\<lparr>t_clk := t_clk ?p + 1\<rparr>, s1))"
      using s1(1) False by (simp add: trace_ClockTick_def Let_def)
    show ?thesis
    proof (cases "added_cycle ?t \<le> t_clk ?p")
      case True
      obtain ok s2 where s2: "offer accepts add (tr_addr ?t) (tr_is_write ?t) s1 = Inr (ok, s2)" "inv s2"
        "outstanding s2 = outstanding s1 + mset (if ok then [(tr_addr ?t, tr_is_write ?t)] else [])" using offer_ok [OF s1(2)] by blast
      have "trace_state e all (acc @ (if ok then [(tr_addr ?t, tr_is_write ?t)] else [])) (?p\<lparr>t_get_next := ok, t_clk := t_clk ?p + 1\<rparr>)"
        using st by (cases ok) (simp_all flip: tr_key_def)
      then show ?thesis unfolding turn using True s1 s2 by simp
    next
      case late: False
      have "trace_state e all acc (?p\<lparr>t_clk := t_clk ?p + 1\<rparr>)" using st p by simp
      then show ?thesis unfolding turn using late s1 by simp
    qed
  qed
qed

end

section \<open>Properties\<close>

text \<open>
  The random generator over a memory system issues its requests in order, each once, and never ends
  the simulation.
\<close>

lemma random_cpu_requests:
  assumes "ms_config_ok c h" "new_memory_system c h = Inr s" "r_get_next p" "gen_pos p = 0"
  shows "\<exists>acc cb p' s'. cpu_run (random_ClockTick (ms_WillAcceptTransaction c) (ms_add c h) (ms_ClockTick c) gen) n (p, s) =
      Inr (acc, cb, p', s') \<and> acc = map (random_request gen) [0..<length acc] \<and> mset acc = mset cb + ms_outstanding s'"
proof -
  have s: "ms_inv c h s" "ms_outstanding s = {#}" using new_memory_system_inv [OF assms(1)] assms(2) by auto
  have "random_state gen [] p" using assms(3,4) by (simp add: random_state_def)
  from ms.cpu_run_ok [where R = "random_state gen", OF ms.random_turn s(1) this, of n]
  show ?thesis using s(2) by (auto simp: random_state_def)
qed

lemma element_part_subset:
  assumes "stream_at gen r m acc p"
  shows "element_part p \<subset># element gen (32768 * r + m)"
proof (cases "m = 32768")
  case True
  then show ?thesis using assms by (simp add: stream_at_def element_part_def element_def Let_def subset_mset.less_le)
next
  case False
  then have "element gen (32768 * r + m) = {#(addr_a p + st_offset p, False), (addr_b p + st_offset p, False), (addr_c p + st_offset p, True)#}"
    using assms by (simp add: element_def stream_at_def Let_def)
  moreover have "\<not> (inserted_a p \<and> inserted_b p \<and> inserted_c p)" using assms by (simp add: stream_at_def)
  ultimately show ?thesis by (auto simp: element_part_def subset_mset_def subseteq_mset_def)
qed


definition stream_start :: stream_cpu where
  "stream_start = \<lparr>addr_a = 0, addr_b = 0, addr_c = 0, st_offset = 0, inserted_a = False, inserted_b = False, inserted_c = False,
     st_gen_pos = 0, st_clk = 0\<rparr>"


text \<open>
  A trace is replayed in order, each record once. At its end the generator differs from the trace: if a
  line end follows the last record, a further read of the last address may be issued; if none follows,
  the last record may never be issued.
\<close>

lemma trace_cpu_requests:
  assumes "ms_config_ok c h" "new_memory_system c h = Inr s" "all \<noteq> []"
    and p: "records p = all" "\<not> at_eof p" "t_get_next p"
  shows "\<exists>acc cb p' s' k extra. cpu_run (trace_ClockTick (ms_WillAcceptTransaction c) (ms_add c h) (ms_ClockTick c)) n (p, s) =
      Inr (acc, cb, p', s') \<and> acc = map tr_key (take k all) @ extra \<and>
      (extra = [] \<or> line_end p \<and> k = length all \<and> extra = [(tr_addr (last all), False)]) \<and> mset acc = mset cb + ms_outstanding s'"
proof -
  have s: "ms_inv c h s" "ms_outstanding s = {#}" using new_memory_system_inv [OF assms(1)] assms(2) by auto
  have "trace_state (line_end p) all [] p" using p assms(3) by (auto simp: trace_state_def reading_def)
  from ms.cpu_run_ok [where R = "trace_state (line_end p) all", OF ms.trace_turn s(1) this, of n]
  obtain acc cb p' s' where r: "cpu_run (trace_ClockTick (ms_WillAcceptTransaction c) (ms_add c h) (ms_ClockTick c)) n (p, s) =
      Inr (acc, cb, p', s')" "mset acc = mset cb + ms_outstanding s'" "trace_state (line_end p) all acc p'" using s(2) by auto
  have "\<exists>k extra. acc = map tr_key (take k all) @ extra \<and>
      (extra = [] \<or> line_end p \<and> k = length all \<and> extra = [(tr_addr (last all), False)])"
  proof (cases "at_eof p'")
    case True
    then have "finished all acc p'" "line_end p' = line_end p" using r(3) by (simp_all add: trace_state_def)
    then consider "acc = map tr_key all" | "line_end p" "acc = map tr_key all @ [(tr_addr (last all), False)]"
      | "acc = map tr_key (butlast all)" by (auto simp: finished_def split: if_splits)
    then show ?thesis
    proof cases
      case 1
      then show ?thesis by (intro exI [of _ "length all"] exI [of _ "[]"]) simp
    next
      case 2
      then show ?thesis by (intro exI [of _ "length all"] exI [of _ "[(tr_addr (last all), False)]"]) simp
    next
      case 3
      then show ?thesis by (intro exI [of _ "length all - 1"] exI [of _ "[]"]) (simp add: butlast_conv_take)
    qed
  next
    case False
    then obtain seen where "all = seen @ records p'" "acc = map tr_key seen \<or> acc = map tr_key (butlast seen)"
      using r(3) by (auto simp: trace_state_def reading_def split: if_splits)
    then have "acc = map tr_key (take (length acc) all)" by (auto simp: butlast_conv_take)
    then show ?thesis by (intro exI [of _ "length acc"] exI [of _ "[]"]) simp
  qed
  then show ?thesis using r by blast
qed

end
