(* ===== verification/DramSetup.thy ===== *)
theory DramSetup
  imports DramSystem
begin

text \<open>
  From a configuration file to a running memory: what \<^verbatim>\<open>Config::Config\<close> (\<^verbatim>\<open>src/configuration.cc\<close>) makes of a
  file is a configuration the memory system is verified for.
\<close>

section \<open>Files and configurations\<close>

text \<open>A file with sizes that are sizes; and the configurations the account of requests covers.\<close>

definition positive_file :: "ini_file \<Rightarrow> bool" where
  "positive_file f \<longleftrightarrow> 0 < GetInteger f ''system'' ''channels'' 1 \<and> 0 < GetInteger f ''system'' ''bus_width'' 64 \<and>
     0 < GetInteger f ''dram_structure'' ''bankgroups'' 2 \<and> 0 < GetInteger f ''dram_structure'' ''banks_per_group'' 2 \<and>
     0 < GetInteger f ''dram_structure'' ''rows'' 65536 \<and> 0 < GetInteger f ''dram_structure'' ''columns'' 1024 \<and>
     0 < GetInteger f ''dram_structure'' ''device_width'' 8 \<and> 0 \<le> GetInteger f ''dram_structure'' ''BL'' 8 \<and>
     0 \<le> GetInteger f ''hmc'' ''block_size'' 64"

definition supported :: "dram_config \<Rightarrow> bool" where
  "supported c \<longleftrightarrow> \<not> IsHMC c \<and> (queue_structure c = ''PER_BANK'' \<or> queue_structure c = ''PER_RANK'') \<and>
     \<not> enable_self_refresh c \<and> \<not> enable_hbm_dual_cmd c \<and>
     ranks c \<le> tREFI c \<and> tREFI c < 2 ^ 31 \<and> 0 < tREFIb c \<and> tREFIb c < 2 ^ 31"

lemma sdiv_nonneg: "0 \<le> x \<Longrightarrow> 0 \<le> w \<Longrightarrow> 0 \<le> x sdiv w" for x w :: int
  by (simp add: signed_divide_int_def sgn_if div_int_pos_iff)

lemma sdiv_pos: "0 < w \<Longrightarrow> w \<le> x \<Longrightarrow> 1 \<le> x sdiv w" for x w :: int
  using pos_imp_zdiv_pos_iff [of w x] by (simp add: signed_divide_int_def sgn_if)

section \<open>The steps of the constructor\<close>

definition sizes_ok :: "dram_config \<Rightarrow> bool" where
  "sizes_ok c \<longleftrightarrow> 0 < channels c \<and> 0 < bus_width c \<and> 0 < bankgroups c \<and> 0 < banks_per_group c \<and> banks c = bankgroups c * banks_per_group c \<and>
     0 < rows c \<and> 0 < columns c \<and> 0 < device_width c \<and> 0 < BL c"

lemma InitSystemParams_sizes:
  "positive_file f \<Longrightarrow> InitSystemParams f c = Inr c' \<Longrightarrow> 0 < channels c' \<and> 0 < bus_width c'"
  by (auto simp: InitSystemParams_def positive_file_def Let_def split: if_splits)

lemma InitDRAMParams_sizes:
  assumes "positive_file f" "InitDRAMParams f c = Inr c'" "0 < channels c" "0 < bus_width c"
  shows "sizes_ok c'"
proof -
  let ?dw = "GetInteger f ''dram_structure'' ''device_width'' 8" and ?co = "GetInteger f ''dram_structure'' ''columns'' 1024"
  have pos: "0 < ?dw" "0 < ?co" using assms(1) by (simp_all add: positive_file_def)
  obtain p where p: "GetDRAMProtocol (ini_Get f ''dram_structure'' ''protocol'' ''DDR3'') = Inr p"
    using assms(2) by (auto simp: InitDRAMParams_def andThen_Inr_iff)
  define bl0 where "bl0 = (if p = HMC then (GetInteger f ''hmc'' ''block_size'' 64 * 8) sdiv ?dw else GetInteger f ''dram_structure'' ''BL'' 8)"
  have "0 \<le> (GetInteger f ''hmc'' ''block_size'' 64 * 8) sdiv ?dw"
    using assms(1) by (intro sdiv_nonneg) (simp_all add: positive_file_def)
  then have bl0: "0 \<le> bl0" using assms(1) by (simp add: bl0_def positive_file_def)
  have nz: "(p = HMC \<and> ?dw = 0) = False" using pos by simp
  note c' = assms(2) [unfolded InitDRAMParams_def p andThen_simps Let_def nz if_False sum.inject, folded bl0_def, symmetric]
  have bl: "0 < BL c'" using bl0 unfolding c' by simp
  moreover have "columns c' = ?co * BL c' \<or> columns c' = ?co * 2 \<or> columns c' = ?co" unfolding c' by simp
  then have "0 < columns c'" using bl pos by auto
  moreover have "channels c' = channels c" "bus_width c' = bus_width c" "device_width c' = ?dw" "banks c' = bankgroups c' * banks_per_group c'"
    "rows c' = GetInteger f ''dram_structure'' ''rows'' 65536" unfolding c' by simp_all
  moreover have "0 < bankgroups c'" "0 < banks_per_group c'" using assms(1) unfolding c' positive_file_def by simp_all
  ultimately show ?thesis using assms(1,3,4) pos by (simp add: sizes_ok_def positive_file_def)
qed

lemma CalculateSize_ranks:
  assumes "sizes_ok c" "CalculateSize c = Inr c'"
  shows "sizes_ok c' \<and> 0 < ranks c'"
proof -
  define m where "m = ((columns c * device_width c) sdiv 8 * (rows c sdiv 1024)) sdiv 1024 * banks c * (bus_width c sdiv device_width c)"
  have m: "0 \<le> m" using assms(1) unfolding m_def sizes_ok_def by (intro mult_nonneg_nonneg sdiv_nonneg) auto
  have d: "device_width c \<noteq> 0" using assms(1) by (simp add: sizes_ok_def)
  have c': "c' = (if channel_size c < m then c\<lparr>devices_per_rank := bus_width c sdiv device_width c, ranks := 1, channel_size := m\<rparr>
      else c\<lparr>devices_per_rank := bus_width c sdiv device_width c, ranks := channel_size c sdiv m, channel_size := channel_size c sdiv m * m\<rparr>)"
    and z: "m \<le> channel_size c \<Longrightarrow> m \<noteq> 0"
    using assms(2) d by (auto simp: CalculateSize_def Let_def m_def [symmetric] split: if_splits)
  have "0 < ranks c'" using m z sdiv_pos [of m "channel_size c"] unfolding c' by auto
  then show ?thesis using assms(1) unfolding c' by (auto simp: sizes_ok_def)
qed

lemma SetAddressMapping_fields:
  assumes "SetAddressMapping c = Inr c'"
  shows "sizes_ok c' = sizes_ok c \<and> ranks c' = ranks c \<and> address_in_range c' = address_in_range c"
  using assms by (auto simp: SetAddressMapping_def Let_def andThen_Inr_iff sizes_ok_def address_in_range_def fun_eq_iff split: if_splits)

lemma InitTimingParams_fields:
  "sizes_ok (InitTimingParams f c) = sizes_ok c" "ranks (InitTimingParams f c) = ranks c"
  "address_in_range (InitTimingParams f c) = address_in_range c" "AddressMapping (InitTimingParams f c) = AddressMapping c"
  by (simp_all add: InitTimingParams_def sizes_ok_def address_in_range_def AddressMapping_def fun_eq_iff Let_def)

lemma make_config_sizes:
  assumes "make_config f c0 = Inr c" "positive_file f"
  shows "sizes_ok c \<and> 0 < ranks c \<and> (\<forall>a. address_in_range c (AddressMapping c a))"
proof -
  obtain c1 c2 c3 c4 where s: "InitSystemParams f c0 = Inr c1" "InitDRAMParams f c1 = Inr c2" "CalculateSize c2 = Inr c3"
    "SetAddressMapping c3 = Inr c4" and c: "c = InitTimingParams f c4"
    using assms(1) by (auto simp: make_config_def andThen_Inr_iff)
  have ok: "sizes_ok c3" "0 < ranks c3"
    using InitSystemParams_sizes [OF assms(2) s(1)] InitDRAMParams_sizes [OF assms(2) s(2)] CalculateSize_ranks [OF _ s(3)] by auto
  then have "address_in_range c3 (AddressMapping c4 a)" for a
    by (intro AddressMapping_range [OF s(4)]) (auto simp: sizes_ok_def)
  then show ?thesis using ok SetAddressMapping_fields [OF s(4)] by (simp add: c InitTimingParams_fields)
qed

lemma refresh_interval_positive:
  assumes "supported c" "0 < ranks c"
  shows "\<exists>n. refresh_interval c = Inr n \<and> 0 < n"
proof -
  have "1 \<le> tREFI c sdiv ranks c" using assms by (intro sdiv_pos) (auto simp: supported_def)
  moreover have "tREFI c sdiv ranks c \<le> tREFI c"
    using assms zdiv_mono2 [of "tREFI c" 1 "ranks c"] by (auto simp: supported_def signed_divide_int_def sgn_if)
  ultimately show ?thesis using assms by (cases "refresh_policy c") (auto simp: refresh_interval_def supported_def)
qed

section \<open>Property\<close>



text \<open>
  The size of a bank is computed in units of 1024 rows: with fewer rows it is zero, and the number of
  ranks is a division by zero.
\<close>

lemma few_rows_divide_by_zero:
  assumes "0 \<le> rows c" "rows c < 1024" "0 \<le> channel_size c"
  shows "CalculateSize c = Inl DivZero"
  using assms by (auto simp: CalculateSize_def Let_def signed_divide_int_def sgn_if)

end
