(* ===== verification/DramStats.thy ===== *)
theory DramStats
  imports Prelude "HOL-Library.AList" "HOL-Library.Signed_Division"
begin

text \<open>
  The statistics of a DRAM channel (\<^verbatim>\<open>src/simple_stats.cc\<close>, \<^verbatim>\<open>simple_stats.h\<close>): counters, vectors of
  counters and histograms, each kept for the current epoch and as a total, with the updates at the end of
  an epoch and of the simulation. The energies, bandwidths and averages are computed from these in
  floating point for the output only and are left out, like the output itself; of an average the sum and
  the count are kept. An \<^verbatim>\<open>unordered_map\<close> is an association list;
  divisions of \<^verbatim>\<open>int\<close> truncate (\<open>sdiv\<close>).
\<close>

section \<open>Tables\<close>

type_synonym 'v table = "(string \<times> 'v) list"
type_synonym histo_count = "(int \<times> u64) list"

text \<open>\<^verbatim>\<open>operator[]\<close> of a map gives a missing entry its default value; \<^verbatim>\<open>emplace\<close> keeps an old one.\<close>

definition fetch :: "'v \<Rightarrow> 'k \<Rightarrow> ('k \<times> 'v) list \<Rightarrow> 'v" where
  "fetch d k t = (case map_of t k of None \<Rightarrow> d | Some v \<Rightarrow> v)"

definition emplace_new :: "'k \<Rightarrow> 'v \<Rightarrow> ('k \<times> 'v) list \<Rightarrow> ('k \<times> 'v) list" where
  "emplace_new k v t = (if k \<in> fst ` set t then t else t @ [(k, v)])"

record simple_stats =
  counters :: "u64 table"
  epoch_counters :: "u64 table"
  vec_counters :: "u64 list table"
  epoch_vec_counters :: "u64 list table"
  histo_bounds :: "(int \<times> int) table"
  bin_widths :: "int table"
  histo_counts :: "histo_count table"
  epoch_histo_counts :: "histo_count table"
  histo_bins :: "u64 list table"
  epoch_histo_bins :: "u64 list table"

datatype stat_error = BadPosition | DivideByZero

section \<open>Registration\<close>

definition no_stats :: simple_stats where
  "no_stats = \<lparr>counters = [], epoch_counters = [], vec_counters = [], epoch_vec_counters = [], histo_bounds = [], bin_widths = [],
     histo_counts = [], epoch_histo_counts = [], histo_bins = [], epoch_histo_bins = []\<rparr>"

definition InitStat :: "string \<Rightarrow> simple_stats \<Rightarrow> simple_stats" where
  "InitStat name s = s\<lparr>counters := emplace_new name 0 (counters s), epoch_counters := emplace_new name 0 (epoch_counters s)\<rparr>"

definition InitVecStat :: "nat \<Rightarrow> string \<Rightarrow> simple_stats \<Rightarrow> simple_stats" where
  "InitVecStat vec_len name s =
     s\<lparr>vec_counters := emplace_new name (replicate vec_len 0) (vec_counters s),
       epoch_vec_counters := emplace_new name (replicate vec_len 0) (epoch_vec_counters s)\<rparr>"

definition InitHistoStat :: "string \<times> int \<times> int \<times> int \<Rightarrow> simple_stats \<Rightarrow> stat_error + simple_stats" where
  "InitHistoStat = (\<lambda>(name, start_val, end_val, num_bins) s.
     if num_bins = 0 then Inl DivideByZero
     else let bin_width = (end_val - start_val) sdiv num_bins; n = nat (num_bins + 2)
       in Inr (s\<lparr>bin_widths := emplace_new name bin_width (bin_widths s),
                 histo_bounds := emplace_new name (start_val, end_val) (histo_bounds s),
                 histo_counts := emplace_new name [] (histo_counts s),
                 epoch_histo_counts := emplace_new name [] (epoch_histo_counts s),
                 histo_bins := emplace_new name (replicate n 0) (histo_bins s),
                 epoch_histo_bins := emplace_new name (replicate n 0) (epoch_histo_bins s)\<rparr>))"

definition counter_names :: "string list" where
  "counter_names = [''num_cycles'', ''epoch_num'', ''num_reads_done'', ''num_writes_done'', ''num_write_buf_hits'', ''num_read_row_hits'',
     ''num_write_row_hits'', ''num_read_cmds'', ''num_write_cmds'', ''num_act_cmds'', ''num_pre_cmds'', ''num_ondemand_pres'',
     ''num_ref_cmds'', ''num_refb_cmds'', ''num_srefe_cmds'', ''num_srefx_cmds'', ''hbm_dual_cmds'']"

definition vec_names :: "string list" where
  "vec_names = [''all_bank_idle_cycles'', ''rank_active_cycles'', ''sref_cycles'']"

definition histo_specs :: "(string \<times> int \<times> int \<times> int) list" where
  "histo_specs = [(''read_latency'', 0, 200, 10), (''write_latency'', 0, 200, 10), (''interarrival_latency'', 0, 100, 10)]"

definition new_stats :: "nat \<Rightarrow> stat_error + simple_stats" where
  "new_stats ranks = run_all InitHistoStat histo_specs (fold (InitVecStat ranks) vec_names (fold InitStat counter_names no_stats))"

section \<open>Recording\<close>

definition Increment :: "string \<Rightarrow> simple_stats \<Rightarrow> simple_stats" where
  "Increment name s = s\<lparr>epoch_counters := AList.update name (fetch 0 name (epoch_counters s) + 1) (epoch_counters s)\<rparr>"

definition IncrementVecBy :: "string \<Rightarrow> int \<Rightarrow> int \<Rightarrow> simple_stats \<Rightarrow> stat_error + simple_stats" where
  "IncrementVecBy name pos num s =
     (let v = fetch [] name (epoch_vec_counters s)
      in if pos < 0 \<or> nat pos \<ge> length v then Inl BadPosition
         else Inr (s\<lparr>epoch_vec_counters := AList.update name (v[nat pos := v ! nat pos + of_int num]) (epoch_vec_counters s)\<rparr>))"

definition IncrementVec :: "string \<Rightarrow> int \<Rightarrow> simple_stats \<Rightarrow> stat_error + simple_stats" where
  "IncrementVec name pos s = IncrementVecBy name pos 1 s"

definition AddValue :: "string \<Rightarrow> int \<Rightarrow> simple_stats \<Rightarrow> simple_stats" where
  "AddValue name value s =
     (let epoch_counts = fetch [] name (epoch_histo_counts s);
          new = (case map_of epoch_counts value of None \<Rightarrow> 1 | Some n \<Rightarrow> n + 1)
      in s\<lparr>epoch_histo_counts := AList.update name (AList.update value new epoch_counts) (epoch_histo_counts s)\<rparr>)"

section \<open>The end of an epoch and of the simulation\<close>

definition add_counts :: "('k \<times> u64) list \<Rightarrow> ('k \<times> u64) list \<Rightarrow> ('k \<times> u64) list" where
  "add_counts e t = fold (\<lambda>(k, v) t. AList.update k (fetch 0 k t + v) t) e t"

text \<open>\<open>add_vec src n dst\<close>: the loop \<^verbatim>\<open>dst[i] += src[i]\<close> for \<open>i < n\<close>; either vector may be too short.\<close>

definition add_vec :: "u64 list \<Rightarrow> nat \<Rightarrow> u64 list \<Rightarrow> stat_error + u64 list" where
  "add_vec src n dst =
     (if n > length src \<or> n > length dst then Inl BadPosition
      else Inr (map (\<lambda>i. if i < n then dst ! i + src ! i else dst ! i) [0..<length dst]))"

definition UpdateCounters :: "simple_stats \<Rightarrow> stat_error + simple_stats" where
  "UpdateCounters s =
     andThen (run_all (\<lambda>(name, vec) t. andThen (add_vec vec (length vec) (fetch [] name t)) (\<lambda>w. Inr (AList.update name w t)))
                (epoch_vec_counters s) (vec_counters s))
       (\<lambda>vs. Inr (s\<lparr>counters := add_counts (epoch_counters s) (counters s), vec_counters := vs\<rparr>))"

definition bin_idx :: "int \<times> int \<Rightarrow> int \<Rightarrow> nat \<Rightarrow> int \<Rightarrow> stat_error + int" where
  "bin_idx bounds bin_width n value =
     (if value < fst bounds then Inr 0
      else if value > snd bounds then Inr (int n - 1)
      else if bin_width = 0 then Inl DivideByZero
      else Inr ((value - fst bounds) sdiv bin_width + 1))"

definition add_bin :: "int \<times> int \<Rightarrow> int \<Rightarrow> int \<times> u64 \<Rightarrow> u64 list \<Rightarrow> stat_error + u64 list" where
  "add_bin bounds bin_width = (\<lambda>(value, n) bins.
     andThen (bin_idx bounds bin_width (length bins) value) (\<lambda>i.
       if i < 0 \<or> nat i \<ge> length bins then Inl BadPosition else Inr (bins[nat i := bins ! nat i + n])))"

text \<open>The first loop of \<^verbatim>\<open>UpdateHistoBins\<close> fills the bins of the epoch, the second adds the epoch to the totals.\<close>

definition fill_bins :: "simple_stats \<Rightarrow> string \<Rightarrow> u64 list \<Rightarrow> stat_error + u64 list" where
  "fill_bins s name bins =
     run_all (add_bin (fetch (0, 0) name (histo_bounds s)) (fetch 0 name (bin_widths s)))
       (fetch [] name (epoch_histo_counts s)) (replicate (length bins) 0)"

fun fill_all :: "simple_stats \<Rightarrow> u64 list table \<Rightarrow> stat_error + u64 list table" where
  "fill_all s [] = Inr []"
| "fill_all s ((name, bins) # t) =
     andThen (fill_bins s name bins) (\<lambda>b. andThen (fill_all s t) (\<lambda>t'. Inr ((name, b) # t')))"

definition merge_histo :: "string \<times> histo_count \<Rightarrow> simple_stats \<Rightarrow> stat_error + simple_stats" where
  "merge_histo = (\<lambda>(name, epoch_counts) s.
     (let final_bins = fetch [] name (histo_bins s)
      in andThen (add_vec (fetch [] name (epoch_histo_bins s)) (length final_bins) final_bins) (\<lambda>bins.
           Inr (s\<lparr>histo_counts := AList.update name (add_counts epoch_counts (fetch [] name (histo_counts s))) (histo_counts s),
                  histo_bins := AList.update name bins (histo_bins s)\<rparr>))))"

definition UpdateHistoBins :: "simple_stats \<Rightarrow> stat_error + simple_stats" where
  "UpdateHistoBins s =
     andThen (fill_all s (epoch_histo_bins s)) (\<lambda>eb. run_all merge_histo (epoch_histo_counts s) (s\<lparr>epoch_histo_bins := eb\<rparr>))"

definition UpdateEpochStats :: "simple_stats \<Rightarrow> stat_error + simple_stats" where
  "UpdateEpochStats s =
     andThen (UpdateCounters s) (\<lambda>s1. andThen (UpdateHistoBins s1) (\<lambda>s2.
       Inr (s2\<lparr>epoch_counters := map (\<lambda>(k, _). (k, 0)) (epoch_counters s2),
               epoch_vec_counters := map (\<lambda>(k, v). (k, replicate (length v) 0)) (epoch_vec_counters s2),
               epoch_histo_counts := map (\<lambda>(k, _). (k, [])) (epoch_histo_counts s2)\<rparr>)))"

definition UpdateFinalStats :: "simple_stats \<Rightarrow> stat_error + simple_stats" where
  "UpdateFinalStats s = andThen (UpdateCounters s) UpdateHistoBins"

definition Reset :: "simple_stats \<Rightarrow> simple_stats" where
  "Reset s = s\<lparr>counters := map (\<lambda>(k, _). (k, 0)) (counters s), epoch_counters := map (\<lambda>(k, _). (k, 0)) (epoch_counters s),
     vec_counters := map (\<lambda>(k, v). (k, replicate (length v) 0)) (vec_counters s),
     epoch_vec_counters := map (\<lambda>(k, v). (k, replicate (length v) 0)) (epoch_vec_counters s),
     histo_counts := map (\<lambda>(k, _). (k, [])) (histo_counts s), epoch_histo_counts := map (\<lambda>(k, _). (k, [])) (epoch_histo_counts s)\<rparr>"

text \<open>The sum and the number of samples \<^verbatim>\<open>GetHistoAvg\<close> divides; sums wrap.\<close>

definition histo_sums :: "histo_count \<Rightarrow> u64 \<times> u64" where
  "histo_sums l = fold (\<lambda>(v, n) (accu_sum, k). (accu_sum + of_int v * n, k + n)) l (0, 0)"

section \<open>Tables of sums\<close>

lemma fetch_update [simp]: "fetch d k (AList.update j v t) = (if k = j then v else fetch d k t)"
  by (simp add: fetch_def update_conv')

lemma fetch_simps [simp]:
  "fetch d k [] = d" "fetch d k ((j, v) # t) = (if k = j then v else fetch d k t)"
  by (simp_all add: fetch_def)

lemma fetch_not_in: "k \<notin> fst ` set t \<Longrightarrow> fetch d k t = d"
  by (induction t) auto

lemma fetch_in: "distinct (map fst t) \<Longrightarrow> (k, v) \<in> set t \<Longrightarrow> fetch d k t = v"
  by (simp add: fetch_def)

lemma fetch_map: "f d = d \<Longrightarrow> fetch d k (map (\<lambda>(j, v). (j, f v)) t) = f (fetch d k t)"
  by (induction t) auto

lemma add_counts_fetch: "distinct (map fst e) \<Longrightarrow> fetch 0 k (add_counts e t) = fetch 0 k t + fetch 0 k e"
proof (induction e arbitrary: t)
  case (Cons x e)
  obtain j v where x: "x = (j, v)" by (cases x)
  have "fetch 0 j e = 0" using Cons.prems x by (intro fetch_not_in) simp
  then show ?case using Cons by (simp add: add_counts_def x)
qed (simp add: add_counts_def)

text \<open>The entry of a vector in a table, zero where there is none.\<close>

definition vec_at :: "u64 list table \<Rightarrow> string \<Rightarrow> nat \<Rightarrow> u64" where
  "vec_at t k i = (if i < length (fetch [] k t) then fetch [] k t ! i else 0)"

lemma vec_at_update [simp]: "vec_at (AList.update j v t) k i = (if k = j then if i < length v then v ! i else 0 else vec_at t k i)"
  by (simp add: vec_at_def)

lemma add_vec_full: "length src = length dst \<Longrightarrow> add_vec src (length dst) dst = Inr (map2 (+) dst src)"
  by (auto simp: add_vec_def intro: nth_equalityI)

lemma add_vec_tables:
  assumes "distinct (map fst e)" "\<forall>(k, v) \<in> set e. length v = length (fetch [] k t)"
  shows "\<exists>t'. run_all (\<lambda>(name, vec) t. andThen (add_vec vec (length vec) (fetch [] name t)) (\<lambda>w. Inr (AList.update name w t))) e t = Inr t' \<and>
    (\<forall>k i. vec_at t' k i = vec_at t k i + (if k \<in> fst ` set e then vec_at e k i else 0)) \<and> (\<forall>k. length (fetch [] k t') = length (fetch [] k t))"
  using assms
proof (induction e arbitrary: t)
  case (Cons x e)
  obtain j v where x: "x = (j, v)" by (cases x)
  let ?t = "AList.update j (map2 (+) (fetch [] j t) v) t"
  have l: "length v = length (fetch [] j t)" "j \<notin> fst ` set e" using Cons.prems x by auto
  have "add_vec v (length v) (fetch [] j t) = Inr (map2 (+) (fetch [] j t) v)" using add_vec_full l(1) by metis
  moreover have "\<forall>(k, u) \<in> set e. length u = length (fetch [] k ?t)" using Cons.prems l by auto
  then obtain t' where "run_all (\<lambda>(name, vec) t. andThen (add_vec vec (length vec) (fetch [] name t)) (\<lambda>w. Inr (AList.update name w t))) e ?t = Inr t'"
    "\<forall>k i. vec_at t' k i = vec_at ?t k i + (if k \<in> fst ` set e then vec_at e k i else 0)" "\<forall>k. length (fetch [] k t') = length (fetch [] k ?t)"
    using Cons.IH [of ?t] Cons.prems(1) by auto
  ultimately show ?case using l by (auto simp: x vec_at_def)
qed simp

lemma vec_at_not_in: "k \<notin> fst ` set t \<Longrightarrow> vec_at t k i = 0"
  by (simp add: vec_at_def fetch_not_in)

section \<open>Histograms\<close>

text \<open>What the header of a bin says: below the range, a part of the range, or from its end on.\<close>

definition in_bin :: "int \<Rightarrow> int \<Rightarrow> int \<Rightarrow> nat \<Rightarrow> int \<Rightarrow> bool" where
  "in_bin start_val end_val num_bins i v \<longleftrightarrow>
     (let w = (end_val - start_val) div num_bins
      in if i = 0 then v < start_val
         else if int i = num_bins + 1 then v \<ge> end_val
         else start_val + (int i - 1) * w \<le> v \<and> v \<le> start_val + int i * w - 1)"

definition histo_ok :: "int \<Rightarrow> int \<Rightarrow> int \<Rightarrow> bool" where
  "histo_ok lo hi n \<longleftrightarrow> 0 < n \<and> lo < hi \<and> n dvd hi - lo"

lemma sdiv_div: "0 \<le> x \<Longrightarrow> 0 < w \<Longrightarrow> x sdiv w = x div w" for x w :: int
  by (cases "x = 0") (simp_all add: signed_divide_int_def)

lemma le_zdiv: "0 < w \<Longrightarrow> k \<le> x div w \<longleftrightarrow> k * w \<le> x" for k w x :: int
proof
  assume "0 < w" "k \<le> x div w"
  then have "k * w \<le> x div w * w" by simp
  also have "\<dots> \<le> x" using minus_mod_eq_div_mult [of x w] pos_mod_sign [OF \<open>0 < w\<close>, of x] by linarith
  finally show "k * w \<le> x" .
next
  assume "0 < w" "k * w \<le> x"
  then have "k * w div w \<le> x div w" by (intro zdiv_mono1)
  then show "k \<le> x div w" using \<open>0 < w\<close> by simp
qed

text \<open>Every value is put into the one bin whose header it fits.\<close>

lemma bin_idx_label:
  assumes "histo_ok lo hi n"
  shows "\<exists>i. bin_idx (lo, hi) ((hi - lo) div n) (nat (n + 2)) v = Inr (int i) \<and> i < nat (n + 2) \<and>
    (\<forall>j < nat (n + 2). in_bin lo hi n j v \<longleftrightarrow> j = i)"
proof -
  define w q where "w = (hi - lo) div n" and "q = (v - lo) div w"
  have hi: "hi = lo + n * w" "0 < n" using assms by (auto simp: histo_ok_def w_def)
  then have w: "0 < w" using assms by (auto simp: histo_ok_def zero_less_mult_iff)
  have q: "k \<le> q \<longleftrightarrow> lo + k * w \<le> v" for k unfolding q_def using le_zdiv [OF w, of k "v - lo"] by linarith
  have neg: "v < lo \<longleftrightarrow> q < 0" and top: "hi \<le> v \<longleftrightarrow> n \<le> q" using q [of 0] q [of n] hi(1) by auto
  define i where "i = (if q < 0 then 0 else if n \<le> q then n + 1 else q + 1)"
  have "bin_idx (lo, hi) w (nat (n + 2)) v = Inr i"
  proof (cases "v = hi")
    case True
    then show ?thesis using hi w top neg by (simp add: bin_idx_def i_def sdiv_div q_def [symmetric])
  next
    case False
    then show ?thesis using hi w top neg by (auto simp: bin_idx_def i_def sdiv_div q_def [symmetric])
  qed
  moreover have "in_bin lo hi n j v \<longleftrightarrow> int j = i" if "j < nat (n + 2)" for j
  proof -
    have "in_bin lo hi n j v \<longleftrightarrow> (if j = 0 then q < 0 else if int j = n + 1 then n \<le> q else int j - 1 \<le> q \<and> \<not> int j \<le> q)"
      using neg top q [of "int j - 1"] q [of "int j"] by (auto simp: in_bin_def Let_def w_def [symmetric])
    also have "\<dots> \<longleftrightarrow> int j = i" using that hi(2) by (auto simp: i_def)
    finally show ?thesis .
  qed
  moreover have "0 \<le> i" "i < n + 2" using hi(2) by (auto simp: i_def)
  ultimately show ?thesis unfolding w_def [symmetric] by (intro exI [of _ "nat i"]) auto
qed

text \<open>The samples of a table of counts that fall into a bin.\<close>

definition weight :: "(int \<Rightarrow> bool) \<Rightarrow> histo_count \<Rightarrow> u64" where
  "weight P l = sum_list (map (\<lambda>(v, n). if P v then n else 0) l)"

lemma weight_simps [simp]: "weight P [] = 0" "weight P ((v, n) # l) = (if P v then n else 0) + weight P l"
  by (simp_all add: weight_def)

lemma weight_bump: "weight P (AList.update v (fetch 0 v l + n) l) = weight P l + (if P v then n else 0)"
  by (induction l) (auto simp: algebra_simps)

lemma fill_bins_weights:
  assumes "histo_ok lo hi n"
  shows "length bins = nat (n + 2) \<Longrightarrow> \<exists>bins'. run_all (add_bin (lo, hi) ((hi - lo) div n)) l bins = Inr bins' \<and> length bins' = nat (n + 2) \<and>
    (\<forall>i < nat (n + 2). bins' ! i = bins ! i + weight (in_bin lo hi n i) l)"
proof (induction l arbitrary: bins)
  case (Cons x l)
  obtain v m where x: "x = (v, m)" by (cases x)
  obtain i where i: "bin_idx (lo, hi) ((hi - lo) div n) (nat (n + 2)) v = Inr (int i)" "i < nat (n + 2)"
    "\<forall>j < nat (n + 2). in_bin lo hi n j v \<longleftrightarrow> j = i" using bin_idx_label [OF assms] by blast
  let ?b = "bins[i := bins ! i + m]"
  have step: "add_bin (lo, hi) ((hi - lo) div n) x bins = Inr ?b" using i Cons.prems by (simp add: add_bin_def x)
  from Cons.IH [of ?b] Cons.prems obtain bins' where r: "run_all (add_bin (lo, hi) ((hi - lo) div n)) l ?b = Inr bins'"
    "length bins' = nat (n + 2)" "\<forall>j < nat (n + 2). bins' ! j = ?b ! j + weight (in_bin lo hi n j) l" by auto
  have "bins' ! j = bins ! j + weight (in_bin lo hi n j) (x # l)" if "j < nat (n + 2)" for j
    using r(3) i(2,3) that Cons.prems by (simp add: x nth_list_update)
  then show ?case using r(1,2) step by (auto simp: x)
qed simp

section \<open>The state of the statistics\<close>

text \<open>The histograms that are registered, as \<open>InitHistoStat\<close> left them; and what every operation keeps.\<close>

definition registered :: "(string \<times> int \<times> int \<times> int) list \<Rightarrow> simple_stats \<Rightarrow> bool" where
  "registered hs s \<longleftrightarrow> map fst (epoch_histo_bins s) = map fst hs \<and> distinct (map fst hs) \<and>
     (\<forall>(k, lo, hi, n) \<in> set hs. histo_ok lo hi n \<and> fetch (0, 0) k (histo_bounds s) = (lo, hi) \<and> fetch 0 k (bin_widths s) = (hi - lo) div n \<and>
        length (fetch [] k (epoch_histo_bins s)) = nat (n + 2))"

definition stats_ok :: "(string \<times> int \<times> int \<times> int) list \<Rightarrow> simple_stats \<Rightarrow> bool" where
  "stats_ok hs s \<longleftrightarrow> registered hs s \<and>
     distinct (map fst (epoch_counters s)) \<and> distinct (map fst (epoch_vec_counters s)) \<and> distinct (map fst (epoch_histo_counts s)) \<and>
     (\<forall>k. length (fetch [] k (vec_counters s)) = length (fetch [] k (epoch_vec_counters s))) \<and>
     (\<forall>k. length (fetch [] k (histo_bins s)) = length (fetch [] k (epoch_histo_bins s))) \<and>
     (\<forall>k. distinct (map fst (fetch [] k (epoch_histo_counts s))))"

text \<open>The totals, whatever part of them the current epoch still holds.\<close>

definition total_counter :: "simple_stats \<Rightarrow> string \<Rightarrow> u64" where
  "total_counter s k = fetch 0 k (counters s) + fetch 0 k (epoch_counters s)"

definition total_vec :: "simple_stats \<Rightarrow> string \<Rightarrow> nat \<Rightarrow> u64" where
  "total_vec s k i = vec_at (vec_counters s) k i + vec_at (epoch_vec_counters s) k i"

definition total_value :: "simple_stats \<Rightarrow> string \<Rightarrow> int \<Rightarrow> u64" where
  "total_value s k v = fetch 0 v (fetch [] k (histo_counts s)) + fetch 0 v (fetch [] k (epoch_histo_counts s))"

definition total_bin :: "simple_stats \<Rightarrow> string \<times> int \<times> int \<times> int \<Rightarrow> nat \<Rightarrow> u64" where
  "total_bin s = (\<lambda>(k, lo, hi, n) i. vec_at (histo_bins s) k i + weight (in_bin lo hi n i) (fetch [] k (epoch_histo_counts s)))"

lemma UpdateCounters_totals:
  assumes "stats_ok hs s"
  shows "\<exists>s'. UpdateCounters s = Inr s' \<and> (\<forall>k. fetch 0 k (counters s') = total_counter s k) \<and>
    (\<forall>k i. vec_at (vec_counters s') k i = total_vec s k i) \<and>
    (\<forall>k. length (fetch [] k (vec_counters s')) = length (fetch [] k (vec_counters s))) \<and>
    s' = s\<lparr>counters := counters s', vec_counters := vec_counters s'\<rparr>"
proof -
  have "\<forall>(k, v) \<in> set (epoch_vec_counters s). length v = length (fetch [] k (vec_counters s))"
    using assms fetch_in by (fastforce simp: stats_ok_def)
  then obtain t where t: "run_all (\<lambda>(name, vec) t. andThen (add_vec vec (length vec) (fetch [] name t)) (\<lambda>w. Inr (AList.update name w t)))
      (epoch_vec_counters s) (vec_counters s) = Inr t"
    "\<forall>k i. vec_at t k i = vec_at (vec_counters s) k i + (if k \<in> fst ` set (epoch_vec_counters s) then vec_at (epoch_vec_counters s) k i else 0)"
    "\<forall>k. length (fetch [] k t) = length (fetch [] k (vec_counters s))"
    using add_vec_tables assms unfolding stats_ok_def by blast
  have "vec_at t k i = total_vec s k i" for k i
    using t(2) vec_at_not_in by (simp add: total_vec_def)
  then show ?thesis using t(1,3) assms by (simp add: UpdateCounters_def total_counter_def stats_ok_def add_counts_fetch)
qed

lemma fill_all_entries:
  "\<forall>(k, b) \<in> set t. \<exists>b'. fill_bins s k b = Inr b' \<Longrightarrow>
   \<exists>t'. fill_all s t = Inr t' \<and> map fst t' = map fst t \<and> (\<forall>k \<in> fst ` set t. fill_bins s k (fetch [] k t) = Inr (fetch [] k t'))"
proof (induction t)
  case (Cons x t)
  obtain k b where x: "x = (k, b)" by (cases x)
  obtain b' where b: "fill_bins s k b = Inr b'" using Cons.prems x by auto
  obtain t' where t: "fill_all s t = Inr t'" "map fst t' = map fst t" "\<forall>k \<in> fst ` set t. fill_bins s k (fetch [] k t) = Inr (fetch [] k t')"
    using Cons.IH Cons.prems by auto
  then show ?case using b x by auto
qed simp

lemma merge_histo_totals:
  assumes "distinct (map fst e)" "\<forall>(k, c) \<in> set e. distinct (map fst c)"
    "\<forall>k. length (fetch [] k (histo_bins s)) = length (fetch [] k (epoch_histo_bins s))"
  shows "\<exists>s'. run_all merge_histo e s = Inr s' \<and> s' = s\<lparr>histo_counts := histo_counts s', histo_bins := histo_bins s'\<rparr> \<and>
    (\<forall>k. length (fetch [] k (histo_bins s')) = length (fetch [] k (histo_bins s))) \<and>
    (\<forall>k v. fetch 0 v (fetch [] k (histo_counts s')) = fetch 0 v (fetch [] k (histo_counts s)) + fetch 0 v (fetch [] k e)) \<and>
    (\<forall>k i. vec_at (histo_bins s') k i = vec_at (histo_bins s) k i + (if k \<in> fst ` set e then vec_at (epoch_histo_bins s) k i else 0))"
  using assms
proof (induction e arbitrary: s)
  case (Cons x e)
  obtain j c where x: "x = (j, c)" by (cases x)
  let ?b = "map2 (+) (fetch [] j (histo_bins s)) (fetch [] j (epoch_histo_bins s))"
  let ?s = "s\<lparr>histo_counts := AList.update j (add_counts c (fetch [] j (histo_counts s))) (histo_counts s), histo_bins := AList.update j ?b (histo_bins s)\<rparr>"
  have l: "length (fetch [] j (epoch_histo_bins s)) = length (fetch [] j (histo_bins s))" "j \<notin> fst ` set e" "distinct (map fst c)"
    using Cons.prems x by auto
  have step: "merge_histo x s = Inr ?s" using add_vec_full [OF l(1)] by (simp add: merge_histo_def x Let_def)
  have "\<forall>k. length (fetch [] k (histo_bins ?s)) = length (fetch [] k (epoch_histo_bins ?s))" using Cons.prems(3) by simp
  then obtain s' where s': "run_all merge_histo e ?s = Inr s'" "s' = ?s\<lparr>histo_counts := histo_counts s', histo_bins := histo_bins s'\<rparr>"
    "\<forall>k. length (fetch [] k (histo_bins s')) = length (fetch [] k (histo_bins ?s))"
    "\<forall>k v. fetch 0 v (fetch [] k (histo_counts s')) = fetch 0 v (fetch [] k (histo_counts ?s)) + fetch 0 v (fetch [] k e)"
    "\<forall>k i. vec_at (histo_bins s') k i = vec_at (histo_bins ?s) k i + (if k \<in> fst ` set e then vec_at (epoch_histo_bins ?s) k i else 0)"
    using Cons.IH [of ?s] Cons.prems(1,2) by auto
  have "s' = s\<lparr>histo_counts := histo_counts s', histo_bins := histo_bins s'\<rparr>" by (subst s'(2)) simp
  moreover have "\<forall>k. length (fetch [] k (histo_bins s')) = length (fetch [] k (histo_bins s))" using s'(3) l(1) by simp
  moreover have "\<forall>k v. fetch 0 v (fetch [] k (histo_counts s')) = fetch 0 v (fetch [] k (histo_counts s)) + fetch 0 v (fetch [] k (x # e))"
    using s'(4) l(2,3) by (auto simp: x add_counts_fetch fetch_not_in)
  moreover have "\<forall>k i. vec_at (histo_bins s') k i = vec_at (histo_bins s) k i + (if k \<in> fst ` set (x # e) then vec_at (epoch_histo_bins s) k i else 0)"
    using s'(5) l(1,2) by (auto simp: x vec_at_def)
  ultimately show ?case using s'(1) step by auto
qed simp

lemma same_keys: "map fst a = map fst b \<Longrightarrow> fst ` set a = fst ` set b"
  by (metis image_set)

lemma registered_length: "registered hs s \<Longrightarrow> (k, lo, hi, n) \<in> set hs \<Longrightarrow> length (fetch [] k (epoch_histo_bins s)) = nat (n + 2)"
  by (auto simp: registered_def)

lemma fill_all_weights:
  assumes "registered hs s"
  shows "\<exists>eb. fill_all s (epoch_histo_bins s) = Inr eb \<and> map fst eb = map fst hs \<and>
    (\<forall>(k, lo, hi, n) \<in> set hs. length (fetch [] k eb) = nat (n + 2) \<and>
      (\<forall>i < nat (n + 2). vec_at eb k i = weight (in_bin lo hi n i) (fetch [] k (epoch_histo_counts s))))"
proof -
  let ?t = "epoch_histo_bins s"
  have keys: "map fst ?t = map fst hs" "distinct (map fst ?t)" using assms by (simp_all add: registered_def)
  have fill: "\<exists>b'. fill_bins s k (fetch [] k ?t) = Inr b' \<and> length b' = nat (n + 2) \<and>
      (\<forall>i < nat (n + 2). b' ! i = weight (in_bin lo hi n i) (fetch [] k (epoch_histo_counts s)))" if "(k, lo, hi, n) \<in> set hs" for k lo hi n
  proof -
    have h: "histo_ok lo hi n" "fetch (0, 0) k (histo_bounds s) = (lo, hi)" "fetch 0 k (bin_widths s) = (hi - lo) div n"
      "length (fetch [] k ?t) = nat (n + 2)" using assms that by (auto simp: registered_def)
    from fill_bins_weights [OF h(1), of "replicate (nat (n + 2)) 0"] show ?thesis by (auto simp: fill_bins_def h(2-4))
  qed
  have "\<exists>b'. fill_bins s k b = Inr b'" if "(k, b) \<in> set ?t" for k b
  proof -
    have "k \<in> fst ` set hs" using that same_keys [OF keys(1)] by force
    then obtain lo hi n where "(k, lo, hi, n) \<in> set hs" by auto
    moreover have "fetch [] k ?t = b" using fetch_in [OF keys(2) that] .
    ultimately show ?thesis using fill by blast
  qed
  then obtain eb where eb: "fill_all s ?t = Inr eb" "map fst eb = map fst ?t" "\<forall>k \<in> fst ` set ?t. fill_bins s k (fetch [] k ?t) = Inr (fetch [] k eb)"
    using fill_all_entries by blast
  have "length (fetch [] k eb) = nat (n + 2) \<and> (\<forall>i < nat (n + 2). vec_at eb k i = weight (in_bin lo hi n i) (fetch [] k (epoch_histo_counts s)))"
    if "(k, lo, hi, n) \<in> set hs" for k lo hi n
  proof -
    have "k \<in> fst ` set ?t" using that same_keys [OF keys(1)] by force
    then show ?thesis using fill [OF that] eb(3) by (auto simp: vec_at_def)
  qed
  then show ?thesis using eb(1,2) keys(1) by auto
qed

lemma UpdateHistoBins_totals:
  assumes "stats_ok hs s"
  shows "\<exists>s'. UpdateHistoBins s = Inr s' \<and> registered hs s' \<and>
    s' = s\<lparr>histo_counts := histo_counts s', histo_bins := histo_bins s', epoch_histo_bins := epoch_histo_bins s'\<rparr> \<and>
    (\<forall>k. length (fetch [] k (histo_bins s')) = length (fetch [] k (epoch_histo_bins s'))) \<and>
    (\<forall>k v. fetch 0 v (fetch [] k (histo_counts s')) = total_value s k v) \<and>
    (\<forall>(k, lo, hi, n) \<in> set hs. \<forall>i < nat (n + 2). vec_at (histo_bins s') k i = total_bin s (k, lo, hi, n) i)"
proof -
  have reg: "registered hs s" using assms by (simp add: stats_ok_def)
  obtain eb where eb: "fill_all s (epoch_histo_bins s) = Inr eb" "map fst eb = map fst hs"
    "\<forall>(k, lo, hi, n) \<in> set hs. length (fetch [] k eb) = nat (n + 2) \<and>
      (\<forall>i < nat (n + 2). vec_at eb k i = weight (in_bin lo hi n i) (fetch [] k (epoch_histo_counts s)))"
    using fill_all_weights [OF reg] by blast
  let ?s = "s\<lparr>epoch_histo_bins := eb\<rparr>" and ?e = "epoch_histo_counts s"
  have reg1: "registered hs ?s" using reg eb(2,3) by (auto simp: registered_def)
  have len: "length (fetch [] k eb) = length (fetch [] k (epoch_histo_bins s))" for k
  proof (cases "k \<in> fst ` set hs")
    case True
    then obtain lo hi n where "(k, lo, hi, n) \<in> set hs" by auto
    then show ?thesis using registered_length [OF reg1] registered_length [OF reg] by simp
  next
    case False
    then have "k \<notin> fst ` set eb" "k \<notin> fst ` set (epoch_histo_bins s)" 
      using same_keys [OF eb(2)] same_keys [of "epoch_histo_bins s" hs] reg by (simp_all add: registered_def)
    then show ?thesis by (simp add: fetch_not_in)
  qed
  have d: "distinct (map fst ?e)" "\<And>k. distinct (map fst (fetch [] k ?e))" using assms by (simp_all add: stats_ok_def)
  moreover have "\<forall>(k, c) \<in> set ?e. distinct (map fst c)"
  proof clarify
    fix k c
    assume "(k, c) \<in> set ?e"
    from fetch_in [OF d(1) this, of "[]"] show "distinct (map fst c)" using d(2) [of k] by simp
  qed
  moreover have "\<forall>k. length (fetch [] k (histo_bins ?s)) = length (fetch [] k (epoch_histo_bins ?s))" using assms len by (simp add: stats_ok_def)
  ultimately obtain s' where s': "run_all merge_histo ?e ?s = Inr s'" "s' = ?s\<lparr>histo_counts := histo_counts s', histo_bins := histo_bins s'\<rparr>"
    "\<forall>k. length (fetch [] k (histo_bins s')) = length (fetch [] k (histo_bins ?s))"
    "\<forall>k v. fetch 0 v (fetch [] k (histo_counts s')) = fetch 0 v (fetch [] k (histo_counts ?s)) + fetch 0 v (fetch [] k ?e)"
    "\<forall>k i. vec_at (histo_bins s') k i = vec_at (histo_bins ?s) k i + (if k \<in> fst ` set ?e then vec_at (epoch_histo_bins ?s) k i else 0)"
    using merge_histo_totals [of ?e ?s] by auto
  have sel: "epoch_histo_bins s' = eb" by (subst s'(2)) simp
  have "vec_at (histo_bins s') k i = total_bin s (k, lo, hi, n) i" if "(k, lo, hi, n) \<in> set hs" "i < nat (n + 2)" for k lo hi n i
  proof (cases "k \<in> fst ` set ?e")
    case True
    then show ?thesis using s'(5) eb(3) that by (auto simp: total_bin_def)
  next
    case False
    then show ?thesis using s'(5) by (simp add: total_bin_def fetch_not_in)
  qed
  moreover have "registered hs s'" using reg1 by (subst s'(2)) (simp add: registered_def)
  moreover have "s' = s\<lparr>histo_counts := histo_counts s', histo_bins := histo_bins s', epoch_histo_bins := epoch_histo_bins s'\<rparr>"
    unfolding sel by (subst s'(2)) simp
  moreover have "\<forall>k. length (fetch [] k (histo_bins s')) = length (fetch [] k (epoch_histo_bins s'))"
    using s'(3) assms len by (simp add: sel stats_ok_def)
  ultimately show ?thesis using s'(1,4) eb(1) by (auto simp: UpdateHistoBins_def total_value_def)
qed

lemma UpdateEpochStats_totals:
  assumes "stats_ok hs s"
  shows "\<exists>s'. UpdateEpochStats s = Inr s' \<and> stats_ok hs s' \<and> (\<forall>k. total_counter s' k = total_counter s k) \<and>
    (\<forall>k i. total_vec s' k i = total_vec s k i) \<and> (\<forall>k v. total_value s' k v = total_value s k v) \<and>
    (\<forall>(k, lo, hi, n) \<in> set hs. \<forall>i < nat (n + 2). total_bin s' (k, lo, hi, n) i = total_bin s (k, lo, hi, n) i) \<and>
    (\<forall>k. length (fetch [] k (epoch_vec_counters s')) = length (fetch [] k (epoch_vec_counters s)))"
proof -
  obtain s1 where s1: "UpdateCounters s = Inr s1" "\<forall>k. fetch 0 k (counters s1) = total_counter s k"
    "\<forall>k i. vec_at (vec_counters s1) k i = total_vec s k i" "\<forall>k. length (fetch [] k (vec_counters s1)) = length (fetch [] k (vec_counters s))"
    and f1: "s1 = s\<lparr>counters := counters s1, vec_counters := vec_counters s1\<rparr>"
    using UpdateCounters_totals [OF assms] by blast
  have sel1: "epoch_counters s1 = epoch_counters s" "epoch_vec_counters s1 = epoch_vec_counters s" "epoch_histo_counts s1 = epoch_histo_counts s"
    "histo_bins s1 = histo_bins s" "histo_counts s1 = histo_counts s" "epoch_histo_bins s1 = epoch_histo_bins s"
    "histo_bounds s1 = histo_bounds s" "bin_widths s1 = bin_widths s"
    by (subst f1, simp)+
  have ok1: "stats_ok hs s1" using assms s1(4) by (simp add: stats_ok_def registered_def sel1)
  obtain s2 where s2: "UpdateHistoBins s1 = Inr s2" "registered hs s2"
    "\<forall>k. length (fetch [] k (histo_bins s2)) = length (fetch [] k (epoch_histo_bins s2))"
    "\<forall>k v. fetch 0 v (fetch [] k (histo_counts s2)) = total_value s1 k v"
    "\<forall>(k, lo, hi, n) \<in> set hs. \<forall>i < nat (n + 2). vec_at (histo_bins s2) k i = total_bin s1 (k, lo, hi, n) i"
    and f2: "s2 = s1\<lparr>histo_counts := histo_counts s2, histo_bins := histo_bins s2, epoch_histo_bins := epoch_histo_bins s2\<rparr>"
    using UpdateHistoBins_totals [OF ok1] by blast
  have sel2: "epoch_counters s2 = epoch_counters s" "epoch_vec_counters s2 = epoch_vec_counters s" "epoch_histo_counts s2 = epoch_histo_counts s"
    "counters s2 = counters s1" "vec_counters s2 = vec_counters s1"
    by (subst f2, simp add: sel1)+
  let ?s = "s2\<lparr>epoch_counters := map (\<lambda>(k, _). (k, 0)) (epoch_counters s2),
     epoch_vec_counters := map (\<lambda>(k, v). (k, replicate (length v) 0)) (epoch_vec_counters s2),
     epoch_histo_counts := map (\<lambda>(k, _). (k, [])) (epoch_histo_counts s2)\<rparr>"
  have f: "fetch 0 k (map (\<lambda>(k, _). (k, 0 :: u64)) t) = 0" for k and t :: "u64 table" using fetch_map [of "\<lambda>_. 0" 0 k t] by simp
  have fv: "fetch [] k (map (\<lambda>(k, v). (k, replicate (length v) (0 :: u64))) t) = replicate (length (fetch [] k t)) 0" for k and t :: "u64 list table"
    using fetch_map [of "\<lambda>v. replicate (length v) 0" "[]" k t] by simp
  have fh: "fetch [] k (map (\<lambda>(k, _). (k, [] :: histo_count)) t) = []" for k and t :: "histo_count table" using fetch_map [of "\<lambda>_. []" "[]" k t] by simp
  have z: "vec_at (epoch_vec_counters ?s) k i = 0" for k i by (simp add: vec_at_def fv)
  have "UpdateEpochStats s = Inr ?s" by (simp add: UpdateEpochStats_def s1(1) s2(1))
  moreover have "stats_ok hs ?s"
    using assms s1(4) s2(2,3) by (simp add: stats_ok_def registered_def sel2 fv fh comp_def split_beta)
  moreover have "\<forall>k. total_counter ?s k = total_counter s k" unfolding total_counter_def [of ?s] using s1(2) by (simp add: f sel2)
  moreover have "\<forall>k i. total_vec ?s k i = total_vec s k i" unfolding total_vec_def [of ?s] z using s1(3) by (simp add: sel2)
  moreover have "\<forall>k v. total_value ?s k v = total_value s k v" using s2(4) by (simp add: total_value_def fh sel1)
  moreover have "\<forall>(k, lo, hi, n) \<in> set hs. \<forall>i < nat (n + 2). total_bin ?s (k, lo, hi, n) i = total_bin s (k, lo, hi, n) i"
    using s2(5) by (simp add: total_bin_def fh sel1)
  moreover have "\<forall>k. length (fetch [] k (epoch_vec_counters ?s)) = length (fetch [] k (epoch_vec_counters s))" by (simp add: fv sel2)
  ultimately show ?thesis by blast
qed

section \<open>Runs\<close>

datatype stat_event = Count string | CountVec string int int | Sample string int | EndEpoch

fun stat_step :: "stat_event \<Rightarrow> simple_stats \<Rightarrow> stat_error + simple_stats" where
  "stat_step (Count k) s = Inr (Increment k s)"
| "stat_step (CountVec k p n) s = IncrementVecBy k p n s"
| "stat_step (Sample k v) s = Inr (AddValue k v s)"
| "stat_step EndEpoch s = UpdateEpochStats s"

text \<open>What a sequence of events amounts to, without epochs.\<close>

definition counted :: "stat_event list \<Rightarrow> string \<Rightarrow> nat" where
  "counted evs k = length (filter ((=) (Count k)) evs)"

definition counted_vec :: "stat_event list \<Rightarrow> string \<Rightarrow> nat \<Rightarrow> int" where
  "counted_vec evs k i = sum_list (map (\<lambda>e. case e of CountVec j p n \<Rightarrow> if j = k \<and> p = int i then n else 0 | _ \<Rightarrow> 0) evs)"

definition sampled :: "(int \<Rightarrow> bool) \<Rightarrow> stat_event list \<Rightarrow> string \<Rightarrow> nat" where
  "sampled P evs k = length (filter (\<lambda>e. case e of Sample j v \<Rightarrow> j = k \<and> P v | _ \<Rightarrow> False) evs)"

definition tallied :: "nat \<Rightarrow> (string \<times> int \<times> int \<times> int) list \<Rightarrow> stat_event list \<Rightarrow> simple_stats \<Rightarrow> bool" where
  "tallied ranks hs evs s \<longleftrightarrow> stats_ok hs s \<and> (\<forall>k \<in> set vec_names. length (fetch [] k (epoch_vec_counters s)) = ranks) \<and>
     (\<forall>k. total_counter s k = of_nat (counted evs k)) \<and> (\<forall>k i. total_vec s k i = of_int (counted_vec evs k i)) \<and>
     (\<forall>k v. total_value s k v = of_nat (sampled ((=) v) evs k)) \<and>
     (\<forall>(k, lo, hi, n) \<in> set hs. \<forall>i < nat (n + 2). total_bin s (k, lo, hi, n) i = of_nat (sampled (in_bin lo hi n i) evs k))"

definition in_ranks :: "nat \<Rightarrow> stat_event \<Rightarrow> bool" where
  "in_ranks ranks e = (case e of CountVec k p n \<Rightarrow> k \<in> set vec_names \<and> 0 \<le> p \<and> p < int ranks | _ \<Rightarrow> True)"

lemma Increment_tallied: "tallied ranks hs evs s \<Longrightarrow> tallied ranks hs (evs @ [Count k]) (Increment k s)"
  by (auto simp: tallied_def stats_ok_def registered_def Increment_def total_counter_def total_vec_def total_value_def total_bin_def
      counted_def counted_vec_def sampled_def distinct_update algebra_simps)

lemma AddValue_eq: "AddValue k v s = s\<lparr>epoch_histo_counts := AList.update k
    (AList.update v (fetch 0 v (fetch [] k (epoch_histo_counts s)) + 1) (fetch [] k (epoch_histo_counts s))) (epoch_histo_counts s)\<rparr>"
  by (simp add: AddValue_def Let_def fetch_def [of 0 v] split: option.split)

lemma AddValue_tallied:
  assumes "tallied ranks hs evs s"
  shows "tallied ranks hs (evs @ [Sample k v]) (AddValue k v s)"
proof -
  let ?s = "AddValue k v s" and ?evs = "evs @ [Sample k v]"
  have bin: "total_bin ?s (j, lo, hi, n) i = total_bin s (j, lo, hi, n) i + (if j = k \<and> in_bin lo hi n i v then 1 else 0)" for j lo hi n i
    by (simp add: AddValue_eq total_bin_def weight_bump add.assoc)
  have val: "total_value ?s j u = total_value s j u + (if j = k \<and> u = v then 1 else 0)" for j u
    by (simp add: AddValue_eq total_value_def add.assoc)
  have smp: "of_nat (sampled P ?evs j) = of_nat (sampled P evs j) + (if j = k \<and> P v then 1 else (0 :: u64))" for P j
    by (simp add: sampled_def)
  have "\<forall>(j, lo, hi, n) \<in> set hs. \<forall>i < nat (n + 2). total_bin ?s (j, lo, hi, n) i = of_nat (sampled (in_bin lo hi n i) ?evs j)"
    using assms unfolding bin smp by (auto simp: tallied_def)
  moreover have "\<forall>j u. total_value ?s j u = of_nat (sampled ((=) u) ?evs j)" using assms unfolding val smp by (simp add: tallied_def)
  moreover have "stats_ok hs ?s" using assms by (auto simp: tallied_def stats_ok_def registered_def AddValue_eq distinct_update)
  ultimately show ?thesis using assms
    by (auto simp: tallied_def AddValue_eq total_counter_def total_vec_def counted_def counted_vec_def)
qed

lemma IncrementVecBy_tallied:
  assumes "tallied ranks hs evs s" "in_ranks ranks (CountVec k p n)"
  shows "\<exists>s'. IncrementVecBy k p n s = Inr s' \<and> tallied ranks hs (evs @ [CountVec k p n]) s'"
proof -
  let ?v = "fetch [] k (epoch_vec_counters s)"
  have p: "0 \<le> p" "nat p < length ?v" "length (fetch [] k (vec_counters s)) = length ?v" using assms by (auto simp: tallied_def in_ranks_def stats_ok_def)
  let ?s = "s\<lparr>epoch_vec_counters := AList.update k (?v[nat p := ?v ! nat p + of_int n]) (epoch_vec_counters s)\<rparr>"
  have "IncrementVecBy k p n s = Inr ?s" using p by (simp add: IncrementVecBy_def Let_def)
  moreover have "total_vec ?s j i = total_vec s j i + (if j = k \<and> p = int i then of_int n else 0)" for j i
    using p by (auto simp: total_vec_def vec_at_def nth_list_update)
  then have "total_vec ?s j i = of_int (counted_vec (evs @ [CountVec k p n]) j i)" for j i
    using assms(1) by (auto simp: tallied_def counted_vec_def)
  then have "tallied ranks hs (evs @ [CountVec k p n]) ?s"
    using assms(1) unfolding tallied_def
    by (auto simp: stats_ok_def registered_def total_counter_def total_value_def total_bin_def counted_def sampled_def distinct_update)
  ultimately show ?thesis by blast
qed

lemma EndEpoch_tallied:
  assumes "tallied ranks hs evs s"
  shows "\<exists>s'. UpdateEpochStats s = Inr s' \<and> tallied ranks hs (evs @ [EndEpoch]) s'"
proof -
  obtain s' where "UpdateEpochStats s = Inr s'" "stats_ok hs s'" "\<forall>k. total_counter s' k = total_counter s k"
    "\<forall>k i. total_vec s' k i = total_vec s k i" "\<forall>k v. total_value s' k v = total_value s k v"
    "\<forall>(k, lo, hi, n) \<in> set hs. \<forall>i < nat (n + 2). total_bin s' (k, lo, hi, n) i = total_bin s (k, lo, hi, n) i"
    "\<forall>k. length (fetch [] k (epoch_vec_counters s')) = length (fetch [] k (epoch_vec_counters s))"
    using UpdateEpochStats_totals [of hs s] assms unfolding tallied_def by blast
  then show ?thesis using assms by (fastforce simp: tallied_def counted_def counted_vec_def sampled_def)
qed

lemma stat_run_tallied:
  "tallied ranks hs evs s \<Longrightarrow> list_all (in_ranks ranks) es \<Longrightarrow> \<exists>s'. run_all stat_step es s = Inr s' \<and> tallied ranks hs (evs @ es) s'"
proof (induction es arbitrary: evs s)
  case (Cons e es)
  have "\<exists>s1. stat_step e s = Inr s1 \<and> tallied ranks hs (evs @ [e]) s1"
    using Increment_tallied AddValue_tallied IncrementVecBy_tallied EndEpoch_tallied Cons.prems by (cases e) auto
  then obtain s1 where s1: "stat_step e s = Inr s1" "tallied ranks hs (evs @ [e]) s1" by blast
  then show ?case using Cons.IH [OF s1(2)] Cons.prems(2) by simp
qed simp

lemma new_stats_tallied: "\<exists>s. new_stats ranks = Inr s \<and> tallied ranks histo_specs [] s"
  by (simp add: new_stats_def histo_specs_def counter_names_def vec_names_def no_stats_def InitStat_def InitVecStat_def InitHistoStat_def
      emplace_new_def Let_def tallied_def stats_ok_def registered_def histo_ok_def total_counter_def total_vec_def total_value_def total_bin_def
      vec_at_def counted_def counted_vec_def sampled_def)

section \<open>Properties\<close>

text \<open>
  C40. The final statistics of a channel do not depend on where its epochs end: after any sequence of
  increments, samples and epoch ends, with the vectors indexed by ranks, the update at the end returns and
  each counter holds the number of its increments, each vector entry their sum, each histogram the number
  of samples of every value, and each of its bins the number of samples its header describes (all modulo
  \<open>2 ^ 64\<close>). No bin is missed or written out of bounds.
\<close>

theorem stats_totals:
  assumes "new_stats ranks = Inr s" "list_all (in_ranks ranks) evs"
  shows "\<exists>s' f. run_all stat_step evs s = Inr s' \<and> UpdateFinalStats s' = Inr f \<and>
    (\<forall>k. fetch 0 k (counters f) = of_nat (counted evs k)) \<and>
    (\<forall>k i. vec_at (vec_counters f) k i = of_int (counted_vec evs k i)) \<and>
    (\<forall>k v. fetch 0 v (fetch [] k (histo_counts f)) = of_nat (sampled ((=) v) evs k)) \<and>
    (\<forall>(k, lo, hi, n) \<in> set histo_specs. \<forall>i < nat (n + 2). vec_at (histo_bins f) k i = of_nat (sampled (in_bin lo hi n i) evs k))"
proof -
  have "tallied ranks histo_specs [] s" using new_stats_tallied [of ranks] assms(1) by auto
  from stat_run_tallied [OF this assms(2)] obtain s' where run: "run_all stat_step evs s = Inr s'" and t: "tallied ranks histo_specs evs s'" by auto
  have ok: "stats_ok histo_specs s'" using t by (simp add: tallied_def)
  obtain s1 where s1: "UpdateCounters s' = Inr s1" "\<forall>k. fetch 0 k (counters s1) = total_counter s' k"
    "\<forall>k i. vec_at (vec_counters s1) k i = total_vec s' k i" "\<forall>k. length (fetch [] k (vec_counters s1)) = length (fetch [] k (vec_counters s'))"
    and f1: "s1 = s'\<lparr>counters := counters s1, vec_counters := vec_counters s1\<rparr>"
    using UpdateCounters_totals [OF ok] by blast
  have ok1: "stats_ok histo_specs s1" using ok s1(4) by (subst f1) (simp add: stats_ok_def registered_def)
  have same: "total_value s1 = total_value s'" "total_bin s1 = total_bin s'"
    by (subst f1, simp add: total_value_def total_bin_def fun_eq_iff)+
  obtain f where f: "UpdateHistoBins s1 = Inr f" "\<forall>k v. fetch 0 v (fetch [] k (histo_counts f)) = total_value s1 k v"
    "\<forall>(k, lo, hi, n) \<in> set histo_specs. \<forall>i < nat (n + 2). vec_at (histo_bins f) k i = total_bin s1 (k, lo, hi, n) i"
    and f2: "f = s1\<lparr>histo_counts := histo_counts f, histo_bins := histo_bins f, epoch_histo_bins := epoch_histo_bins f\<rparr>"
    using UpdateHistoBins_totals [OF ok1] by blast
  have sel: "counters f = counters s1" "vec_counters f = vec_counters s1" by (subst f2, simp)+
  have "UpdateFinalStats s' = Inr f" by (simp add: UpdateFinalStats_def s1(1) f(1))
  moreover have "\<forall>(k, lo, hi, n) \<in> set histo_specs. \<forall>i < nat (n + 2). vec_at (histo_bins f) k i = of_nat (sampled (in_bin lo hi n i) evs k)"
    using f(3) t unfolding same tallied_def by fastforce
  ultimately show ?thesis using run s1(2,3) f(2) t unfolding same by (auto simp: tallied_def sel)
qed

definition small_events :: "stat_event list" where
  "small_events = [Sample ''read_latency'' 25, Count ''num_cycles'', EndEpoch, Sample ''read_latency'' 39, CountVec ''sref_cycles'' 1 1, Count ''num_cycles'']"

theorem stats_totals_witness:
  "\<exists>s s' f. new_stats 2 = Inr s \<and> run_all stat_step small_events s = Inr s' \<and> UpdateFinalStats s' = Inr f \<and>
     fetch 0 ''num_cycles'' (counters f) = 2 \<and> vec_at (histo_bins f) ''read_latency'' 2 = 2"
proof -
  obtain s where s: "new_stats 2 = Inr s" using new_stats_tallied by blast
  have "list_all (in_ranks 2) small_events" by (simp add: small_events_def in_ranks_def vec_names_def)
  from stats_totals [OF s this] obtain s' f where f: "run_all stat_step small_events s = Inr s'" "UpdateFinalStats s' = Inr f"
    "fetch 0 ''num_cycles'' (counters f) = of_nat (counted small_events ''num_cycles'')"
    "\<forall>(k, lo, hi, n) \<in> set histo_specs. \<forall>i < nat (n + 2). vec_at (histo_bins f) k i = of_nat (sampled (in_bin lo hi n i) small_events k)" by blast
  have "counted small_events ''num_cycles'' = 2" "sampled (in_bin 0 200 10 2) small_events ''read_latency'' = 2" by code_simp+
  moreover have "vec_at (histo_bins f) ''read_latency'' 2 = of_nat (sampled (in_bin 0 200 10 2) small_events ''read_latency'')"
    using f(4) by (simp add: histo_specs_def)
  ultimately show ?thesis using s f(1-3) by auto
qed

text \<open>
  A reset clears the counts of the histograms but not their bins: a sample taken before it is still in a
  bin afterwards, although no value is counted any more.
\<close>

lemma reset_keeps_bins:
  "case andThen (new_stats 1) (\<lambda>s. andThen (run_all stat_step [Sample ''read_latency'' 25, EndEpoch] s) (\<lambda>s. UpdateFinalStats (Reset s))) of
     Inl _ \<Rightarrow> False
   | Inr f \<Rightarrow> fetch [] ''read_latency'' (histo_counts f) = [] \<and> vec_at (histo_bins f) ''read_latency'' 2 = 1"
  by code_simp

text \<open>The final update leaves the epoch's values in place: printing the statistics twice counts them twice.\<close>

lemma final_twice_doubles:
  "case andThen (new_stats 1) (\<lambda>s. andThen (run_all stat_step [Count ''num_cycles''] s) (\<lambda>s. andThen (UpdateFinalStats s) UpdateFinalStats)) of
     Inl _ \<Rightarrow> False
   | Inr f \<Rightarrow> fetch 0 ''num_cycles'' (counters f) = 2"
  by code_simp

end
